(* ===== verification/Xv6_Prelude.thy ===== *)
theory Xv6_Prelude
  imports Main "HOL-Library.Word" "HOL-Library.While_Combinator"
begin

unbundle bit_operations_syntax

text \<open>
  Shared vocabulary of the development: the machine integers of \<^verbatim>\<open>kernel/types.h\<close>, the
  constants of \<^verbatim>\<open>kernel/param.h\<close>, \<^verbatim>\<open>riscv.h\<close>, \<^verbatim>\<open>memlayout.h\<close> and \<^verbatim>\<open>fs.h\<close>, the outcome
  of a piece of kernel code and the combinators kernel functions are written with, the
  little-endian layout of integers in memory, and the generic lemmas on them.

  \<^descr> \<open>outcome\<close>. A kernel function takes the state of the machine and returns
    normally (\<open>Ok\<close>), calls \<^verbatim>\<open>panic\<close> (\<open>Panic\<close>), gives up the CPU in \<^verbatim>\<open>sched\<close> (\<open>Sleeps\<close>,
    with the wait channel, if any, and the state it leaves behind), or spins on a lock that
    another hart holds (\<open>Spins\<close>).
  \<^descr> \<open>kern_simps\<close> collects the rewrite rules that execute code symbolically;
    \<open>keepsI\<close> the rules that carry an invariant through a function body;
    \<open>oblivI\<close> the rules that show a critical section does not look at the lock state.
\<close>

named_theorems kern_simps "symbolic execution of kernel code"
named_theorems keepsI "preservation of an invariant by kernel code"
named_theorems oblivI "code that neither reads nor writes the lock state"

section \<open>Machine integers and constants\<close>

type_synonym u8 = "8 word"
type_synonym u16 = "16 word"
type_synonym u32 = "32 word"
type_synonym u64 = "64 word"
type_synonym mem = "u64 \<Rightarrow> u8"

text \<open>The constants of \<^verbatim>\<open>kernel/param.h\<close>, usable at every numeric type.\<close>

abbreviation (input) NPROC :: "'a::numeral" where "NPROC \<equiv> 64"
abbreviation (input) NCPU :: "'a::numeral" where "NCPU \<equiv> 8"
abbreviation (input) NOFILE :: "'a::numeral" where "NOFILE \<equiv> 16"
abbreviation (input) NFILE :: "'a::numeral" where "NFILE \<equiv> 100"
abbreviation (input) NINODE :: "'a::numeral" where "NINODE \<equiv> 50"
abbreviation (input) NDEV :: "'a::numeral" where "NDEV \<equiv> 10"
abbreviation (input) ROOTDEV :: "'a::one" where "ROOTDEV \<equiv> 1"
abbreviation (input) MAXARG :: "'a::numeral" where "MAXARG \<equiv> 32"
abbreviation (input) MAXOPBLOCKS :: "'a::numeral" where "MAXOPBLOCKS \<equiv> 10"
abbreviation (input) LOGSIZE :: "'a::numeral" where "LOGSIZE \<equiv> 30"
abbreviation (input) NBUF :: "'a::numeral" where "NBUF \<equiv> 30"
abbreviation (input) FSSIZE :: "'a::numeral" where "FSSIZE \<equiv> 2000"
abbreviation (input) MAXPATH :: "'a::numeral" where "MAXPATH \<equiv> 128"

text \<open>Pages and the physical memory layout (\<^verbatim>\<open>kernel/riscv.h\<close>, \<^verbatim>\<open>kernel/memlayout.h\<close>).\<close>

abbreviation (input) PGSIZE :: "'a::numeral" where "PGSIZE \<equiv> 4096"
abbreviation (input) KERNBASE :: "'a::numeral" where "KERNBASE \<equiv> 0x80000000"
abbreviation (input) PHYSTOP :: "'a::numeral" where "PHYSTOP \<equiv> 0x88000000"
abbreviation (input) MAXVA :: "'a::numeral" where "MAXVA \<equiv> 0x4000000000"
abbreviation (input) TRAMPOLINE :: "'a::numeral" where "TRAMPOLINE \<equiv> 0x3FFFFFF000"
abbreviation (input) TRAPFRAME :: "'a::numeral" where "TRAPFRAME \<equiv> 0x3FFFFFE000"

definition PGROUNDUP :: "u64 \<Rightarrow> u64" where
  "PGROUNDUP sz = (sz + PGSIZE - 1) AND NOT (PGSIZE - 1)"

definition PGROUNDDOWN :: "u64 \<Rightarrow> u64" where
  "PGROUNDDOWN a = a AND NOT (PGSIZE - 1)"

definition KSTACK :: "u64 \<Rightarrow> u64" where
  "KSTACK p = TRAMPOLINE - (p + 1) * 2 * PGSIZE"

lemma unat_u8_less [simp]: "unat (w :: u8) < 256"
  by (rule order.strict_trans2 [OF unsigned_less]) simp

lemma unat_u32_less [simp]: "unat (w :: u32) < 4294967296"
  by (rule order.strict_trans2 [OF unsigned_less]) simp

lemma unat_u64_less [simp]: "unat (w :: u64) < 18446744073709551616"
  by (rule order.strict_trans2 [OF unsigned_less]) simp

lemma unat_u32_less64 [simp]:
  "unat (w :: u32) < 18446744073709551616" "unat (w :: u32) \<le> 18446744073709551616"
  by (rule less_trans [OF unat_u32_less], simp)
    (rule less_imp_le, rule less_trans [OF unat_u32_less], simp)

lemma unat_ucast_u32_u64 [simp]: "unat (ucast (w :: u32) :: u64) = unat w"
  by (simp add: unsigned_ucast_eq take_bit_nat_eq_self)

lemma unat_minus_1_u64 [simp]: "unat (- 1 :: u64) = 18446744073709551615"
  by (simp add: unsigned_minus_1_eq_mask mask_eq_exp_minus_1)

lemma take_bit_self:
  assumes "unat (w :: 'a::len word) < 2 ^ n"
  shows "take_bit n w = w" "bit w i \<Longrightarrow> i < n"
proof -
  show "take_bit n w = w"
    using assms by (simp add: word_unat_eq_iff unsigned_take_bit_eq take_bit_nat_eq_self)
  then show "bit w i \<Longrightarrow> i < n" by (metis bit_take_bit_iff)
qed

lemma round_down_mask: "(a :: u64) AND NOT (PGSIZE - 1) = a - take_bit 12 a"
proof -
  have "(PGSIZE - 1 :: u64) = mask 12" by (simp add: mask_eq_exp_minus_1)
  then have "(a :: u64) AND NOT (PGSIZE - 1) = a AND NOT (mask 12)" by (simp only:)
  also have "\<dots> = push_bit 12 (drop_bit 12 a)"
    by (rule bit_word_eqI) (auto simp: bit_simps)
  also have "\<dots> = a - take_bit 12 a"
    using bits_ident [of 12 a] by (simp add: algebra_simps eq_diff_eq)
  finally show ?thesis .
qed

lemma unat_take_bit_12: "unat (take_bit 12 (a :: u64)) = unat a mod 4096"
  by (simp add: take_bit_eq_mod unat_mod)

lemma unat_PGROUNDDOWN: "unat (PGROUNDDOWN a) = unat a - unat a mod 4096"
proof -
  have "take_bit 12 a \<le> a"
    by (simp add: word_le_nat_alt unat_take_bit_12)
  then show ?thesis
    unfolding PGROUNDDOWN_def round_down_mask by (simp add: unat_sub unat_take_bit_12)
qed

lemma PGROUNDUP_down: "PGROUNDUP a = PGROUNDDOWN (a + PGSIZE - 1)"
  by (simp only: PGROUNDUP_def PGROUNDDOWN_def)

lemma unat_PGROUNDUP:
  assumes "unat a < 2 ^ 64 - 4096"
  shows "unat (PGROUNDUP a) = (unat a + 4095) div 4096 * 4096"
proof -
  have "unat (a + PGSIZE - 1) = unat a + 4095"
    using assms by (simp add: unat_word_ariths add_diff_eq [symmetric] del: add_diff_eq)
  then show ?thesis
    unfolding PGROUNDUP_down unat_PGROUNDDOWN by (simp add: minus_mod_eq_div_mult)
qed
lemma offset_eq_iff:
  "i < 2 ^ 64 \<Longrightarrow> unat (x - d) = i \<longleftrightarrow> x = d + (of_nat i :: u64)"
proof
  assume "i < 2 ^ 64" and u: "unat (x - d) = i"
  have "(of_nat (unat (x - d)) :: u64) = x - d" by simp
  with u show "x = d + of_nat i" by simp
next
  assume "i < 2 ^ 64" "x = d + (of_nat i :: u64)"
  then show "unat (x - d) = i" by (simp add: unat_of_nat)
qed

section \<open>Locks and wait channels\<close>

text \<open>
  The sleep locks and spin locks of the kernel by the object they sit in, and the wait
  channels (addresses of kernel objects in the source) by the object whose address is used.
\<close>

datatype slockid = BufLock nat | InodeLock nat

datatype lockid =
    KmemLock | PidLock | WaitLock | ProcLock nat | TicksLock | BcacheLock | LogLock
  | ItableLock | FtableLock | ConsLock | UartLock | PrLock | VdiskLock | PipeLock u64
  | SleepLk slockid

datatype chan =
    ChanSleeplock slockid | ChanLog | ChanProc nat | ChanPipeRead u64 | ChanPipeWrite u64
  | ChanTicks | ChanCons | ChanUart | ChanDisk | ChanBuf nat

section \<open>Outcomes and the combinators of kernel code\<close>

datatype ('a, 's) outcome = Ok 'a 's | Panic string | Sleeps "chan option" 's | Spins lockid

type_synonym ('s, 'a) kern = "'s \<Rightarrow> ('a, 's) outcome"

definition ret :: "'a \<Rightarrow> ('s, 'a) kern" where
  "ret x s = Ok x s"

definition bind :: "('s, 'a) kern \<Rightarrow> ('a \<Rightarrow> ('s, 'b) kern) \<Rightarrow> ('s, 'b) kern" where
  "bind m f s =
     (case m s of Ok x t \<Rightarrow> f x t | Panic e \<Rightarrow> Panic e | Sleeps c t \<Rightarrow> Sleeps c t
      | Spins l \<Rightarrow> Spins l)"

definition gets :: "('s \<Rightarrow> 'a) \<Rightarrow> ('s, 'a) kern" where
  "gets f s = Ok (f s) s"

definition modify :: "('s \<Rightarrow> 's) \<Rightarrow> ('s, unit) kern" where
  "modify f s = Ok () (f s)"

text \<open>\<open>panic\<close> of \<^verbatim>\<open>kernel/printf.c\<close> never returns.\<close>

definition panic :: "string \<Rightarrow> ('s, 'a) kern" where
  "panic e s = Panic e"

definition panic_if :: "bool \<Rightarrow> string \<Rightarrow> ('s, unit) kern" where
  "panic_if b e = (if b then panic e else ret ())"

text \<open>A use of C that the language leaves undefined.\<close>

definition undefined_behaviour :: "('s, 'a) kern" where
  "undefined_behaviour = panic ''undefined behaviour''"

definition only_if :: "bool \<Rightarrow> ('s, unit) kern \<Rightarrow> ('s, unit) kern" where
  "only_if b m = (if b then m else ret ())"

text \<open>A compound statement: the statements run in order.\<close>

fun block :: "('s, unit) kern list \<Rightarrow> ('s, unit) kern" where
  "block [] = ret ()"
| "block (m # ms) = bind m (\<lambda>_. block ms)"

text \<open>Statements followed by \<^verbatim>\<open>return\<close>.\<close>

definition block_ret :: "('s, unit) kern list \<Rightarrow> 'a \<Rightarrow> ('s, 'a) kern" where
  "block_ret ms x = bind (block ms) (\<lambda>_. ret x)"

lemma bind_run [kern_simps]:
  "bind m f s =
     (case m s of Ok x t \<Rightarrow> f x t | Panic e \<Rightarrow> Panic e | Sleeps c t \<Rightarrow> Sleeps c t
      | Spins l \<Rightarrow> Spins l)"
  by (simp add: bind_def)

lemma block_run [kern_simps]:
  "block [] s = Ok () s" "block (m # ms) s = bind m (\<lambda>_. block ms) s"
  by (simp_all add: ret_def)

lemma kern_run [kern_simps, simp]:
  "ret x s = Ok x s" "gets g s = Ok (g s) s" "modify h s = Ok () (h s)"
  "panic e s = Panic e"
  by (simp_all add: ret_def gets_def modify_def panic_def)

lemma panic_if_run [kern_simps, simp]:
  "b \<Longrightarrow> panic_if b e s = Panic e" "\<not> b \<Longrightarrow> panic_if b e s = Ok () s"
  by (simp_all add: panic_if_def)

lemma only_if_run [kern_simps, simp]:
  "b \<Longrightarrow> only_if b m s = m s" "\<not> b \<Longrightarrow> only_if b m s = Ok () s"
  by (simp_all add: only_if_def)

lemma bind_assoc: "bind (bind m f) g = bind m (\<lambda>x. bind (f x) g)"
  by (rule ext) (simp add: bind_def split: outcome.splits)

lemma bind_ret [simp]: "bind (ret x) f = f x" "bind (Ok x) f = f x" "bind m ret = m" "bind m Ok = m"
  by (rule ext, simp add: bind_def ret_def split: outcome.splits)+

lemma bind_OkE:
  assumes "bind m f s = Ok y t"
  obtains x u where "m s = Ok x u" "f x u = Ok y t"
  using assms by (auto simp: bind_def split: outcome.splits)

text \<open>
  A loop that runs \<open>m\<close> until it gives \<open>False\<close>. One that never ends, such as polling a device that
  does not answer, stops the hart for good, as \<open>panic\<close> does.
\<close>

definition loop_while :: "('s, bool) kern \<Rightarrow> ('s, unit) kern" where
  "loop_while m s =
     (case while_option (\<lambda>r. case r of Ok b t \<Rightarrow> b | _ \<Rightarrow> False) (\<lambda>r. case r of Ok b t \<Rightarrow> m t | _ \<Rightarrow> r) (Ok True s) of
        None \<Rightarrow> Panic ''loops forever''
      | Some r \<Rightarrow> (case r of Ok b t \<Rightarrow> Ok () t | Panic e \<Rightarrow> Panic e | Sleeps c t \<Rightarrow> Sleeps c t | Spins l \<Rightarrow> Spins l))"

lemma loop_while_unfold:
  "loop_while m s = (case m s of Ok b t \<Rightarrow> if b then loop_while m t else Ok () t
     | Panic e \<Rightarrow> Panic e | Sleeps c t \<Rightarrow> Sleeps c t | Spins l \<Rightarrow> Spins l)"
  unfolding loop_while_def
  by (subst while_option_unfold) (simp add: while_option_unfold [of _ _ "Ok False _"] while_option_unfold [of _ _ "Panic _"]
      while_option_unfold [of _ _ "Sleeps _ _"] while_option_unfold [of _ _ "Spins _"] split: outcome.split)

subsection \<open>Invariants of code\<close>

text \<open>
  \<open>keeps I m\<close>: from a state with \<open>I\<close>, every state that \<open>m\<close> leaves behind, on return or when
  it goes to sleep, satisfies \<open>I\<close> again.
\<close>

definition keeps :: "('s \<Rightarrow> bool) \<Rightarrow> ('s, 'a) kern \<Rightarrow> bool" where
  "keeps I m \<longleftrightarrow>
     (\<forall>s x t. I s \<longrightarrow> m s = Ok x t \<longrightarrow> I t) \<and> (\<forall>s c t. I s \<longrightarrow> m s = Sleeps c t \<longrightarrow> I t)"

lemma keepsD: "keeps I m \<Longrightarrow> I s \<Longrightarrow> m s = Ok x t \<Longrightarrow> I t"
  unfolding keeps_def by blast

lemma keeps_sleepsD: "keeps I m \<Longrightarrow> I s \<Longrightarrow> m s = Sleeps c t \<Longrightarrow> I t"
  unfolding keeps_def by blast

lemma keeps_ret [keepsI]: "keeps I (ret x)"
  by (simp add: keeps_def)

lemma keeps_gets [keepsI]: "keeps I (gets g)"
  by (simp add: keeps_def)

lemma keeps_panic [keepsI]: "keeps I (panic e)"
  by (simp add: keeps_def)

lemma keeps_panic_if [keepsI]: "keeps I (panic_if b e)"
  by (simp add: keeps_def panic_if_def)

lemma keeps_modify [keepsI]: "(\<And>s. I s \<Longrightarrow> I (h s)) \<Longrightarrow> keeps I (modify h)"
  by (simp add: keeps_def)

lemma keeps_bind [keepsI]:
  assumes m: "keeps I m" and f: "\<And>x. keeps I (f x)"
  shows "keeps I (bind m f)"
  unfolding keeps_def
proof (intro conjI allI impI)
  fix s y t
  assume "I s" "bind m f s = Ok y t"
  then show "I t"
    by (cases "m s") (auto simp: bind_def intro: keepsD [OF m] keepsD [OF f])
next
  fix s c t
  assume "I s" "bind m f s = Sleeps c t"
  then show "I t"
    by (cases "m s") (auto simp: bind_def intro: keepsD [OF m] keeps_sleepsD [OF m] keeps_sleepsD [OF f])
qed

lemma keeps_if [keepsI]:
  "(b \<Longrightarrow> keeps I m) \<Longrightarrow> (\<not> b \<Longrightarrow> keeps I n) \<Longrightarrow> keeps I (if b then m else n)"
  by simp

lemma keeps_only_if [keepsI]: "(b \<Longrightarrow> keeps I m) \<Longrightarrow> keeps I (only_if b m)"
  by (cases b) (simp_all add: only_if_def keeps_ret)

section \<open>Integers in memory\<close>

text \<open>
  The harts are little-endian: an integer occupies consecutive bytes, least significant
  first. \<open>le_bytes n w\<close> are the first \<open>n\<close> bytes of \<open>w\<close>, \<open>le_word\<close> reads them back.
\<close>

definition le_bytes :: "nat \<Rightarrow> 'a::len word \<Rightarrow> u8 list" where
  "le_bytes n w = map (\<lambda>i. ucast (drop_bit (8 * i) w)) [0..<n]"

fun le_word :: "u8 list \<Rightarrow> 'a::len word" where
  "le_word [] = 0"
| "le_word (b # bs) = push_bit 8 (le_word bs) OR ucast b"

lemma length_le_bytes [simp]: "length (le_bytes n w) = n"
  by (simp add: le_bytes_def)

lemma bit_le_word:
  "bit (le_word bs :: 'a::len word) n \<longleftrightarrow>
     n < LENGTH('a) \<and> n div 8 < length bs \<and> bit (bs ! (n div 8)) (n mod 8)"
proof (induction bs arbitrary: n)
  case Nil
  then show ?case by simp
next
  case (Cons b bs)
  show ?case
  proof (cases "n < 8")
    case True
    then show ?thesis
      by (auto simp: bit_simps)
  next
    case False
    then have "n div 8 = Suc ((n - 8) div 8)" "n mod 8 = (n - 8) mod 8"
      by (simp_all add: le_div_geq le_mod_geq)
    moreover from False have "\<not> bit b n"
      by (auto dest: bit_imp_le_length)
    ultimately show ?thesis
      using False Cons.IH [of "n - 8"]
      by (simp add: bit_or_iff bit_push_bit_iff bit_unsigned_iff) auto
  qed
qed

lemma le_word_bytes:
  assumes "LENGTH('a) \<le> 8 * n"
  shows "le_word (le_bytes n w) = (w :: 'a::len word)"
proof (rule bit_word_eqI)
  fix i
  assume i: "i < LENGTH('a)"
  with assms have "i div 8 < n" by linarith
  moreover have "8 * (i div 8) + i mod 8 = i" by simp
  ultimately show "bit (le_word (le_bytes n w) :: 'a word) i \<longleftrightarrow> bit w i"
    using i by (simp add: bit_le_word le_bytes_def bit_simps)
qed

lemma le_bytes_word:
  assumes "length bs = n" "8 * n \<le> LENGTH('a)"
  shows "le_bytes n (le_word bs :: 'a::len word) = bs"
proof (rule nth_equalityI)
  show "length (le_bytes n (le_word bs :: 'a word)) = length bs"
    using assms by simp
next
  fix i
  assume "i < length (le_bytes n (le_word bs :: 'a word))"
  then have i: "i < n" by simp
  show "le_bytes n (le_word bs :: 'a word) ! i = bs ! i"
  proof (rule bit_word_eqI)
    fix j
    assume "j < LENGTH(8)"
    with i assms show "bit (le_bytes n (le_word bs :: 'a word) ! i) j \<longleftrightarrow> bit (bs ! i) j"
      by (simp add: le_bytes_def bit_le_word bit_simps)
  qed
qed

subsection \<open>Byte-addressed memory\<close>

definition mread :: "mem \<Rightarrow> u64 \<Rightarrow> nat \<Rightarrow> u8 list" where
  "mread m a n = map (\<lambda>i. m (a + of_nat i)) [0..<n]"

definition mwrite :: "mem \<Rightarrow> u64 \<Rightarrow> u8 list \<Rightarrow> mem" where
  "mwrite m a bs = (\<lambda>x. let i = unat (x - a) in if i < length bs then bs ! i else m x)"

definition load64 :: "mem \<Rightarrow> u64 \<Rightarrow> u64" where
  "load64 m a = le_word (mread m a 8)"

definition store64 :: "mem \<Rightarrow> u64 \<Rightarrow> u64 \<Rightarrow> mem" where
  "store64 m a v = mwrite m a (le_bytes 8 v)"

lemma length_mread [simp]: "length (mread m a n) = n"
  by (simp add: mread_def)

lemma mread_nth [simp]: "i < n \<Longrightarrow> mread m a n ! i = m (a + of_nat i)"
  by (simp add: mread_def)

lemma mwrite_at:
  "mwrite m a bs x = (if unat (x - a) < length bs then bs ! unat (x - a) else m x)"
  by (simp add: mwrite_def Let_def)

lemma mread_mwrite_same:
  assumes "length bs \<le> 2 ^ 64"
  shows "mread (mwrite m a bs) a (length bs) = bs"
proof (rule nth_equalityI)
  fix i
  assume "i < length (mread (mwrite m a bs) a (length bs))"
  then have i: "i < length bs" by simp
  with assms have "unat (of_nat i :: u64) = i"
    by (simp add: unat_of_nat)
  with i show "mread (mwrite m a bs) a (length bs) ! i = bs ! i"
    by (simp add: mwrite_at)
qed simp

lemma mwrite_mread [simp]: "mwrite m a (mread m a n) = m"
  by (rule ext) (simp add: mwrite_at)

lemma le_word_zero [simp]: "le_word (replicate n 0) = 0"
  by (induction n) simp_all

lemma mread_const: "mread (\<lambda>_. c) a n = replicate n c"
  by (rule nth_equalityI) simp_all

lemma load64_zero [simp]: "load64 (\<lambda>_. 0) a = 0"
  by (simp add: load64_def mread_const)

text \<open>Two address ranges that do not meet, wrap-around included.\<close>

definition apart :: "u64 \<Rightarrow> nat \<Rightarrow> u64 \<Rightarrow> nat \<Rightarrow> bool" where
  "apart a n b k \<longleftrightarrow> n \<le> unat (b - a) \<and> k \<le> unat (a - b)"

lemma apart_offset:
  assumes "n \<le> unat (b - a) \<and> k \<le> unat (a - b)" "i < n"
  shows "k \<le> unat (a - b + of_nat i :: u64)"
proof -
  have "a \<noteq> b" using assms by auto
  then have "unat (b - a) = 2 ^ 64 - unat (a - b)"
    using unat_sub_if' [of 0 "a - b"] by (simp add: unat_eq_zero)
  then have "unat (a - b) + i < 2 ^ 64"
    using assms by linarith
  then show ?thesis
    using assms by (simp add: unat_word_ariths unat_of_nat)
qed

lemma apart_ne:
  assumes "apart a n b k" "i < n" "j < k" "k \<le> 2 ^ 64"
  shows "a + of_nat i \<noteq> b + (of_nat j :: u64)"
proof
  assume "a + of_nat i = b + (of_nat j :: u64)"
  then have "a - b + of_nat i = (of_nat j :: u64)" by (simp add: algebra_simps)
  moreover have "k \<le> unat (a - b + of_nat i :: u64)"
    using assms unfolding apart_def by (intro apart_offset) auto
  ultimately show False using assms by (simp add: unat_of_nat)
qed

lemma mread_Suc: "mread m a (Suc n) = m a # mread m (a + 1) n"
  by (simp add: mread_def upt_conv_Cons map_Suc_upt [symmetric] algebra_simps del: upt_Suc)

lemma mread_0 [simp]: "mread m a 0 = []"
  by (simp add: mread_def)

lemma mwrite_Nil [simp]: "mwrite m a [] = m"
  by (rule ext) (simp add: mwrite_at)

lemma unat_pred:
  assumes "x \<noteq> (d :: u64)"
  shows "unat (x - (d + 1)) = unat (x - d) - 1" "0 < unat (x - d)"
proof -
  from assms have "x - d \<noteq> 0" by simp
  then show "0 < unat (x - d)" by (simp add: unat_gt_0)
  from \<open>x - d \<noteq> 0\<close> show "unat (x - (d + 1)) = unat (x - d) - 1"
    using unat_minus_one [of "x - d"] by (simp add: algebra_simps)
qed

lemma mwrite_Cons:
  assumes "length bs < 2 ^ 64"
  shows "mwrite m a (b # bs) = mwrite (m(a := b)) (a + 1) bs"
proof (rule ext)
  fix x
  show "mwrite m a (b # bs) x = mwrite (m(a := b)) (a + 1) bs x"
  proof (cases "x = a")
    case True
    have "unat (a - (a + 1)) = 2 ^ 64 - 1" by simp
    with True assms show ?thesis by (simp add: mwrite_at)
  next
    case False
    with unat_pred [OF False] show ?thesis by (auto simp: mwrite_at nth_Cons')
  qed
qed

lemma mwrite_append:
  assumes "length bs + length cs \<le> 2 ^ 64"
  shows "mwrite m a (bs @ cs) = mwrite (mwrite m a bs) (a + of_nat (length bs)) cs"
  using assms
proof (induction bs arbitrary: m a)
  case Nil
  then show ?case by simp
next
  case (Cons b bs)
  then show ?case by (simp add: mwrite_Cons algebra_simps)
qed

lemma mwrite_at_first:
  assumes "i < length bs" "length bs \<le> 2 ^ 64"
  shows "mwrite m a bs (a + of_nat i) = bs ! i"
  using assms by (simp add: mwrite_at unat_of_nat)

lemma mread_mwrite_apart:
  assumes "apart a n b (length bs)"
  shows "mread (mwrite m b bs) a n = mread m a n"
proof (rule nth_equalityI)
  fix i
  assume "i < length (mread (mwrite m b bs) a n)"
  then have i: "i < n" by simp
  have "length bs \<le> unat (a - b + of_nat i)"
    using assms i unfolding apart_def by (rule apart_offset)
  then have "\<not> unat (a + of_nat i - b) < length bs"
    by (simp add: algebra_simps)
  then show "mread (mwrite m b bs) a n ! i = mread m a n ! i"
    using i by (simp add: mwrite_at)
qed simp

section \<open>Parts of byte arrays\<close>

text \<open>
  Structures that the kernel lays over a buffer (\<^verbatim>\<open>struct logheader\<close>, \<^verbatim>\<open>struct dinode\<close>,
  \<^verbatim>\<open>struct dirent\<close>, arrays of \<^verbatim>\<open>uint\<close>) are read and written as parts of its byte list.
\<close>

definition slice :: "'a list \<Rightarrow> nat \<Rightarrow> nat \<Rightarrow> 'a list" where
  "slice d i n = take n (drop i d)"

definition splice :: "'a list \<Rightarrow> nat \<Rightarrow> 'a list \<Rightarrow> 'a list" where
  "splice d i bs = take i d @ bs @ drop (i + length bs) d"

definition get32 :: "u8 list \<Rightarrow> nat \<Rightarrow> u32" where
  "get32 d i = le_word (slice d i 4)"

definition put32 :: "u8 list \<Rightarrow> nat \<Rightarrow> u32 \<Rightarrow> u8 list" where
  "put32 d i w = splice d i (le_bytes 4 w)"

definition get16 :: "u8 list \<Rightarrow> nat \<Rightarrow> u16" where
  "get16 d i = le_word (slice d i 2)"

definition put16 :: "u8 list \<Rightarrow> nat \<Rightarrow> u16 \<Rightarrow> u8 list" where
  "put16 d i w = splice d i (le_bytes 2 w)"

lemma nth_update_any: "i < length m \<Longrightarrow> m[e := x] ! i = (if i = e then x else m ! i)"
  by (cases "i = e") simp_all

lemma length_slice [simp]: "length (slice d i n) = min n (length d - i)"
  by (simp add: slice_def)

lemma nth_slice: "k < n \<Longrightarrow> i + k < length d \<Longrightarrow> slice d i n ! k = d ! (i + k)"
  by (simp add: slice_def)

lemma length_splice [simp]: "i + length bs \<le> length d \<Longrightarrow> length (splice d i bs) = length d"
  by (simp add: splice_def)

lemma nth_splice:
  "i + length bs \<le> length d \<Longrightarrow>
    splice d i bs ! k = (if i \<le> k \<and> k < i + length bs then bs ! (k - i) else d ! k)"
  by (auto simp: splice_def nth_append)

lemma slice_splice_same: "i + length bs \<le> length d \<Longrightarrow> slice (splice d i bs) i (length bs) = bs"
  by (simp add: slice_def splice_def)

lemma slice_splice_other:
  assumes "i + length bs \<le> length d" "j + n \<le> i \<or> i + length bs \<le> j"
  shows "slice (splice d i bs) j n = slice d j n"
proof (rule nth_equalityI)
  show "length (slice (splice d i bs) j n) = length (slice d j n)" using assms by simp
  fix k assume "k < length (slice (splice d i bs) j n)"
  then have "k < n" "j + k < length d" using assms(1) by auto
  with assms show "slice (splice d i bs) j n ! k = slice d j n ! k"
    by (auto simp: nth_slice nth_splice)
qed

lemma splice_slice: "i + n \<le> length d \<Longrightarrow> splice d i (slice d i n) = d"
  by (intro nth_equalityI) (auto simp: nth_splice nth_slice)

lemma length_put [simp]:
  "i + 4 \<le> length d \<Longrightarrow> length (put32 d i w) = length d"
  "i + 2 \<le> length d \<Longrightarrow> length (put16 d i v) = length d"
  by (simp_all add: put32_def put16_def)

lemma get_put_same [simp]:
  "i + 4 \<le> length d \<Longrightarrow> get32 (put32 d i w) i = w"
  "i + 2 \<le> length d \<Longrightarrow> get16 (put16 d i v) i = v"
  using slice_splice_same [of i "le_bytes 4 w" d] slice_splice_same [of i "le_bytes 2 v" d]
  by (simp_all add: get32_def put32_def get16_def put16_def le_word_bytes)

lemma get_put_other:
  "i + 4 \<le> length d \<Longrightarrow> j + 4 \<le> i \<or> i + 4 \<le> j \<Longrightarrow> get32 (put32 d i w) j = get32 d j"
  "i + 4 \<le> length d \<Longrightarrow> j + 2 \<le> i \<or> i + 4 \<le> j \<Longrightarrow> get16 (put32 d i w) j = get16 d j"
  "i + 2 \<le> length d \<Longrightarrow> j + 4 \<le> i \<or> i + 2 \<le> j \<Longrightarrow> get32 (put16 d i v) j = get32 d j"
  "i + 2 \<le> length d \<Longrightarrow> j + 2 \<le> i \<or> i + 2 \<le> j \<Longrightarrow> get16 (put16 d i v) j = get16 d j"
  by (simp_all add: get32_def put32_def get16_def put16_def slice_splice_other)

lemma sint_of_nat_small: "n < 2 ^ 31 \<Longrightarrow> sint (of_nat n :: u32) = int n"
  by (simp add: signed_of_nat signed_take_bit_int_eq_self)

end
