(* ===== verification/Xv6_Spinlock.thy ===== *)
theory Xv6_Spinlock
  imports Xv6_Prelude
begin

text \<open>
  Spin locks and interrupt nesting: \<^verbatim>\<open>kernel/spinlock.c\<close>, \<^verbatim>\<open>spinlock.h\<close>, \<^verbatim>\<open>struct cpu\<close> of
  \<^verbatim>\<open>proc.h\<close> and the \<^verbatim>\<open>sstatus\<close> accessors of \<^verbatim>\<open>riscv.h\<close>.

  \<open>lockstate\<close> is the state all of it lives in: the hart that executes (\<^verbatim>\<open>tp\<close>), the
  \<^verbatim>\<open>sstatus\<close> register of each hart, the \<^verbatim>\<open>cpus\<close> array and the kernel's spin locks. The state
  of the kernel (\<open>kbase\<close> and the records that extend it) carries one \<open>lockstate\<close>; \<open>on_lk\<close>
  runs lock code on it and \<open>with_lock\<close> is a critical section. The second half of the theory
  interleaves the single memory accesses of \<^verbatim>\<open>acquire\<close> and \<^verbatim>\<open>release\<close> on several harts.
\<close>

section \<open>State\<close>

record kcontext =
  c_ra :: u64
  c_sp :: u64
  c_s :: "u64 list" \<comment> \<open>s0 to s11\<close>

record cpu =
  cproc :: "nat option"
  ccontext :: kcontext
  noff :: int \<comment> \<open>an \<^verbatim>\<open>int\<close> in C: at most \<open>2^31 - 1\<close> nested calls of \<open>push_off\<close>\<close>
  intena :: bool

record spinlock =
  sl_locked :: u32
  sl_name :: string
  sl_cpu :: "nat option"

record lockstate =
  hart :: nat
  sstatus :: "nat \<Rightarrow> u64"
  cpus :: "nat \<Rightarrow> cpu"
  locks :: "lockid \<Rightarrow> spinlock"

record kbase =
  lk :: lockstate

abbreviation (input) SSTATUS_SPP :: u64 where "SSTATUS_SPP \<equiv> 0x100"
abbreviation (input) SSTATUS_SPIE :: u64 where "SSTATUS_SPIE \<equiv> 0x20"
abbreviation (input) SSTATUS_SIE :: u64 where "SSTATUS_SIE \<equiv> 2"

section \<open>Operations\<close>

definition intr_on :: "lockstate \<Rightarrow> lockstate" where
  "intr_on L = L\<lparr>sstatus := (sstatus L)(hart L := sstatus L (hart L) OR SSTATUS_SIE)\<rparr>"

definition intr_off :: "lockstate \<Rightarrow> lockstate" where
  "intr_off L = L\<lparr>sstatus := (sstatus L)(hart L := sstatus L (hart L) AND NOT SSTATUS_SIE)\<rparr>"

definition intr_get :: "lockstate \<Rightarrow> bool" where
  "intr_get L \<longleftrightarrow> sstatus L (hart L) AND SSTATUS_SIE \<noteq> 0"

definition cpuid :: "lockstate \<Rightarrow> nat" where
  "cpuid L = hart L"

definition mycpu :: "lockstate \<Rightarrow> cpu" where
  "mycpu L = cpus L (cpuid L)"

definition set_mycpu :: "(cpu \<Rightarrow> cpu) \<Rightarrow> lockstate \<Rightarrow> lockstate" where
  "set_mycpu f L = L\<lparr>cpus := (cpus L)(cpuid L := f (mycpu L))\<rparr>"

definition set_lock :: "lockid \<Rightarrow> (spinlock \<Rightarrow> spinlock) \<Rightarrow> lockstate \<Rightarrow> lockstate" where
  "set_lock l f L = L\<lparr>locks := (locks L)(l := f (locks L l))\<rparr>"

definition initlock :: "lockid \<Rightarrow> string \<Rightarrow> (lockstate, unit) kern" where
  "initlock l name =
     modify (set_lock l (\<lambda>k. k\<lparr>sl_name := name, sl_locked := 0, sl_cpu := None\<rparr>))"

definition push_off :: "(lockstate, unit) kern" where
  "push_off =
     bind (gets intr_get) (\<lambda>old. block [
       modify intr_off,
       bind (gets mycpu) (\<lambda>c.
         only_if (noff c = 0) (modify (set_mycpu (\<lambda>c. c\<lparr>intena := old\<rparr>)))),
       modify (set_mycpu (\<lambda>c. c\<lparr>noff := noff c + 1\<rparr>))])"

definition pop_off :: "(lockstate, unit) kern" where
  "pop_off = block [
     bind (gets intr_get) (\<lambda>i. panic_if i ''pop_off - interruptible''),
     bind (gets mycpu) (\<lambda>c. panic_if (noff c < 1) ''pop_off''),
     modify (set_mycpu (\<lambda>c. c\<lparr>noff := noff c - 1\<rparr>)),
     bind (gets mycpu) (\<lambda>c. only_if (noff c = 0 \<and> intena c) (modify intr_on))]"

definition holding :: "lockid \<Rightarrow> lockstate \<Rightarrow> bool" where
  "holding l L \<longleftrightarrow> sl_locked (locks L l) \<noteq> 0 \<and> sl_cpu (locks L l) = Some (cpuid L)"

text \<open>
  The atomic swap loop of \<^verbatim>\<open>acquire\<close>: with the lock taken by another hart it spins, which is
  the outcome \<open>Spins\<close>; with the lock free the first swap succeeds.
\<close>

definition test_and_set :: "lockid \<Rightarrow> (lockstate, unit) kern" where
  "test_and_set l L =
     (if sl_locked (locks L l) \<noteq> 0 then Spins l
      else Ok () (set_lock l (\<lambda>k. k\<lparr>sl_locked := 1\<rparr>) L))"

definition acquire :: "lockid \<Rightarrow> (lockstate, unit) kern" where
  "acquire l = block [
     push_off,
     bind (gets (holding l)) (\<lambda>h. panic_if h ''acquire''),
     test_and_set l,
     bind (gets cpuid) (\<lambda>c. modify (set_lock l (\<lambda>k. k\<lparr>sl_cpu := Some c\<rparr>)))]"

definition release :: "lockid \<Rightarrow> (lockstate, unit) kern" where
  "release l = block [
     bind (gets (holding l)) (\<lambda>h. panic_if (\<not> h) ''release''),
     modify (set_lock l (\<lambda>k. k\<lparr>sl_cpu := None\<rparr>)),
     modify (set_lock l (\<lambda>k. k\<lparr>sl_locked := 0\<rparr>)),
     pop_off]"

section \<open>Interrupt nesting\<close>

text \<open>
  Between kernel functions a hart is \<open>settled\<close>: the nesting depth is not negative, with
  depth 0 the saved flag agrees with the register, and with a positive depth interrupts are
  off. A lock is free when its word is 0 and no hart is recorded.
\<close>

definition settled :: "lockstate \<Rightarrow> bool" where
  "settled L \<longleftrightarrow>
     0 \<le> noff (mycpu L) \<and> (noff (mycpu L) = 0 \<longrightarrow> intena (mycpu L) = intr_get L) \<and>
     (0 < noff (mycpu L) \<longrightarrow> \<not> intr_get L)"

definition lock_free :: "lockid \<Rightarrow> lockstate \<Rightarrow> bool" where
  "lock_free l L \<longleftrightarrow> sl_locked (locks L l) = 0 \<and> sl_cpu (locks L l) = None"

lemmas lock_defs = intr_on_def intr_off_def intr_get_def cpuid_def mycpu_def set_mycpu_def
  set_lock_def holding_def

lemma sie_clear [simp]: "(x AND - 3) AND SSTATUS_SIE = 0"
  by (simp add: and.assoc)

lemma sie_split: "x = (x AND - 3) OR (x AND SSTATUS_SIE)"
  by (simp flip: bit.conj_disj_distrib)

lemma sie_same: "x AND SSTATUS_SIE = 0 \<Longrightarrow> x AND - 3 = x"
  using sie_split [of x] by simp

lemma sie_set: "x AND SSTATUS_SIE \<noteq> 0 \<Longrightarrow> x AND - 3 OR SSTATUS_SIE = x"
  using and_exp_eq_0_iff_not_bit [of x 1]
  by (intro bit_word_eqI) (auto simp: bit_simps)

lemma intena_same [simp]: "intena c = b \<Longrightarrow> c\<lparr>intena := b\<rparr> = c"
  by (cases c) simp

definition pushed :: "lockstate \<Rightarrow> lockstate" where
  "pushed L =
     L\<lparr>sstatus := (sstatus L)(hart L := sstatus L (hart L) AND NOT SSTATUS_SIE),
       cpus := (cpus L)(hart L := (mycpu L)\<lparr>intena := (if noff (mycpu L) = 0 then intr_get L
         else intena (mycpu L)), noff := noff (mycpu L) + 1\<rparr>)\<rparr>"

lemma push_off_run [kern_simps]: "push_off L = Ok () (pushed L)"
  by (simp add: push_off_def pushed_def kern_simps lock_defs only_if_def)

lemma pop_pushed:
  assumes "settled L"
  shows "pop_off (pushed L) = Ok () L"
  using assms
  by (auto simp: pop_off_def pushed_def kern_simps lock_defs only_if_def panic_if_def settled_def
      sie_set sie_same)

definition acquired :: "lockid \<Rightarrow> lockstate \<Rightarrow> lockstate" where
  "acquired l L = set_lock l (\<lambda>k. k\<lparr>sl_locked := 1, sl_cpu := Some (hart L)\<rparr>) (pushed L)"

lemma acquire_run [kern_simps]: "lock_free l L \<Longrightarrow> acquire l L = Ok () (acquired l L)"
  by (simp add: acquire_def acquired_def test_and_set_def lock_free_def kern_simps lock_defs
      pushed_def panic_if_def)

lemma acquire_spins:
  "sl_locked (locks L l) \<noteq> 0 \<Longrightarrow> sl_cpu (locks L l) \<noteq> Some (hart L) \<Longrightarrow> acquire l L = Spins l"
  by (simp add: acquire_def test_and_set_def kern_simps lock_defs pushed_def panic_if_def)

lemma acquire_twice: "holding l L \<Longrightarrow> acquire l L = Panic ''acquire''"
  by (simp add: acquire_def kern_simps lock_defs pushed_def panic_if_def)

lemma lock_free_same: "lock_free l L \<Longrightarrow> (locks L l)\<lparr>sl_cpu := None, sl_locked := 0\<rparr> = locks L l"
  by (cases "locks L l") (simp add: lock_free_def)

lemma release_acquired [kern_simps]:
  assumes "settled L" "lock_free l L"
  shows "release l (acquired l L) = Ok () L"
proof -
  have "release l (acquired l L) = pop_off (set_lock l (\<lambda>_. locks L l) (pushed L))"
    using lock_free_same [OF assms(2)]
    by (simp add: release_def acquired_def kern_simps lock_defs pushed_def panic_if_def bind_def
        split: outcome.splits)
  also have "set_lock l (\<lambda>_. locks L l) (pushed L) = pushed L"
    by (simp add: set_lock_def pushed_def)
  also have "pop_off (pushed L) = Ok () L"
    using assms(1) by (rule pop_pushed)
  finally show ?thesis .
qed

lemma settled_pushed: "settled L \<Longrightarrow> settled (pushed L)"
  by (auto simp: settled_def pushed_def lock_defs)

lemma settled_acquired: "settled L \<Longrightarrow> settled (acquired l L)"
  by (auto simp: settled_def acquired_def pushed_def lock_defs)

lemma lock_free_acquired:
  "l \<noteq> l' \<Longrightarrow> lock_free l' (acquired l L) = lock_free l' L"
  by (simp add: lock_free_def acquired_def pushed_def lock_defs)

section \<open>Critical sections\<close>

definition on_lk :: "(lockstate, 'a) kern \<Rightarrow> ('z kbase_scheme, 'a) kern" where
  "on_lk m s =
     (case m (lk s) of Ok x L \<Rightarrow> Ok x (s\<lparr>lk := L\<rparr>) | Panic e \<Rightarrow> Panic e
      | Sleeps c L \<Rightarrow> Sleeps c (s\<lparr>lk := L\<rparr>) | Spins l \<Rightarrow> Spins l)"

definition with_lock :: "lockid \<Rightarrow> ('z kbase_scheme, 'a) kern \<Rightarrow> ('z kbase_scheme, 'a) kern" where
  "with_lock l m =
     bind (on_lk (acquire l)) (\<lambda>_. bind m (\<lambda>x. bind (on_lk (release l)) (\<lambda>_. ret x)))"

text \<open>
  A body is oblivious of the locks when it does the same in every lock state and leaves it
  alone. Such a body behaves inside a critical section as it does outside of one.
\<close>

definition obliv :: "('z kbase_scheme, 'a) kern \<Rightarrow> bool" where
  "obliv m \<longleftrightarrow>
     (\<forall>s L. m (s\<lparr>lk := L\<rparr>) = map_outcome id (\<lambda>t. t\<lparr>lk := L\<rparr>) (m s)) \<and>
     (\<forall>s c t. m s \<noteq> Sleeps c t)"

definition calm :: "lockstate \<Rightarrow> bool" where
  "calm L \<longleftrightarrow> settled L \<and> (\<forall>l. lock_free l L)"

lemma obliv_lk:
  assumes "obliv m" "m s = Ok x t"
  shows "lk t = lk s"
proof -
  have "m (s\<lparr>lk := lk s\<rparr>) = map_outcome id (\<lambda>t. t\<lparr>lk := lk s\<rparr>) (m s)"
    using assms(1) unfolding obliv_def by blast
  with assms(2) have "t = t\<lparr>lk := lk s\<rparr>" by simp
  then show ?thesis by (metis kbase.select_convs(1) kbase.update_convs(1) kbase.surjective)
qed

lemma with_lock_obliv:
  assumes "obliv m" "settled (lk s)" "lock_free l (lk s)"
  shows "with_lock l m s = m s"
proof -
  let ?L = "acquired l (lk s)"
  have eq: "m (s\<lparr>lk := ?L\<rparr>) = map_outcome id (\<lambda>t. t\<lparr>lk := ?L\<rparr>) (m s)"
    and ns: "\<And>c t. m s \<noteq> Sleeps c t"
    using assms(1) by (simp_all add: obliv_def)
  show ?thesis
  proof (cases "m s")
    case (Ok x t)
    then have "lk t = lk s"
      using assms(1) by (rule obliv_lk [rotated])
    with Ok assms eq show ?thesis
      by (simp add: with_lock_def kern_simps on_lk_def)
  qed (use assms eq ns in \<open>simp_all add: with_lock_def kern_simps on_lk_def\<close>)
qed

lemma obliv_ret [oblivI]: "obliv (ret x)"
  by (simp add: obliv_def)

lemma obliv_gets [oblivI]: "(\<And>s L. g (s\<lparr>lk := L\<rparr>) = g s) \<Longrightarrow> obliv (gets g)"
  by (simp add: obliv_def)

lemma obliv_modify [oblivI]: "(\<And>s L. h (s\<lparr>lk := L\<rparr>) = (h s)\<lparr>lk := L\<rparr>) \<Longrightarrow> obliv (modify h)"
  by (simp add: obliv_def)

lemma obliv_panic [oblivI]: "obliv (panic e)"
  by (simp add: obliv_def)

lemma obliv_panic_if [oblivI]: "obliv (panic_if b e)"
  by (simp add: obliv_def panic_if_def)

lemma obliv_bind [oblivI]:
  assumes "obliv m" "\<And>x. obliv (f x)"
  shows "obliv (bind m f)"
  unfolding obliv_def
proof (intro conjI allI)
  fix s L
  show "bind m f (s\<lparr>lk := L\<rparr>) = map_outcome id (\<lambda>t. t\<lparr>lk := L\<rparr>) (bind m f s)"
    using assms by (cases "m s") (simp_all add: obliv_def kern_simps)
next
  fix s c t
  show "bind m f s \<noteq> Sleeps c t"
    using assms by (cases "m s") (simp_all add: obliv_def kern_simps)
qed

lemma obliv_if [oblivI]: "obliv m \<Longrightarrow> obliv n \<Longrightarrow> obliv (if b then m else n)"
  by simp

lemma obliv_only_if [oblivI]: "obliv m \<Longrightarrow> obliv (only_if b m)"
  by (simp add: only_if_def obliv_ret)

lemma obliv_block [oblivI]: "(\<And>m. m \<in> set ms \<Longrightarrow> obliv m) \<Longrightarrow> obliv (block ms)"
  by (induction ms) (auto intro: obliv_ret obliv_bind)

section \<open>Properties of one hart\<close>

lemma block_append: "block (ms @ ns) = bind (block ms) (\<lambda>_. block ns)"
  by (induction ms) (simp_all add: bind_assoc)

lemma pushes_pops:
  "settled L \<Longrightarrow> block (replicate n push_off @ replicate n pop_off) L = Ok () L"
proof (induction n arbitrary: L)
  case 0
  then show ?case by (simp add: kern_simps)
next
  case (Suc n)
  let ?ms = "replicate n push_off @ replicate n pop_off"
  have "replicate (Suc n) push_off @ replicate (Suc n) pop_off = push_off # ?ms @ [pop_off]"
    by (simp add: replicate_append_same)
  then have "block (replicate (Suc n) push_off @ replicate (Suc n) pop_off) L =
      bind push_off (\<lambda>_. bind (block ?ms) (\<lambda>_. block [pop_off])) L"
    by (simp only: block.simps block_append)
  also have "\<dots> = block [pop_off] (pushed L)"
    using Suc.IH [OF settled_pushed [OF Suc.prems]] by (simp only: bind_run push_off_run [of L] outcome.case)
  also have "\<dots> = Ok () L"
    using pop_pushed [OF Suc.prems] by (simp add: kern_simps)
  finally show ?case .
qed

lemma pushes_depth:
  "\<exists>M. block (replicate n push_off) L = Ok () M \<and> noff (mycpu M) = noff (mycpu L) + int n \<and> (0 < n \<longrightarrow> \<not> intr_get M)"
proof (induction n)
  case (Suc n)
  then obtain M where M: "block (replicate n push_off) L = Ok () M" "noff (mycpu M) = noff (mycpu L) + int n" by blast
  have "block (replicate (Suc n) push_off) L = Ok () (pushed M)"
    using M(1) unfolding replicate_Suc replicate_append_same [symmetric] block_append by (simp add: bind_run push_off_run)
  then show ?case using M(2) by (simp add: pushed_def lock_defs)
qed (simp add: kern_simps)

definition boot_hart :: lockstate where
  "boot_hart =
     \<lparr>hart = 0, sstatus = (\<lambda>_. SSTATUS_SIE),
      cpus = (\<lambda>_. \<lparr>cproc = None, ccontext = \<lparr>c_ra = 0, c_sp = 0, c_s = replicate 12 0\<rparr>,
        noff = 0, intena = True\<rparr>),
      locks = (\<lambda>_. \<lparr>sl_locked = 0, sl_name = ''lock'', sl_cpu = None\<rparr>)\<rparr>"

lemma boot_hart_calm [simp]: "calm boot_hart" "settled boot_hart" "lock_free l boot_hart"
  by (simp_all add: calm_def settled_def lock_free_def boot_hart_def lock_defs)





section \<open>Interleaved harts\<close>

text \<open>
  Any number of harts that acquire and release a lock over and over, interleaved at the single
  accesses to \<^verbatim>\<open>lk->locked\<close> and \<^verbatim>\<open>lk->cpu\<close>. A program point names what a hart does next. In
  \<^verbatim>\<open>acquire\<close> (from \<open>Out\<close>): \<open>push_off\<close>, which touches only what belongs to the hart; the two loads of
  \<open>holding\<close>; the atomic swap, until it gives 0; the store to \<^verbatim>\<open>cpu\<close>. In \<^verbatim>\<open>release\<close> (from \<open>Crit\<close>): the
  two loads of \<open>holding\<close>; the stores to \<^verbatim>\<open>cpu\<close> and to \<^verbatim>\<open>locked\<close>; \<open>pop_off\<close>. \<open>Dead\<close> is a hart in
  \<^verbatim>\<open>panic\<close>.
\<close>

datatype spc = Out | AcqWord | AcqOwner | AcqSwap | AcqCpu | Crit | RelOwner | RelCpu | RelWord | RelPop | Dead string

fun spin_atom :: "lockid \<Rightarrow> spc \<Rightarrow> (lockstate, spc) kern" where
  "spin_atom l Out = bind push_off (\<lambda>_. ret AcqWord)"
| "spin_atom l AcqWord =
     bind (gets (\<lambda>L. sl_locked (locks L l))) (\<lambda>w. ret (if w \<noteq> 0 then AcqOwner else AcqSwap))"
| "spin_atom l AcqOwner =
     bind (gets (\<lambda>L. sl_cpu (locks L l) = Some (cpuid L))) (\<lambda>b. if b then panic ''acquire'' else ret AcqSwap)"
| "spin_atom l AcqSwap =
     bind (gets (\<lambda>L. sl_locked (locks L l))) (\<lambda>w.
     bind (modify (set_lock l (\<lambda>k. k\<lparr>sl_locked := 1\<rparr>))) (\<lambda>_. ret (if w \<noteq> 0 then AcqSwap else AcqCpu)))"
| "spin_atom l AcqCpu =
     bind (gets cpuid) (\<lambda>c. bind (modify (set_lock l (\<lambda>k. k\<lparr>sl_cpu := Some c\<rparr>))) (\<lambda>_. ret Crit))"
| "spin_atom l Crit =
     bind (gets (\<lambda>L. sl_locked (locks L l))) (\<lambda>w. if w \<noteq> 0 then ret RelOwner else panic ''release'')"
| "spin_atom l RelOwner =
     bind (gets (\<lambda>L. sl_cpu (locks L l) = Some (cpuid L))) (\<lambda>b. if b then ret RelCpu else panic ''release'')"
| "spin_atom l RelCpu = bind (modify (set_lock l (\<lambda>k. k\<lparr>sl_cpu := None\<rparr>))) (\<lambda>_. ret RelWord)"
| "spin_atom l RelWord = bind (modify (set_lock l (\<lambda>k. k\<lparr>sl_locked := 0\<rparr>))) (\<lambda>_. ret RelPop)"
| "spin_atom l RelPop = bind pop_off (\<lambda>_. ret Out)"
| "spin_atom l (Dead e) = panic e"

text \<open>
  A hart that nobody interferes with, from one end of \<open>acquire\<close> or \<open>release\<close> to the other; at a swap
  that fails nothing will change any more. Five steps are the longest way.
\<close>

fun alone :: "nat \<Rightarrow> lockid \<Rightarrow> spc \<Rightarrow> (lockstate, unit) kern" where
  "alone 0 l p = panic ''out of fuel''"
| "alone (Suc n) l p =
     bind (spin_atom l p) (\<lambda>q.
       if q \<in> {Out, Crit} then ret () else if q = p then (\<lambda>_. Spins l) else alone n l q)"

lemma alone_acquire: "alone 5 l Out L = acquire l L"
  by (simp add: eval_nat_numeral push_off_run acquire_def test_and_set_def block_run bind_run panic_if_def holding_def cpuid_def)

lemma alone_release: "alone 5 l Crit L = release l L"
  by (simp add: eval_nat_numeral release_def block_run bind_run panic_if_def holding_def cpuid_def split: outcome.split)

record spin_sys =
  spl :: lockstate
  spcs :: "nat \<Rightarrow> spc"

definition at_hart_lk :: "nat \<Rightarrow> lockstate \<Rightarrow> lockstate" where
  "at_hart_lk h L = L\<lparr>hart := h\<rparr>"

inductive spin_step :: "lockid \<Rightarrow> spin_sys \<Rightarrow> spin_sys \<Rightarrow> bool" for l where
  goes_on: "spin_atom l (spcs s h) (at_hart_lk h (spl s)) = Ok q L \<Longrightarrow>
    spin_step l s \<lparr>spl = L, spcs = (spcs s)(h := q)\<rparr>"
| panics: "spin_atom l (spcs s h) (at_hart_lk h (spl s)) = Panic e \<Longrightarrow>
    spin_step l s \<lparr>spl = spl s, spcs = (spcs s)(h := Dead e)\<rparr>"

inductive_cases spin_stepE: "spin_step l s t"

text \<open>
  All harts are outside, with the lock free; a hart may hold other locks, within the range of
  the \<^verbatim>\<open>int\<close> that counts them, with interrupts off.
\<close>

definition spin_start :: "lockid \<Rightarrow> spin_sys \<Rightarrow> bool" where
  "spin_start l s \<longleftrightarrow> lock_free l (spl s) \<and>
     (\<forall>h. spcs s h = Out \<and> 0 \<le> noff (cpus (spl s) h) \<and> noff (cpus (spl s) h) < 2 ^ 31 - 1 \<and>
       (0 < noff (cpus (spl s) h) \<longrightarrow> \<not> intr_get (at_hart_lk h (spl s))))"

text \<open>Between the swap that took the lock and the store that gives it back.\<close>

definition inside :: "spin_sys \<Rightarrow> nat \<Rightarrow> bool" where
  "inside s h \<longleftrightarrow> spcs s h \<in> {AcqCpu, Crit, RelOwner, RelCpu, RelWord}"

definition nest_ok :: "lockstate \<Rightarrow> nat \<Rightarrow> spc \<Rightarrow> bool" where
  "nest_ok L h p \<longleftrightarrow> 0 \<le> noff (cpus L h) \<and> (p \<noteq> Out \<longrightarrow> 0 < noff (cpus L h)) \<and>
     (0 < noff (cpus L h) \<longrightarrow> sstatus L h AND SSTATUS_SIE = 0) \<and> (\<forall>e. p \<noteq> Dead e)"

definition spin_owner :: "lockid \<Rightarrow> spin_sys \<Rightarrow> nat option \<Rightarrow> bool" where
  "spin_owner l s w \<longleftrightarrow>
     (\<forall>h. inside s h = (w = Some h)) \<and> (sl_locked (locks (spl s) l) \<noteq> 0) = (w \<noteq> None) \<and>
     (\<forall>h. (sl_cpu (locks (spl s) l) = Some h) = (spcs s h \<in> {Crit, RelOwner, RelCpu})) \<and>
     (\<forall>h. nest_ok (spl s) h (spcs s h))"

lemma spin_owner_move:
  assumes I: "spin_owner l s w" and nest: "nest_ok L h q" "\<And>g. g \<noteq> h \<Longrightarrow> cpus L g = cpus (spl s) g \<and> sstatus L g = sstatus (spl s) g"
    and word: "(sl_locked (locks L l) \<noteq> 0) = (w' \<noteq> None)"
    and owner: "\<And>g. (w' = Some g) = (if g = h then q \<in> {AcqCpu, Crit, RelOwner, RelCpu, RelWord} else w = Some g)"
    and cpu: "\<And>g. (sl_cpu (locks L l) = Some g) = (if g = h then q \<in> {Crit, RelOwner, RelCpu} else sl_cpu (locks (spl s) l) = Some g)"
  shows "spin_owner l \<lparr>spl = L, spcs = (spcs s)(h := q)\<rparr> w'"
proof -
  have "nest_ok L g (if g = h then q else spcs s g)" for g
    using I nest by (simp add: spin_owner_def nest_ok_def)
  then show ?thesis using I word owner cpu by (auto simp: spin_owner_def inside_def)
qed

lemma pop_off_nested:
  assumes "0 < noff (cpus L h)" "sstatus L h AND SSTATUS_SIE = 0" "hart L = h"
  obtains M where "pop_off L = Ok () M" "locks M = locks L" "nest_ok M h Out"
    "\<And>g. g \<noteq> h \<Longrightarrow> cpus M g = cpus L g \<and> sstatus M g = sstatus L g"
proof -
  let ?M = "set_mycpu (\<lambda>c. c\<lparr>noff := noff c - 1\<rparr>) L"
  let ?N = "if noff (cpus L h) = 1 \<and> intena (cpus L h) then intr_on ?M else ?M"
  have "pop_off L = Ok () ?N"
    using assms by (auto simp: pop_off_def block_run bind_run panic_if_def only_if_def lock_defs)
  then show thesis
    by (rule that) (use assms in \<open>auto simp: nest_ok_def lock_defs\<close>)
qed

text \<open>No step of a hart panics, and each keeps track of who is inside.\<close>

lemma spin_atom_owner:
  assumes I: "spin_owner l s w"
  shows "\<exists>q L w'. spin_atom l (spcs s h) (at_hart_lk h (spl s)) = Ok q L \<and> spin_owner l \<lparr>spl = L, spcs = (spcs s)(h := q)\<rparr> w'"
proof -
  let ?L = "at_hart_lk h (spl s)"
  have i: "(spcs s h \<in> {AcqCpu, Crit, RelOwner, RelCpu, RelWord}) = (w = Some h)" "(sl_locked (locks (spl s) l) \<noteq> 0) = (w \<noteq> None)"
    "\<And>g. (sl_cpu (locks (spl s) l) = Some g) = (spcs s g \<in> {Crit, RelOwner, RelCpu})"
    "\<And>g. (spcs s g \<in> {AcqCpu, Crit, RelOwner, RelCpu, RelWord}) = (w = Some g)"
    and k: "nest_ok (spl s) h (spcs s h)"
    using I by (simp_all add: spin_owner_def inside_def)
  note move = spin_owner_move [OF I, of _ h]
  show ?thesis
  proof (cases "spcs s h")
    case Out
    have "spin_owner l \<lparr>spl = pushed ?L, spcs = (spcs s)(h := AcqWord)\<rparr> w"
      by (rule move) (use Out i k in \<open>auto simp: nest_ok_def pushed_def at_hart_lk_def mycpu_def cpuid_def and.assoc\<close>)
    then show ?thesis using Out by (auto simp: bind_run push_off_run)
  next
    case AcqWord
    have "spin_owner l \<lparr>spl = ?L, spcs = (spcs s)(h := q)\<rparr> w" if "q = AcqOwner \<or> q = AcqSwap" for q
      by (rule move) (use AcqWord i k that in \<open>auto simp: nest_ok_def at_hart_lk_def\<close>)
    then show ?thesis using AcqWord by (auto simp: bind_run)
  next
    case AcqOwner
    have "spin_owner l \<lparr>spl = ?L, spcs = (spcs s)(h := AcqSwap)\<rparr> w"
      by (rule move) (use AcqOwner i k in \<open>auto simp: nest_ok_def at_hart_lk_def\<close>)
    then show ?thesis using AcqOwner i(3) [of h] by (auto simp: bind_run at_hart_lk_def cpuid_def)
  next
    case AcqSwap
    let ?M = "set_lock l (\<lambda>k. k\<lparr>sl_locked := 1\<rparr>) ?L"
    have "spin_owner l \<lparr>spl = ?M, spcs = (spcs s)(h := AcqSwap)\<rparr> w" if "w \<noteq> None"
      by (rule move) (use AcqSwap i k that in \<open>auto simp: nest_ok_def at_hart_lk_def set_lock_def\<close>)
    moreover have "spin_owner l \<lparr>spl = ?M, spcs = (spcs s)(h := AcqCpu)\<rparr> (Some h)" if "w = None"
      by (rule move) (use AcqSwap i k that in \<open>auto simp: nest_ok_def at_hart_lk_def set_lock_def\<close>)
    ultimately show ?thesis using AcqSwap i(2) by (cases w) (auto simp: bind_run at_hart_lk_def)
  next
    case AcqCpu
    let ?M = "set_lock l (\<lambda>k. k\<lparr>sl_cpu := Some h\<rparr>) ?L"
    have "sl_cpu (locks (spl s) l) \<noteq> Some g" if "g \<noteq> h" for g using AcqCpu i(3) [of g] i(1) i(4) [of g] that by auto
    then have "spin_owner l \<lparr>spl = ?M, spcs = (spcs s)(h := Crit)\<rparr> w"
      by (intro move) (use AcqCpu i(1,2) k in \<open>auto simp: nest_ok_def at_hart_lk_def set_lock_def\<close>)
    then show ?thesis using AcqCpu by (auto simp: bind_run at_hart_lk_def cpuid_def)
  next
    case Crit
    have "spin_owner l \<lparr>spl = ?L, spcs = (spcs s)(h := RelOwner)\<rparr> w"
      by (rule move) (use Crit i k in \<open>auto simp: nest_ok_def at_hart_lk_def\<close>)
    then show ?thesis using Crit i(1,2) by (auto simp: bind_run at_hart_lk_def)
  next
    case RelOwner
    have "spin_owner l \<lparr>spl = ?L, spcs = (spcs s)(h := RelCpu)\<rparr> w"
      by (rule move) (use RelOwner i k in \<open>auto simp: nest_ok_def at_hart_lk_def\<close>)
    then show ?thesis using RelOwner i(3) [of h] by (auto simp: bind_run at_hart_lk_def cpuid_def)
  next
    case RelCpu
    let ?M = "set_lock l (\<lambda>k. k\<lparr>sl_cpu := None\<rparr>) ?L"
    have "sl_cpu (locks (spl s) l) \<noteq> Some g" if "g \<noteq> h" for g using RelCpu i(3) [of g] i(1) i(4) [of g] that by auto
    then have "spin_owner l \<lparr>spl = ?M, spcs = (spcs s)(h := RelWord)\<rparr> w"
      by (intro move) (use RelCpu i(1,2) k in \<open>auto simp: nest_ok_def at_hart_lk_def set_lock_def\<close>)
    then show ?thesis using RelCpu by (auto simp: bind_run)
  next
    case RelWord
    let ?M = "set_lock l (\<lambda>k. k\<lparr>sl_locked := 0\<rparr>) ?L"
    have "spin_owner l \<lparr>spl = ?M, spcs = (spcs s)(h := RelPop)\<rparr> None"
      by (rule move) (use RelWord i k in \<open>auto simp: nest_ok_def at_hart_lk_def set_lock_def\<close>)
    then show ?thesis using RelWord by (auto simp: bind_run)
  next
    case RelPop
    obtain M where M: "pop_off ?L = Ok () M" "locks M = locks ?L" "nest_ok M h Out"
      "\<And>g. g \<noteq> h \<Longrightarrow> cpus M g = cpus ?L g \<and> sstatus M g = sstatus ?L g"
      by (rule pop_off_nested [of ?L h]) (use RelPop k in \<open>simp_all add: nest_ok_def at_hart_lk_def\<close>)
    have "spin_owner l \<lparr>spl = M, spcs = (spcs s)(h := Out)\<rparr> w"
      by (rule move) (use RelPop i k M in \<open>auto simp: at_hart_lk_def\<close>)
    then show ?thesis using RelPop M(1) by (auto simp: bind_run)
  next
    case (Dead e)
    then show ?thesis using k by (simp add: nest_ok_def)
  qed
qed

lemma spin_step_owner:
  assumes "spin_step l s t" "spin_owner l s w"
  shows "\<exists>w'. spin_owner l t w'"
  using assms(1)
proof (cases rule: spin_step.cases)
  case (goes_on h q L)
  then show ?thesis using spin_atom_owner [OF assms(2), of h] by auto
next
  case (panics h e)
  then show ?thesis using spin_atom_owner [OF assms(2), of h] by auto
qed

lemma spin_start_owner: "spin_start l s \<Longrightarrow> spin_owner l s None"
  by (simp add: spin_start_def spin_owner_def inside_def nest_ok_def lock_free_def at_hart_lk_def intr_get_def)

lemma spin_steps_owner: "(spin_step l)\<^sup>*\<^sup>* s t \<Longrightarrow> spin_start l s \<Longrightarrow> \<exists>w. spin_owner l t w"
  by (induction rule: rtranclp_induct) (blast intro: spin_start_owner spin_step_owner)+

text \<open>
  C2: Mutual exclusion under every interleaving of the single accesses of \<open>acquire\<close> and \<open>release\<close> on
  any number of harts. The accesses are those of the two functions: a hart that nobody interferes
  with does exactly what \<open>acquire\<close>, and from inside \<open>release\<close>, does. In every state that is reached, at
  most one hart is between the swap that took the lock and the store that gives it back, and it has
  interrupts off; the word is set exactly while one is there; \<open>holding\<close> is true for the hart in its
  critical section and for no hart outside of the locked region; and no hart ever reaches a panic of
  \<open>acquire\<close>, \<open>release\<close> or \<open>pop_off\<close>.
\<close>

theorem spinlock_mutual_exclusion:
  assumes "spin_start l s" "(spin_step l)\<^sup>*\<^sup>* s t"
  shows "alone 5 l Out = acquire l \<and> alone 5 l Crit = release l \<and>
    (inside t h \<and> inside t h' \<longrightarrow> h = h') \<and> (inside t h \<longrightarrow> \<not> intr_get (at_hart_lk h (spl t))) \<and>
    (sl_locked (locks (spl t) l) \<noteq> 0) = (\<exists>h. inside t h) \<and>
    (spcs t h = Crit \<longrightarrow> holding l (at_hart_lk h (spl t))) \<and> (holding l (at_hart_lk h (spl t)) \<longrightarrow> inside t h) \<and>
    spcs t h \<noteq> Dead e"
proof -
  obtain w where w: "spin_owner l t w" using spin_steps_owner [OF assms(2,1)] by blast
  have "\<not> intr_get (at_hart_lk h (spl t))" if "inside t h"
  proof -
    have "nest_ok (spl t) h (spcs t h)" using w by (simp add: spin_owner_def)
    moreover have "spcs t h \<noteq> Out" using that by (auto simp: inside_def)
    ultimately show ?thesis by (simp add: nest_ok_def at_hart_lk_def intr_get_def)
  qed
  moreover have "alone 5 l Out = acquire l" "alone 5 l Crit = release l" by (simp_all add: alone_acquire alone_release fun_eq_iff)
  ultimately show ?thesis
    using w by (cases w) (auto simp: spin_owner_def holding_def inside_def nest_ok_def at_hart_lk_def cpuid_def)
qed

theorem spinlock_mutual_exclusion_witness:
  "\<exists>t. (spin_step KmemLock)\<^sup>*\<^sup>* \<lparr>spl = boot_hart, spcs = (\<lambda>_. Out)\<rparr> t \<and> spcs t 2 = Crit \<and> holding KmemLock (at_hart_lk 2 (spl t)) \<and>
     \<not> inside t 0"
proof -
  let ?s = "\<lparr>spl = boot_hart, spcs = (\<lambda>_. Out)\<rparr>"
  have s: "spin_start KmemLock ?s" by (simp add: spin_start_def) (simp add: boot_hart_def)
  define L1 where "L1 = pushed (at_hart_lk 2 boot_hart)"
  define L2 where "L2 = set_lock KmemLock (\<lambda>k. k\<lparr>sl_locked := 1\<rparr>) L1"
  define L3 where "L3 = set_lock KmemLock (\<lambda>k. k\<lparr>sl_cpu := Some 2\<rparr>) L2"
  have at: "at_hart_lk 2 L1 = L1" "at_hart_lk 2 L2 = L2" "sl_locked (locks L1 KmemLock) = 0" "cpuid L2 = 2"
    by (simp_all add: L1_def L2_def at_hart_lk_def pushed_def set_lock_def boot_hart_def cpuid_def)
  have st: "(spin_step KmemLock)\<^sup>*\<^sup>* ?s \<lparr>spl = M, spcs = (\<lambda>_. Out)(2 := q)\<rparr>"
    if "(spin_step KmemLock)\<^sup>*\<^sup>* ?s \<lparr>spl = L, spcs = (\<lambda>_. Out)(2 := p)\<rparr>" "spin_atom KmemLock p (at_hart_lk 2 L) = Ok q M" for L M p q
    using that(1) spin_step.goes_on [of KmemLock "\<lparr>spl = L, spcs = (\<lambda>_. Out)(2 := p)\<rparr>" 2 q M] that(2)
    by (simp add: rtranclp.rtrancl_into_rtrancl)
  have "(\<lambda>_ :: nat. Out)(2 := Out) = (\<lambda>_. Out)" by (rule ext) simp
  then have "(spin_step KmemLock)\<^sup>*\<^sup>* ?s \<lparr>spl = boot_hart, spcs = (\<lambda>_. Out)(2 := Out)\<rparr>" by (simp only: rtranclp.rtrancl_refl)
  from st [OF this, of AcqWord L1] have "(spin_step KmemLock)\<^sup>*\<^sup>* ?s \<lparr>spl = L1, spcs = (\<lambda>_. Out)(2 := AcqWord)\<rparr>"
    by (simp add: bind_run push_off_run L1_def)
  from st [OF this, of AcqSwap L1] have "(spin_step KmemLock)\<^sup>*\<^sup>* ?s \<lparr>spl = L1, spcs = (\<lambda>_. Out)(2 := AcqSwap)\<rparr>"
    by (simp add: bind_run at)
  from st [OF this, of AcqCpu L2] have "(spin_step KmemLock)\<^sup>*\<^sup>* ?s \<lparr>spl = L2, spcs = (\<lambda>_. Out)(2 := AcqCpu)\<rparr>"
    by (simp add: bind_run at L2_def)
  from st [OF this, of Crit L3] have r: "(spin_step KmemLock)\<^sup>*\<^sup>* ?s \<lparr>spl = L3, spcs = (\<lambda>_. Out)(2 := Crit)\<rparr>"
    by (simp add: bind_run at L3_def)
  from spinlock_mutual_exclusion [OF s r, of 2 0] r show ?thesis
    by (intro exI [of _ "\<lparr>spl = L3, spcs = (\<lambda>_. Out)(2 := Crit)\<rparr>"]) (auto simp: inside_def)
qed

end
