(* ===== verification/Xv6_String.thy ===== *)
theory Xv6_String
  imports Xv6_Prelude
begin

text \<open>
  The memory and string routines of \<^verbatim>\<open>kernel/string.c\<close> over byte-addressed memory, loop by
  loop. \<open>cstr m p xs\<close> says that the NUL-terminated string \<open>xs\<close> lies at \<open>p\<close>. The lemmas
  relate each loop to what it computes on byte lists: \<open>memset\<close> and \<open>memmove\<close> to one write of
  a list (overlapping ranges included), the comparison loops to comparisons of lists, and
  the copying loops to the bytes they leave behind.
\<close>

section \<open>Operations\<close>

text \<open>
  The index of \<open>memset\<close> is an \<^verbatim>\<open>int\<close> in C, which is a natural number here: the two agree below \<open>2^31\<close>
  bytes, and the kernel sets at most a page.
\<close>

function memset_from :: "u64 \<Rightarrow> u8 \<Rightarrow> nat \<Rightarrow> nat \<Rightarrow> mem \<Rightarrow> mem" where
  "memset_from dst c i n m =
     (if i < n then memset_from dst c (Suc i) n (m(dst + of_nat i := c)) else m)"
  by pat_completeness auto
termination
  by (relation "measure (\<lambda>(dst, c, i, n, m). n - i)") auto

declare memset_from.simps [simp del]

definition memset :: "u64 \<Rightarrow> u32 \<Rightarrow> u32 \<Rightarrow> mem \<Rightarrow> mem" where
  "memset dst c n m = memset_from dst (ucast c) 0 (unat n) m"

fun memcmp_loop :: "nat \<Rightarrow> u64 \<Rightarrow> u64 \<Rightarrow> mem \<Rightarrow> int" where
  "memcmp_loop 0 s1 s2 m = 0"
| "memcmp_loop (Suc n) s1 s2 m =
     (if m s1 \<noteq> m s2 then uint (m s1) - uint (m s2) else memcmp_loop n (s1 + 1) (s2 + 1) m)"

definition memcmp :: "u64 \<Rightarrow> u64 \<Rightarrow> u32 \<Rightarrow> mem \<Rightarrow> int" where
  "memcmp v1 v2 n m = memcmp_loop (unat n) v1 v2 m"

fun copy_up :: "nat \<Rightarrow> u64 \<Rightarrow> u64 \<Rightarrow> mem \<Rightarrow> mem" where
  "copy_up 0 d s m = m"
| "copy_up (Suc n) d s m = copy_up n (d + 1) (s + 1) (m(d := m s))"

fun copy_down :: "nat \<Rightarrow> u64 \<Rightarrow> u64 \<Rightarrow> mem \<Rightarrow> mem" where
  "copy_down 0 d s m = m"
| "copy_down (Suc n) d s m = copy_down n (d - 1) (s - 1) (m(d - 1 := m (s - 1)))"

definition memmove :: "u64 \<Rightarrow> u64 \<Rightarrow> u32 \<Rightarrow> mem \<Rightarrow> mem" where
  "memmove dst src n m =
     (if n = 0 then m
      else if src < dst \<and> src + ucast n > dst
      then copy_down (unat n) (dst + ucast n) (src + ucast n) m
      else copy_up (unat n) dst src m)"

definition memcpy :: "u64 \<Rightarrow> u64 \<Rightarrow> u32 \<Rightarrow> mem \<Rightarrow> mem" where
  "memcpy dst src n m = memmove dst src n m"

fun strncmp_loop :: "nat \<Rightarrow> u64 \<Rightarrow> u64 \<Rightarrow> mem \<Rightarrow> int" where
  "strncmp_loop 0 p q m = 0"
| "strncmp_loop (Suc n) p q m =
     (if m p \<noteq> 0 \<and> m p = m q then strncmp_loop n (p + 1) (q + 1) m
      else uint (m p) - uint (m q))"

definition strncmp :: "u64 \<Rightarrow> u64 \<Rightarrow> u32 \<Rightarrow> mem \<Rightarrow> int" where
  "strncmp p q n m = strncmp_loop (unat n) p q m"

text \<open>
  \<^verbatim>\<open>strncpy\<close>: the first loop copies until a NUL or the count runs out and hands the advanced
  pointer and count to the second loop, which pads with zeros.
\<close>

fun strncpy_pad :: "nat \<Rightarrow> u64 \<Rightarrow> mem \<Rightarrow> mem" where
  "strncpy_pad 0 s m = m"
| "strncpy_pad (Suc n) s m = strncpy_pad n (s + 1) (m(s := 0))"

fun strncpy_copy :: "nat \<Rightarrow> u64 \<Rightarrow> u64 \<Rightarrow> mem \<Rightarrow> mem" where
  "strncpy_copy 0 s t m = m"
| "strncpy_copy (Suc n) s t m =
     (let m' = m(s := m t) in
      if m t \<noteq> 0 then strncpy_copy n (s + 1) (t + 1) m' else strncpy_pad n (s + 1) m')"

definition strncpy :: "u64 \<Rightarrow> u64 \<Rightarrow> int \<Rightarrow> mem \<Rightarrow> mem" where
  "strncpy s t n m = strncpy_copy (nat n) s t m"

text \<open>
  \<^verbatim>\<open>safestrcpy\<close>: \<^verbatim>\<open>--n > 0\<close> is tested before each copy, so at most \<open>n - 1\<close> bytes are copied;
  the result is the pointer at which the closing NUL is stored, with the memory.
\<close>

fun safestrcpy_loop :: "nat \<Rightarrow> u64 \<Rightarrow> u64 \<Rightarrow> mem \<Rightarrow> u64 \<times> mem" where
  "safestrcpy_loop 0 s t m = (s, m)"
| "safestrcpy_loop (Suc n) s t m =
     (let m' = m(s := m t) in
      if m t \<noteq> 0 then safestrcpy_loop n (s + 1) (t + 1) m' else (s + 1, m'))"

definition safestrcpy :: "u64 \<Rightarrow> u64 \<Rightarrow> int \<Rightarrow> mem \<Rightarrow> mem" where
  "safestrcpy s t n m =
     (if n \<le> 0 then m
      else (case safestrcpy_loop (nat (n - 1)) s t m of (s', m') \<Rightarrow> m'(s' := 0)))"

text \<open>The count is an \<^verbatim>\<open>int\<close>: counting beyond its range, which C leaves undefined, has no result.\<close>

partial_function (option) strlen_from :: "u64 \<Rightarrow> nat \<Rightarrow> mem \<Rightarrow> nat option" where
  "strlen_from s n m =
     (if m (s + of_nat n) \<noteq> 0 then (if Suc n < 2 ^ 31 then strlen_from s (Suc n) m else None) else Some n)"

definition strlen :: "u64 \<Rightarrow> mem \<Rightarrow> nat option" where
  "strlen s m = strlen_from s 0 m"

section \<open>Copies as writes of a list\<close>

lemma copy_up_at:
  assumes "d = s \<or> n \<le> unat (d - s)" "n < 2 ^ 64"
  shows "copy_up n d s m x = (if unat (x - d) < n then m (s + (x - d)) else m x)"
  using assms
proof (induction n arbitrary: d s m)
  case 0
  then show ?case by simp
next
  case (Suc n)
  have IH: "copy_up n (d + 1) (s + 1) (m(d := m s)) x =
      (if unat (x - (d + 1)) < n then (m(d := m s)) (s + 1 + (x - (d + 1)))
       else (m(d := m s)) x)"
    using Suc.prems by (intro Suc.IH) auto
  have e: "s + 1 + (x - (d + 1)) = s + (x - d)" by simp
  show ?case
  proof (cases "x = d")
    case True
    have "unat (d - (d + 1)) = 2 ^ 64 - 1" by simp
    with True Suc.prems IH show ?thesis by simp
  next
    case False
    have "s + (x - d) \<noteq> d" if "unat (x - d) < Suc n"
    proof
      assume "s + (x - d) = d"
      then have "d - s = x - d" by (metis add_diff_cancel_left')
      with that Suc.prems False unat_pred(2) [OF False] show False by auto
    qed
    with False IH e unat_pred [OF False] show ?thesis by auto
  qed
qed

lemma copy_down_at:
  assumes "d = s \<or> n \<le> unat (s - d)" "n < 2 ^ 64"
  shows "copy_down n (d + of_nat n) (s + of_nat n) m x =
    (if unat (x - d) < n then m (s + (x - d)) else m x)"
  using assms
proof (induction n arbitrary: m)
  case 0
  then show ?case by simp
next
  case (Suc n)
  let ?m = "m(d + of_nat n := m (s + of_nat n))"
  have IH: "copy_down n (d + of_nat n) (s + of_nat n) ?m x =
      (if unat (x - d) < n then ?m (s + (x - d)) else ?m x)"
    using Suc.prems by (intro Suc.IH) auto
  have n: "unat (of_nat n :: u64) = n"
    using Suc.prems by (simp add: unat_of_nat)
  have "copy_down (Suc n) (d + of_nat (Suc n)) (s + of_nat (Suc n)) m x =
      copy_down n (d + of_nat n) (s + of_nat n) ?m x"
    by (simp add: algebra_simps)
  also have "\<dots> = (if unat (x - d) < Suc n then m (s + (x - d)) else m x)"
  proof (cases "x = d + of_nat n")
    case True
    with IH n show ?thesis by simp
  next
    case False
    then have "unat (x - d) \<noteq> n"
      using Suc.prems by (simp add: offset_eq_iff)
    moreover have "s + (x - d) \<noteq> d + of_nat n" if "unat (x - d) < n"
    proof
      assume "s + (x - d) = d + of_nat n"
      then have sd: "s - d = of_nat n - (x - d)" by (simp add: algebra_simps)
      have "unat (of_nat n - (x - d)) = n - unat (x - d)"
        using that n by (subst unat_sub) (auto simp: word_le_nat_alt)
      then have "\<not> Suc n \<le> unat (s - d)" by (simp only: sd)
      with Suc.prems have "s = d" by simp
      with sd False show False by (simp add: algebra_simps)
    qed
    ultimately show ?thesis using IH False by auto
  qed
  finally show ?case .
qed

lemma mwrite_mread_at:
  "n < 2 ^ 64 \<Longrightarrow> mwrite m d (mread m s n) x = (if unat (x - d) < n then m (s + (x - d)) else m x)"
  by (simp add: mwrite_at)

lemma memmove_eq:
  assumes "unat src + unat n < 2 ^ 64" "unat dst + unat n < 2 ^ 64"
  shows "memmove dst src n m = mwrite m dst (mread m src (unat n))"
proof (rule ext)
  fix x
  have n: "unat n < 2 ^ 64" "(of_nat (unat n) :: u64) = ucast n"
    by simp_all
  have e: "unat (src + ucast n) = unat src + unat n"
    using assms(1) by (simp add: unat_word_ariths)
  have w: "mwrite m dst (mread m src (unat n)) x =
      (if unat (x - dst) < unat n then m (src + (x - dst)) else m x)"
    using n(1) by (rule mwrite_mread_at)
  show "memmove dst src n m x = mwrite m dst (mread m src (unat n)) x"
  proof (cases "src < dst \<and> src + ucast n > dst")
    case True
    then have "unat n \<le> unat (src - dst)"
      using assms by (simp add: unat_sub_if' word_less_nat_alt)
    then have "copy_down (unat n) (dst + ucast n) (src + ucast n) m x =
        (if unat (x - dst) < unat n then m (src + (x - dst)) else m x)"
      using copy_down_at [of dst src "unat n" m x] n by simp
    with True w show ?thesis
      by (auto simp: memmove_def)
  next
    case False
    have "dst = src \<or> unat n \<le> unat (dst - src)"
      using False e assms by (auto simp: unat_sub_if' word_less_nat_alt not_less word_unat_eq_iff)
    then have "copy_up (unat n) dst src m x =
        (if unat (x - dst) < unat n then m (src + (x - dst)) else m x)"
      using n(1) by (rule copy_up_at)
    with False w show ?thesis
      by (auto simp: memmove_def)
  qed
qed

lemma memset_from_at:
  "n \<le> 2 ^ 64 \<Longrightarrow> i \<le> n \<Longrightarrow> memset_from dst c i n m x =
     (if i \<le> unat (x - dst) \<and> unat (x - dst) < n then c else m x)"
proof (induction dst c i n m rule: memset_from.induct)
  case (1 dst c i n m)
  show ?case
  proof (cases "i < n")
    case True
    have IH: "memset_from dst c (Suc i) n (m(dst + of_nat i := c)) x =
        (if Suc i \<le> unat (x - dst) \<and> unat (x - dst) < n then c
         else (m(dst + of_nat i := c)) x)"
      using True "1.prems" by (intro "1.IH") auto
    have "x = dst + of_nat i \<longleftrightarrow> unat (x - dst) = i"
      using True "1.prems" by (subst offset_eq_iff) auto
    with True show ?thesis
      unfolding memset_from.simps [of dst c i n m] IH if_P [OF True] by auto
  qed (auto simp: memset_from.simps [of dst c i])
qed

lemma memset_eq: "memset dst c n m = mwrite m dst (replicate (unat n) (ucast c))"
proof (rule ext)
  fix x
  have "unat n \<le> 2 ^ 64"
    by simp
  then show "memset dst c n m x = mwrite m dst (replicate (unat n) (ucast c)) x"
    by (simp add: memset_def memset_from_at mwrite_at)
qed

lemma memcmp_loop_eq: "memcmp_loop n a b m = 0 \<longleftrightarrow> mread m a n = mread m b n"
  by (induction n arbitrary: a b) (auto simp: mread_Suc word_uint_eq_iff)

section \<open>NUL-terminated strings\<close>

primrec cstr :: "mem \<Rightarrow> u64 \<Rightarrow> u8 list \<Rightarrow> bool" where
  "cstr m p [] \<longleftrightarrow> m p = 0"
| "cstr m p (x # xs) \<longleftrightarrow> m p = x \<and> x \<noteq> 0 \<and> cstr m (p + 1) xs"

lemma cstr_iff: "cstr m p xs \<longleftrightarrow> 0 \<notin> set xs \<and> mread m p (Suc (length xs)) = xs @ [0]"
  by (induction xs arbitrary: p) (auto simp: mread_Suc)

lemma cstr_mwrite:
  assumes "0 \<notin> set xs" "length xs + Suc (length ys) \<le> 2 ^ 64"
  shows "cstr (mwrite m p (xs @ 0 # ys)) p xs"
proof -
  have "mread (mwrite m p (xs @ 0 # ys)) p (Suc (length xs)) =
      take (Suc (length xs)) (mread (mwrite m p (xs @ 0 # ys)) p (length (xs @ 0 # ys)))"
    by (rule nth_equalityI) (simp_all del: upt_Suc)
  also have "\<dots> = xs @ [0]"
    using assms by (subst mread_mwrite_same) simp_all
  finally show ?thesis using assms by (simp add: cstr_iff)
qed

lemma cstr_upd:
  "(\<And>i. i \<le> length xs \<Longrightarrow> p + of_nat i \<noteq> a) \<Longrightarrow> cstr (m(a := v)) p xs = cstr m p xs"
proof (induction xs arbitrary: p)
  case Nil
  from Nil [of 0] show ?case by simp
next
  case (Cons x xs)
  have "p + 1 + of_nat i \<noteq> a" if "i \<le> length xs" for i
    using Cons.prems [of "Suc i"] that by (simp add: algebra_simps)
  then have "cstr (m(a := v)) (p + 1) xs = cstr m (p + 1) xs" by (rule Cons.IH)
  with Cons.prems [of 0] show ?case by (simp add: fun_upd_def)
qed

text \<open>
  The copying loops from a string \<open>xs\<close> at \<open>t\<close> to \<open>n\<close> bytes at \<open>s\<close> that do not meet it. \<open>clear\<close>
  is the disjointness as the loops use it.
\<close>

definition clear :: "u64 \<Rightarrow> nat \<Rightarrow> u64 \<Rightarrow> nat \<Rightarrow> bool" where
  "clear t k s n \<longleftrightarrow> (\<forall>i<k. \<forall>j<n. t + of_nat i \<noteq> s + of_nat j)"

lemma clear_apart: "apart t k s n \<Longrightarrow> n \<le> 2 ^ 64 \<Longrightarrow> clear t k s n"
  by (simp add: clear_def apart_ne)

lemma clear_Suc: "clear t (Suc k) s (Suc n) \<Longrightarrow> clear (t + 1) k (s + 1) n"
  unfolding clear_def
  by (metis (no_types, lifting) Suc_mono add.assoc of_nat_Suc)

lemma clear_cstr:
  assumes "clear t (Suc (length xs)) s (Suc n)"
  shows "cstr (m(s := v)) t xs = cstr m t xs"
proof (rule cstr_upd)
  fix i
  assume "i \<le> length xs"
  then have "t + of_nat i \<noteq> s + of_nat 0"
    using assms unfolding clear_def by (blast intro: le_imp_less_Suc zero_less_Suc)
  then show "t + of_nat i \<noteq> s" by simp
qed

lemma safestrcpy_loop_eq:
  assumes "cstr m t xs" "clear t (Suc (length xs)) s n" "n < 2 ^ 64"
  shows "safestrcpy_loop n s t m =
    (s + of_nat (min n (Suc (length xs))), mwrite m s (take n (xs @ [0])))"
  using assms
proof (induction n arbitrary: s t m xs)
  case 0
  then show ?case by simp
next
  case (Suc n)
  show ?case
  proof (cases xs)
    case Nil
    with Suc.prems show ?thesis by (simp add: mwrite_Cons fun_upd_def)
  next
    case (Cons x ys)
    have c: "cstr (m(s := x)) t xs"
      using Suc.prems clear_cstr by blast
    have "safestrcpy_loop n (s + 1) (t + 1) (m(s := x)) =
        (s + 1 + of_nat (min n (Suc (length ys))), mwrite (m(s := x)) (s + 1) (take n (ys @ [0])))"
      using c Cons Suc.prems by (intro Suc.IH) (auto simp: fun_upd_def intro: clear_Suc)
    with Suc.prems Cons show ?thesis by (simp add: mwrite_Cons algebra_simps)
  qed
qed

lemma safestrcpy_eq:
  assumes "cstr m t xs" "0 < n" "n < 2 ^ 31" "apart t (Suc (length xs)) s (nat n)"
  shows "safestrcpy s t n m = mwrite m s (take (nat n - 1) (xs @ [0]) @ [0])"
proof -
  have "clear t (Suc (length xs)) s (nat n)"
    using assms by (intro clear_apart) auto
  then have "clear t (Suc (length xs)) s (nat n - 1)"
    by (auto simp: clear_def)
  define ys where "ys = take (nat n - 1) (xs @ [0])"
  have len: "length ys = min (nat n - 1) (Suc (length xs))"
    by (simp only: ys_def length_take length_append_singleton min.commute)
  with assms have "length ys + length [0 :: u8] \<le> 2 ^ 64" by simp
  note w = mwrite_append [OF this, of m s]
  have "safestrcpy_loop (nat n - 1) s t m = (s + of_nat (length ys), mwrite m s ys)"
    unfolding len unfolding ys_def using assms \<open>clear t (Suc (length xs)) s (nat n - 1)\<close>
    by (intro safestrcpy_loop_eq) auto
  moreover have "nat (n - 1) = nat n - 1" using assms by simp
  ultimately show ?thesis
    using assms w unfolding ys_def [symmetric] by (simp add: safestrcpy_def mwrite_Cons)
qed

lemma strncpy_pad_eq: "n < 2 ^ 64 \<Longrightarrow> strncpy_pad n s m = mwrite m s (replicate n 0)"
  by (induction n arbitrary: s m) (simp_all add: mwrite_Cons)

lemma strncpy_copy_eq:
  assumes "cstr m t xs" "clear t (Suc (length xs)) s n" "n < 2 ^ 64"
  shows "strncpy_copy n s t m = mwrite m s (take n (xs @ replicate n 0))"
  using assms
proof (induction n arbitrary: s t m xs)
  case 0
  then show ?case by simp
next
  case (Suc n)
  show ?case
  proof (cases xs)
    case Nil
    with Suc.prems show ?thesis by (simp add: mwrite_Cons strncpy_pad_eq fun_upd_def)
  next
    case (Cons x ys)
    have c: "cstr (m(s := x)) t xs"
      using Suc.prems clear_cstr by blast
    have "strncpy_copy n (s + 1) (t + 1) (m(s := x)) =
        mwrite (m(s := x)) (s + 1) (take n (ys @ replicate n 0))"
      using c Cons Suc.prems by (intro Suc.IH) (auto simp: fun_upd_def intro: clear_Suc)
    moreover have "take n (ys @ replicate (Suc n) 0) = take n (ys @ replicate n (0 :: u8))"
      by (simp add: replicate_append_same [symmetric] take_Cons' del: replicate_append_same)
    ultimately show ?thesis
      using Suc.prems Cons by (simp add: mwrite_Cons)
  qed
qed

lemma strncmp_loop_eq:
  "cstr m p xs \<Longrightarrow> cstr m q ys \<Longrightarrow> strncmp_loop n p q m = 0 \<longleftrightarrow> take n xs = take n ys"
proof (induction n arbitrary: p q xs ys)
  case 0
  then show ?case by simp
next
  case (Suc n)
  then show ?case
    by (cases xs; cases ys) (auto simp: word_uint_eq_iff)
qed

lemma strlen_from_eq:
  "cstr m (s + of_nat n) xs \<Longrightarrow> n + length xs < 2 ^ 31 \<Longrightarrow> strlen_from s n m = Some (n + length xs)"
proof (induction xs arbitrary: n)
  case Nil
  then show ?case by (simp add: strlen_from.simps)
next
  case (Cons x xs)
  then have "strlen_from s (Suc n) m = Some (Suc n + length xs)"
    by (intro Cons.IH) (simp add: algebra_simps, simp)
  with Cons.prems show ?case by (simp add: strlen_from.simps [of s n])
qed

section \<open>Properties\<close>

text \<open>
  C5: \<open>memmove\<close> copies correctly whatever the overlap of the two ranges: afterwards the
  destination holds the bytes that the source held before the call, and no byte outside the
  destination has changed.
\<close>

theorem memmove_correct:
  assumes "unat src + unat n < 2 ^ 64" "unat dst + unat n < 2 ^ 64"
  shows "mread (memmove dst src n m) dst (unat n) = mread m src (unat n) \<and>
    (\<forall>x. unat (x - dst) < unat n \<or> memmove dst src n m x = m x)"
proof
  show "mread (memmove dst src n m) dst (unat n) = mread m src (unat n)"
    using mread_mwrite_same [of "mread m src (unat n)" m dst]
    by (simp add: memmove_eq [OF assms])
  show "\<forall>x. unat (x - dst) < unat n \<or> memmove dst src n m x = m x"
    by (simp add: memmove_eq [OF assms] mwrite_at)
qed

theorem memmove_correct_witness:
  "mread (memmove 1002 1000 5 (\<lambda>a. ucast a)) 1002 5 = mread (\<lambda>a. ucast a) 1000 5"
  using memmove_correct [of 1000 5 1002 "\<lambda>a. ucast a"] by simp

text \<open>
  C6: \<open>safestrcpy\<close> leaves a NUL-terminated string, the source string cut to \<open>n - 1\<close> bytes, and
  writes nothing outside the \<open>n\<close> bytes of the destination.
\<close>

theorem safestrcpy_terminates:
  assumes "cstr m t xs" "0 < n" "n < 2 ^ 31" "apart t (Suc (length xs)) s (nat n)"
  shows "cstr (safestrcpy s t n m) s (take (nat n - 1) xs) \<and>
    (\<forall>x. unat (x - s) < nat n \<or> safestrcpy s t n m x = m x)"
proof
  have nz: "0 \<notin> set xs" using assms(1) by (simp add: cstr_iff)
  have le: "length (take (nat n - 1) (xs @ [0]) @ [0 :: u8]) \<le> nat n"
    using assms(2) by simp
  obtain zs where zs: "take (nat n - 1) (xs @ [0]) @ [0] = take (nat n - 1) xs @ 0 # zs"
    by (cases "nat n - 1 \<le> length xs") (auto simp: Suc_diff_le)
  have "cstr (mwrite m s (take (nat n - 1) xs @ 0 # zs)) s (take (nat n - 1) xs)"
    using le assms(3) nz unfolding zs by (intro cstr_mwrite) (auto dest: in_set_takeD)
  then show "cstr (safestrcpy s t n m) s (take (nat n - 1) xs)"
    using safestrcpy_eq [OF assms] zs by simp
  show "\<forall>x. unat (x - s) < nat n \<or> safestrcpy s t n m x = m x"
    using le unfolding safestrcpy_eq [OF assms] by (auto simp: mwrite_at)
qed

theorem safestrcpy_terminates_witness:
  "cstr (safestrcpy 100 200 3 (mwrite (\<lambda>_. 0) 200 [105, 110, 105, 116])) 100 [105, 110]"
  using safestrcpy_terminates [of "mwrite (\<lambda>_. 0) 200 [105, 110, 105, 116]" 200
      "[105, 110, 105, 116]" 3 100]
  by (simp add: mwrite_at apart_def)

text \<open>
  C7: On NUL-terminated strings shorter than \<open>2^31\<close> bytes, the range of the \<^verbatim>\<open>int\<close> it returns, \<open>strlen\<close>
  returns and gives their length. \<open>strncmp\<close> is zero exactly when the first \<open>n\<close> bytes agree, and \<open>strncpy\<close> fills \<open>n\<close> bytes with the string padded
  with zeros (cut, and then not terminated, if it is longer).
\<close>

theorem string_routines_on_strings:
  assumes "cstr m p xs" "cstr m q ys"
  shows "(length xs < 2 ^ 31 \<longrightarrow> strlen p m = Some (length xs)) \<and>
    (strncmp p q k m = 0) = (take (unat k) xs = take (unat k) ys) \<and>
    (0 \<le> n \<longrightarrow> n < 2 ^ 31 \<longrightarrow> apart p (Suc (length xs)) d (nat n) \<longrightarrow>
      strncpy d p n m = mwrite m d (take (nat n) (xs @ replicate (nat n) 0)))"
proof (intro conjI impI)
  assume "length xs < 2 ^ 31"
  then show "strlen p m = Some (length xs)"
    using strlen_from_eq [of m p 0 xs] assms by (simp add: strlen_def)
next
  show "(strncmp p q k m = 0) = (take (unat k) xs = take (unat k) ys)"
    unfolding strncmp_def using assms by (rule strncmp_loop_eq)
  assume n: "0 \<le> n" "n < 2 ^ 31" "apart p (Suc (length xs)) d (nat n)"
  then have "clear p (Suc (length xs)) d (nat n)" by (intro clear_apart) auto
  then show "strncpy d p n m = mwrite m d (take (nat n) (xs @ replicate (nat n) 0))"
    unfolding strncpy_def using assms n by (intro strncpy_copy_eq) auto
qed

theorem string_routines_on_strings_witness:
  "strlen 200 (mwrite (\<lambda>_. 0) 200 [46, 46]) = Some 2 \<and>
   strncmp 200 201 14 (mwrite (\<lambda>_. 0) 200 [46, 46]) \<noteq> 0 \<and>
   strncpy 300 200 4 (mwrite (\<lambda>_. 0) 200 [46, 46]) =
     mwrite (mwrite (\<lambda>_. 0) 200 [46, 46]) 300 [46, 46, 0, 0]"
proof -
  have "take (nat 4) ([46, 46] @ replicate (nat 4) 0) = [46, 46, 0, 0 :: u8]" by code_simp
  then show ?thesis
    using string_routines_on_strings [of "mwrite (\<lambda>_. 0) 200 [46, 46]" 200 "[46, 46]" 201 "[46]"
        14 4 300]
    by (simp add: mwrite_at apart_def)
qed

end
