(* ===== verification/Xv6_Kalloc.thy ===== *)
theory Xv6_Kalloc
  imports Xv6_Spinlock Xv6_String
begin

text \<open>
  The physical page allocator, \<^verbatim>\<open>kernel/kalloc.c\<close>. The free list is threaded through the free
  pages themselves: the first eight bytes of a free page are \<^verbatim>\<open>struct run\<close>, the address of the
  next one. \<open>free_pages s ps\<close> is the abstraction: the list in memory is \<open>ps\<close>, without
  repetition, of aligned pages of the range the kernel manages. The interface \<open>page_store\<close> is
  the contract its clients rely on, interpreted at the end on \<open>kalloc\<close> and \<open>kfree\<close>.
\<close>

section \<open>State and operations\<close>

record kmem_state = kbase +
  pmem :: mem
  freelist :: u64
  kend :: u64 \<comment> \<open>first address after the kernel, set by \<^verbatim>\<open>kernel.ld\<close>\<close>

definition on_mem :: "(mem \<Rightarrow> mem) \<Rightarrow> ('z kmem_state_scheme, unit) kern" where
  "on_mem f = modify (\<lambda>s. s\<lparr>pmem := f (pmem s)\<rparr>)"

definition kfree :: "u64 \<Rightarrow> ('z kmem_state_scheme, unit) kern" where
  "kfree pa = block [
     bind (gets kend) (\<lambda>e. panic_if (pa mod PGSIZE \<noteq> 0 \<or> pa < e \<or> pa \<ge> PHYSTOP) ''kfree''),
     on_mem (memset pa 1 PGSIZE),
     with_lock KmemLock (block [
       bind (gets freelist) (\<lambda>f. on_mem (\<lambda>m. store64 m pa f)),
       modify (\<lambda>s. s\<lparr>freelist := pa\<rparr>)])]"

definition kalloc :: "('z kmem_state_scheme, u64) kern" where
  "kalloc =
     bind (with_lock KmemLock (bind (gets freelist) (\<lambda>r.
       bind (only_if (r \<noteq> 0) (modify (\<lambda>s. s\<lparr>freelist := load64 (pmem s) r\<rparr>))) (\<lambda>_. ret r))))
     (\<lambda>r. bind (only_if (r \<noteq> 0) (on_mem (memset r 5 PGSIZE))) (\<lambda>_. ret r))"

text \<open>
  The loop of \<^verbatim>\<open>freerange\<close>: the pointer and the end are addresses inside the kernel's memory,
  so that the pointer arithmetic does not wrap.
\<close>

function freerange_loop :: "nat \<Rightarrow> nat \<Rightarrow> ('z kmem_state_scheme, unit) kern" where
  "freerange_loop p pa_end =
     (if p + PGSIZE \<le> pa_end
      then bind (kfree (of_nat p)) (\<lambda>_. freerange_loop (p + PGSIZE) pa_end)
      else ret ())"
  by pat_completeness auto
termination
  by (relation "measure (\<lambda>(p, e). e - p)") auto

declare freerange_loop.simps [simp del]

definition freerange :: "u64 \<Rightarrow> u64 \<Rightarrow> ('z kmem_state_scheme, unit) kern" where
  "freerange pa_start pa_end = freerange_loop (unat (PGROUNDUP pa_start)) (unat pa_end)"

definition kinit :: "('z kmem_state_scheme, unit) kern" where
  "kinit = block [
     on_lk (initlock KmemLock ''kmem''),
     bind (gets kend) (\<lambda>e. freerange e PHYSTOP)]"

section \<open>Pages\<close>

definition good_page :: "'z kmem_state_scheme \<Rightarrow> u64 \<Rightarrow> bool" where
  "good_page s p \<longleftrightarrow> p mod PGSIZE = 0 \<and> kend s \<le> p \<and> p < PHYSTOP \<and> p \<noteq> 0"

lemma page_dvd: "(p :: u64) mod PGSIZE = 0 \<longleftrightarrow> 4096 dvd unat p"
  by (simp add: word_unat_eq_iff unat_mod dvd_eq_mod_eq_0)

lemma pages_diff:
  assumes "(p :: u64) mod PGSIZE = 0" "q mod PGSIZE = 0" "p \<noteq> q"
  shows "4096 \<le> unat (q - p)"
proof -
  have "4096 dvd unat (q - p)"
    using assms(1,2) unfolding page_dvd by (simp add: unat_sub_if' dvd_diff_nat)
  moreover have "0 < unat (q - p)"
    using assms(3) unat_gt_0 [of "q - p"] by simp
  ultimately show ?thesis by (simp add: dvd_imp_le)
qed

lemma pages_apart:
  "p mod PGSIZE = 0 \<Longrightarrow> q mod PGSIZE = 0 \<Longrightarrow> p \<noteq> q \<Longrightarrow> n \<le> 4096 \<Longrightarrow> k \<le> 4096 \<Longrightarrow> apart p n q k"
  using pages_diff [of p q] pages_diff [of q p] by (simp add: apart_def)

text \<open>The free list in memory: \<open>chain m p ps\<close> says that \<open>ps\<close> are the nodes from \<open>p\<close> on.\<close>

primrec chain :: "mem \<Rightarrow> u64 \<Rightarrow> u64 list \<Rightarrow> bool" where
  "chain m p [] \<longleftrightarrow> p = 0"
| "chain m p (q # ps) \<longleftrightarrow> p = q \<and> p \<noteq> 0 \<and> chain m (load64 m p) ps"

lemma chain_cong:
  "(\<And>p. p \<in> set ps \<Longrightarrow> mread m' p 8 = mread m p 8) \<Longrightarrow> chain m' p ps = chain m p ps"
  by (induction ps arbitrary: p) (auto simp: load64_def)

definition free_pages :: "'z kmem_state_scheme \<Rightarrow> u64 list \<Rightarrow> bool" where
  "free_pages s ps \<longleftrightarrow>
     chain (pmem s) (freelist s) ps \<and> distinct ps \<and> (\<forall>p\<in>set ps. good_page s p)"

lemma load64_memset_other:
  assumes "p mod PGSIZE = 0" "q mod PGSIZE = 0" "p \<noteq> q"
  shows "mread (memset q c PGSIZE m) p 8 = mread m p 8"
  unfolding memset_eq using assms by (intro mread_mwrite_apart pages_apart) simp_all

lemma load64_store64_other:
  assumes "p mod PGSIZE = 0" "q mod PGSIZE = 0" "p \<noteq> q"
  shows "mread (store64 m q v) p 8 = mread m p 8"
  unfolding store64_def using assms by (intro mread_mwrite_apart pages_apart) simp_all

lemma load64_store64 [simp]: "load64 (store64 m a v) a = v"
  using mread_mwrite_same [of "le_bytes 8 v" m a] by (simp add: load64_def store64_def le_word_bytes)

section \<open>Running the operations\<close>

lemma obliv_on_mem [oblivI]: "obliv (on_mem f)"
  unfolding on_mem_def by (intro oblivI) simp

lemma on_mem_run [kern_simps, simp]: "on_mem f s = Ok () (s\<lparr>pmem := f (pmem s)\<rparr>)"
  by (simp add: on_mem_def)

lemma kfree_run:
  assumes "calm (lk s)"
  shows "kfree pa s =
    (if pa mod PGSIZE \<noteq> 0 \<or> pa < kend s \<or> pa \<ge> PHYSTOP then Panic ''kfree''
     else Ok () (s\<lparr>pmem := store64 (memset pa 1 PGSIZE (pmem s)) pa (freelist s), freelist := pa\<rparr>))"
proof -
  let ?body = "block [bind (gets freelist) (\<lambda>f. on_mem (\<lambda>m. store64 m pa f)),
    modify (\<lambda>s. s\<lparr>freelist := pa\<rparr>)]"
  let ?t = "s\<lparr>pmem := memset pa 1 PGSIZE (pmem s)\<rparr>"
  have "obliv ?body" by (auto intro!: oblivI)
  then have "with_lock KmemLock ?body ?t = ?body ?t"
    using assms by (intro with_lock_obliv) (simp_all add: calm_def)
  then show ?thesis
    by (simp add: kfree_def kern_simps panic_if_def)
qed

lemma kalloc_run:
  assumes "calm (lk s)"
  shows "kalloc s =
    (if freelist s = 0 then Ok 0 s
     else Ok (freelist s) (s\<lparr>freelist := load64 (pmem s) (freelist s),
       pmem := memset (freelist s) 5 PGSIZE (pmem s)\<rparr>))"
proof -
  let ?body = "bind (gets freelist) (\<lambda>r.
    bind (only_if (r \<noteq> 0) (modify (\<lambda>s. s\<lparr>freelist := load64 (pmem s) r\<rparr>))) (\<lambda>_. ret r))"
  have "obliv ?body" by (intro oblivI) simp_all
  then have "with_lock KmemLock ?body s = ?body s"
    using assms by (intro with_lock_obliv) (simp_all add: calm_def)
  then show ?thesis
    by (simp add: kalloc_def kern_simps only_if_def)
qed

lemma free_pages_alloc:
  assumes "free_pages s (p # ps)"
  shows "free_pages (s\<lparr>freelist := load64 (pmem s) (freelist s),
    pmem := memset (freelist s) 5 PGSIZE (pmem s)\<rparr>) ps"
proof -
  have "chain (memset p 5 PGSIZE (pmem s)) q ps = chain (pmem s) q ps" for q
    using assms by (intro chain_cong load64_memset_other) (auto simp: free_pages_def good_page_def)
  with assms show ?thesis by (auto simp: free_pages_def good_page_def)
qed

lemma free_pages_free:
  assumes "free_pages s ps" "good_page s p" "p \<notin> set ps"
  shows "free_pages (s\<lparr>pmem := store64 (memset p 1 PGSIZE (pmem s)) p (freelist s),
    freelist := p\<rparr>) (p # ps)"
proof -
  have "mread (store64 (memset p 1 PGSIZE (pmem s)) p (freelist s)) q 8 = mread (pmem s) q 8"
    if "q \<in> set ps" for q
  proof -
    have q: "q mod PGSIZE = 0" "p mod PGSIZE = 0" "q \<noteq> p"
      using that assms by (auto simp: free_pages_def good_page_def)
    then show ?thesis by (metis load64_store64_other load64_memset_other)
  qed
  then have "chain (store64 (memset p 1 PGSIZE (pmem s)) p (freelist s)) q ps = chain (pmem s) q ps" for q
    by (rule chain_cong)
  with assms show ?thesis by (auto simp: free_pages_def good_page_def)
qed

section \<open>The allocator's contract\<close>

text \<open>
  What clients rely on: \<open>avail s ps\<close> says that \<open>ps\<close> are the pages the allocator owns.
  \<open>alloc_many\<close> makes \<open>n\<close> allocations in a row, \<open>free_many\<close> gives a list of pages back.
\<close>

primrec alloc_many :: "('s, u64) kern \<Rightarrow> nat \<Rightarrow> ('s, u64 list) kern" where
  "alloc_many alloc 0 = ret []"
| "alloc_many alloc (Suc n) = bind alloc (\<lambda>p. bind (alloc_many alloc n) (\<lambda>ps. ret (p # ps)))"

primrec free_many :: "(u64 \<Rightarrow> ('s, unit) kern) \<Rightarrow> u64 list \<Rightarrow> ('s, unit) kern" where
  "free_many free [] = ret ()"
| "free_many free (p # ps) = bind (free p) (\<lambda>_. free_many free ps)"

locale page_store =
  fixes alloc :: "('s, u64) kern"
    and free :: "u64 \<Rightarrow> ('s, unit) kern"
    and avail :: "'s \<Rightarrow> u64 list \<Rightarrow> bool"
    and valid :: "u64 \<Rightarrow> bool"
  assumes alloc_Nil: "avail s [] \<Longrightarrow> alloc s = Ok 0 s"
    and alloc_Cons: "avail s (p # ps) \<Longrightarrow> \<exists>t. alloc s = Ok p t \<and> avail t ps"
    and free_Cons: "avail s ps \<Longrightarrow> valid p \<Longrightarrow> p \<notin> set ps \<Longrightarrow> \<exists>t. free p s = Ok () t \<and> avail t (p # ps)"
    and avail_pages: "avail s ps \<Longrightarrow> distinct ps \<and> (\<forall>p\<in>set ps. valid p \<and> p \<noteq> 0)"
begin

lemma alloc_many_take:
  "avail s ps \<Longrightarrow> n \<le> length ps \<Longrightarrow> \<exists>t. alloc_many alloc n s = Ok (take n ps) t \<and> avail t (drop n ps)"
proof (induction n arbitrary: s ps)
  case 0
  then show ?case by simp
next
  case (Suc n)
  then obtain p qs where ps: "ps = p # qs" by (cases ps) auto
  with Suc.prems obtain u where u: "alloc s = Ok p u" "avail u qs"
    using alloc_Cons by blast
  with Suc.IH [of u qs] Suc.prems ps show ?case
    by (auto simp: kern_simps)
qed

lemma free_many_back:
  "avail s ps \<Longrightarrow> distinct (qs @ ps) \<Longrightarrow> (\<And>q. q \<in> set qs \<Longrightarrow> valid q) \<Longrightarrow>
     \<exists>t. free_many free qs s = Ok () t \<and> avail t (rev qs @ ps)"
proof (induction qs arbitrary: s ps)
  case Nil
  then show ?case by simp
next
  case (Cons q qs)
  then obtain u where u: "free q s = Ok () u" "avail u (q # ps)"
    using free_Cons [of s ps q] by auto
  with Cons.IH [of u "q # ps"] Cons.prems show ?case
    by (auto simp: kern_simps)
qed

text \<open>No page is handed out twice, and giving the pages back restores the stock.\<close>

lemma alloc_many_distinct:
  assumes "avail s ps" "n \<le> length ps"
  shows "\<exists>qs t. alloc_many alloc n s = Ok qs t \<and> length qs = n \<and> distinct qs \<and> 0 \<notin> set qs \<and>
    avail t (drop n ps) \<and> set qs \<inter> set (drop n ps) = {} \<and>
    (\<exists>u. free_many free qs t = Ok () u \<and> avail u (rev qs @ drop n ps))"
proof -
  obtain t where t: "alloc_many alloc n s = Ok (take n ps) t" "avail t (drop n ps)"
    using alloc_many_take assms by blast
  have d: "distinct (take n ps @ drop n ps)" "set (take n ps) \<inter> set (drop n ps) = {}"
      "\<forall>p\<in>set (take n ps). valid p \<and> p \<noteq> 0"
    using avail_pages [OF assms(1)] set_take_disj_set_drop_if_distinct [of ps n n]
    by (auto dest: in_set_takeD)
  then obtain u where "free_many free (take n ps) t = Ok () u" "avail u (rev (take n ps) @ drop n ps)"
    using free_many_back [OF t(2) d(1)] by blast
  with t d assms(2) show ?thesis
    by (intro exI [of _ "take n ps"] exI [of _ t]) auto
qed

end

section \<open>Kalloc provides it\<close>

definition managed :: "u64 \<Rightarrow> u64 \<Rightarrow> bool" where
  "managed e p \<longleftrightarrow> p mod PGSIZE = 0 \<and> e \<le> p \<and> p < PHYSTOP \<and> p \<noteq> 0"

lemma good_page_managed: "good_page s p \<longleftrightarrow> managed (kend s) p"
  by (simp add: good_page_def managed_def)

definition kmem_avail :: "u64 \<Rightarrow> 'z kmem_state_scheme \<Rightarrow> u64 list \<Rightarrow> bool" where
  "kmem_avail e s ps \<longleftrightarrow> calm (lk s) \<and> kend s = e \<and> free_pages s ps"

lemma kalloc_avail:
  "kmem_avail e s [] \<Longrightarrow> kalloc s = Ok 0 s"
  "kmem_avail e s (p # ps) \<Longrightarrow> \<exists>t. kalloc s = Ok p t \<and> kmem_avail e t ps"
  using free_pages_alloc [of s p ps]
  by (auto simp: kmem_avail_def kalloc_run) (simp_all add: free_pages_def)

lemma kfree_avail:
  assumes "kmem_avail e s ps" "managed e p" "p \<notin> set ps"
  shows "\<exists>t. kfree p s = Ok () t \<and> kmem_avail e t (p # ps)"
proof -
  have "free_pages s ps" "good_page s p" and c: "calm (lk s)" "kend s = e"
    using assms by (auto simp: kmem_avail_def good_page_managed)
  from free_pages_free [OF this(1,2) assms(3)] c assms(2) show ?thesis
    by (simp add: kmem_avail_def kfree_run managed_def linorder_not_le [symmetric])
qed

interpretation kmem: page_store kalloc kfree "kmem_avail e" "managed e" for e
proof
  fix s :: "'a kmem_state_scheme" and p ps
  show "kmem_avail e s [] \<Longrightarrow> kalloc s = Ok 0 s"
    and "kmem_avail e s (p # ps) \<Longrightarrow> \<exists>t. kalloc s = Ok p t \<and> kmem_avail e t ps"
    by (rule kalloc_avail; assumption)+
  show "kmem_avail e s ps \<Longrightarrow> managed e p \<Longrightarrow> p \<notin> set ps \<Longrightarrow>
      \<exists>t. kfree p s = Ok () t \<and> kmem_avail e t (p # ps)"
    by (rule kfree_avail)
  show "kmem_avail e s ps \<Longrightarrow> distinct ps \<and> (\<forall>p\<in>set ps. managed e p \<and> p \<noteq> 0)"
    by (auto simp: kmem_avail_def free_pages_def good_page_managed managed_def)
qed

section \<open>Building the free list\<close>

definition pages_between :: "nat \<Rightarrow> nat \<Rightarrow> u64 list" where
  "pages_between a e = map (\<lambda>i. of_nat (a + i * PGSIZE)) [0..<(e - a) div PGSIZE]"

lemma pages_between_step:
  assumes "a + PGSIZE \<le> e"
  shows "pages_between a e = of_nat a # pages_between (a + PGSIZE) e"
proof -
  have "(e - a) div PGSIZE = Suc ((e - (a + PGSIZE)) div PGSIZE)"
    using assms by (simp add: le_div_geq)
  then show ?thesis
    unfolding pages_between_def
    by (simp add: upt_conv_Cons map_Suc_upt [symmetric] algebra_simps del: upt_Suc)
qed

lemma pages_between_stop: "\<not> a + PGSIZE \<le> e \<Longrightarrow> pages_between a e = []"
  by (simp add: pages_between_def)

lemma freerange_loop_avail:
  assumes "kmem_avail k s ps" "4096 dvd a" "unat k \<le> a" "0 < a" "e \<le> PHYSTOP"
    "\<And>q. q \<in> set ps \<Longrightarrow> unat q < a"
  shows "\<exists>t. freerange_loop a e s = Ok () t \<and> kmem_avail k t (rev (pages_between a e) @ ps)"
  using assms
proof (induction a e arbitrary: s ps rule: freerange_loop.induct)
  case (1 a e)
  show ?case
  proof (cases "a + PGSIZE \<le> e")
    case True
    have u: "unat (of_nat a :: u64) = a"
      using True "1.prems" by (simp add: unat_of_nat)
    then have "managed k (of_nat a)"
      using True "1.prems" unfolding managed_def page_dvd
      by (auto simp: word_le_nat_alt word_less_nat_alt)
    moreover have "of_nat a \<notin> set ps"
      using "1.prems"(6) [of "of_nat a"] u by auto
    ultimately obtain t where t: "kfree (of_nat a) s = Ok () t" "kmem_avail k t (of_nat a # ps)"
      using kfree_avail "1.prems" by blast
    have "\<exists>t'. freerange_loop (a + PGSIZE) e t = Ok () t' \<and>
        kmem_avail k t' (rev (pages_between (a + PGSIZE) e) @ of_nat a # ps)"
      using True t(2) "1.prems" u by (intro "1.IH") (auto intro: trans_less_add1)
    with True t(1) show ?thesis
      by (subst freerange_loop.simps) (simp add: kern_simps pages_between_step)
  qed (use "1.prems" in \<open>simp add: freerange_loop.simps pages_between_stop\<close>)
qed

lemma set_pages_between:
  assumes "0 < k" "k < PHYSTOP"
  shows "set (pages_between (unat (PGROUNDUP k)) PHYSTOP) = {p. managed k p}"
proof -
  let ?a = "unat (PGROUNDUP k)"
  have "unat k < PHYSTOP"
    using assms by (simp add: word_less_nat_alt)
  then have a: "?a = (unat k + 4095) div 4096 * 4096"
    by (simp add: unat_PGROUNDUP)
  have "p \<in> set (pages_between ?a PHYSTOP) \<longleftrightarrow> managed k p" for p
  proof
    assume "p \<in> set (pages_between ?a PHYSTOP)"
    then obtain i where i: "i < (PHYSTOP - ?a) div PGSIZE" "p = of_nat (?a + i * PGSIZE)"
      by (auto simp: pages_between_def)
    then have "?a + i * PGSIZE < PHYSTOP" by linarith
    then have u: "unat p = ?a + i * PGSIZE"
      using i(2) by (simp add: unat_of_nat del: of_nat_add of_nat_mult)
    moreover have "unat k \<le> ?a" "4096 dvd ?a" "0 < ?a"
      using a assms(1) by (auto simp: word_less_nat_alt)
    ultimately show "managed k p"
      using \<open>?a + i * PGSIZE < PHYSTOP\<close>
      unfolding managed_def page_dvd by (auto simp: word_le_nat_alt word_less_nat_alt)
  next
    assume "managed k p"
    then have p: "4096 dvd unat p" "unat k \<le> unat p" "unat p < PHYSTOP"
      unfolding managed_def page_dvd by (auto simp: word_le_nat_alt word_less_nat_alt)
    from p(1) obtain j where j: "unat p = 4096 * j" by blast
    define i where "i = j - (unat k + 4095) div 4096"
    have "(unat k + 4095) div 4096 \<le> j" "j < 557056"
      using p j by linarith+
    then have i: "i < (PHYSTOP - ?a) div PGSIZE" "?a + i * PGSIZE = unat p"
      using a j by (auto simp: i_def algebra_simps)
    have "p = of_nat (?a + i * PGSIZE)"
      unfolding i(2) by simp
    with i(1) show "p \<in> set (pages_between ?a PHYSTOP)"
      unfolding pages_between_def by auto
  qed
  then show ?thesis by blast
qed

lemma calm_initlock:
  assumes "settled L" "\<And>l'. l' \<noteq> l \<Longrightarrow> lock_free l' L"
  shows "\<exists>L'. initlock l name L = Ok () L' \<and> calm L'"
  using assms by (auto simp: initlock_def calm_def settled_def lock_free_def lock_defs)

section \<open>Properties\<close>

text \<open>
  C12: \<open>kalloc\<close> and \<open>kfree\<close> implement a stack of free pages. \<open>kalloc\<close> returns the first free page
  (0 when there is none), filled with junk, removes it from the list and touches no other
  byte. \<open>kfree\<close> of an aligned page of the managed range that is not free yet puts it in front;
  of any other address it panics.
\<close>

theorem kalloc_kfree_implement_stack:
  assumes "calm (lk s)" "free_pages s ps" "kend s \<noteq> 0"
  shows "(\<exists>t. kalloc s = Ok (case ps of [] \<Rightarrow> 0 | p # _ \<Rightarrow> p) t \<and> calm (lk t) \<and> free_pages t (tl ps) \<and>
      (case ps of [] \<Rightarrow> t = s
       | p # _ \<Rightarrow> mread (pmem t) p PGSIZE = replicate PGSIZE 5 \<and>
           (\<forall>x. unat (x - p) < PGSIZE \<or> pmem t x = pmem s x))) \<and>
    (if pa mod PGSIZE = 0 \<and> kend s \<le> pa \<and> pa < PHYSTOP
     then pa \<in> set ps \<or> (\<exists>t. kfree pa s = Ok () t \<and> calm (lk t) \<and> free_pages t (pa # ps))
     else kfree pa s = Panic ''kfree'')"
    (is "?A \<and> ?F")
proof
  show ?A
  proof (cases ps)
    case Nil
    with assms show ?thesis by (simp add: kalloc_run free_pages_def)
  next
    case (Cons p qs)
    with assms(2) have p: "freelist s = p" "p \<noteq> 0" by (auto simp: free_pages_def)
    have "mread (memset p 5 PGSIZE (pmem s)) p PGSIZE = replicate PGSIZE 5"
      using mread_mwrite_same [of "replicate PGSIZE 5" "pmem s" p] by (simp add: memset_eq)
    with Cons assms p show ?thesis
      using free_pages_alloc [of s p qs]
      by (auto simp: kalloc_run memset_eq mwrite_at)
  qed
  have a: "kmem_avail (kend s) s ps" using assms by (simp add: kmem_avail_def)
  show ?F
  proof (cases "pa mod PGSIZE = 0 \<and> kend s \<le> pa \<and> pa < PHYSTOP")
    case True
    then have "managed (kend s) pa"
      using assms(3) by (auto simp: managed_def)
    with True kfree_avail [OF a] show ?thesis by (auto simp: kmem_avail_def)
  next
    case False
    with assms(1) show ?thesis by (auto simp: kfree_run)
  qed
qed

definition one_page :: kmem_state where
  "one_page = \<lparr>lk = boot_hart, pmem = (\<lambda>_. 0), freelist = 0x87FFF000, kend = 0x87FFE000\<rparr>"

lemma one_page_free: "calm (lk one_page)" "free_pages one_page [0x87FFF000]" "kend one_page \<noteq> 0"
  "kmem_avail 0x87FFE000 one_page [0x87FFF000]"
  by (simp_all add: one_page_def free_pages_def good_page_def kmem_avail_def)

theorem kalloc_kfree_implement_stack_witness:
  "(\<exists>t. kalloc one_page = Ok 0x87FFF000 t \<and> free_pages t []) \<and>
   (\<exists>t. kfree 0x87FFE000 one_page = Ok () t \<and> free_pages t [0x87FFE000, 0x87FFF000]) \<and>
   kfree 0x87FFE008 one_page = Panic ''kfree''"
  using kalloc_kfree_implement_stack [OF one_page_free(1-3), where pa = "0x87FFE000"]
    kalloc_kfree_implement_stack [OF one_page_free(1-3), where pa = "0x87FFE008"]
  by (auto simp: one_page_def)

text \<open>
  C17: No page is handed out twice: \<open>n\<close> calls of \<open>kalloc\<close> with at least \<open>n\<close> free pages return \<open>n\<close>
  different non-null pages, none of which is still free, and \<open>kfree\<close> of them all makes exactly
  the original pages free again.
\<close>

theorem kalloc_never_twice:
  assumes "calm (lk s)" "free_pages s ps" "n \<le> length ps"
  shows "\<exists>qs t u. alloc_many kalloc n s = Ok qs t \<and> length qs = n \<and> distinct qs \<and> 0 \<notin> set qs \<and>
    free_pages t (drop n ps) \<and> set qs \<inter> set (drop n ps) = {} \<and>
    free_many kfree qs t = Ok () u \<and> free_pages u (rev qs @ drop n ps)"
proof -
  have "kmem_avail (kend s) s ps" using assms by (simp add: kmem_avail_def)
  from kmem.alloc_many_distinct [OF this assms(3)] show ?thesis
    unfolding kmem_avail_def by blast
qed

theorem kalloc_never_twice_witness:
  "\<exists>qs t u. alloc_many kalloc 1 one_page = Ok qs t \<and> length qs = 1 \<and>
     free_many kfree qs t = Ok () u \<and> free_pages t []"
  using kalloc_never_twice [OF one_page_free(1,2), where n = 1] by auto

text \<open>
  C18: \<open>kinit\<close>, on any contents of memory, makes free exactly the aligned pages between the end
  of the kernel and \<open>PHYSTOP\<close>, each once.
\<close>

theorem kinit_frees_all_pages:
  assumes "settled (lk s)" "\<And>l. l \<noteq> KmemLock \<Longrightarrow> lock_free l (lk s)"
    and "freelist s = 0" "0 < kend s" "kend s < PHYSTOP"
  shows "\<exists>t ps. kinit s = Ok () t \<and> calm (lk t) \<and> free_pages t ps \<and>
    set ps = {p. p mod PGSIZE = 0 \<and> kend s \<le> p \<and> p < PHYSTOP}"
proof -
  obtain L where L: "initlock KmemLock ''kmem'' (lk s) = Ok () L" "calm L"
    using calm_initlock assms(1,2) by blast
  let ?a = "unat (PGROUNDUP (kend s))"
  have "unat (kend s) < PHYSTOP"
    using assms by (simp add: word_less_nat_alt)
  then have a: "?a = (unat (kend s) + 4095) div 4096 * 4096"
    by (simp add: unat_PGROUNDUP)
  have "\<exists>t. freerange_loop ?a PHYSTOP (s\<lparr>lk := L\<rparr>) = Ok () t \<and>
      kmem_avail (kend s) t (rev (pages_between ?a PHYSTOP) @ [])"
    using L(2) assms a
    by (intro freerange_loop_avail) (auto simp: kmem_avail_def free_pages_def word_less_nat_alt)
  then obtain t where "kinit s = Ok () t" "kmem_avail (kend s) t (rev (pages_between ?a PHYSTOP))"
    using L(1) by (auto simp: kinit_def freerange_def on_lk_def kern_simps)
  moreover have nz: "p \<noteq> 0" if "kend s \<le> p" for p
    using that assms(4) by auto
  have "{p. managed (kend s) p} = {p. p mod PGSIZE = 0 \<and> kend s \<le> p \<and> p < PHYSTOP}"
    using nz unfolding managed_def by blast
  ultimately show ?thesis
    using set_pages_between [OF assms(4,5)]
    by (intro exI [of _ t] exI [of _ "rev (pages_between ?a PHYSTOP)"]) (simp add: kmem_avail_def)
qed

theorem kinit_frees_all_pages_witness:
  "\<exists>t ps. kinit (one_page\<lparr>freelist := 0\<rparr>) = Ok () t \<and> free_pages t ps \<and> 0x87FFE000 \<in> set ps"
  using kinit_frees_all_pages [of "one_page\<lparr>freelist := 0\<rparr>"] by (fastforce simp: one_page_def)

end
