(* ===== verification/Xv6_Vm.thy ===== *)
theory Xv6_Vm
  imports Xv6_Kalloc
begin

text \<open>
  Virtual memory, \<^verbatim>\<open>kernel/vm.c\<close>, with the page table macros of \<^verbatim>\<open>riscv.h\<close> and
  \<^verbatim>\<open>proc_mapstacks\<close> of \<^verbatim>\<open>proc.c\<close>. Page tables are pages of physical memory: \<open>walk\<close> reads and
  writes their entries with \<open>load64\<close> and \<open>store64\<close>, and takes new table pages from \<open>kalloc\<close>.
  A kernel buffer that is copied to or from user space is a list of bytes.

  The second half abstracts a page table to the partial map \<open>tab\<close> from index paths to table
  pages and shows what \<open>walk\<close>, \<open>mappages\<close>, \<open>copyin\<close> and \<open>copyout\<close> do to it.
\<close>

unbundle bit_operations_syntax

section \<open>Page table entries\<close>

abbreviation (input) PTE_V :: u64 where "PTE_V \<equiv> 1"
abbreviation (input) PTE_R :: u64 where "PTE_R \<equiv> 2"
abbreviation (input) PTE_W :: u64 where "PTE_W \<equiv> 4"
abbreviation (input) PTE_X :: u64 where "PTE_X \<equiv> 8"
abbreviation (input) PTE_U :: u64 where "PTE_U \<equiv> 16"

definition PA2PTE :: "u64 \<Rightarrow> u64" where
  "PA2PTE pa = push_bit 10 (drop_bit 12 pa)"

definition PTE2PA :: "u64 \<Rightarrow> u64" where
  "PTE2PA pte = push_bit 12 (drop_bit 10 pte)"

definition PTE_FLAGS :: "u64 \<Rightarrow> u64" where
  "PTE_FLAGS pte = pte AND 0x3FF"

definition PX :: "nat \<Rightarrow> u64 \<Rightarrow> u64" where
  "PX level va = drop_bit (12 + 9 * level) va AND 0x1FF"

definition MAKE_SATP :: "u64 \<Rightarrow> u64" where
  "MAKE_SATP pagetable = push_bit 60 8 OR drop_bit 12 pagetable"

section \<open>Walking and mapping\<close>

definition load_pte :: "u64 \<Rightarrow> ('z kmem_state_scheme, u64) kern" where
  "load_pte pte = gets (\<lambda>s. load64 (pmem s) pte)"

definition store_pte :: "u64 \<Rightarrow> u64 \<Rightarrow> ('z kmem_state_scheme, unit) kern" where
  "store_pte pte v = on_mem (\<lambda>m. store64 m pte v)"

text \<open>The loop of \<^verbatim>\<open>walk\<close> from a level down to level 0.\<close>

fun walk_from :: "nat \<Rightarrow> u64 \<Rightarrow> u64 \<Rightarrow> bool \<Rightarrow> ('z kmem_state_scheme, u64) kern" where
  "walk_from 0 pagetable va alloc = ret (pagetable + 8 * PX 0 va)"
| "walk_from (Suc l) pagetable va alloc =
     (let pte = pagetable + 8 * PX (Suc l) va in
      bind (load_pte pte) (\<lambda>e.
        if e AND PTE_V \<noteq> 0 then walk_from l (PTE2PA e) va alloc
        else if \<not> alloc then ret 0
        else bind kalloc (\<lambda>page.
          if page = 0 then ret 0
          else bind (on_mem (memset page 0 PGSIZE)) (\<lambda>_.
            bind (store_pte pte (PA2PTE page OR PTE_V)) (\<lambda>_. walk_from l page va alloc)))))"

definition walk :: "u64 \<Rightarrow> u64 \<Rightarrow> bool \<Rightarrow> ('z kmem_state_scheme, u64) kern" where
  "walk pagetable va alloc =
     bind (panic_if (va \<ge> MAXVA) ''walk'') (\<lambda>_. walk_from 2 pagetable va alloc)"

definition walkaddr :: "u64 \<Rightarrow> u64 \<Rightarrow> ('z kmem_state_scheme, u64) kern" where
  "walkaddr pagetable va =
     (if va \<ge> MAXVA then ret 0
      else bind (walk pagetable va False) (\<lambda>pte.
        if pte = 0 then ret 0
        else bind (load_pte pte) (\<lambda>e.
          if e AND PTE_V = 0 then ret 0
          else if e AND PTE_U = 0 then ret 0
          else ret (PTE2PA e))))"

text \<open>
  The loop of \<^verbatim>\<open>mappages\<close> ends at the test \<^verbatim>\<open>a == last\<close>; the fuel is the number of pages from
  \<open>a\<close> to \<open>lastp\<close>, both page aligned, and never runs out.
\<close>

fun mappages_loop :: "nat \<Rightarrow> u64 \<Rightarrow> u64 \<Rightarrow> u64 \<Rightarrow> u64 \<Rightarrow> u64 \<Rightarrow> ('z kmem_state_scheme, int) kern" where
  "mappages_loop 0 pagetable a lastp pa perm = panic ''out of fuel''"
| "mappages_loop (Suc n) pagetable a lastp pa perm =
     bind (walk pagetable a True) (\<lambda>pte.
       if pte = 0 then ret (- 1)
       else bind (load_pte pte) (\<lambda>e.
         bind (panic_if (e AND PTE_V \<noteq> 0) ''mappages: remap'') (\<lambda>_.
         bind (store_pte pte (PA2PTE pa OR perm OR PTE_V)) (\<lambda>_.
           if a = lastp then ret 0
           else mappages_loop n pagetable (a + PGSIZE) lastp (pa + PGSIZE) perm))))"

definition mappages :: "u64 \<Rightarrow> u64 \<Rightarrow> u64 \<Rightarrow> u64 \<Rightarrow> u64 \<Rightarrow> ('z kmem_state_scheme, int) kern" where
  "mappages pagetable va sz pa perm =
     bind (panic_if (sz = 0) ''mappages: size'') (\<lambda>_.
       let a = PGROUNDDOWN va; lastp = PGROUNDDOWN (va + sz - 1) in
       mappages_loop (Suc (unat (lastp - a) div PGSIZE)) pagetable a lastp pa perm)"

definition kvmmap :: "u64 \<Rightarrow> u64 \<Rightarrow> u64 \<Rightarrow> u64 \<Rightarrow> u64 \<Rightarrow> ('z kmem_state_scheme, unit) kern" where
  "kvmmap kpgtbl va pa sz perm =
     bind (mappages kpgtbl va sz pa perm) (\<lambda>r. panic_if (r \<noteq> 0) ''kvmmap'')"

section \<open>User address spaces\<close>

text \<open>
  The loops of \<^verbatim>\<open>uvmunmap\<close>, \<^verbatim>\<open>uvmalloc\<close> and \<^verbatim>\<open>uvmcopy\<close> step through virtual addresses; \<open>walk\<close>
  panics from \<open>MAXVA\<close> on, so that the counter never reaches the end of the 64-bit range.
\<close>

function uvmunmap_loop :: "u64 \<Rightarrow> nat \<Rightarrow> nat \<Rightarrow> bool \<Rightarrow> ('z kmem_state_scheme, unit) kern" where
  "uvmunmap_loop pagetable a stop do_free =
     (if a < stop then
        bind (walk pagetable (of_nat a) False) (\<lambda>pte.
        bind (panic_if (pte = 0) ''uvmunmap: walk'') (\<lambda>_.
        bind (load_pte pte) (\<lambda>e.
        bind (panic_if (e AND PTE_V = 0) ''uvmunmap: not mapped'') (\<lambda>_.
        bind (panic_if (PTE_FLAGS e = PTE_V) ''uvmunmap: not a leaf'') (\<lambda>_.
        bind (only_if do_free (kfree (PTE2PA e))) (\<lambda>_.
        bind (store_pte pte 0) (\<lambda>_.
          uvmunmap_loop pagetable (a + PGSIZE) stop do_free)))))))
      else ret ())"
  by pat_completeness auto
termination
  by (relation "measure (\<lambda>(pt, a, e, d). e - a)") auto

declare uvmunmap_loop.simps [simp del]

definition uvmunmap :: "u64 \<Rightarrow> u64 \<Rightarrow> u64 \<Rightarrow> bool \<Rightarrow> ('z kmem_state_scheme, unit) kern" where
  "uvmunmap pagetable va npages do_free =
     bind (panic_if (va mod PGSIZE \<noteq> 0) ''uvmunmap: not aligned'') (\<lambda>_.
       uvmunmap_loop pagetable (unat va) (unat (va + npages * PGSIZE)) do_free)"

definition uvmcreate :: "('z kmem_state_scheme, u64) kern" where
  "uvmcreate =
     bind kalloc (\<lambda>pagetable.
       if pagetable = 0 then ret 0
       else bind (on_mem (memset pagetable 0 PGSIZE)) (\<lambda>_. ret pagetable))"

definition uvmfirst :: "u64 \<Rightarrow> u8 list \<Rightarrow> ('z kmem_state_scheme, unit) kern" where
  "uvmfirst pagetable src =
     bind (panic_if (length src \<ge> PGSIZE) ''uvmfirst: more than a page'') (\<lambda>_.
     bind kalloc (\<lambda>page. block [
       on_mem (memset page 0 PGSIZE),
       bind (mappages pagetable 0 PGSIZE page (PTE_W OR PTE_R OR PTE_X OR PTE_U)) (\<lambda>_. ret ()),
       on_mem (\<lambda>m. mwrite m page src)]))"

definition uvmdealloc :: "u64 \<Rightarrow> u64 \<Rightarrow> u64 \<Rightarrow> ('z kmem_state_scheme, u64) kern" where
  "uvmdealloc pagetable oldsz newsz =
     (if newsz \<ge> oldsz then ret oldsz
      else bind (only_if (PGROUNDUP newsz < PGROUNDUP oldsz)
          (uvmunmap pagetable (PGROUNDUP newsz)
            (scast (ucast ((PGROUNDUP oldsz - PGROUNDUP newsz) div PGSIZE) :: u32)) True))
        (\<lambda>_. ret newsz))"

function uvmalloc_loop :: "u64 \<Rightarrow> nat \<Rightarrow> u64 \<Rightarrow> u64 \<Rightarrow> u64 \<Rightarrow> ('z kmem_state_scheme, u64) kern" where
  "uvmalloc_loop pagetable a oldsz newsz xperm =
     (if a < unat newsz then
        bind kalloc (\<lambda>page.
          if page = 0
          then bind (uvmdealloc pagetable (of_nat a) oldsz) (\<lambda>_. ret 0)
          else bind (on_mem (memset page 0 PGSIZE)) (\<lambda>_.
            bind (mappages pagetable (of_nat a) PGSIZE page (PTE_R OR PTE_U OR xperm)) (\<lambda>r.
              if r \<noteq> 0
              then bind (kfree page) (\<lambda>_.
                bind (uvmdealloc pagetable (of_nat a) oldsz) (\<lambda>_. ret 0))
              else uvmalloc_loop pagetable (a + PGSIZE) oldsz newsz xperm)))
      else ret newsz)"
  by pat_completeness auto
termination
  by (relation "measure (\<lambda>(pt, a, osz, n, x). unat n - a)") auto

declare uvmalloc_loop.simps [simp del]

definition uvmalloc :: "u64 \<Rightarrow> u64 \<Rightarrow> u64 \<Rightarrow> u64 \<Rightarrow> ('z kmem_state_scheme, u64) kern" where
  "uvmalloc pagetable oldsz newsz xperm =
     (if newsz < oldsz then ret oldsz
      else uvmalloc_loop pagetable (unat (PGROUNDUP oldsz)) (PGROUNDUP oldsz) newsz xperm)"

text \<open>
  \<^verbatim>\<open>freewalk\<close> recurses into the table pages; the first argument bounds the depth of the tree,
  3 for the tables of Sv39.
\<close>

primrec freewalk :: "nat \<Rightarrow> u64 \<Rightarrow> ('z kmem_state_scheme, unit) kern" where
  "freewalk 0 = (\<lambda>pagetable. panic ''out of fuel'')"
| "freewalk (Suc depth) = (\<lambda>pagetable.
     bind (block (map (\<lambda>i.
         let slot = pagetable + 8 * of_nat i in
         bind (load_pte slot) (\<lambda>pte.
           if pte AND PTE_V \<noteq> 0 \<and> pte AND (PTE_R OR PTE_W OR PTE_X) = 0
           then bind (freewalk depth (PTE2PA pte)) (\<lambda>_. store_pte slot 0)
           else panic_if (pte AND PTE_V \<noteq> 0) ''freewalk: leaf'')) [0..<512]))
       (\<lambda>_. kfree pagetable))"

definition uvmfree :: "u64 \<Rightarrow> u64 \<Rightarrow> ('z kmem_state_scheme, unit) kern" where
  "uvmfree pagetable sz = block [
     only_if (sz > 0) (uvmunmap pagetable 0 (PGROUNDUP sz div PGSIZE) True),
     freewalk 3 pagetable]"

function uvmcopy_loop :: "u64 \<Rightarrow> u64 \<Rightarrow> nat \<Rightarrow> u64 \<Rightarrow> ('z kmem_state_scheme, int) kern" where
  "uvmcopy_loop old new i sz =
     (let err = bind (uvmunmap new 0 (of_nat i div PGSIZE) True) (\<lambda>_. ret (- 1)) in
      if i < unat sz then
        bind (walk old (of_nat i) False) (\<lambda>pte.
        bind (panic_if (pte = 0) ''uvmcopy: pte should exist'') (\<lambda>_.
        bind (load_pte pte) (\<lambda>e.
        bind (panic_if (e AND PTE_V = 0) ''uvmcopy: page not present'') (\<lambda>_.
        bind kalloc (\<lambda>page.
          if page = 0 then err
          else bind (on_mem (memmove page (PTE2PA e) PGSIZE)) (\<lambda>_.
            bind (mappages new (of_nat i) PGSIZE page (PTE_FLAGS e)) (\<lambda>r.
              if r \<noteq> 0 then bind (kfree page) (\<lambda>_. err)
              else uvmcopy_loop old new (i + PGSIZE) sz)))))))
      else ret 0)"
  by pat_completeness auto
termination
  by (relation "measure (\<lambda>(old, new, i, sz). unat sz - i)") auto

declare uvmcopy_loop.simps [simp del]

definition uvmcopy :: "u64 \<Rightarrow> u64 \<Rightarrow> u64 \<Rightarrow> ('z kmem_state_scheme, int) kern" where
  "uvmcopy old new sz = uvmcopy_loop old new 0 sz"

definition uvmclear :: "u64 \<Rightarrow> u64 \<Rightarrow> ('z kmem_state_scheme, unit) kern" where
  "uvmclear pagetable va =
     bind (walk pagetable va False) (\<lambda>pte.
     bind (panic_if (pte = 0) ''uvmclear'') (\<lambda>_.
     bind (load_pte pte) (\<lambda>e. store_pte pte (e AND NOT PTE_U))))"

section \<open>Copying between kernel and user space\<close>

text \<open>The number of bytes of one iteration: to the end of the page or of the buffer.\<close>

definition page_part :: "u64 \<Rightarrow> nat \<Rightarrow> nat" where
  "page_part va len = min (PGSIZE - unat (va - PGROUNDDOWN va)) len"

lemma page_offset: "unat (va - PGROUNDDOWN va) = unat va mod 4096"
proof -
  have "PGROUNDDOWN va \<le> va"
    by (simp add: word_le_nat_alt unat_PGROUNDDOWN)
  then show ?thesis by (simp add: unat_sub unat_PGROUNDDOWN)
qed

lemma page_part_bounds: "0 < len \<Longrightarrow> 0 < page_part va len" "page_part va len \<le> len"
  by (simp_all add: page_part_def page_offset)

function copyout :: "u64 \<Rightarrow> u64 \<Rightarrow> u8 list \<Rightarrow> ('z kmem_state_scheme, int) kern" where
  "copyout pagetable dstva src =
     (if length src > 0 then
        let va0 = PGROUNDDOWN dstva; n = page_part dstva (length src) in
        bind (walkaddr pagetable va0) (\<lambda>pa0.
          if pa0 = 0 then ret (- 1)
          else bind (on_mem (\<lambda>m. mwrite m (pa0 + (dstva - va0)) (take n src))) (\<lambda>_.
            copyout pagetable (va0 + PGSIZE) (drop n src)))
      else ret 0)"
  by pat_completeness auto
termination
  by (relation "measure (\<lambda>(pt, va, src). length src)") (auto simp: page_part_bounds)

declare copyout.simps [simp del]

text \<open>
  \<open>copyin\<close> and \<open>copyinstr\<close> return the result code and the bytes they have stored in the kernel
  buffer, also when they fail half way.
\<close>

function copyin :: "u64 \<Rightarrow> u64 \<Rightarrow> nat \<Rightarrow> ('z kmem_state_scheme, int \<times> u8 list) kern" where
  "copyin pagetable srcva len =
     (if len > 0 then
        let va0 = PGROUNDDOWN srcva; n = page_part srcva len in
        bind (walkaddr pagetable va0) (\<lambda>pa0.
          if pa0 = 0 then ret (- 1, [])
          else bind (gets (\<lambda>s. mread (pmem s) (pa0 + (srcva - va0)) n)) (\<lambda>bs.
            bind (copyin pagetable (va0 + PGSIZE) (len - n)) (\<lambda>(r, cs). ret (r, bs @ cs))))
      else ret (0, []))"
  by pat_completeness auto
termination
  by (relation "measure (\<lambda>(pt, va, len). len)") (auto simp: page_part_bounds)

declare copyin.simps [simp del]

text \<open>The inner loop of \<^verbatim>\<open>copyinstr\<close>: the bytes stored in \<^verbatim>\<open>dst\<close> and \<^verbatim>\<open>got_null\<close>.\<close>

fun copyinstr_page :: "nat \<Rightarrow> u64 \<Rightarrow> mem \<Rightarrow> u8 list \<times> bool" where
  "copyinstr_page 0 p m = ([], False)"
| "copyinstr_page (Suc n) p m =
     (if m p = 0 then ([0], True)
      else (case copyinstr_page n (p + 1) m of (bs, got_null) \<Rightarrow> (m p # bs, got_null)))"

function copyinstr :: "u64 \<Rightarrow> u64 \<Rightarrow> nat \<Rightarrow> ('z kmem_state_scheme, int \<times> u8 list) kern" where
  "copyinstr pagetable srcva maxlen =
     (if maxlen > 0 then
        let va0 = PGROUNDDOWN srcva; n = page_part srcva maxlen in
        bind (walkaddr pagetable va0) (\<lambda>pa0.
          if pa0 = 0 then ret (- 1, [])
          else bind (gets (\<lambda>s. copyinstr_page n (pa0 + (srcva - va0)) (pmem s))) (\<lambda>(bs, got_null).
            if got_null then ret (0, bs)
            else bind (copyinstr pagetable (va0 + PGSIZE) (maxlen - n))
              (\<lambda>(r, cs). ret (r, bs @ cs))))
      else ret (- 1, []))"
  by pat_completeness auto
termination
  by (relation "measure (\<lambda>(pt, va, len). len)") (auto simp: page_part_bounds)

declare copyinstr.simps [simp del]

section \<open>The kernel's page table\<close>

record vm_state = kmem_state +
  kernel_pagetable :: u64
  satp :: "nat \<Rightarrow> u64"
  etext :: u64 \<comment> \<open>end of kernel code, set by \<^verbatim>\<open>kernel.ld\<close>\<close>
  trampoline :: u64 \<comment> \<open>the code of \<^verbatim>\<open>trampoline.S\<close>\<close>

abbreviation (input) UART0 :: u64 where "UART0 \<equiv> 0x10000000"
abbreviation (input) VIRTIO0 :: u64 where "VIRTIO0 \<equiv> 0x10001000"
abbreviation (input) PLIC :: u64 where "PLIC \<equiv> 0x0c000000"

definition proc_mapstacks :: "u64 \<Rightarrow> ('z kmem_state_scheme, unit) kern" where
  "proc_mapstacks kpgtbl =
     block (map (\<lambda>i.
       bind kalloc (\<lambda>pa.
       bind (panic_if (pa = 0) ''kalloc'') (\<lambda>_.
         kvmmap kpgtbl (KSTACK (of_nat i)) pa PGSIZE (PTE_R OR PTE_W)))) [0..<NPROC])"

definition kvmmake :: "('z vm_state_scheme, u64) kern" where
  "kvmmake =
     bind kalloc (\<lambda>kpgtbl.
     bind (gets etext) (\<lambda>te.
     bind (gets trampoline) (\<lambda>tr.
     bind (block [
       on_mem (memset kpgtbl 0 PGSIZE),
       kvmmap kpgtbl UART0 UART0 PGSIZE (PTE_R OR PTE_W),
       kvmmap kpgtbl VIRTIO0 VIRTIO0 PGSIZE (PTE_R OR PTE_W),
       kvmmap kpgtbl PLIC PLIC 0x400000 (PTE_R OR PTE_W),
       kvmmap kpgtbl KERNBASE KERNBASE (te - KERNBASE) (PTE_R OR PTE_X),
       kvmmap kpgtbl te te (PHYSTOP - te) (PTE_R OR PTE_W),
       kvmmap kpgtbl TRAMPOLINE tr PGSIZE (PTE_R OR PTE_X),
       proc_mapstacks kpgtbl]) (\<lambda>_. ret kpgtbl))))"

definition kvminit :: "('z vm_state_scheme, unit) kern" where
  "kvminit = bind kvmmake (\<lambda>p. modify (\<lambda>s. s\<lparr>kernel_pagetable := p\<rparr>))"

definition kvminithart :: "('z vm_state_scheme, unit) kern" where
  "kvminithart =
     modify (\<lambda>s. s\<lparr>satp := (satp s)(hart (lk s) := MAKE_SATP (kernel_pagetable s))\<rparr>)"

section \<open>Entries and slots\<close>

lemma managed0: "managed 0 p \<longleftrightarrow> p mod PGSIZE = 0 \<and> p < PHYSTOP \<and> p \<noteq> 0"
  by (auto simp: managed_def)

lemma page_bits:
  assumes "(p :: u64) mod PGSIZE = 0" "p < PHYSTOP"
  shows "bit p i \<Longrightarrow> 12 \<le> i \<and> i < 32"
proof -
  assume b: "bit p i"
  have "take_bit 12 p = 0" using assms(1) by (simp add: take_bit_eq_mod)
  then have "\<not> bit (take_bit 12 p) i" by simp
  then have "12 \<le> i" using b by (simp add: bit_take_bit_iff)
  moreover have "unat p < 2 ^ 32"
    using assms(2) by (simp add: word_less_nat_alt)
  then have "i < 32"
    using b by (rule take_bit_self(2))
  ultimately show ?thesis by simp
qed

lemma PTE2PA_PA2PTE:
  assumes "p mod PGSIZE = 0" "p < PHYSTOP" "f < 1024"
  shows "PTE2PA (PA2PTE p OR f) = p"
proof (rule bit_word_eqI)
  fix i
  have "unat f < 2 ^ 10"
    using assms(3) by (simp add: word_less_nat_alt)
  then have f: "bit f j \<Longrightarrow> j < 10" for j by (rule take_bit_self(2))
  show "bit (PTE2PA (PA2PTE p OR f)) i \<longleftrightarrow> bit p i" if "i < LENGTH(64)"
    using page_bits [OF assms(1,2), of i] f [of "i - 2"] that
    by (auto simp: PTE2PA_def PA2PTE_def bit_simps)
qed

lemma PTE_FLAGS_PA2PTE:
  assumes "f < 1024"
  shows "PTE_FLAGS (PA2PTE p OR f) = f"
proof (rule bit_word_eqI)
  fix i
  have "unat f < 2 ^ 10"
    using assms by (simp add: word_less_nat_alt)
  then have f: "bit f j \<Longrightarrow> j < 10" for j by (rule take_bit_self(2))
  have "PTE_FLAGS e = take_bit 10 e" for e
    by (simp add: PTE_FLAGS_def take_bit_eq_mask mask_eq_exp_minus_1)
  then show "bit (PTE_FLAGS (PA2PTE p OR f)) i \<longleftrightarrow> bit f i" if "i < LENGTH(64)"
    using f [of i] that by (auto simp: PA2PTE_def bit_simps)
qed

lemma valid_pte: "(e OR PTE_V) AND PTE_V \<noteq> 0" "(e OR f OR PTE_V) AND PTE_V \<noteq> 0"
  by (simp_all add: bit.conj_disj_distrib2)

definition slot :: "u64 \<Rightarrow> nat \<Rightarrow> u64" where
  "slot pt i = pt + 8 * of_nat i"

definition px :: "nat \<Rightarrow> u64 \<Rightarrow> nat" where
  "px level va = unat (PX level va)"

lemma px_less [simp]: "px l va < 512"
proof -
  have "(0x1FF :: u64) = mask 9" by (simp add: mask_eq_exp_minus_1)
  then have "PX l va = take_bit 9 (drop_bit (12 + 9 * l) va)"
    by (simp add: PX_def take_bit_eq_mask)
  then show ?thesis
    by (simp add: px_def unsigned_take_bit_eq take_bit_eq_mod unat_mod)
qed

lemma slot_px: "pt + 8 * PX l va = slot pt (px l va)"
  by (simp add: slot_def px_def)

lemma unat_slot:
  assumes "pt mod PGSIZE = 0" "i < 512"
  shows "unat (slot pt i) = unat pt + 8 * i"
proof -
  have "4096 dvd unat pt" using assms(1) by (simp only: page_dvd)
  then obtain k where k: "unat pt = 4096 * k" by blast
  have "unat pt < 4096 * 4503599627370496" by (rule less_le_trans [OF unat_u64_less]) simp
  then have "k < 4503599627370496" using k by simp
  then have "unat pt + 8 * i < 2 ^ 64" using k assms(2) by simp
  then show ?thesis
    using assms(2) by (simp add: slot_def unat_word_ariths unat_of_nat)
qed

lemma slot_inj:
  assumes "a mod PGSIZE = 0" "b mod PGSIZE = 0" "i < 512" "j < 512" "slot a i = slot b j"
  shows "a = b \<and> i = j"
proof -
  have "4096 dvd unat a" "4096 dvd unat b" using assms by (simp_all only: page_dvd)
  then obtain k l where k: "unat a = 4096 * k" "unat b = 4096 * l" by blast
  have "unat a + 8 * i = unat b + 8 * j"
    using unat_slot assms by metis
  with k have e: "512 * k + i = 512 * l + j" by simp
  then have "(512 * k + i) div 512 = (512 * l + j) div 512" by (simp only:)
  with assms(3,4) have "k = l" by simp
  with e have "i = j" by simp
  with k \<open>k = l\<close> show ?thesis by (simp add: word_unat_eq_iff)
qed

lemma apart8:
  assumes "8 dvd unat (p :: u64)" "8 dvd unat q" "p \<noteq> q"
  shows "apart p 8 q 8"
proof -
  have *: "8 \<le> unat (y - x)" if "8 dvd unat (x :: u64)" "8 dvd unat y" "x \<noteq> y" for x y
  proof -
    have "8 dvd unat (y - x)" using that by (simp add: unat_sub_if' dvd_diff_nat)
    moreover have "0 < unat (y - x)" using that unat_gt_0 [of "y - x"] by simp
    ultimately show ?thesis by (simp add: dvd_imp_le)
  qed
  show ?thesis using * [of p q] * [of q p] assms by (simp add: apart_def)
qed

lemma slot_dvd:
  assumes "pt mod PGSIZE = 0" "i < 512"
  shows "8 dvd unat (slot pt i)"
proof -
  have "4096 dvd unat pt" using assms(1) by (simp only: page_dvd)
  then have "8 dvd unat pt" by (rule dvd_trans [rotated]) simp
  then show ?thesis unfolding unat_slot [OF assms] by simp
qed

lemma load_store_slot:
  assumes "a mod PGSIZE = 0" "b mod PGSIZE = 0" "i < 512" "j < 512" "(a, i) \<noteq> (b, j)"
  shows "load64 (store64 m (slot a i) v) (slot b j) = load64 m (slot b j)"
proof -
  have "slot b j \<noteq> slot a i" using slot_inj [of a b i j] assms by auto
  then have "apart (slot b j) 8 (slot a i) 8"
    using assms by (intro apart8 slot_dvd) simp_all
  then show ?thesis by (simp add: load64_def store64_def mread_mwrite_apart)
qed

lemma load_memset_slot:
  assumes "a mod PGSIZE = 0" "q mod PGSIZE = 0" "a \<noteq> q" "i < 512"
  shows "load64 (memset q c PGSIZE m) (slot a i) = load64 m (slot a i)"
proof -
  have "4096 dvd unat a" "4096 dvd unat q" using assms by (simp_all only: page_dvd)
  then obtain k l where k: "unat a = 4096 * k" "unat q = 4096 * l" by blast
  have "unat a < 4096 * 4503599627370496" "unat q < 4096 * 4503599627370496"
    by (rule less_le_trans [OF unat_u64_less], simp)+
  then have kl: "k < 4503599627370496" "l < 4503599627370496" using k by simp_all
  have "k \<noteq> l" using k assms(3) by (auto simp: word_unat_eq_iff)
  then consider "Suc k \<le> l" | "Suc l \<le> k" by linarith
  then have "apart (slot a i) 8 q 4096"
    using k kl assms(4) unfolding apart_def unat_sub_if' unat_slot [OF assms(1,4)]
    by cases (simp, linarith)+
  then show ?thesis by (simp add: load64_def memset_eq mread_mwrite_apart)
qed

lemma load_memset_zero:
  assumes "a mod PGSIZE = 0" "i < 512"
  shows "load64 (memset a 0 PGSIZE m) (slot a i) = 0"
proof -
  have "mread (memset a 0 PGSIZE m) (slot a i) 8 = replicate 8 0"
  proof (rule nth_equalityI)
    fix j
    assume "j < length (mread (memset a 0 PGSIZE m) (slot a i) 8)"
    then have j: "j < 8" by simp
    have "slot a i + of_nat j - a = of_nat (8 * i + j)" by (simp add: slot_def)
    then have "unat (slot a i + of_nat j - a) = 8 * i + j"
      using j assms(2) by (simp only: unat_of_nat) simp
    with j assms(2) show "mread (memset a 0 PGSIZE m) (slot a i) 8 ! j = replicate 8 0 ! j"
      by (simp add: memset_eq mwrite_at)
  qed simp
  then show ?thesis by (simp only: load64_def le_word_zero)
qed

section \<open>A page table as a map from index paths to table pages\<close>

definition child :: "mem \<Rightarrow> u64 \<Rightarrow> nat \<Rightarrow> u64 option" where
  "child m pt i =
     (let e = load64 m (slot pt i) in if e AND PTE_V \<noteq> 0 then Some (PTE2PA e) else None)"

fun tab :: "mem \<Rightarrow> u64 \<Rightarrow> nat list \<Rightarrow> u64 option" where
  "tab m pt [] = Some pt"
| "tab m pt (i # is) = (case child m pt i of None \<Rightarrow> None | Some q \<Rightarrow> tab m q is)"

definition okpath :: "nat list \<Rightarrow> bool" where
  "okpath p \<longleftrightarrow> length p \<le> 2 \<and> (\<forall>i\<in>set p. i < 512)"

definition pt_wf :: "mem \<Rightarrow> u64 \<Rightarrow> bool" where
  "pt_wf m root \<longleftrightarrow>
     (\<forall>p a. okpath p \<longrightarrow> tab m root p = Some a \<longrightarrow> managed 0 a) \<and>
     (\<forall>p p' a. okpath p \<longrightarrow> okpath p' \<longrightarrow> tab m root p = Some a \<longrightarrow> tab m root p' = Some a \<longrightarrow> p = p')"

definition pt_pages :: "mem \<Rightarrow> u64 \<Rightarrow> u64 set" where
  "pt_pages m root = {a. \<exists>p. okpath p \<and> tab m root p = Some a}"

definition vpath :: "u64 \<Rightarrow> nat list" where
  "vpath va = [px 2 va, px 1 va]"

definition leaf :: "mem \<Rightarrow> u64 \<Rightarrow> u64 \<Rightarrow> u64 option" where
  "leaf m root va =
     (case tab m root (vpath va) of None \<Rightarrow> None | Some a \<Rightarrow> Some (slot a (px 0 va)))"

text \<open>
  \<open>entry\<close> is the page table as its users see it: the entry of a virtual address, 0 (invalid)
  where the table has no page for it.
\<close>

definition entry :: "mem \<Rightarrow> u64 \<Rightarrow> u64 \<Rightarrow> u64" where
  "entry m root va = (case leaf m root va of None \<Rightarrow> 0 | Some x \<Rightarrow> load64 m x)"

lemma tab_snoc:
  "tab m pt (p @ [i]) = (case tab m pt p of None \<Rightarrow> None | Some a \<Rightarrow> child m a i)"
  by (induction p arbitrary: pt) (auto split: option.splits)

lemma okpath_vpath [simp]: "okpath (vpath va)"
  by (simp add: okpath_def vpath_def)

lemma okpath_snocD: "okpath (p @ [i]) \<Longrightarrow> okpath p \<and> i < 512"
  by (simp add: okpath_def)

lemma pt_wf_page: "pt_wf m root \<Longrightarrow> okpath p \<Longrightarrow> tab m root p = Some a \<Longrightarrow> managed 0 a"
  unfolding pt_wf_def by blast

lemma pt_wf_inj:
  "pt_wf m root \<Longrightarrow> okpath p \<Longrightarrow> okpath p' \<Longrightarrow> tab m root p = Some a \<Longrightarrow> tab m root p' = Some a \<Longrightarrow> p = p'"
  unfolding pt_wf_def by blast

lemma walk_from_False:
  "walk_from l a va False s =
     Ok (case tab (pmem s) a (map (\<lambda>k. px k va) (rev [1..<Suc l])) of None \<Rightarrow> 0
         | Some b \<Rightarrow> slot b (px 0 va)) s"
proof (induction l arbitrary: a)
  case 0
  then show ?case by (simp add: slot_px)
next
  case (Suc l)
  then show ?case
    by (simp add: slot_px kern_simps load_pte_def child_def Let_def)
qed

lemma vpath_upt: "map (\<lambda>k. px k va) (rev [1..<Suc 2]) = vpath va"
  by (simp add: vpath_def eval_nat_numeral)

lemma walk_False:
  "walk root va False s =
     (if va \<ge> MAXVA then Panic ''walk''
      else Ok (case leaf (pmem s) root va of None \<Rightarrow> 0 | Some x \<Rightarrow> x) s)"
  using walk_from_False [of 2 root va s, unfolded vpath_upt]
  by (simp add: walk_def kern_simps panic_if_def leaf_def split: option.splits)

lemma slot_nonzero:
  assumes "managed 0 a" "i < 512"
  shows "slot a i \<noteq> 0"
proof
  assume "slot a i = 0"
  then have "unat (slot a i) = 0" by simp
  moreover have "0 < unat a" using assms(1) by (simp add: managed0 unat_gt_0)
  ultimately show False using unat_slot [of a i] assms by (simp add: managed0)
qed

lemma walkaddr_run:
  assumes "pt_wf (pmem s) root"
  shows "walkaddr root va s =
    Ok (if va \<ge> MAXVA then 0
        else let e = entry (pmem s) root va in
          if e AND PTE_V = 0 \<or> e AND PTE_U = 0 then 0 else PTE2PA e) s"
proof (cases "leaf (pmem s) root va")
  case None
  then show ?thesis
    by (simp add: walkaddr_def kern_simps walk_False entry_def)
next
  case (Some x)
  then obtain a where a: "tab (pmem s) root (vpath va) = Some a" "x = slot a (px 0 va)"
    by (auto simp: leaf_def split: option.splits)
  then have "x \<noteq> 0"
    using slot_nonzero [OF pt_wf_page [OF assms okpath_vpath a(1)] px_less] by simp
  with Some show ?thesis
    by (simp add: walkaddr_def kern_simps walk_False entry_def load_pte_def Let_def)
qed

text \<open>Storing an entry at the last level changes \<open>entry\<close> at the pages of that slot only.\<close>

lemma tab_store_leaf:
  assumes wf: "pt_wf m root" and p: "okpath p" "length p = 2" "tab m root p = Some a" "i < 512"
    and q: "okpath q"
  shows "tab (store64 m (slot a i) v) root q = tab m root q"
  using q
proof (induction q rule: rev_induct)
  case Nil
  then show ?case by simp
next
  case (snoc j r)
  let ?m = "store64 m (slot a i) v"
  have r: "okpath r" "j < 512" using okpath_snocD snoc.prems by blast+
  have "child ?m b j = child m b j" if b: "tab m root r = Some b" for b
  proof -
    have "r \<noteq> p" using p(2) snoc.prems by (auto simp: okpath_def)
    then have "b \<noteq> a" using pt_wf_inj [OF wf r(1) p(1) b] p(3) by blast
    moreover have "a mod PGSIZE = 0" "b mod PGSIZE = 0"
      using pt_wf_page [OF wf p(1,3)] pt_wf_page [OF wf r(1) b] by (simp_all only: managed0)
    ultimately have "load64 ?m (slot b j) = load64 m (slot b j)"
      using p(4) r(2) by (intro load_store_slot) auto
    then show ?thesis by (simp add: child_def)
  qed
  with snoc.IH r(1) show ?case by (simp add: tab_snoc split: option.splits)
qed

lemma pt_wf_tab_cong:
  assumes "\<And>q. okpath q \<Longrightarrow> tab m' root q = tab m root q"
  shows "pt_wf m' root = pt_wf m root" "pt_pages m' root = pt_pages m root"
  by (simp_all add: pt_wf_def pt_pages_def assms cong: imp_cong conj_cong)

lemma leafD:
  assumes "leaf m root va = Some x"
  obtains a where "tab m root (vpath va) = Some a" "x = slot a (px 0 va)"
  using assms by (auto simp: leaf_def split: option.splits)

lemma store_leaf:
  fixes v :: u64
  assumes wf: "pt_wf m root" and x: "leaf m root va = Some x"
  defines "m' \<equiv> store64 m x v"
  shows "pt_wf m' root" "pt_pages m' root = pt_pages m root" "leaf m' root va' = leaf m root va'"
    "entry m' root va' = (if leaf m root va' = Some x then v else entry m root va')"
proof -
  obtain a where a: "tab m root (vpath va) = Some a" "x = slot a (px 0 va)"
    using x by (rule leafD)
  have t: "tab m' root q = tab m root q" if "okpath q" for q
    unfolding m'_def a(2) using that
    by (intro tab_store_leaf [OF wf okpath_vpath _ a(1) px_less]) (simp_all add: vpath_def)
  show "pt_wf m' root" "pt_pages m' root = pt_pages m root"
    using pt_wf_tab_cong [OF t] wf by simp_all
  show l: "leaf m' root va' = leaf m root va'"
    by (simp add: leaf_def t)
  show "entry m' root va' = (if leaf m root va' = Some x then v else entry m root va')"
  proof (cases "leaf m root va'")
    case None
    with l show ?thesis by (simp add: entry_def)
  next
    case (Some y)
    then obtain b where b: "tab m root (vpath va') = Some b" "y = slot b (px 0 va')"
      by (rule leafD)
    have ab: "a mod PGSIZE = 0" "b mod PGSIZE = 0"
      using pt_wf_page [OF wf okpath_vpath a(1)] pt_wf_page [OF wf okpath_vpath b(1)]
      by (simp_all only: managed0)
    have "load64 m' y = (if y = x then v else load64 m y)"
    proof (cases "y = x")
      case False
      then have "load64 (store64 m (slot a (px 0 va)) v) (slot b (px 0 va')) = load64 m (slot b (px 0 va'))"
        using ab a(2) b(2) by (intro load_store_slot) auto
      with False show ?thesis by (simp add: m'_def a(2) b(2))
    qed (simp add: m'_def)
    with Some l show ?thesis by (simp add: entry_def)
  qed
qed

text \<open>Within the user range the three indices of an address determine its page.\<close>

lemma bit_PX: "bit (PX l va) i \<longleftrightarrow> i < 9 \<and> bit va (12 + 9 * l + i)"
proof -
  have "PX l va = take_bit 9 (drop_bit (12 + 9 * l) va)"
    by (simp add: PX_def take_bit_eq_mask mask_eq_exp_minus_1)
  then show ?thesis by (simp add: bit_simps)
qed

lemma px_page:
  assumes "va < MAXVA" "va' < MAXVA"
  shows "px 2 va = px 2 va' \<and> px 1 va = px 1 va' \<and> px 0 va = px 0 va' \<longleftrightarrow>
    drop_bit 12 va = drop_bit 12 va'"
proof
  have lim: "bit w j \<Longrightarrow> j < 38" if "w < MAXVA" for w :: u64 and j
  proof -
    have "unat w < 2 ^ 38" using that by (simp add: word_less_nat_alt)
    then show "bit w j \<Longrightarrow> j < 38" by (rule take_bit_self(2))
  qed
  assume eq: "px 2 va = px 2 va' \<and> px 1 va = px 1 va' \<and> px 0 va = px 0 va'"
  then have "PX l va = PX l va'" if "l \<in> {0, 1, 2}" for l
    using that by (auto simp: px_def word_unat_eq_iff)
  then have b: "bit va (12 + 9 * l + i) = bit va' (12 + 9 * l + i)" if "l \<in> {0, 1, 2}" "i < 9" for l i
    using that bit_PX [of l va i] bit_PX [of l va' i] by simp
  show "drop_bit 12 va = drop_bit 12 va'"
  proof (rule bit_word_eqI)
    fix n :: nat
    consider "n < 9" | "9 \<le> n" "n < 18" | "18 \<le> n" "n < 27" | "27 \<le> n" by linarith
    then show "bit (drop_bit 12 va) n = bit (drop_bit 12 va') n"
    proof cases
      case 1
      with b [of 0 n] show ?thesis by (simp add: bit_simps)
    next
      case 2
      with b [of 1 "n - 9"] show ?thesis by (simp add: bit_simps)
    next
      case 3
      with b [of 2 "n - 18"] show ?thesis by (simp add: bit_simps)
    next
      case 4
      with lim [OF assms(1), of "12 + n"] lim [OF assms(2), of "12 + n"] show ?thesis
        by (auto simp: bit_simps)
    qed
  qed
next
  assume eq: "drop_bit 12 va = drop_bit 12 va'"
  have "PX l va = PX l va'" for l
  proof (rule bit_word_eqI)
    fix i
    have "bit (drop_bit 12 va) (9 * l + i) = bit (drop_bit 12 va') (9 * l + i)" by (simp only: eq)
    then show "bit (PX l va) i = bit (PX l va') i" by (simp add: bit_PX bit_simps add.assoc)
  qed
  then show "px 2 va = px 2 va' \<and> px 1 va = px 1 va' \<and> px 0 va = px 0 va'"
    by (simp add: px_def)
qed

lemma leaf_eq_iff:
  assumes wf: "pt_wf m root" and x: "leaf m root va = Some x" and r: "va < MAXVA" "va' < MAXVA"
  shows "leaf m root va' = Some x \<longleftrightarrow> drop_bit 12 va' = drop_bit 12 va"
proof
  assume x': "leaf m root va' = Some x"
  obtain a where a: "tab m root (vpath va) = Some a" "x = slot a (px 0 va)"
    using x by (rule leafD)
  obtain b where b: "tab m root (vpath va') = Some b" "x = slot b (px 0 va')"
    using x' by (rule leafD)
  have "b = a \<and> px 0 va' = px 0 va"
    using pt_wf_page [OF wf okpath_vpath a(1)] pt_wf_page [OF wf okpath_vpath b(1)] a(2) b(2)
    by (intro slot_inj) (simp_all add: managed0)
  moreover from this have "vpath va' = vpath va"
    using pt_wf_inj [OF wf okpath_vpath okpath_vpath b(1)] a(1) by blast
  ultimately show "drop_bit 12 va' = drop_bit 12 va"
    using px_page [OF r(2,1)] by (simp add: vpath_def)
next
  assume "drop_bit 12 va' = drop_bit 12 va"
  then have "px 2 va' = px 2 va \<and> px 1 va' = px 1 va \<and> px 0 va' = px 0 va"
    using px_page [OF r(2,1)] by blast
  then have "vpath va' = vpath va" "px 0 va' = px 0 va" by (simp_all add: vpath_def)
  with x show "leaf m root va' = Some x" by (simp add: leaf_def split: option.splits)
qed

section \<open>Adding a table page\<close>

text \<open>The bytes outside of a set of pages.\<close>

definition outside :: "u64 set \<Rightarrow> u64 \<Rightarrow> bool" where
  "outside P y \<longleftrightarrow> (\<forall>p\<in>P. 4096 \<le> unat (y - p))"

lemma store_slot_outside:
  assumes "i < 512" "4096 \<le> unat (y - a)"
  shows "store64 m (slot a i) v y = m y"
proof -
  have "\<not> unat (y - slot a i) < 8"
  proof
    assume "unat (y - slot a i) < 8"
    moreover have "y - a = of_nat (8 * i + unat (y - slot a i))"
      by (simp add: slot_def)
    ultimately have "unat (y - a) = 8 * i + unat (y - slot a i)"
      using assms(1) by (simp only: unat_of_nat) simp
    with assms \<open>unat (y - slot a i) < 8\<close> show False by linarith
  qed
  then show ?thesis by (simp add: store64_def mwrite_at)
qed

lemma memset_outside: "4096 \<le> unat (y - q) \<Longrightarrow> memset q c PGSIZE m y = m y"
  by (simp add: memset_eq mwrite_at)

definition add_table :: "mem \<Rightarrow> u64 \<Rightarrow> nat \<Rightarrow> u64 \<Rightarrow> mem" where
  "add_table m a i q =
     store64 (memset q 0 PGSIZE (memset q 5 PGSIZE m)) (slot a i) (PA2PTE q OR PTE_V)"

text \<open>The situation in which \<open>walk\<close> adds the page \<open>q\<close> at entry \<open>i\<close> of the table \<open>a\<close> at path \<open>p\<close>.\<close>

definition addable :: "mem \<Rightarrow> u64 \<Rightarrow> nat list \<Rightarrow> u64 \<Rightarrow> nat \<Rightarrow> u64 \<Rightarrow> bool" where
  "addable m root p a i q \<longleftrightarrow>
     pt_wf m root \<and> okpath p \<and> length p \<le> 1 \<and> tab m root p = Some a \<and>
     i < 512 \<and> child m a i = None \<and> managed 0 q \<and> q \<notin> pt_pages m root"

lemma addableD:
  assumes "addable m root p a i q"
  shows "pt_wf m root" "okpath p" "length p \<le> 1" "tab m root p = Some a"
    "i < 512" "child m a i = None" "managed 0 q" "q \<notin> pt_pages m root"
  using assms by (simp_all add: addable_def)

lemma add_table_a:
  assumes ad: "addable m root p a i q"
  shows "managed 0 a" "a \<noteq> q"
  using pt_wf_page [OF addableD(1,2,4) [OF ad]] addableD [OF ad] by (auto simp: pt_pages_def)

lemma add_table_load:
  assumes ad: "addable m root p a i q" and b: "managed 0 b" "j < 512" "(a, i) \<noteq> (b, j)"
  shows "load64 (add_table m a i q) (slot b j) = (if b = q then 0 else load64 m (slot b j))"
proof -
  note wf = addableD(1) [OF ad] and p = addableD(2-4) [OF ad] and i = addableD(5,6) [OF ad]
    and q = addableD(7,8) [OF ad]
  let ?n = "memset q 0 PGSIZE (memset q 5 PGSIZE m)"
  have al: "a mod PGSIZE = 0" "b mod PGSIZE = 0" "q mod PGSIZE = 0"
    using add_table_a(1) [OF ad] b(1) q(1) by (simp_all only: managed0)
  have "load64 (add_table m a i q) (slot b j) = load64 ?n (slot b j)"
    unfolding add_table_def using al b i(1) by (intro load_store_slot)
  also have "\<dots> = (if b = q then 0 else load64 m (slot b j))"
  proof (cases "b = q")
    case True
    with load_memset_zero [OF al(3) b(2)] show ?thesis by simp
  next
    case False
    then have "load64 ?n (slot b j) = load64 m (slot b j)"
      using load_memset_slot [OF al(2,3) False b(2)] by simp
    with False show ?thesis by simp
  qed
  finally show ?thesis .
qed

lemma add_table_child_new:
  assumes ad: "addable m root p a i q"
  shows "child (add_table m a i q) a i = Some q"
proof -
  note wf = addableD(1) [OF ad] and p = addableD(2-4) [OF ad] and i = addableD(5,6) [OF ad]
    and q = addableD(7,8) [OF ad]
  have "PTE2PA (PA2PTE q OR PTE_V) = q"
    using q(1) by (intro PTE2PA_PA2PTE) (simp_all add: managed0)
  then show ?thesis
    using valid_pte(1) [of "PA2PTE q"] by (simp add: child_def add_table_def)
qed

lemma add_table_tab:
  assumes ad: "addable m root p a i q" and "okpath r"
  shows "tab (add_table m a i q) root r = (if r = p @ [i] then Some q else tab m root r)"
  using assms(2)
proof (induction r rule: rev_induct)
  case Nil
  then show ?case by simp
next
  case (snoc j r)
  note wf = addableD(1) [OF ad] and p = addableD(2-4) [OF ad] and i = addableD(5,6) [OF ad]
    and q = addableD(7,8) [OF ad]
  let ?m = "add_table m a i q"
  have r: "okpath r" "j < 512" using okpath_snocD snoc.prems by blast+
  show ?case
  proof (cases "r = p @ [i]")
    case True
    have "load64 ?m (slot q j) = 0"
      using add_table_load [OF ad, OF q(1) r(2)] add_table_a(2) [OF ad] by simp
    then have "child ?m q j = None" by (simp add: child_def)
    moreover have "tab m root r = None" using True i(2) p(3) by (simp add: tab_snoc)
    moreover have "tab ?m root r = Some q" using True snoc.IH [OF r(1)] by simp
    moreover have "r @ [j] \<noteq> p @ [i]" using True by auto
    ultimately show ?thesis unfolding tab_snoc by simp
  next
    case False
    then have t: "tab ?m root r = tab m root r" using snoc.IH [OF r(1)] by simp
    show ?thesis
    proof (cases "tab m root r")
      case None
      with t p(3) show ?thesis by (auto simp: tab_snoc)
    next
      case (Some b)
      have "r = p" if "b = a" using pt_wf_inj [OF wf r(1) p(1) Some] p(3) that by blast
      have "b \<noteq> q" using Some r(1) q(2) by (auto simp: pt_pages_def)
      have "child ?m b j = child m b j" if "r @ [j] \<noteq> p @ [i]"
      proof -
        have "(a, i) \<noteq> (b, j)" using that \<open>b = a \<Longrightarrow> r = p\<close> by auto
        with add_table_load [OF ad pt_wf_page [OF wf r(1) Some] r(2)] \<open>b \<noteq> q\<close> show ?thesis
          by (simp add: child_def)
      qed
      with Some t p(3) add_table_child_new [OF ad] show ?thesis
        by (cases "r @ [j] = p @ [i]") (auto simp: tab_snoc)
    qed
  qed
qed

lemma add_table_ok:
  assumes ad: "addable m root p a i q"
  shows "pt_wf (add_table m a i q) root"
    and "pt_pages (add_table m a i q) root = insert q (pt_pages m root)"
    and "entry (add_table m a i q) root va = entry m root va"
    and "outside (pt_pages m root \<union> {q}) y \<Longrightarrow> add_table m a i q y = m y"
proof -
  note wf = addableD(1) [OF ad] and p = addableD(2-4) [OF ad] and i = addableD(5,6) [OF ad]
    and q = addableD(7,8) [OF ad]
  let ?m = "add_table m a i q"
  have np: "tab m root r \<noteq> Some q" if "okpath r" for r
    using q(2) that by (auto simp: pt_pages_def)
  have ok: "okpath (p @ [i])" using p i by (auto simp: okpath_def)
  show "pt_wf ?m root"
    unfolding pt_wf_def
  proof (intro conjI allI impI)
    fix r b
    assume "okpath r" "tab ?m root r = Some b"
    then show "managed 0 b"
      using q(1) pt_wf_page [OF wf] by (auto simp: add_table_tab [OF ad] split: if_splits)
  next
    fix r r' b
    assume "okpath r" "okpath r'" "tab ?m root r = Some b" "tab ?m root r' = Some b"
    then show "r = r'"
      using np pt_wf_inj [OF wf] by (auto simp: add_table_tab [OF ad] split: if_splits)
  qed
  show "pt_pages ?m root = insert q (pt_pages m root)"
  proof (rule set_eqI)
    fix b
    have none: "tab m root (p @ [i]) = None" using p(3) i(2) by (simp add: tab_snoc)
    have "tab ?m root (p @ [i]) = Some q" using ok by (simp add: add_table_tab [OF ad])
    moreover have "tab ?m root r = Some b" if "okpath r" "tab m root r = Some b" for r
      using that none by (auto simp: add_table_tab [OF ad])
    moreover have "b = q \<or> tab m root r = Some b" if "okpath r" "tab ?m root r = Some b" for r
      using that by (simp add: add_table_tab [OF ad] split: if_splits)
    ultimately have "(\<exists>r. okpath r \<and> tab ?m root r = Some b) \<longleftrightarrow>
        b = q \<or> (\<exists>r. okpath r \<and> tab m root r = Some b)"
      using ok by blast
    then show "b \<in> pt_pages ?m root \<longleftrightarrow> b \<in> insert q (pt_pages m root)"
      by (simp add: pt_pages_def)
  qed
  show "entry ?m root va = entry m root va"
  proof (cases "vpath va = p @ [i]")
    case True
    have "load64 ?m (slot q (px 0 va)) = 0"
      using add_table_load [OF ad, OF q(1) px_less] add_table_a(2) [OF ad] by simp
    moreover have "tab m root (vpath va) = None" using True i(2) p(3) by (simp add: tab_snoc)
    ultimately show ?thesis
      using True ok by (simp add: entry_def leaf_def add_table_tab [OF ad])
  next
    case False
    show ?thesis
    proof (cases "tab m root (vpath va)")
      case None
      with False show ?thesis by (simp add: entry_def leaf_def add_table_tab [OF ad])
    next
      case (Some b)
      have "vpath va \<noteq> p" using p(2) by (auto simp: vpath_def)
      then have "b \<noteq> a" using pt_wf_inj [OF wf okpath_vpath p(1) Some] p(3) by blast
      moreover have "b \<noteq> q" using np Some by force
      ultimately have "load64 ?m (slot b (px 0 va)) = load64 m (slot b (px 0 va))"
        using add_table_load [OF ad, OF pt_wf_page [OF wf okpath_vpath Some] px_less] by simp
      with False Some show ?thesis by (simp add: entry_def leaf_def add_table_tab [OF ad])
    qed
  qed
  show "add_table m a i q y = m y" if "outside (pt_pages m root \<union> {q}) y"
  proof -
    have "a \<in> pt_pages m root" using p by (auto simp: pt_pages_def)
    then have "4096 \<le> unat (y - a)" "4096 \<le> unat (y - q)"
      using that by (auto simp: outside_def)
    with i(1) show ?thesis by (simp add: add_table_def store_slot_outside memset_outside)
  qed
qed

section \<open>What walk and mappages do\<close>

definition vm_ok :: "'z kmem_state_scheme \<Rightarrow> u64 \<Rightarrow> u64 list \<Rightarrow> bool" where
  "vm_ok s root ps \<longleftrightarrow>
     calm (lk s) \<and> free_pages s ps \<and> pt_wf (pmem s) root \<and> pt_pages (pmem s) root \<inter> set ps = {}"

text \<open>
  \<open>grown root s t qs\<close>: from \<open>s\<close> to \<open>t\<close> the pages \<open>qs\<close> became table pages, and memory outside of
  the table and every other part of the state is the same.
\<close>

definition grown :: "u64 \<Rightarrow> 'z kmem_state_scheme \<Rightarrow> 'z kmem_state_scheme \<Rightarrow> u64 list \<Rightarrow> bool" where
  "grown root s t qs \<longleftrightarrow>
     pt_pages (pmem t) root = pt_pages (pmem s) root \<union> set qs \<and>
     (\<forall>y. outside (pt_pages (pmem s) root \<union> set qs) y \<longrightarrow> pmem t y = pmem s y) \<and>
     t = s\<lparr>pmem := pmem t, freelist := freelist t\<rparr>"

lemma grown_refl: "grown root s s []"
  by (simp add: grown_def)

lemma grown_trans: "grown root s t qs \<Longrightarrow> grown root t u rs \<Longrightarrow> grown root s u (qs @ rs)"
proof -
  assume g: "grown root s t qs" "grown root t u rs"
  then have "u = s\<lparr>pmem := pmem u, freelist := freelist u\<rparr>"
    unfolding grown_def by (metis kmem_state.update_convs(1,2) kmem_state.surjective)
  with g show ?thesis
    unfolding grown_def by (auto simp: outside_def Un_assoc)
qed

lemma managed_kend: "managed e p \<Longrightarrow> managed 0 p" "managed e p \<Longrightarrow> p mod PGSIZE = 0"
  by (simp_all add: managed_def)

lemma outside_other_page:
  assumes "p mod PGSIZE = 0" "\<And>q. q \<in> P \<Longrightarrow> q mod PGSIZE = 0" "p \<notin> P" "j < 4096"
  shows "outside P (p + of_nat j)"
  unfolding outside_def
proof
  fix q
  assume "q \<in> P"
  then have "apart p 4096 q 4096"
    using assms by (intro pages_apart) auto
  then have "4096 \<le> unat (p - q + of_nat j)"
    using assms(4) unfolding apart_def by (rule apart_offset)
  then show "4096 \<le> unat (p + of_nat j - q)" by (simp add: algebra_simps)
qed

lemma mread_outside:
  assumes "p mod PGSIZE = 0" "\<And>q. q \<in> P \<Longrightarrow> q mod PGSIZE = 0" "p \<notin> P" "n \<le> 4096"
    and "\<And>y. outside P y \<Longrightarrow> m' y = m y"
  shows "mread m' p n = mread m p n"
  using assms by (intro nth_equalityI) (simp_all add: outside_other_page)

lemma free_pages_frame:
  assumes "free_pages s ps" "\<And>q. q \<in> P \<Longrightarrow> q mod PGSIZE = 0" "P \<inter> set ps = {}"
    and "\<And>y. outside P y \<Longrightarrow> m' y = pmem s y"
  shows "free_pages (s\<lparr>pmem := m'\<rparr>) ps"
proof -
  have "mread m' p 8 = mread (pmem s) p 8" if "p \<in> set ps" for p
    using assms that by (intro mread_outside [of p P]) (auto simp: free_pages_def good_page_def)
  then have "chain m' q ps = chain (pmem s) q ps" for q
    by (rule chain_cong)
  with assms(1) show ?thesis by (simp add: free_pages_def good_page_def)
qed

lemma pt_pages_aligned: "pt_wf m root \<Longrightarrow> a \<in> pt_pages m root \<Longrightarrow> a mod PGSIZE = 0"
  using pt_wf_page by (fastforce simp: pt_pages_def managed0)

lemma vm_ok_add_table:
  assumes ok: "vm_ok s root (q # ps)" and p: "okpath p" "length p \<le> 1" "tab (pmem s) root p = Some a"
    and i: "i < 512" "child (pmem s) a i = None"
  defines "t \<equiv> s\<lparr>freelist := load64 (pmem s) (freelist s), pmem := add_table (pmem s) a i q\<rparr>"
  shows "vm_ok t root ps" "grown root s t [q]" "entry (pmem t) root va = entry (pmem s) root va"
    "tab (pmem t) root (p @ [i]) = Some q"
proof -
  have o: "calm (lk s)" "free_pages s (q # ps)" "pt_wf (pmem s) root"
      "pt_pages (pmem s) root \<inter> set (q # ps) = {}"
    using ok by (simp_all add: vm_ok_def)
  have qm: "managed (kend s) q" and fl: "freelist s = q" and qn: "q \<notin> set ps"
    using o(2) by (auto simp: free_pages_def good_page_managed)
  have ad: "addable (pmem s) root p a i q"
    using o p i managed_kend(1) [OF qm] by (simp add: addable_def)
  show "grown root s t [q]"
    using add_table_ok(2,4) [OF ad] by (simp add: grown_def t_def)
  show "entry (pmem t) root va = entry (pmem s) root va"
    using add_table_ok(3) [OF ad] by (simp add: t_def)
  show "tab (pmem t) root (p @ [i]) = Some q"
    using add_table_tab [OF ad, of "p @ [i]"] p i by (simp add: t_def okpath_def)
  let ?u = "s\<lparr>freelist := load64 (pmem s) (freelist s), pmem := memset (freelist s) 5 PGSIZE (pmem s)\<rparr>"
  have "free_pages (?u\<lparr>pmem := add_table (pmem s) a i q\<rparr>) ps"
  proof (rule free_pages_frame [where P = "pt_pages (pmem s) root \<union> {q}"])
    show "free_pages ?u ps" using o(2) by (rule free_pages_alloc)
    show "b mod PGSIZE = 0" if "b \<in> pt_pages (pmem s) root \<union> {q}" for b
      using that managed_kend(2) [OF qm] pt_pages_aligned [OF o(3)] by blast
    show "(pt_pages (pmem s) root \<union> {q}) \<inter> set ps = {}" using o(4) qn by auto
    show "add_table (pmem s) a i q y = pmem ?u y" if "outside (pt_pages (pmem s) root \<union> {q}) y" for y
      using that add_table_ok(4) [OF ad that] fl by (simp add: memset_outside outside_def)
  qed
  then show "vm_ok t root ps"
    using o add_table_ok(1,2) [OF ad] qn by (auto simp: vm_ok_def t_def)
qed

lemma okpath_take: "okpath p \<Longrightarrow> okpath (take n p)"
  by (auto simp: okpath_def dest: in_set_takeD)

lemma walk_from_True:
  assumes "vm_ok s root ps" "l + length p = 2" "p = take (length p) (vpath va)"
    "tab (pmem s) root p = Some a"
  shows "\<exists>x t qs ps'. walk_from l a va True s = Ok x t \<and> ps = qs @ ps' \<and> vm_ok t root ps' \<and>
    grown root s t qs \<and> (\<forall>va'. entry (pmem t) root va' = entry (pmem s) root va') \<and>
    length qs \<le> l \<and> (x = 0 \<longrightarrow> ps' = [] \<and> length qs < l) \<and>
    (x \<noteq> 0 \<longrightarrow> leaf (pmem t) root va = Some x)"
  using assms
proof (induction l arbitrary: s ps p a)
  case 0
  then have t: "tab (pmem s) root (vpath va) = Some a" by (simp add: vpath_def)
  moreover have "pt_wf (pmem s) root" using 0 by (simp add: vm_ok_def)
  ultimately have "slot a (px 0 va) \<noteq> 0"
    by (intro slot_nonzero [OF pt_wf_page] px_less) auto
  with t 0 show ?case
    by (intro exI [of _ "slot a (px 0 va)"] exI [of _ s] exI [of _ "[]"] exI [of _ ps])
      (simp add: slot_px leaf_def grown_refl)
next
  case (Suc l)
  let ?i = "px (Suc l) va" and ?e = "load64 (pmem s) (slot a (px (Suc l) va))"
  have len: "length p \<le> 1" using Suc.prems(2) by simp
  have p: "okpath p"
    by (subst Suc.prems(3)) (rule okpath_take, rule okpath_vpath)
  have "vpath va ! length p = ?i"
    using Suc.prems(2) by (cases l) (auto simp: vpath_def numeral_2_eq_2)
  then have pi: "p @ [?i] = take (length (p @ [?i])) (vpath va)"
    using len Suc.prems(3) take_Suc_conv_app_nth [of "length p" "vpath va"] by (simp add: vpath_def)
  show ?case
  proof (cases "?e AND PTE_V = 0")
    case False
    then have "tab (pmem s) root (p @ [?i]) = Some (PTE2PA ?e)"
      using Suc.prems(4) by (simp add: tab_snoc child_def)
    moreover have run: "walk_from (Suc l) a va True s = walk_from l (PTE2PA ?e) va True s"
      using False by (simp add: slot_px load_pte_def kern_simps Let_def)
    moreover have "l + length (p @ [?i]) = 2" using Suc.prems(2) by simp
    ultimately show ?thesis
      unfolding run using Suc.IH [OF Suc.prems(1) _ pi] by (metis le_SucI less_SucI)
  next
    case True
    then have c: "child (pmem s) a ?i = None" by (simp add: child_def)
    have calm: "calm (lk s)" using Suc.prems(1) by (simp add: vm_ok_def)
    show ?thesis
    proof (cases ps)
      case Nil
      then have "freelist s = 0" using Suc.prems(1) by (simp add: vm_ok_def free_pages_def)
      with Nil True calm Suc.prems(1) show ?thesis
        by (intro exI [of _ 0] exI [of _ s] exI [of _ "[]"] exI [of _ "[]"])
          (simp add: slot_px load_pte_def kern_simps kalloc_run grown_refl Let_def)
    next
      case (Cons q qs)
      then have q: "freelist s = q" "q \<noteq> 0" using Suc.prems(1) by (auto simp: vm_ok_def free_pages_def)
      let ?t = "s\<lparr>freelist := load64 (pmem s) (freelist s), pmem := add_table (pmem s) a ?i q\<rparr>"
      note st = vm_ok_add_table [OF Suc.prems(1) [unfolded Cons] p len Suc.prems(4) px_less c]
      have run: "walk_from (Suc l) a va True s = walk_from l q va True ?t"
        using True calm q
        by (simp add: slot_px load_pte_def store_pte_def kern_simps kalloc_run add_table_def Let_def)
      have "\<exists>x t qs' ps'. walk_from l q va True ?t = Ok x t \<and> qs = qs' @ ps' \<and> vm_ok t root ps' \<and>
          grown root ?t t qs' \<and> (\<forall>va'. entry (pmem t) root va' = entry (pmem ?t) root va') \<and>
          length qs' \<le> l \<and> (x = 0 \<longrightarrow> ps' = [] \<and> length qs' < l) \<and>
          (x \<noteq> 0 \<longrightarrow> leaf (pmem t) root va = Some x)"
        using Suc.prems(2) by (intro Suc.IH [OF st(1) _ pi st(4)]) simp
      then obtain x t qs' ps' where r: "walk_from l q va True ?t = Ok x t" "qs = qs' @ ps'"
          "vm_ok t root ps'" "grown root ?t t qs'"
          "\<forall>va'. entry (pmem t) root va' = entry (pmem ?t) root va'"
          "length qs' \<le> l" "x = 0 \<longrightarrow> ps' = [] \<and> length qs' < l"
          "x \<noteq> 0 \<longrightarrow> leaf (pmem t) root va = Some x"
        by blast
      have "grown root s t (q # qs')" using grown_trans [OF st(2) r(4)] by simp
      with r st(3) run Cons show ?thesis
        by (intro exI [of _ x] exI [of _ t] exI [of _ "q # qs'"] exI [of _ ps']) simp
    qed
  qed
qed

lemma walk_True:
  assumes "vm_ok s root ps" "va < MAXVA"
  obtains x t qs ps' where "walk root va True s = Ok x t" "ps = qs @ ps'" "vm_ok t root ps'"
    "grown root s t qs" "\<And>va'. entry (pmem t) root va' = entry (pmem s) root va'"
    "x = 0 \<longrightarrow> ps' = [] \<and> length qs < 2" "x \<noteq> 0 \<longrightarrow> leaf (pmem t) root va = Some x" "length qs \<le> 2"
proof -
  have "\<not> MAXVA \<le> va" using assms(2) by simp
  then have "walk root va True s = walk_from 2 root va True s"
    by (simp add: walk_def kern_simps)
  with walk_from_True [OF assms(1), of 2 "[]" va root] that show ?thesis by auto
qed

text \<open>
  The entries after the first \<open>k\<close> pages from \<open>a\<close> on have been mapped to consecutive pages from
  \<open>pa\<close> on.
\<close>

definition map_range :: "(u64 \<Rightarrow> u64) \<Rightarrow> u64 \<Rightarrow> nat \<Rightarrow> u64 \<Rightarrow> u64 \<Rightarrow> u64 \<Rightarrow> u64" where
  "map_range e a k pa perm va =
     (if unat a \<le> unat va \<and> unat va < unat a + k * PGSIZE
      then PA2PTE (pa + of_nat ((unat va - unat a) div PGSIZE * PGSIZE)) OR perm OR PTE_V
      else e va)"

lemma drop_bit_page: "drop_bit 12 (va :: u64) = drop_bit 12 va' \<longleftrightarrow> unat va div 4096 = unat va' div 4096"
  by (simp add: word_unat_eq_iff drop_bit_eq_div unat_div)

lemma map_range_0: "map_range e a 0 pa perm = e"
  by (rule ext) (auto simp: map_range_def)

lemma map_range_Suc:
  assumes "a mod PGSIZE = 0" "unat a + Suc k * PGSIZE < 2 ^ 64"
  shows "map_range (map_range e a 1 pa perm) (a + PGSIZE) k (pa + PGSIZE) perm =
    map_range e a (Suc k) pa perm"
proof (rule ext)
  fix va
  have u: "unat (a + PGSIZE) = unat a + PGSIZE"
    using assms(2) by (simp add: unat_word_ariths)
  show "map_range (map_range e a 1 pa perm) (a + PGSIZE) k (pa + PGSIZE) perm va =
      map_range e a (Suc k) pa perm va"
  proof (cases "unat a + PGSIZE \<le> unat va")
    case True
    then have "(unat va - unat a) div PGSIZE = Suc ((unat va - (unat a + PGSIZE)) div PGSIZE)"
      by (simp add: le_div_geq)
    then show ?thesis using True u by (simp add: map_range_def algebra_simps)
  next
    case False
    then show ?thesis using u by (auto simp: map_range_def)
  qed
qed

lemma mappages_step_entry:
  assumes wf: "pt_wf m root" and x: "leaf m root a = Some x" and a: "a mod PGSIZE = 0" "a < MAXVA"
    and va: "va < MAXVA"
  shows "entry (store64 m x (PA2PTE pa OR perm OR PTE_V)) root va = map_range (entry m root) a 1 pa perm va"
proof -
  have "leaf m root va = Some x \<longleftrightarrow> unat va div 4096 = unat a div 4096"
    using leaf_eq_iff [OF wf x a(2) va] by (simp add: drop_bit_page)
  also have "\<dots> \<longleftrightarrow> unat a \<le> unat va \<and> unat va < unat a + PGSIZE"
  proof -
    have "4096 dvd unat a" using a(1) by (simp only: page_dvd)
    then obtain k where "unat a = 4096 * k" by blast
    then show ?thesis by auto
  qed
  finally show ?thesis
    using store_leaf(4) [OF wf x, of "PA2PTE pa OR perm OR PTE_V" va] by (auto simp: map_range_def)
qed

lemma vm_ok_store_leaf:
  assumes ok: "vm_ok s root ps" and x: "leaf (pmem s) root va = Some x"
  shows "vm_ok (s\<lparr>pmem := store64 (pmem s) x v\<rparr>) root ps"
    "grown root s (s\<lparr>pmem := store64 (pmem s) x v\<rparr>) []"
proof -
  have o: "calm (lk s)" "free_pages s ps" "pt_wf (pmem s) root" "pt_pages (pmem s) root \<inter> set ps = {}"
    using ok by (simp_all add: vm_ok_def)
  obtain a where a: "tab (pmem s) root (vpath va) = Some a" "x = slot a (px 0 va)"
    using x by (rule leafD)
  have "a \<in> pt_pages (pmem s) root" using a(1) okpath_vpath unfolding pt_pages_def by blast
  then have fr: "store64 (pmem s) x v y = pmem s y" if "outside (pt_pages (pmem s) root) y" for y
    using that a(2) store_slot_outside [OF px_less] by (auto simp: outside_def)
  have "free_pages (s\<lparr>pmem := store64 (pmem s) x v\<rparr>) ps"
    using o pt_pages_aligned fr by (intro free_pages_frame [where P = "pt_pages (pmem s) root"]) auto
  then show "vm_ok (s\<lparr>pmem := store64 (pmem s) x v\<rparr>) root ps"
    using o store_leaf(1,2) [OF o(3) x] by (simp add: vm_ok_def)
  show "grown root s (s\<lparr>pmem := store64 (pmem s) x v\<rparr>) []"
    using fr store_leaf(2) [OF o(3) x] by (simp add: grown_def)
qed

lemma mappages_step:
  assumes ok: "vm_ok s root ps" and a: "a mod PGSIZE = 0" "a < MAXVA"
    and inv: "entry (pmem s) root a AND PTE_V = 0"
  shows "(\<exists>t. vm_ok t root [] \<and> grown root s t ps \<and> length ps < 2 \<and>
      (\<forall>va. entry (pmem t) root va = entry (pmem s) root va) \<and>
      (\<forall>n lastp. mappages_loop (Suc n) root a lastp pa perm s = Ok (- 1) t)) \<or>
    (\<exists>t qs ps'. ps = qs @ ps' \<and> vm_ok t root ps' \<and> grown root s t qs \<and> length qs \<le> 2 \<and>
      (\<forall>va. va < MAXVA \<longrightarrow> entry (pmem t) root va = map_range (entry (pmem s) root) a 1 pa perm va) \<and>
      (\<forall>n lastp. mappages_loop (Suc n) root a lastp pa perm s =
        (if a = lastp then Ok 0 t
         else mappages_loop n root (a + PGSIZE) lastp (pa + PGSIZE) perm t)))"
proof -
  obtain x t qs ps' where w: "walk root a True s = Ok x t" "ps = qs @ ps'" "vm_ok t root ps'"
      "grown root s t qs" "\<And>va. entry (pmem t) root va = entry (pmem s) root va"
      "x = 0 \<longrightarrow> ps' = [] \<and> length qs < 2" "x \<noteq> 0 \<longrightarrow> leaf (pmem t) root a = Some x" "length qs \<le> 2"
    using walk_True [OF ok a(2)] by blast
  show ?thesis
  proof (cases "x = 0")
    case True
    with w show ?thesis by (intro disjI1 exI [of _ t]) (simp add: kern_simps)
  next
    case False
    let ?v = "PA2PTE pa OR perm OR PTE_V"
    let ?u = "t\<lparr>pmem := store64 (pmem t) x ?v\<rparr>"
    have l: "leaf (pmem t) root a = Some x" using False w(7) by simp
    then have "load64 (pmem t) x AND PTE_V = 0"
      using inv w(5) [of a] by (simp add: entry_def)
    then have "mappages_loop (Suc n) root a lastp pa perm s =
        (if a = lastp then Ok 0 ?u else mappages_loop n root (a + PGSIZE) lastp (pa + PGSIZE) perm ?u)"
      for n lastp
      using w(1) False by (simp add: kern_simps load_pte_def store_pte_def)
    moreover have "vm_ok ?u root ps'" "grown root s ?u qs"
      using vm_ok_store_leaf [OF w(3) l] grown_trans [OF w(4)] by fastforce+
    moreover have "entry (pmem ?u) root va = map_range (entry (pmem s) root) a 1 pa perm va"
      if "va < MAXVA" for va
      using mappages_step_entry [OF _ l a that, of pa perm] w(3,5)
      by (simp add: vm_ok_def map_range_def)
    ultimately show ?thesis using w(2,8) by blast
  qed
qed

lemma mappages_loop_ok:
  assumes "vm_ok s root ps" "a mod PGSIZE = 0" "unat a + n * PGSIZE < MAXVA"
    "lastp = a + of_nat n * PGSIZE"
    "\<And>i. i \<le> n \<Longrightarrow> entry (pmem s) root (a + of_nat i * PGSIZE) AND PTE_V = 0"
  shows "\<exists>r t qs ps' k. mappages_loop (Suc n) root a lastp pa perm s = Ok r t \<and> ps = qs @ ps' \<and>
    vm_ok t root ps' \<and> grown root s t qs \<and> k \<le> Suc n \<and>
    (\<forall>va. va < MAXVA \<longrightarrow> entry (pmem t) root va = map_range (entry (pmem s) root) a k pa perm va) \<and>
    (r = 0 \<and> k = Suc n \<or> r = - 1 \<and> k \<le> n \<and> ps' = [] \<and> length qs < 2 * Suc n)"
  using assms
proof (induction n arbitrary: s ps a pa)
  case 0
  have a: "a < MAXVA" using 0 by (simp add: word_less_nat_alt)
  have "entry (pmem s) root a AND PTE_V = 0" using 0(5) [of 0] by simp
  from mappages_step [OF 0(1,2) a this, of pa perm] show ?case
  proof (elim disjE exE conjE)
    fix t
    assume "vm_ok t root []" "grown root s t ps" "length ps < 2" "\<forall>va. entry (pmem t) root va = entry (pmem s) root va"
      "\<forall>n lastp. mappages_loop (Suc n) root a lastp pa perm s = Ok (- 1) t"
    then show ?thesis
      by (intro exI [of _ "- 1"] exI [of _ t] exI [of _ ps] exI [of _ "[]"] exI [of _ 0])
        (simp add: map_range_0)
  next
    fix t qs ps'
    assume "ps = qs @ ps'" "vm_ok t root ps'" "grown root s t qs" "length qs \<le> 2"
      "\<forall>va. va < MAXVA \<longrightarrow> entry (pmem t) root va = map_range (entry (pmem s) root) a 1 pa perm va"
      "\<forall>n lastp. mappages_loop (Suc n) root a lastp pa perm s =
        (if a = lastp then Ok 0 t
         else mappages_loop n root (a + PGSIZE) lastp (pa + PGSIZE) perm t)"
    with 0(4) show ?thesis
      by (intro exI [of _ 0] exI [of _ t] exI [of _ qs] exI [of _ ps'] exI [of _ 1]) simp
  qed
next
  case (Suc n)
  have a: "a < MAXVA" using Suc.prems(3) by (simp add: word_less_nat_alt)
  have "entry (pmem s) root a AND PTE_V = 0" using Suc.prems(5) [of 0] by simp
  from mappages_step [OF Suc.prems(1,2) a this, of pa perm] show ?case
  proof (elim disjE exE conjE)
    fix t
    assume "vm_ok t root []" "grown root s t ps" "length ps < 2" "\<forall>va. entry (pmem t) root va = entry (pmem s) root va"
      "\<forall>n lastp. mappages_loop (Suc n) root a lastp pa perm s = Ok (- 1) t"
    then show ?thesis
      by (intro exI [of _ "- 1"] exI [of _ t] exI [of _ ps] exI [of _ "[]"] exI [of _ 0])
        (simp add: map_range_0)
  next
    fix t qs ps'
    assume st: "ps = qs @ ps'" "vm_ok t root ps'" "grown root s t qs" "length qs \<le> 2"
      and e: "\<forall>va. va < MAXVA \<longrightarrow>
        entry (pmem t) root va = map_range (entry (pmem s) root) a 1 pa perm va"
      and run: "\<forall>n lastp. mappages_loop (Suc n) root a lastp pa perm s =
        (if a = lastp then Ok 0 t
         else mappages_loop n root (a + PGSIZE) lastp (pa + PGSIZE) perm t)"
    have u: "unat (a + PGSIZE + of_nat i * PGSIZE) = unat a + PGSIZE + i * PGSIZE" if "i \<le> n" for i
    proof -
      have "unat a + PGSIZE + i * PGSIZE < 2 ^ 64" using that Suc.prems(3) by simp
      then have "unat (a + of_nat (PGSIZE + i * PGSIZE)) = unat a + PGSIZE + i * PGSIZE"
        by (subst unat_word_ariths) (simp add: unat_of_nat del: of_nat_add of_nat_mult)
      then show ?thesis by (simp add: algebra_simps)
    qed
    have ne: "a \<noteq> lastp" "lastp = a + PGSIZE + of_nat n * PGSIZE"
      using u [of n] Suc.prems(4) by (auto simp: algebra_simps word_unat_eq_iff)
    have "\<exists>r t' qs' ps'' k. mappages_loop (Suc n) root (a + PGSIZE) lastp (pa + PGSIZE) perm t = Ok r t' \<and>
        ps' = qs' @ ps'' \<and> vm_ok t' root ps'' \<and> grown root t t' qs' \<and> k \<le> Suc n \<and>
        (\<forall>va. va < MAXVA \<longrightarrow>
          entry (pmem t') root va = map_range (entry (pmem t) root) (a + PGSIZE) k (pa + PGSIZE) perm va) \<and>
        (r = 0 \<and> k = Suc n \<or> r = - 1 \<and> k \<le> n \<and> ps'' = [] \<and> length qs' < 2 * Suc n)"
    proof (rule Suc.IH [OF st(2) _ _ ne(2)])
      show "(a + PGSIZE) mod PGSIZE = 0" using Suc.prems(2) u [of 0] by (simp only: page_dvd) simp
      show "unat (a + PGSIZE) + n * PGSIZE < MAXVA" using u [of 0] Suc.prems(3) by simp
      show "entry (pmem t) root (a + PGSIZE + of_nat i * PGSIZE) AND PTE_V = 0" if "i \<le> n" for i
      proof -
        have "a + PGSIZE + of_nat i * PGSIZE < MAXVA"
          using u [OF that] Suc.prems(3) that by (simp add: word_less_nat_alt)
        then have "entry (pmem t) root (a + PGSIZE + of_nat i * PGSIZE) =
            entry (pmem s) root (a + PGSIZE + of_nat i * PGSIZE)"
          using e u [OF that] by (simp add: map_range_def)
        then show ?thesis using Suc.prems(5) [of "Suc i"] that by (simp add: algebra_simps)
      qed
    qed
    then obtain r t' qs' ps'' k where r: "mappages_loop (Suc n) root (a + PGSIZE) lastp (pa + PGSIZE) perm t = Ok r t'"
        "ps' = qs' @ ps''" "vm_ok t' root ps''" "grown root t t' qs'" "k \<le> Suc n"
        "\<forall>va. va < MAXVA \<longrightarrow>
          entry (pmem t') root va = map_range (entry (pmem t) root) (a + PGSIZE) k (pa + PGSIZE) perm va"
        "r = 0 \<and> k = Suc n \<or> r = - 1 \<and> k \<le> n \<and> ps'' = [] \<and> length qs' < 2 * Suc n"
      by blast
    have "unat a + Suc k * PGSIZE < 2 ^ 64" using r(5) Suc.prems(3) by simp
    then have "entry (pmem t') root va = map_range (entry (pmem s) root) a (Suc k) pa perm va"
      if "va < MAXVA" for va
      using that r(6) e map_range_Suc [OF Suc.prems(2), of k "entry (pmem s) root" pa perm, symmetric]
      by (simp add: map_range_def [where e = "entry (pmem t) root"] map_range_def [where e = "map_range _ _ _ _ _"])
    moreover have "grown root s t' (qs @ qs')" using grown_trans [OF st(3) r(4)] .
    ultimately show ?thesis
      using run ne(1) r(1-3,5,7) st(1,4)
      by (intro exI [of _ r] exI [of _ t'] exI [of _ "qs @ qs'"] exI [of _ ps''] exI [of _ "Suc k"]) auto
  qed
qed

section \<open>Mapping a range\<close>

lemma PGROUNDDOWN_aligned [simp]: "PGROUNDDOWN va mod PGSIZE = 0"
  unfolding page_dvd unat_PGROUNDDOWN by (simp add: minus_mod_eq_mult_div)

lemma unat_PGROUNDDOWN_div: "unat (PGROUNDDOWN va) = unat va div 4096 * 4096"
  by (simp add: unat_PGROUNDDOWN minus_mod_eq_div_mult)

lemma mappages_unfold:
  assumes "0 < sz" "unat va + unat sz \<le> MAXVA"
  defines "n \<equiv> unat (va + sz - 1) div PGSIZE - unat va div PGSIZE"
  shows "mappages root va sz pa perm =
      mappages_loop (Suc n) root (PGROUNDDOWN va) (PGROUNDDOWN va + of_nat n * PGSIZE) pa perm"
    "unat (PGROUNDDOWN va) + n * PGSIZE < MAXVA"
    "unat va div PGSIZE + n = unat (va + sz - 1) div PGSIZE"
proof -
  have "sz \<noteq> 0" using assms(1) by auto
  then have "0 < unat sz" by (simp add: unat_gt_0)
  have s: "unat (va + sz) = unat va + unat sz"
    using assms(2) by (simp add: unat_word_ariths)
  with \<open>0 < unat sz\<close> have "va + sz \<noteq> 0" by (intro notI) simp
  then have "unat (va + sz - 1) = unat (va + sz) - 1" by (rule unat_minus_one)
  then have u: "unat (va + sz - 1) = unat va + unat sz - 1" by (simp only: s)
  have le: "unat va div PGSIZE \<le> unat (va + sz - 1) div PGSIZE"
    unfolding u using \<open>0 < unat sz\<close> by (intro div_le_mono) linarith
  show n: "unat va div PGSIZE + n = unat (va + sz - 1) div PGSIZE"
    using le by (simp add: n_def)
  have "unat (va + sz - 1) < MAXVA" using u assms(2) \<open>0 < unat sz\<close> by simp
  then have "unat (va + sz - 1) div PGSIZE * PGSIZE < MAXVA"
    by (rule le_less_trans [OF div_times_less_eq_dividend])
  then show lim: "unat (PGROUNDDOWN va) + n * PGSIZE < MAXVA"
    unfolding unat_PGROUNDDOWN_div n [symmetric] add_mult_distrib .
  have "unat (PGROUNDDOWN va + of_nat n * PGSIZE) = unat (PGROUNDDOWN va) + n * PGSIZE"
  proof -
    have "unat (PGROUNDDOWN va + of_nat (n * PGSIZE)) = unat (PGROUNDDOWN va) + n * PGSIZE"
      using lim by (subst unat_word_ariths) (simp add: unat_of_nat del: of_nat_mult)
    then show ?thesis by simp
  qed
  moreover have "unat (PGROUNDDOWN (va + sz - 1)) = unat (PGROUNDDOWN va) + n * PGSIZE"
    unfolding unat_PGROUNDDOWN_div by (simp only: n [symmetric] add_mult_distrib)
  ultimately have last: "PGROUNDDOWN (va + sz - 1) = PGROUNDDOWN va + of_nat n * PGSIZE"
    by (simp only: word_unat_eq_iff)
  have "unat (of_nat n * PGSIZE :: u64) = n * PGSIZE"
  proof -
    have "unat (of_nat (n * PGSIZE) :: u64) = n * PGSIZE"
      using lim by (subst unat_of_nat) simp
    then show ?thesis by simp
  qed
  then show "mappages root va sz pa perm =
      mappages_loop (Suc n) root (PGROUNDDOWN va) (PGROUNDDOWN va + of_nat n * PGSIZE) pa perm"
    using \<open>sz \<noteq> 0\<close> unfolding mappages_def last
    by (simp add: panic_if_def Let_def del: mappages_loop.simps)
qed

lemma flags_or_less:
  assumes "f < (1024 :: u64)"
  shows "f OR PTE_V < 1024"
proof -
  have "unat f < 2 ^ 10" using assms by (simp add: word_less_nat_alt)
  then have "take_bit 10 (f OR PTE_V) = f OR PTE_V"
    by (simp only: take_bit_or take_bit_self(1)) simp
  then have "unat (f OR PTE_V) = take_bit 10 (unat (f OR PTE_V))"
    by (metis unsigned_take_bit_eq)
  then have "unat (f OR PTE_V) < 2 ^ 10" by (metis take_bit_nat_less_exp)
  then show ?thesis by (simp add: word_less_nat_alt)
qed

lemma page_distance:
  assumes "unat va div PGSIZE \<le> unat va' div PGSIZE"
  shows "of_nat ((unat va' - unat (PGROUNDDOWN va)) div PGSIZE * PGSIZE) =
    PGROUNDDOWN va' - PGROUNDDOWN va"
    "(unat va' - unat (PGROUNDDOWN va)) div PGSIZE = unat va' div PGSIZE - unat va div PGSIZE"
proof -
  show d: "(unat va' - unat (PGROUNDDOWN va)) div PGSIZE = unat va' div PGSIZE - unat va div PGSIZE"
    unfolding unat_PGROUNDDOWN_div by simp
  have "PGROUNDDOWN va' - PGROUNDDOWN va =
      of_nat (unat (PGROUNDDOWN va')) - of_nat (unat (PGROUNDDOWN va))"
    by simp
  also have "\<dots> = of_nat (unat (PGROUNDDOWN va') - unat (PGROUNDDOWN va))"
    using assms by (subst of_nat_diff) (simp_all add: unat_PGROUNDDOWN_div)
  also have "unat (PGROUNDDOWN va') - unat (PGROUNDDOWN va) =
      (unat va' div PGSIZE - unat va div PGSIZE) * PGSIZE"
    by (simp add: unat_PGROUNDDOWN_div diff_mult_distrib)
  finally show "of_nat ((unat va' - unat (PGROUNDDOWN va)) div PGSIZE * PGSIZE) =
      PGROUNDDOWN va' - PGROUNDDOWN va"
    by (simp only: d)
qed

definition in_range :: "u64 \<Rightarrow> u64 \<Rightarrow> u64 \<Rightarrow> bool" where
  "in_range va sz va' \<longleftrightarrow>
     unat va div PGSIZE \<le> unat va' div PGSIZE \<and> unat va' div PGSIZE \<le> unat (va + sz - 1) div PGSIZE"

lemma in_range_iff:
  assumes "0 < sz" "unat va + unat sz \<le> MAXVA"
  shows "unat (PGROUNDDOWN va) \<le> unat va' \<and>
      unat va' < unat (PGROUNDDOWN va) + Suc (unat (va + sz - 1) div PGSIZE - unat va div PGSIZE) * PGSIZE \<longleftrightarrow>
    in_range va sz va'"
proof -
  let ?n = "unat (va + sz - 1) div PGSIZE - unat va div PGSIZE" and ?a = "PGROUNDDOWN va"
  have "unat ?a \<le> unat va' \<longleftrightarrow> unat va div PGSIZE \<le> unat va' div PGSIZE"
    unfolding unat_PGROUNDDOWN_div by (simp add: less_eq_div_iff_mult_less_eq)
  moreover have "unat va' < unat ?a + Suc ?n * PGSIZE \<longleftrightarrow> unat va' div PGSIZE < unat va div PGSIZE + Suc ?n"
    unfolding unat_PGROUNDDOWN_div by (simp only: add_mult_distrib [symmetric] div_less_iff_less_mult)
  ultimately show ?thesis using mappages_unfold(3) [OF assms] by (auto simp: in_range_def)
qed

lemma map_range_decode:
  assumes "0 < sz" "unat va + unat sz \<le> MAXVA" "perm < 1024" "pa mod PGSIZE = 0"
    and "unat pa + n * PGSIZE < PHYSTOP" "in_range va sz va'"
    and n: "n = unat (va + sz - 1) div PGSIZE - unat va div PGSIZE"
  shows "PTE2PA (map_range e (PGROUNDDOWN va) (Suc n) pa perm va') = pa + (PGROUNDDOWN va' - PGROUNDDOWN va)"
    "PTE_FLAGS (map_range e (PGROUNDDOWN va) (Suc n) pa perm va') = perm OR PTE_V"
proof -
  let ?j = "(unat va' div PGSIZE - unat va div PGSIZE) * PGSIZE" and ?a = "PGROUNDDOWN va"
  have fl: "perm OR PTE_V < 1024" using assms(3) by (rule flags_or_less)
  have e: "map_range e ?a (Suc n) pa perm va' = PA2PTE (pa + (PGROUNDDOWN va' - ?a)) OR (perm OR PTE_V)"
    using assms(6) in_range_iff [OF assms(1,2), of va'] page_distance(1) [of va va'] unfolding n
    by (simp add: map_range_def in_range_def)
  have "?j \<le> n * PGSIZE" using assms(6) unfolding n by (simp add: in_range_def diff_le_mono)
  then have j: "unat pa + ?j < PHYSTOP" using assms(5) by linarith
  have w: "pa + (PGROUNDDOWN va' - ?a) = pa + of_nat ?j"
    using assms(6) page_distance [of va va'] by (simp add: in_range_def)
  have p: "unat (pa + of_nat ?j) = unat pa + ?j"
    using j by (subst unat_word_ariths) (simp add: unat_of_nat del: of_nat_mult)
  have "(pa + of_nat ?j) mod PGSIZE = 0" "pa + of_nat ?j < PHYSTOP"
    using assms(4) j unfolding page_dvd word_less_nat_alt p by simp_all
  then show "PTE2PA (map_range e ?a (Suc n) pa perm va') = pa + (PGROUNDDOWN va' - ?a)"
    and "PTE_FLAGS (map_range e ?a (Suc n) pa perm va') = perm OR PTE_V"
    using PTE2PA_PA2PTE [OF _ _ fl] PTE_FLAGS_PA2PTE [OF fl] unfolding e w by simp_all
qed

lemma vpath_nonempty: "vpath va \<noteq> []"
  by (simp add: vpath_def)

lemma pt_wf_empty:
  assumes "managed 0 root" "\<And>i. i < 512 \<Longrightarrow> load64 m (slot root i) = 0"
  shows "pt_wf m root" "pt_pages m root = {root}" "entry m root va = 0"
proof -
  have c: "child m root i = None" if "i < 512" for i
    using assms(2) [OF that] by (simp add: child_def)
  have t: "tab m root p = (if p = [] then Some root else None)" if "okpath p" for p
    using that c by (cases p) (auto simp: okpath_def)
  then show "pt_wf m root" using assms(1) by (simp add: pt_wf_def split: if_splits)
  have "okpath []" by (simp add: okpath_def)
  with t show "pt_pages m root = {root}"
    by (auto simp: pt_pages_def split: if_splits intro!: exI [of _ "[]"])
  show "entry m root va = 0" using t [OF okpath_vpath, of va] by (simp add: entry_def leaf_def vpath_nonempty)
qed

text \<open>
  C9: \<open>mappages\<close> installs the mapping it is asked for. On a well-formed page table whose entries
  for the range are invalid it either returns 0, and then every page of the range is mapped
  to the consecutive physical pages with the given permissions, or it returns -1, which
  happens only with fewer than two free pages per mapped page. In both cases the entries outside of the range, the memory outside of
  the table and the well-formedness of the table are kept.
\<close>

theorem mappages_correct:
  assumes "vm_ok s root ps" "0 < sz" "unat va + unat sz \<le> MAXVA" "perm < 1024"
    and "pa mod PGSIZE = 0"
    and "unat pa + (unat (va + sz - 1) div PGSIZE - unat va div PGSIZE) * PGSIZE < PHYSTOP"
    and "\<And>va'. in_range va sz va' \<Longrightarrow> entry (pmem s) root va' AND PTE_V = 0"
  shows "\<exists>r t ps'. mappages root va sz pa perm s = Ok r t \<and> vm_ok t root ps' \<and>
    (r = 0 \<or> r = - 1 \<and>
      length ps < 2 * Suc (unat (va + sz - 1) div PGSIZE - unat va div PGSIZE)) \<and>
    (\<forall>va'. va' < MAXVA \<longrightarrow> in_range va sz va' \<longrightarrow> r = 0 \<longrightarrow>
      PTE2PA (entry (pmem t) root va') = pa + (PGROUNDDOWN va' - PGROUNDDOWN va) \<and>
      PTE_FLAGS (entry (pmem t) root va') = perm OR PTE_V) \<and>
    (\<forall>va'. va' < MAXVA \<longrightarrow> \<not> in_range va sz va' \<longrightarrow> entry (pmem t) root va' = entry (pmem s) root va') \<and>
    (\<forall>y. outside (pt_pages (pmem t) root) y \<longrightarrow> pmem t y = pmem s y)"
proof -
  let ?n = "unat (va + sz - 1) div PGSIZE - unat va div PGSIZE" and ?a = "PGROUNDDOWN va"
  note u = mappages_unfold [OF assms(2,3)] and ain = in_range_iff [OF assms(2,3)]
  have inv: "entry (pmem s) root (?a + of_nat i * PGSIZE) AND PTE_V = 0" if "i \<le> ?n" for i
  proof -
    have "unat (?a + of_nat (i * PGSIZE)) = unat ?a + i * PGSIZE"
      using that u(2) by (subst unat_word_ariths) (simp add: unat_of_nat del: of_nat_mult)
    then have "in_range va sz (?a + of_nat i * PGSIZE)"
      using that by (simp add: ain [symmetric])
    then show ?thesis by (rule assms(7))
  qed
  obtain r t qs ps' k where m: "mappages root va sz pa perm s = Ok r t" "ps = qs @ ps'"
      "vm_ok t root ps'" "grown root s t qs" "k \<le> Suc ?n"
      "\<forall>va'. va' < MAXVA \<longrightarrow> entry (pmem t) root va' = map_range (entry (pmem s) root) ?a k pa perm va'"
      "r = 0 \<and> k = Suc ?n \<or> r = - 1 \<and> k \<le> ?n \<and> ps' = [] \<and> length qs < 2 * Suc ?n"
    using mappages_loop_ok [OF assms(1) PGROUNDDOWN_aligned u(2) refl inv, of pa perm] u(1) by metis
  have "entry (pmem t) root va' = entry (pmem s) root va'"
    if "va' < MAXVA" "\<not> in_range va sz va'" for va'
  proof -
    have nr: "\<not> (unat ?a \<le> unat va' \<and> unat va' < unat ?a + k * PGSIZE)"
      using that(2) m(5) ain [of va'] mult_le_mono1 [OF m(5), of PGSIZE] by linarith
    from m(6) [rule_format, OF that(1)] show ?thesis unfolding map_range_def if_not_P [OF nr] .
  qed
  moreover have "PTE2PA (entry (pmem t) root va') = pa + (PGROUNDDOWN va' - ?a) \<and>
      PTE_FLAGS (entry (pmem t) root va') = perm OR PTE_V"
    if "va' < MAXVA" "in_range va sz va'" "r = 0" for va'
    using m(6,7) that map_range_decode [OF assms(2-6) that(2) refl] by auto
  moreover have "pmem t y = pmem s y" if "outside (pt_pages (pmem t) root) y" for y
    using m(4) that by (simp add: grown_def)
  moreover have "r = 0 \<or> r = - 1 \<and> length ps < 2 * Suc ?n"
    using m(2,7) by auto
  ultimately show ?thesis using m(1,3) by blast
qed

definition two_pages :: kmem_state where
  "two_pages = \<lparr>lk = boot_hart, pmem = store64 (\<lambda>_. 0) 0x87FFF000 0x87FFE000,
     freelist = 0x87FFF000, kend = 0x87FFE000\<rparr>"

lemma two_pages_ok:
  "vm_ok two_pages 0x87FFD000 [0x87FFF000, 0x87FFE000]" "entry (pmem two_pages) 0x87FFD000 va = 0"
  "pt_pages (pmem two_pages) 0x87FFD000 = {0x87FFD000}"
proof -
  have z: "load64 (store64 (\<lambda>_. 0) (slot 0x87FFF000 0) v) (slot b i) = 0"
    if "b mod PGSIZE = 0" "b \<noteq> 0x87FFF000" "i < 512" for b i v
    using that by (subst load_store_slot) auto
  have e: "pt_wf (pmem two_pages) 0x87FFD000" "pt_pages (pmem two_pages) 0x87FFD000 = {0x87FFD000}"
      "entry (pmem two_pages) 0x87FFD000 va = 0" for va
    using z [of "0x87FFD000"]
    by (intro pt_wf_empty; simp add: two_pages_def managed0 slot_def)+
  show "entry (pmem two_pages) 0x87FFD000 va = 0" by (rule e(3))
  show "pt_pages (pmem two_pages) 0x87FFD000 = {0x87FFD000}" by (rule e(2))
  show "vm_ok two_pages 0x87FFD000 [0x87FFF000, 0x87FFE000]"
    using e z [of "0x87FFE000" 0 "0x87FFE000"]
    by (simp add: vm_ok_def two_pages_def free_pages_def good_page_def slot_def)
qed

theorem mappages_correct_witness:
  "\<exists>t. mappages 0x87FFD000 0x2000 PGSIZE 0x80100000 (PTE_R OR PTE_U) two_pages = Ok 0 t \<and>
     PTE2PA (entry (pmem t) 0x87FFD000 0x2008) = 0x80100000"
  using mappages_correct [OF two_pages_ok(1), of PGSIZE "0x2000" "PTE_R OR PTE_U" "0x80100000"]
    two_pages_ok(2)
  by (auto simp: in_range_def PGROUNDDOWN_def)

section \<open>Copying through the page table\<close>

text \<open>The physical address of a user virtual address, as \<open>walkaddr\<close> finds it.\<close>

definition uvirt :: "mem \<Rightarrow> u64 \<Rightarrow> u64 \<Rightarrow> u64 option" where
  "uvirt m root va =
     (let va0 = PGROUNDDOWN va; e = entry m root va0 in
      if va0 \<ge> MAXVA \<or> e AND PTE_V = 0 \<or> e AND PTE_U = 0 \<or> PTE2PA e = 0 then None
      else Some (PTE2PA e + (va - va0)))"

lemma walkaddr_uvirt:
  assumes "pt_wf (pmem s) root"
  obtains (unmapped) "walkaddr root (PGROUNDDOWN va) s = Ok 0 s" "uvirt (pmem s) root va = None"
  | (mapped) pa where "walkaddr root (PGROUNDDOWN va) s = Ok pa s" "pa \<noteq> 0"
      "\<And>va'. PGROUNDDOWN va' = PGROUNDDOWN va \<Longrightarrow>
        uvirt (pmem s) root va' = Some (pa + (va' - PGROUNDDOWN va))"
proof (cases "uvirt (pmem s) root va")
  case None
  then have "walkaddr root (PGROUNDDOWN va) s = Ok 0 s"
    by (auto simp: walkaddr_run [OF assms] uvirt_def Let_def split: if_splits)
  with None show ?thesis by (rule unmapped [rotated])
next
  case (Some x)
  then show ?thesis
    by (intro mapped [of "PTE2PA (entry (pmem s) root (PGROUNDDOWN va))"])
      (auto simp: walkaddr_run [OF assms] uvirt_def Let_def split: if_splits)
qed

lemma same_page:
  assumes "i < 4096 - unat (va - PGROUNDDOWN va)"
  shows "PGROUNDDOWN (va + of_nat i) = PGROUNDDOWN va"
proof -
  define k where "k = unat va div 4096"
  have off: "unat va mod 4096 + i < 4096" using assms by (simp add: page_offset)
  have va: "unat va = 4096 * k + unat va mod 4096" by (simp add: k_def)
  have "unat va < 4096 * 4503599627370496" by (rule less_le_trans [OF unat_u64_less]) simp
  then have "k < 4503599627370496" by (simp add: k_def less_mult_imp_div_less)
  then have "unat va + i < 2 ^ 64" using va off by simp
  then have u: "unat (va + of_nat i) = unat va + i"
    by (simp add: unat_word_ariths unat_of_nat)
  have "unat va + i = 4096 * k + (unat va mod 4096 + i)" using va by simp
  then have "(unat va + i) div 4096 = (4096 * k + (unat va mod 4096 + i)) div 4096" by (simp only:)
  also have "\<dots> = k" using off by simp
  finally have "(unat va + i) div 4096 = k" .
  then have "unat (PGROUNDDOWN (va + of_nat i)) = unat (PGROUNDDOWN va)"
    unfolding unat_PGROUNDDOWN_div u k_def by simp
  then show ?thesis by (simp only: word_unat_eq_iff)
qed

lemma page_part_less: "i < page_part va len \<Longrightarrow> i < 4096 - unat (va - PGROUNDDOWN va) \<and> i < len"
  by (simp add: page_part_def)

lemma next_page:
  assumes "page_part va len < len"
  shows "PGROUNDDOWN va + PGSIZE = va + of_nat (page_part va len)"
proof -
  have n: "page_part va len = 4096 - unat (va - PGROUNDDOWN va)"
    using assms by (simp add: page_part_def split: if_splits)
  have "unat (va - PGROUNDDOWN va) < 4096" by (simp add: page_offset)
  then have "(of_nat (page_part va len) :: u64) = 4096 - of_nat (unat (va - PGROUNDDOWN va))"
    unfolding n by (simp add: of_nat_diff)
  then show ?thesis by simp
qed

text \<open>What a copy of \<open>len\<close> bytes from user address \<open>va\<close> reads.\<close>

definition user_bytes :: "mem \<Rightarrow> u64 \<Rightarrow> u64 \<Rightarrow> u8 list \<Rightarrow> bool" where
  "user_bytes m root va bs \<longleftrightarrow>
     (\<forall>i<length bs. \<exists>x. uvirt m root (va + of_nat i) = Some x \<and> m x = bs ! i)"

lemma user_bytes_append:
  "user_bytes m root va bs \<Longrightarrow> user_bytes m root (va + of_nat (length bs)) cs \<Longrightarrow> user_bytes m root va (bs @ cs)"
  unfolding user_bytes_def
proof (intro allI impI)
  fix i
  assume b: "\<forall>i<length bs. \<exists>x. uvirt m root (va + of_nat i) = Some x \<and> m x = bs ! i"
    and c: "\<forall>i<length cs. \<exists>x. uvirt m root (va + of_nat (length bs) + of_nat i) = Some x \<and> m x = cs ! i"
    and i: "i < length (bs @ cs)"
  show "\<exists>x. uvirt m root (va + of_nat i) = Some x \<and> m x = (bs @ cs) ! i"
  proof (cases "i < length bs")
    case True
    with b show ?thesis by (simp add: nth_append)
  next
    case False
    then have "(of_nat (length bs) + of_nat (i - length bs) :: u64) = of_nat i"
      by (simp flip: of_nat_add)
    with c i False show ?thesis by (auto simp: nth_append add.assoc dest!: spec [of _ "i - length bs"])
  qed
qed

lemma user_bytes_page:
  assumes "\<And>va'. PGROUNDDOWN va' = PGROUNDDOWN va \<Longrightarrow> uvirt m root va' = Some (pa + (va' - PGROUNDDOWN va))"
    and "\<And>i. i < length bs \<Longrightarrow> m (pa + (va - PGROUNDDOWN va) + of_nat i) = bs ! i"
    and "length bs \<le> page_part va len"
  shows "user_bytes m root va bs"
  unfolding user_bytes_def
proof (intro allI impI)
  fix i
  assume i: "i < length bs"
  then have "uvirt m root (va + of_nat i) = Some (pa + (va + of_nat i - PGROUNDDOWN va))"
    using assms(3) by (intro assms(1) same_page) (simp add: page_part_def)
  moreover have "pa + (va + of_nat i - PGROUNDDOWN va) = pa + (va - PGROUNDDOWN va) + of_nat i" by simp
  ultimately show "\<exists>x. uvirt m root (va + of_nat i) = Some x \<and> m x = bs ! i"
    using i assms(2) by simp
qed

lemma copyin_ok:
  assumes "pt_wf (pmem s) root"
  shows "\<exists>r bs. copyin root va len s = Ok (r, bs) s \<and>
    (r = 0 \<and> length bs = len \<and> user_bytes (pmem s) root va bs \<or>
     r = - 1 \<and> (\<exists>i<len. uvirt (pmem s) root (va + of_nat i) = None))"
  using assms
proof (induction root va len rule: copyin.induct)
  case (1 root va len)
  let ?n = "page_part va len" and ?va0 = "PGROUNDDOWN va"
  show ?case
  proof (cases "len = 0")
    case True
    then show ?thesis by (simp add: copyin.simps user_bytes_def)
  next
    case False
    from "1.prems" show ?thesis
    proof (cases rule: walkaddr_uvirt [of s root va])
      case unmapped
      with False show ?thesis
        by (subst copyin.simps) (auto simp: kern_simps Let_def intro!: exI [of _ 0])
    next
      case (mapped pa)
      let ?bs = "mread (pmem s) (pa + (va - ?va0)) ?n"
      have bs: "user_bytes (pmem s) root va ?bs"
        by (rule user_bytes_page [OF mapped(3), of ?bs len]) simp_all
      obtain r cs where r: "copyin root (?va0 + PGSIZE) (len - ?n) s = Ok (r, cs) s"
          "r = 0 \<and> length cs = len - ?n \<and> user_bytes (pmem s) root (?va0 + PGSIZE) cs \<or>
           r = - 1 \<and> (\<exists>i<len - ?n. uvirt (pmem s) root (?va0 + PGSIZE + of_nat i) = None)"
        using "1.IH" [OF _ refl refl mapped(2) "1.prems"] False by auto
      have run: "copyin root va len s = Ok (r, ?bs @ cs) s"
        using False mapped(1,2) r(1) by (subst copyin.simps) (simp add: kern_simps Let_def)
      show ?thesis
      proof (cases "?n < len")
        case True
        note nx = next_page [OF True]
        from r(2) show ?thesis
        proof (elim disjE conjE exE)
          assume "r = 0" "length cs = len - ?n" "user_bytes (pmem s) root (?va0 + PGSIZE) cs"
          with run bs nx True show ?thesis
            by (intro exI [of _ 0] exI [of _ "?bs @ cs"]) (simp add: user_bytes_append)
        next
          fix i
          assume "r = - 1" "i < len - ?n" "uvirt (pmem s) root (?va0 + PGSIZE + of_nat i) = None"
          with run nx show ?thesis
            by (intro exI [of _ "- 1"] exI [of _ "?bs @ cs"])
              (auto simp: add.assoc simp flip: of_nat_add intro!: exI [of _ "?n + i"])
        qed
      next
        case False
        then have "?n = len" using page_part_bounds(2) [of va len] by simp
        with r(2) run bs show ?thesis by (intro exI [of _ 0] exI [of _ "?bs @ cs"]) auto
      qed
    qed
  qed
qed

text \<open>
  A user address space: no user page is a page of the table, and no two user addresses are the
  same byte.
\<close>

definition user_ok :: "mem \<Rightarrow> u64 \<Rightarrow> bool" where
  "user_ok m root \<longleftrightarrow>
     pt_wf m root \<and> (\<forall>va x. uvirt m root va = Some x \<longrightarrow> outside (pt_pages m root) x) \<and>
     (\<forall>va va' x. uvirt m root va = Some x \<longrightarrow> uvirt m root va' = Some x \<longrightarrow> va = va')"

lemma in_pt_pages: "okpath p \<Longrightarrow> tab m root p = Some a \<Longrightarrow> a \<in> pt_pages m root"
  unfolding pt_pages_def by blast

lemma slot_byte_inside:
  assumes "i < 512" "j < 8"
  shows "unat (slot a i + of_nat j - a) < 4096"
proof -
  have "slot a i + of_nat j - a = of_nat (8 * i + j)" by (simp add: slot_def)
  then have "unat (slot a i + of_nat j - a) = 8 * i + j"
    using assms by (simp only: unat_of_nat) simp
  with assms show ?thesis by simp
qed

lemma pt_frame:
  assumes wf: "pt_wf m root" and eq: "\<And>y. \<not> outside (pt_pages m root) y \<Longrightarrow> m' y = m y"
  shows "okpath p \<Longrightarrow> tab m' root p = tab m root p" "pt_wf m' root" "pt_pages m' root = pt_pages m root"
    "entry m' root va = entry m root va" "uvirt m' root va = uvirt m root va"
proof -
  have l: "load64 m' (slot a i) = load64 m (slot a i)" if "a \<in> pt_pages m root" "i < 512" for a i
  proof -
    have "\<not> outside (pt_pages m root) (slot a i + of_nat j)" if "j < 8" for j
      using \<open>a \<in> pt_pages m root\<close> slot_byte_inside [OF \<open>i < 512\<close> that, of a]
      unfolding outside_def not_le [symmetric] by blast
    then have "mread m' (slot a i) 8 = mread m (slot a i) 8"
      by (intro nth_equalityI) (simp_all add: eq)
    then show ?thesis by (simp only: load64_def)
  qed
  have t: "tab m' root p = tab m root p" if "okpath p" for p
    using that
  proof (induction p rule: rev_induct)
    case (snoc i p)
    then have p: "okpath p" "i < 512" using okpath_snocD by blast+
    have "child m' a i = child m a i" if "tab m root p = Some a" for a
    proof -
      have "a \<in> pt_pages m root" using that p(1) unfolding pt_pages_def by blast
      then show ?thesis using l [OF _ p(2)] by (simp add: child_def)
    qed
    with snoc p show ?case by (auto simp: tab_snoc split: option.splits)
  qed simp
  show "okpath p \<Longrightarrow> tab m' root p = tab m root p" by (rule t)
  show "pt_wf m' root" "pt_pages m' root = pt_pages m root"
    using pt_wf_tab_cong [OF t] wf by simp_all
  show e: "entry m' root va = entry m root va" for va
    using t [OF okpath_vpath, of va] l [OF in_pt_pages [OF okpath_vpath] px_less]
    by (auto simp: entry_def leaf_def split: option.splits)
  show "uvirt m' root va = uvirt m root va" by (simp add: uvirt_def e)
qed

lemma user_ok_frame:
  assumes "user_ok m root" "\<And>y. (\<And>va. uvirt m root va \<noteq> Some y) \<Longrightarrow> m' y = m y"
  shows "user_ok m' root" "uvirt m' root va = uvirt m root va" "entry m' root va = entry m root va"
proof -
  have wf: "pt_wf m root" and u: "\<And>va x. uvirt m root va = Some x \<Longrightarrow> outside (pt_pages m root) x"
    using assms(1) by (simp_all add: user_ok_def)
  have "m' y = m y" if "\<not> outside (pt_pages m root) y" for y
    using assms(2) u that by blast
  note f = pt_frame [OF wf this]
  show "user_ok m' root" "uvirt m' root va = uvirt m root va" "entry m' root va = entry m root va"
    using assms(1) f by (simp_all add: user_ok_def)
qed

text \<open>One iteration of \<open>copyout\<close>.\<close>

lemma copyout_page:
  assumes ok: "user_ok m root" and n: "n \<le> 4096 - unat (va - PGROUNDDOWN va)" "n \<le> length bs"
    and pa: "\<forall>va'. PGROUNDDOWN va' = PGROUNDDOWN va \<longrightarrow> uvirt m root va' = Some (pa + (va' - PGROUNDDOWN va))"
  defines "m1 \<equiv> mwrite m (pa + (va - PGROUNDDOWN va)) (take n bs)"
  shows "user_ok m1 root" "uvirt m1 root va' = uvirt m root va'"
    "i < n \<Longrightarrow> \<exists>x. uvirt m root (va + of_nat i) = Some x \<and> m1 x = bs ! i"
    "(\<And>i. i < n \<Longrightarrow> uvirt m root (va + of_nat i) \<noteq> Some y) \<Longrightarrow> m1 y = m y"
proof -
  let ?b = "pa + (va - PGROUNDDOWN va)"
  have u: "uvirt m root (va + of_nat i) = Some (?b + of_nat i)" if "i < n" for i
  proof -
    have "uvirt m root (va + of_nat i) = Some (pa + (va + of_nat i - PGROUNDDOWN va))"
      using that n(1) by (intro pa [rule_format] same_page) simp
    then show ?thesis by (simp add: algebra_simps)
  qed
  show x: "\<exists>x. uvirt m root (va + of_nat i) = Some x \<and> m1 x = bs ! i" if "i < n" for i
    using u [OF that] that n mwrite_at_first [of i "take n bs" m ?b] by (simp add: m1_def)
  show fr: "m1 y = m y" if "\<And>i. i < n \<Longrightarrow> uvirt m root (va + of_nat i) \<noteq> Some y" for y
  proof -
    have "\<not> unat (y - ?b) < n"
    proof
      assume l: "unat (y - ?b) < n"
      have "y = ?b + of_nat (unat (y - ?b))" by simp
      with u [OF l] that [OF l] show False by simp
    qed
    with n(2) show ?thesis by (simp add: m1_def mwrite_at)
  qed
  show "user_ok m1 root" "uvirt m1 root va' = uvirt m root va'"
    using user_ok_frame [OF ok, of m1] fr by blast+
qed

lemma copyout_ok:
  assumes "user_ok (pmem s) root" "length bs < 2 ^ 64"
  shows "\<exists>r m. copyout root va bs s = Ok r (s\<lparr>pmem := m\<rparr>) \<and>
    (r = 0 \<and> (\<forall>i<length bs. \<exists>x. uvirt (pmem s) root (va + of_nat i) = Some x \<and> m x = bs ! i) \<or>
     r = - 1 \<and> (\<exists>i<length bs. uvirt (pmem s) root (va + of_nat i) = None)) \<and>
    (\<forall>y. (\<forall>i<length bs. uvirt (pmem s) root (va + of_nat i) \<noteq> Some y) \<longrightarrow> m y = pmem s y)"
  using assms
proof (induction root va bs arbitrary: s rule: copyout.induct)
  case (1 root va bs)
  let ?n = "page_part va (length bs)" and ?va0 = "PGROUNDDOWN va"
  have wf: "pt_wf (pmem s) root" using "1.prems" by (simp add: user_ok_def)
  show ?case
  proof (cases "bs = []")
    case True
    then show ?thesis by (intro exI [of _ 0] exI [of _ "pmem s"]) (simp add: copyout.simps)
  next
    case False
    from wf show ?thesis
    proof (cases rule: walkaddr_uvirt [of s root va])
      case unmapped
      with False show ?thesis
        by (intro exI [of _ "- 1"] exI [of _ "pmem s"], subst copyout.simps)
          (auto simp: kern_simps Let_def intro!: exI [of _ 0])
    next
      case (mapped pa)
      let ?m1 = "mwrite (pmem s) (pa + (va - ?va0)) (take ?n bs)"
      have n: "?n \<le> 4096 - unat (va - ?va0)" "?n \<le> length bs" by (simp_all add: page_part_def)
      have "\<forall>va'. PGROUNDDOWN va' = ?va0 \<longrightarrow> uvirt (pmem s) root va' = Some (pa + (va' - ?va0))"
        using mapped(3) by blast
      note p = copyout_page [OF "1.prems"(1) n this]
      have "\<exists>r m. copyout root (?va0 + PGSIZE) (drop ?n bs) (s\<lparr>pmem := ?m1\<rparr>) = Ok r (s\<lparr>pmem := ?m1, pmem := m\<rparr>) \<and>
          (r = 0 \<and> (\<forall>i<length (drop ?n bs). \<exists>x. uvirt ?m1 root (?va0 + PGSIZE + of_nat i) = Some x \<and> m x = drop ?n bs ! i) \<or>
           r = - 1 \<and> (\<exists>i<length (drop ?n bs). uvirt ?m1 root (?va0 + PGSIZE + of_nat i) = None)) \<and>
          (\<forall>y. (\<forall>i<length (drop ?n bs). uvirt ?m1 root (?va0 + PGSIZE + of_nat i) \<noteq> Some y) \<longrightarrow> m y = ?m1 y)"
        using "1.IH" [OF _ refl refl mapped(2), of "s\<lparr>pmem := ?m1\<rparr>"] False p(1) "1.prems"(2) by simp
      moreover have nx: "?va0 + PGSIZE + of_nat i = va + of_nat (?n + i)" if "i < length bs - ?n" for i
        using next_page [of va "length bs"] that by (simp add: add.assoc)
      ultimately obtain r m where r: "copyout root (?va0 + PGSIZE) (drop ?n bs) (s\<lparr>pmem := ?m1\<rparr>) = Ok r (s\<lparr>pmem := m\<rparr>)"
          "r = 0 \<and> (\<forall>i<length bs - ?n. \<exists>x. uvirt (pmem s) root (va + of_nat (?n + i)) = Some x \<and> m x = bs ! (?n + i)) \<or>
           r = - 1 \<and> (\<exists>i<length bs - ?n. uvirt (pmem s) root (va + of_nat (?n + i)) = None)"
          "\<And>y. (\<And>i. i < length bs - ?n \<Longrightarrow> uvirt (pmem s) root (va + of_nat (?n + i)) \<noteq> Some y) \<Longrightarrow> m y = ?m1 y"
        using p(2) n(2) by (simp add: nx del: of_nat_add cong: conj_cong imp_cong) blast
      have run: "copyout root va bs s = Ok r (s\<lparr>pmem := m\<rparr>)"
        using False mapped(1,2) r(1) by (subst copyout.simps) (simp add: kern_simps Let_def)
      have inj: "va1 = va2" if "uvirt (pmem s) root va1 = Some x" "uvirt (pmem s) root va2 = Some x"
        for va1 va2 x
        using "1.prems"(1) that unfolding user_ok_def by blast
      have far: "m x = ?m1 x" if x: "uvirt (pmem s) root (va + of_nat i) = Some x" and i: "i < ?n" for i x
      proof (rule r(3), rule notI)
        fix j
        assume j: "j < length bs - ?n" and "uvirt (pmem s) root (va + of_nat (?n + j)) = Some x"
        then have "va + of_nat i = va + of_nat (?n + j)" using x by (intro inj)
        then have "unat (of_nat i :: u64) = unat (of_nat (?n + j) :: u64)"
          by (simp del: of_nat_add)
        with i j n(2) "1.prems"(2) show False by (simp only: unat_of_nat) simp
      qed
      have fr: "m y = pmem s y" if "\<forall>i<length bs. uvirt (pmem s) root (va + of_nat i) \<noteq> Some y" for y
      proof -
        have "m y = ?m1 y" using that by (intro r(3)) (simp del: of_nat_add)
        also have "\<dots> = pmem s y"
        proof (rule p(4))
          fix i
          assume "i < ?n"
          then have "i < length bs" using n(2) by linarith
          then show "uvirt (pmem s) root (va + of_nat i) \<noteq> Some y" using that by blast
        qed
        finally show ?thesis .
      qed
      have one: "\<exists>x. uvirt (pmem s) root (va + of_nat i) = Some x \<and> m x = bs ! i"
        if z: "\<forall>i<length bs - ?n. \<exists>x. uvirt (pmem s) root (va + of_nat (?n + i)) = Some x \<and> m x = bs ! (?n + i)"
          and i: "i < length bs" for i
      proof (cases "i < ?n")
        case True
        from p(3) [OF True] far [OF _ True] show ?thesis by metis
      next
        case False
        then have "?n + (i - ?n) = i" "i - ?n < length bs - ?n" using i n(2) by simp_all
        with z show ?thesis by metis
      qed
      have two: "\<exists>i<length bs. uvirt (pmem s) root (va + of_nat i) = None"
        if "i < length bs - ?n" "uvirt (pmem s) root (va + of_nat (?n + i)) = None" for i
        using that n(2) by (intro exI [of _ "?n + i"]) simp
      from r(2) have "r = 0 \<and> (\<forall>i<length bs. \<exists>x. uvirt (pmem s) root (va + of_nat i) = Some x \<and> m x = bs ! i) \<or>
          r = - 1 \<and> (\<exists>i<length bs. uvirt (pmem s) root (va + of_nat i) = None)"
      proof (elim disjE conjE exE)
        assume "r = 0" and z: "\<forall>i<length bs - ?n. \<exists>x. uvirt (pmem s) root (va + of_nat (?n + i)) = Some x \<and>
            m x = bs ! (?n + i)"
        then show ?thesis using one [OF z] by simp
      next
        fix i
        assume "r = - 1" "i < length bs - ?n" "uvirt (pmem s) root (va + of_nat (?n + i)) = None"
        then show ?thesis using two [of i] by simp
      qed
      with run fr show ?thesis by (intro exI [of _ r] exI [of _ m] conjI allI impI)
    qed
  qed
qed

lemma copyinstr_page_eq:
  "copyinstr_page n p m = (bs, g) \<Longrightarrow>
     (\<forall>i<length bs. m (p + of_nat i) = bs ! i) \<and> length bs \<le> n \<and>
     (if g then \<exists>xs. bs = xs @ [0] \<and> 0 \<notin> set xs else length bs = n \<and> 0 \<notin> set bs)"
proof (induction n arbitrary: p bs g)
  case 0
  then show ?case by auto
next
  case (Suc n)
  show ?case
  proof (cases "m p = 0")
    case True
    with Suc.prems show ?thesis by auto
  next
    case False
    then obtain cs where cs: "copyinstr_page n (p + 1) m = (cs, g)" "bs = m p # cs"
      using Suc.prems by (auto split: prod.splits)
    have "m (p + of_nat i) = bs ! i" if "i < length bs" for i
      using Suc.IH [OF cs(1)] that cs(2) by (cases i) (auto simp: algebra_simps)
    moreover have "\<exists>ys. m p # xs @ [0] = ys @ [0] \<and> 0 \<notin> set ys" if "0 \<notin> set xs" for xs
      using that False by (intro exI [of _ "m p # xs"]) auto
    ultimately show ?thesis
      using Suc.IH [OF cs(1)] cs(2) False by (auto split: if_splits)
  qed
qed

lemma copyinstr_ok:
  assumes "pt_wf (pmem s) root"
  shows "\<exists>r bs. copyinstr root va len s = Ok (r, bs) s \<and> length bs \<le> len \<and> user_bytes (pmem s) root va bs \<and>
    (r = 0 \<and> (\<exists>xs. bs = xs @ [0] \<and> 0 \<notin> set xs) \<or>
     r = - 1 \<and> 0 \<notin> set bs \<and> (length bs = len \<or> uvirt (pmem s) root (va + of_nat (length bs)) = None))"
  using assms
proof (induction root va len rule: copyinstr.induct)
  case (1 root va len)
  let ?n = "page_part va len" and ?va0 = "PGROUNDDOWN va"
  show ?case
  proof (cases "len = 0")
    case True
    then show ?thesis by (simp add: copyinstr.simps user_bytes_def)
  next
    case False
    from "1.prems" show ?thesis
    proof (cases rule: walkaddr_uvirt [of s root va])
      case unmapped
      with False show ?thesis
        by (subst copyinstr.simps) (simp add: kern_simps Let_def user_bytes_def)
    next
      case (mapped pa)
      obtain bs g where p: "copyinstr_page ?n (pa + (va - ?va0)) (pmem s) = (bs, g)" by fastforce
      note pe = copyinstr_page_eq [OF p]
      have bs: "user_bytes (pmem s) root va bs"
        using pe by (intro user_bytes_page [OF mapped(3), of bs len]) auto
      show ?thesis
      proof (cases g)
        case True
        then have "copyinstr root va len s = Ok (0, bs) s"
          using False mapped(1,2) p by (subst copyinstr.simps) (simp add: kern_simps Let_def)
        moreover have "length bs \<le> len" using pe page_part_bounds(2) [of va len] by linarith
        ultimately show ?thesis using pe True bs by (intro exI [of _ 0] exI [of _ bs]) simp
      next
        case g: False
        obtain r cs where r: "copyinstr root (?va0 + PGSIZE) (len - ?n) s = Ok (r, cs) s" "length cs \<le> len - ?n"
            "user_bytes (pmem s) root (?va0 + PGSIZE) cs"
            "r = 0 \<and> (\<exists>xs. cs = xs @ [0] \<and> 0 \<notin> set xs) \<or> r = - 1 \<and> 0 \<notin> set cs \<and>
              (length cs = len - ?n \<or> uvirt (pmem s) root (?va0 + PGSIZE + of_nat (length cs)) = None)"
          using "1.IH" [OF _ refl refl mapped(2) g "1.prems"] False by auto
        have run: "copyinstr root va len s = Ok (r, bs @ cs) s"
          using False mapped(1,2) r(1) p g by (subst copyinstr.simps) (simp add: kern_simps Let_def)
        have lb: "length bs = ?n" "0 \<notin> set bs" using pe g by simp_all
        have le: "length (bs @ cs) \<le> len" using lb r(2) page_part_bounds(2) [of va len] by simp
        have nx: "?va0 + PGSIZE = va + of_nat (length bs)" if "?n < len"
          using next_page [OF that] lb by simp
        have "user_bytes (pmem s) root va (bs @ cs)"
        proof (cases "?n < len")
          case True
          with nx r(3) bs show ?thesis by (simp add: user_bytes_append)
        next
          case False
          then have "cs = []" using r(2) by simp
          with bs show ?thesis by simp
        qed
        moreover have "\<exists>xs. bs @ cs = xs @ [0] \<and> 0 \<notin> set xs" if "cs = ys @ [0]" "0 \<notin> set ys" for ys
          using that lb by (intro exI [of _ "bs @ ys"]) simp
        moreover have "length (bs @ cs) = len \<or> uvirt (pmem s) root (va + of_nat (length (bs @ cs))) = None"
          if "length cs = len - ?n \<or> uvirt (pmem s) root (?va0 + PGSIZE + of_nat (length cs)) = None"
          using that nx lb r(2) page_part_bounds(2) [of va len]
          by (cases "?n < len") (auto simp: add.assoc)
        ultimately show ?thesis
          using run le r(4) lb(2) by (intro exI [of _ r] exI [of _ "bs @ cs"]) auto
      qed
    qed
  qed
qed

section \<open>Properties of the copies\<close>

text \<open>
  C10: \<open>copyout\<close> writes to user memory and \<open>copyin\<close> reads it back. For an address space in which
  no user page is a table page and no two user addresses are the same byte, \<open>copyout\<close> returns
  0 exactly when the whole destination is mapped for the user; it changes no byte other than
  those of the destination; the page table stays as it was; and after success \<open>copyin\<close> from
  the same address returns the bytes copied out.
\<close>

theorem copyout_then_copyin:
  assumes "user_ok (pmem s) root" "length bs < 2 ^ 64"
  shows "\<exists>r t. copyout root va bs s = Ok r t \<and> user_ok (pmem t) root \<and>
    (r = 0) = (\<forall>i<length bs. uvirt (pmem s) root (va + of_nat i) \<noteq> None) \<and> r \<in> {0, - 1} \<and>
    (\<forall>y. (\<exists>i<length bs. uvirt (pmem s) root (va + of_nat i) = Some y) \<or> pmem t y = pmem s y) \<and>
    (\<forall>va'. entry (pmem t) root va' = entry (pmem s) root va') \<and>
    (r = 0 \<longrightarrow> copyin root va (length bs) t = Ok (0, bs) t)"
proof -
  obtain r m where c: "copyout root va bs s = Ok r (s\<lparr>pmem := m\<rparr>)"
      "r = 0 \<and> (\<forall>i<length bs. \<exists>x. uvirt (pmem s) root (va + of_nat i) = Some x \<and> m x = bs ! i) \<or>
       r = - 1 \<and> (\<exists>i<length bs. uvirt (pmem s) root (va + of_nat i) = None)"
      "\<forall>y. (\<forall>i<length bs. uvirt (pmem s) root (va + of_nat i) \<noteq> Some y) \<longrightarrow> m y = pmem s y"
    using copyout_ok [OF assms, of va] by (elim exE conjE) (rule that)
  have f: "user_ok m root" "\<And>va. uvirt m root va = uvirt (pmem s) root va"
      "\<And>va. entry m root va = entry (pmem s) root va"
    by (rule user_ok_frame [OF assms(1)], use c(3) in blast)+
  have "copyin root va (length bs) (s\<lparr>pmem := m\<rparr>) = Ok (0, bs) (s\<lparr>pmem := m\<rparr>)" if "r = 0"
  proof -
    have m: "\<forall>i<length bs. \<exists>x. uvirt m root (va + of_nat i) = Some x \<and> m x = bs ! i"
      using c(2) that f(2) by simp
    have "pt_wf (pmem (s\<lparr>pmem := m\<rparr>)) root" using f(1) by (simp add: user_ok_def)
    then obtain q cs where cs: "copyin root va (length bs) (s\<lparr>pmem := m\<rparr>) = Ok (q, cs) (s\<lparr>pmem := m\<rparr>)"
        "q = 0 \<and> length cs = length bs \<and> user_bytes m root va cs \<or>
         q = - 1 \<and> (\<exists>i<length bs. uvirt m root (va + of_nat i) = None)"
      using copyin_ok [of "s\<lparr>pmem := m\<rparr>" root va "length bs"] by auto
    moreover have "\<not> (\<exists>i<length bs. uvirt m root (va + of_nat i) = None)" using m by auto
    ultimately have ub: "q = 0" "length cs = length bs" "user_bytes m root va cs" by simp_all
    have "cs ! i = bs ! i" if "i < length bs" for i
      using ub(2,3) m that unfolding user_bytes_def by (metis option.inject)
    with ub have "q = 0" "cs = bs" by (simp_all add: nth_equalityI)
    with cs(1) show ?thesis by simp
  qed
  moreover have "r = 0 \<longleftrightarrow> (\<forall>i<length bs. uvirt (pmem s) root (va + of_nat i) \<noteq> None)" "r \<in> {0, - 1}"
    using c(2) by force+
  ultimately show ?thesis
    using c(1,3) f by (intro exI [of _ r] exI [of _ "s\<lparr>pmem := m\<rparr>"]) auto
qed

text \<open>An address space with one user page at virtual address 0, as \<open>mappages\<close> builds it.\<close>

lemma uvirt_one_page:
  assumes "\<And>va. va < MAXVA \<Longrightarrow> in_range 0 PGSIZE va \<Longrightarrow>
      PTE2PA (entry m root va) = pa \<and> entry m root va AND PTE_V \<noteq> 0 \<and> entry m root va AND PTE_U \<noteq> 0"
    and "\<And>va. va < MAXVA \<Longrightarrow> \<not> in_range 0 PGSIZE va \<Longrightarrow> entry m root va = 0" and "pa \<noteq> 0"
  shows "uvirt m root va = (if unat va < 4096 then Some (pa + va) else None)"
proof -
  have r: "in_range 0 PGSIZE (PGROUNDDOWN va) \<longleftrightarrow> unat va < 4096"
    by (auto simp: in_range_def unat_PGROUNDDOWN_div div_eq_0_iff)
  show ?thesis
  proof (cases "unat va < 4096")
    case True
    then have "PGROUNDDOWN va = 0" by (simp add: word_unat_eq_iff unat_PGROUNDDOWN_div)
    with True r assms(1) [of 0] assms(3) show ?thesis by (simp add: uvirt_def)
  next
    case False
    with r assms(2) [of "PGROUNDDOWN va"] show ?thesis
      by (cases "PGROUNDDOWN va < MAXVA") (auto simp: uvirt_def Let_def not_less)
  qed
qed

lemma outside_far:
  assumes "unat x + 4096 \<le> unat p" "unat p + 4096 \<le> unat x + 2 ^ 64"
  shows "4096 \<le> unat (x - p :: u64)"
  using assms by (simp add: unat_sub_if')

lemma one_user_page:
  "\<exists>t :: kmem_state. user_ok (pmem t) 0x87FFD000 \<and>
     (\<forall>va. uvirt (pmem t) 0x87FFD000 va = (if unat va < 4096 then Some (0x80100000 + va) else None))"
proof -
  let ?root = "0x87FFD000 :: u64" and ?pa = "0x80100000 :: u64" and ?perm = "PTE_R OR PTE_W OR PTE_U"
  have "\<exists>r t qs ps' k. mappages_loop (Suc 0) ?root 0 0 ?pa ?perm two_pages = Ok r t \<and>
      [0x87FFF000, 0x87FFE000] = qs @ ps' \<and> vm_ok t ?root ps' \<and> grown ?root two_pages t qs \<and> k \<le> Suc 0 \<and>
      (\<forall>va. va < MAXVA \<longrightarrow> entry (pmem t) ?root va = map_range (entry (pmem two_pages) ?root) 0 k ?pa ?perm va) \<and>
      (r = 0 \<and> k = Suc 0 \<or> r = - 1 \<and> k \<le> 0 \<and> ps' = [] \<and> length qs < 2 * Suc 0)"
    by (rule mappages_loop_ok [OF two_pages_ok(1)]) (simp_all add: two_pages_ok(2))
  then obtain r t qs ps' k where m: "[0x87FFF000, 0x87FFE000] = qs @ ps'" "vm_ok t ?root ps'"
      "grown ?root two_pages t qs"
      "\<forall>va. va < MAXVA \<longrightarrow> entry (pmem t) ?root va = map_range (entry (pmem two_pages) ?root) 0 k ?pa ?perm va"
      "r = 0 \<and> k = Suc 0 \<or> r = (- 1 :: int) \<and> k \<le> 0 \<and> ps' = [] \<and> length qs < 2 * Suc 0"
    by (elim exE conjE) (rule that)
  have k: "k = Suc 0" using m(1,5) by auto
  have e: "PTE2PA (entry (pmem t) ?root va) = ?pa \<and> entry (pmem t) ?root va AND PTE_V \<noteq> 0 \<and>
      entry (pmem t) ?root va AND PTE_U \<noteq> 0" if "va < MAXVA" "in_range 0 PGSIZE va" for va
  proof -
    note d = map_range_decode [where va = 0 and sz = PGSIZE and n = 0 and pa = ?pa and perm = ?perm
        and va' = va and e = "entry (pmem two_pages) ?root"]
    have "PGROUNDDOWN va = 0" using that(2) by (simp add: in_range_def word_unat_eq_iff unat_PGROUNDDOWN_div)
    moreover have "PGROUNDDOWN 0 = 0" by (simp add: PGROUNDDOWN_def)
    ultimately have f: "PTE2PA (entry (pmem t) ?root va) = ?pa" "PTE_FLAGS (entry (pmem t) ?root va) = 0x17"
      using d m(4) that k by simp_all
    have "x AND PTE_V = PTE_FLAGS x AND PTE_V" "x AND PTE_U = PTE_FLAGS x AND PTE_U" for x
      by (simp_all add: PTE_FLAGS_def and.assoc)
    from this [of "entry (pmem t) ?root va"] show ?thesis unfolding f by (simp add: f(1))
  qed
  have u: "uvirt (pmem t) ?root va = (if unat va < 4096 then Some (?pa + va) else None)" for va
  proof (rule uvirt_one_page [OF e])
    fix va :: u64
    assume va: "va < MAXVA" "\<not> in_range 0 PGSIZE va"
    then have "\<not> unat va < 4096" by (simp add: in_range_def div_eq_0_iff)
    then have "\<not> (unat (0 :: u64) \<le> unat va \<and> unat va < unat (0 :: u64) + Suc 0 * PGSIZE)" by simp
    with m(4) [rule_format, OF va(1)] show "entry (pmem t) ?root va = 0"
      unfolding k map_range_def using two_pages_ok(2) by (simp only: if_False)
  qed simp_all
  have pg: "p \<in> {?root, 0x87FFF000, 0x87FFE000}" if "p \<in> pt_pages (pmem t) ?root" for p
  proof -
    have "set qs \<subseteq> set (qs @ ps')" by simp
    then have "set qs \<subseteq> {0x87FFF000, 0x87FFE000}" unfolding m(1) [symmetric] by simp
    with m(3) that two_pages_ok(3) show ?thesis by (auto simp: grown_def)
  qed
  have "outside (pt_pages (pmem t) ?root) (?pa + va)" if "unat va < 4096" for va
    unfolding outside_def
  proof
    fix p
    assume "p \<in> pt_pages (pmem t) ?root"
    moreover have "unat (?pa + va) = 0x80100000 + unat va" using that by (simp add: unat_word_ariths)
    ultimately show "4096 \<le> unat (?pa + va - p)" using that pg [of p] by (intro outside_far) auto
  qed
  with u m(2) show ?thesis
    by (intro exI [of _ t]) (auto simp: user_ok_def vm_ok_def split: if_splits)
qed

theorem copyout_then_copyin_witness:
  "\<exists>(s :: kmem_state) t. copyout 0x87FFD000 16 [1, 2, 3] s = Ok 0 t \<and>
     copyin 0x87FFD000 16 3 t = Ok (0, [1, 2, 3]) t"
proof -
  obtain s :: kmem_state where s: "user_ok (pmem s) 0x87FFD000"
      "\<forall>va. uvirt (pmem s) 0x87FFD000 va = (if unat va < 4096 then Some (0x80100000 + va) else None)"
    using one_user_page by blast
  have "uvirt (pmem s) 0x87FFD000 (16 + of_nat i) \<noteq> None" if "i < length [1, 2, 3 :: u8]" for i
  proof -
    have "unat (16 + of_nat i :: u64) = 16 + i"
      using that by (simp add: unat_word_ariths unat_of_nat)
    with s(2) that show ?thesis by simp
  qed
  with copyout_then_copyin [OF s(1), of "[1, 2, 3]" 16] show ?thesis
    by (auto simp: numeral_3_eq_3)
qed

text \<open>
  C11: \<open>copyinstr\<close> never stores more than \<open>len\<close> bytes, and every byte it stores is the user's. It
  returns 0 exactly with a NUL-terminated string in the buffer; it returns -1 when there was
  no NUL in \<open>len\<close> bytes or when it reached an address that is not mapped for the user.
\<close>

theorem copyinstr_terminated:
  assumes "pt_wf (pmem s) root"
  shows "\<exists>r bs. copyinstr root va len s = Ok (r, bs) s \<and> length bs \<le> len \<and> user_bytes (pmem s) root va bs \<and>
    (r = 0 \<and> (\<exists>xs. bs = xs @ [0] \<and> 0 \<notin> set xs) \<or>
     r = - 1 \<and> 0 \<notin> set bs \<and> (length bs = len \<or> uvirt (pmem s) root (va + of_nat (length bs)) = None))"
  using assms by (rule copyinstr_ok)

theorem copyinstr_terminated_witness:
  "\<exists>r bs. copyinstr 0x87FFD000 64 128 two_pages = Ok (r, bs) two_pages \<and> length bs \<le> 128"
  using copyinstr_terminated [of two_pages "0x87FFD000" 64 128] two_pages_ok(1)
  by (auto simp: vm_ok_def)

end
