(* ===== verification/Xv6_Sched.thy ===== *)
theory Xv6_Sched
  imports Xv6_Vm
begin

text \<open>
  The process table and the switching of processes: \<^verbatim>\<open>kernel/proc.h\<close> and the parts of
  \<^verbatim>\<open>kernel/proc.c\<close> that do not touch files (\<open>fork\<close>, \<open>exit\<close> and \<open>userinit\<close> are built on the
  file system). A process is named by its index in \<^verbatim>\<open>proc[NPROC]\<close>; the trap frames, which live
  in pages of their own, are kept by the address of the page.

  \<^verbatim>\<open>swtch\<close> ends the run of a kernel function: \<open>sched\<close> has the outcome \<open>Sleeps\<close> with the state
  at the switch, and \<open>sched_return\<close>, \<open>sleep_return\<close> and \<open>yield_return\<close> are what the process
  does when it is switched to again. The theory \<^verbatim>\<open>Xv6_Harts\<close> puts the halves together for
  several harts.
\<close>

section \<open>State\<close>

record trapframe =
  tf_kernel_satp :: u64
  tf_kernel_sp :: u64
  tf_kernel_trap :: u64
  tf_epc :: u64
  tf_kernel_hartid :: u64
  tf_ra :: u64
  tf_sp :: u64
  tf_gp :: u64
  tf_tp :: u64
  tf_t0 :: u64
  tf_t1 :: u64
  tf_t2 :: u64
  tf_s0 :: u64
  tf_s1 :: u64
  tf_a0 :: u64
  tf_a1 :: u64
  tf_a2 :: u64
  tf_a3 :: u64
  tf_a4 :: u64
  tf_a5 :: u64
  tf_a6 :: u64
  tf_a7 :: u64
  tf_s2 :: u64
  tf_s3 :: u64
  tf_s4 :: u64
  tf_s5 :: u64
  tf_s6 :: u64
  tf_s7 :: u64
  tf_s8 :: u64
  tf_s9 :: u64
  tf_s10 :: u64
  tf_s11 :: u64
  tf_t3 :: u64
  tf_t4 :: u64
  tf_t5 :: u64
  tf_t6 :: u64

datatype procstate = UNUSED | USED | SLEEPING | RUNNABLE | RUNNING | ZOMBIE

record proc =
  p_state :: procstate
  p_chan :: "chan option"
  p_killed :: int
  p_xstate :: int
  p_pid :: int
  p_parent :: "nat option"
  p_kstack :: u64
  p_sz :: u64
  p_pagetable :: u64
  p_trapframe :: u64
  p_context :: kcontext
  p_ofile :: "nat option list" \<comment> \<open>indices into the file table\<close>
  p_cwd :: "nat option" \<comment> \<open>index into the inode table\<close>
  p_name :: "u8 list"

record proc_state = vm_state +
  procs :: "nat \<Rightarrow> proc"
  initproc :: "nat option"
  nextpid :: int
  tframes :: "u64 \<Rightarrow> trapframe"
  forkret_addr :: u64 \<comment> \<open>the code of \<^verbatim>\<open>forkret\<close>\<close>

definition set_proc :: "nat \<Rightarrow> (proc \<Rightarrow> proc) \<Rightarrow> ('z proc_state_scheme, unit) kern" where
  "set_proc i f = modify (\<lambda>s. s\<lparr>procs := (procs s)(i := f (procs s i))\<rparr>)"

definition get_proc :: "nat \<Rightarrow> (proc \<Rightarrow> 'a) \<Rightarrow> ('z proc_state_scheme, 'a) kern" where
  "get_proc i f = gets (\<lambda>s. f (procs s i))"

section \<open>The current process\<close>

definition myproc :: "('z kbase_scheme, nat option) kern" where
  "myproc = on_lk (
     bind push_off (\<lambda>_. bind (gets mycpu) (\<lambda>c. bind pop_off (\<lambda>_. ret (cproc c)))))"

text \<open>Code that follows the pointer \<^verbatim>\<open>myproc()\<close>; with no process that is a fault.\<close>

definition curproc :: "('z kbase_scheme, nat) kern" where
  "curproc = bind myproc (\<lambda>p. case p of None \<Rightarrow> panic ''kerneltrap'' | Some i \<Rightarrow> ret i)"

definition procinit :: "('z proc_state_scheme, unit) kern" where
  "procinit = block [
     on_lk (initlock PidLock ''nextpid''),
     on_lk (initlock WaitLock ''wait_lock''),
     block (map (\<lambda>i. block [
       on_lk (initlock (ProcLock i) ''proc''),
       set_proc i (\<lambda>p. p\<lparr>p_state := UNUSED\<rparr>),
       set_proc i (\<lambda>p. p\<lparr>p_kstack := KSTACK (of_nat i)\<rparr>)]) [0..<NPROC])]"

definition allocpid :: "('z proc_state_scheme, int) kern" where
  "allocpid =
     with_lock PidLock (
       bind (gets nextpid) (\<lambda>pid.
       bind (modify (\<lambda>s. s\<lparr>nextpid := nextpid s + 1\<rparr>)) (\<lambda>_. ret pid)))"

section \<open>Giving up the CPU\<close>

text \<open>
  \<open>sched\<close> up to \<^verbatim>\<open>swtch\<close>; the saved \<^verbatim>\<open>intena\<close> is the argument of \<open>sched_return\<close>.
\<close>

definition sched :: "('z proc_state_scheme, unit) kern" where
  "sched =
     bind curproc (\<lambda>p.
     bind (gets (\<lambda>s. holding (ProcLock p) (lk s))) (\<lambda>h.
     bind (panic_if (\<not> h) ''sched p->lock'') (\<lambda>_.
     bind (gets (\<lambda>s. noff (mycpu (lk s)))) (\<lambda>n.
     bind (panic_if (n \<noteq> 1) ''sched locks'') (\<lambda>_.
     bind (get_proc p p_state) (\<lambda>st.
     bind (panic_if (st = RUNNING) ''sched running'') (\<lambda>_.
     bind (gets (\<lambda>s. intr_get (lk s))) (\<lambda>i.
     bind (panic_if i ''sched interruptible'') (\<lambda>_.
     (\<lambda>s. Sleeps (p_chan (procs s p)) s))))))))))"

definition sched_return :: "bool \<Rightarrow> ('z proc_state_scheme, unit) kern" where
  "sched_return ie = modify (\<lambda>s. s\<lparr>lk := set_mycpu (\<lambda>c. c\<lparr>intena := ie\<rparr>) (lk s)\<rparr>)"

definition yield :: "('z proc_state_scheme, unit) kern" where
  "yield =
     bind curproc (\<lambda>p. block [
       on_lk (acquire (ProcLock p)),
       set_proc p (\<lambda>q. q\<lparr>p_state := RUNNABLE\<rparr>),
       sched])"

definition yield_return :: "bool \<Rightarrow> nat \<Rightarrow> ('z proc_state_scheme, unit) kern" where
  "yield_return ie p = block [sched_return ie, on_lk (release (ProcLock p))]"

definition sleep :: "chan \<Rightarrow> lockid \<Rightarrow> ('z proc_state_scheme, unit) kern" where
  "sleep c l =
     bind curproc (\<lambda>p. block [
       on_lk (acquire (ProcLock p)),
       on_lk (release l),
       set_proc p (\<lambda>q. q\<lparr>p_chan := Some c\<rparr>),
       set_proc p (\<lambda>q. q\<lparr>p_state := SLEEPING\<rparr>),
       sched])"

text \<open>After the switch back: \<open>sleep_tidy\<close> up to the release of the process's own lock, then the other lock.\<close>

definition sleep_tidy :: "bool \<Rightarrow> nat \<Rightarrow> ('z proc_state_scheme, unit) kern" where
  "sleep_tidy ie p = block [
     sched_return ie,
     set_proc p (\<lambda>q. q\<lparr>p_chan := None\<rparr>),
     on_lk (release (ProcLock p))]"

definition sleep_return :: "bool \<Rightarrow> nat \<Rightarrow> lockid \<Rightarrow> ('z proc_state_scheme, unit) kern" where
  "sleep_return ie p l = block [sleep_tidy ie p, on_lk (acquire l)]"

text \<open>\<open>wakeup\<close> at one entry of the table, and the loop over all of them.\<close>

definition wakeup_one :: "chan \<Rightarrow> nat \<Rightarrow> ('z proc_state_scheme, unit) kern" where
  "wakeup_one c i =
     bind myproc (\<lambda>me.
       only_if (me \<noteq> Some i)
         (with_lock (ProcLock i) (
           bind (get_proc i id) (\<lambda>p.
             only_if (p_state p = SLEEPING \<and> p_chan p = Some c)
               (set_proc i (\<lambda>p. p\<lparr>p_state := RUNNABLE\<rparr>))))))"

definition wakeup :: "chan \<Rightarrow> ('z proc_state_scheme, unit) kern" where
  "wakeup c = block (map (wakeup_one c) [0..<NPROC])"

text \<open>
  The loop of \<open>scheduler\<close> on the executing hart: \<open>scheduler_init\<close> before the loop,
  \<open>scheduler_round\<close> at the start of every round through the table, \<open>scheduler_try\<close> at process
  \<open>i\<close> up to the \<^verbatim>\<open>swtch\<close> to it (the result says whether it switches), \<open>scheduler_back\<close> when
  a process has switched back.
\<close>

definition scheduler_init :: "('z kbase_scheme, unit) kern" where
  "scheduler_init = on_lk (modify (set_mycpu (\<lambda>c. c\<lparr>cproc := None\<rparr>)))"

definition scheduler_round :: "('z kbase_scheme, unit) kern" where
  "scheduler_round = on_lk (modify intr_on)"

definition scheduler_try :: "nat \<Rightarrow> ('z proc_state_scheme, bool) kern" where
  "scheduler_try i =
     bind (on_lk (acquire (ProcLock i))) (\<lambda>_.
     bind (get_proc i p_state) (\<lambda>st.
       if st = RUNNABLE then
         bind (set_proc i (\<lambda>p. p\<lparr>p_state := RUNNING\<rparr>)) (\<lambda>_.
         bind (on_lk (modify (set_mycpu (\<lambda>c. c\<lparr>cproc := Some i\<rparr>)))) (\<lambda>_. ret True))
       else bind (on_lk (release (ProcLock i))) (\<lambda>_. ret False)))"

definition scheduler_back :: "nat \<Rightarrow> ('z proc_state_scheme, unit) kern" where
  "scheduler_back i = block [
     on_lk (modify (set_mycpu (\<lambda>c. c\<lparr>cproc := None\<rparr>))),
     on_lk (release (ProcLock i))]"

text \<open>The end of \<open>exit\<close>, from \<^verbatim>\<open>acquire(&p->lock)\<close> on, with \<^verbatim>\<open>wait_lock\<close> held.\<close>

definition exit_zombie :: "nat \<Rightarrow> int \<Rightarrow> ('z proc_state_scheme, unit) kern" where
  "exit_zombie p status = block [
     on_lk (acquire (ProcLock p)),
     set_proc p (\<lambda>q. q\<lparr>p_xstate := status\<rparr>),
     set_proc p (\<lambda>q. q\<lparr>p_state := ZOMBIE\<rparr>),
     on_lk (release WaitLock),
     sched,
     panic ''zombie exit'']"

section \<open>Killing\<close>

fun kill_from :: "nat list \<Rightarrow> int \<Rightarrow> ('z proc_state_scheme, int) kern" where
  "kill_from [] pid = ret (- 1)"
| "kill_from (i # is) pid =
     bind (with_lock (ProcLock i) (
       bind (get_proc i id) (\<lambda>p.
         if p_pid p = pid then
           bind (set_proc i (\<lambda>p. p\<lparr>p_killed := 1\<rparr>)) (\<lambda>_.
           bind (only_if (p_state p = SLEEPING) (set_proc i (\<lambda>p. p\<lparr>p_state := RUNNABLE\<rparr>)))
             (\<lambda>_. ret True))
         else ret False)))
       (\<lambda>found. if found then ret 0 else kill_from is pid)"

definition kill :: "int \<Rightarrow> ('z proc_state_scheme, int) kern" where
  "kill pid = kill_from [0..<NPROC] pid"

definition setkilled :: "nat \<Rightarrow> ('z proc_state_scheme, unit) kern" where
  "setkilled i = with_lock (ProcLock i) (set_proc i (\<lambda>p. p\<lparr>p_killed := 1\<rparr>))"

definition killed :: "nat \<Rightarrow> ('z proc_state_scheme, int) kern" where
  "killed i = with_lock (ProcLock i) (get_proc i p_killed)"

section \<open>Address spaces of processes\<close>

definition proc_pagetable :: "nat \<Rightarrow> ('z proc_state_scheme, u64) kern" where
  "proc_pagetable i =
     bind uvmcreate (\<lambda>pagetable.
       if pagetable = 0 then ret 0
       else bind (gets trampoline) (\<lambda>tr.
         bind (mappages pagetable TRAMPOLINE PGSIZE tr (PTE_R OR PTE_X)) (\<lambda>r.
           if r < 0 then bind (uvmfree pagetable 0) (\<lambda>_. ret 0)
           else bind (get_proc i p_trapframe) (\<lambda>tf.
             bind (mappages pagetable TRAPFRAME PGSIZE tf (PTE_R OR PTE_W)) (\<lambda>r.
               if r < 0 then
                 bind (uvmunmap pagetable TRAMPOLINE 1 False) (\<lambda>_.
                 bind (uvmfree pagetable 0) (\<lambda>_. ret 0))
               else ret pagetable)))))"

definition proc_freepagetable :: "u64 \<Rightarrow> u64 \<Rightarrow> ('z kmem_state_scheme, unit) kern" where
  "proc_freepagetable pagetable sz = block [
     uvmunmap pagetable TRAMPOLINE 1 False,
     uvmunmap pagetable TRAPFRAME 1 False,
     uvmfree pagetable sz]"

definition freeproc :: "nat \<Rightarrow> ('z proc_state_scheme, unit) kern" where
  "freeproc i = block [
     bind (get_proc i p_trapframe) (\<lambda>tf. only_if (tf \<noteq> 0) (kfree tf)),
     set_proc i (\<lambda>p. p\<lparr>p_trapframe := 0\<rparr>),
     bind (get_proc i id) (\<lambda>p.
       only_if (p_pagetable p \<noteq> 0) (proc_freepagetable (p_pagetable p) (p_sz p))),
     set_proc i (\<lambda>p. p\<lparr>p_pagetable := 0\<rparr>),
     set_proc i (\<lambda>p. p\<lparr>p_sz := 0\<rparr>),
     set_proc i (\<lambda>p. p\<lparr>p_pid := 0\<rparr>),
     set_proc i (\<lambda>p. p\<lparr>p_parent := None\<rparr>),
     set_proc i (\<lambda>p. p\<lparr>p_name := (p_name p)[0 := 0]\<rparr>),
     set_proc i (\<lambda>p. p\<lparr>p_chan := None\<rparr>),
     set_proc i (\<lambda>p. p\<lparr>p_killed := 0\<rparr>),
     set_proc i (\<lambda>p. p\<lparr>p_xstate := 0\<rparr>),
     set_proc i (\<lambda>p. p\<lparr>p_state := UNUSED\<rparr>)]"

text \<open>The part of \<open>allocproc\<close> after the label \<^verbatim>\<open>found\<close>.\<close>

definition allocproc_found :: "nat \<Rightarrow> ('z proc_state_scheme, nat option) kern" where
  "allocproc_found i =
     (let give_up = bind (freeproc i) (\<lambda>_.
        bind (on_lk (release (ProcLock i))) (\<lambda>_. ret None)) in
      bind allocpid (\<lambda>pid.
      bind (set_proc i (\<lambda>p. p\<lparr>p_pid := pid\<rparr>)) (\<lambda>_.
      bind (set_proc i (\<lambda>p. p\<lparr>p_state := USED\<rparr>)) (\<lambda>_.
      bind kalloc (\<lambda>tf.
      bind (set_proc i (\<lambda>p. p\<lparr>p_trapframe := tf\<rparr>)) (\<lambda>_.
        if tf = 0 then give_up
        else bind (proc_pagetable i) (\<lambda>pt.
          bind (set_proc i (\<lambda>p. p\<lparr>p_pagetable := pt\<rparr>)) (\<lambda>_.
            if pt = 0 then give_up
            else bind (gets forkret_addr) (\<lambda>ra.
              bind (set_proc i (\<lambda>p. p\<lparr>p_context :=
                \<lparr>c_ra = ra, c_sp = p_kstack p + PGSIZE, c_s = replicate 12 0\<rparr>\<rparr>))
              (\<lambda>_. ret (Some i)))))))))))"

fun allocproc_from :: "nat list \<Rightarrow> ('z proc_state_scheme, nat option) kern" where
  "allocproc_from [] = ret None"
| "allocproc_from (i # is) =
     bind (on_lk (acquire (ProcLock i))) (\<lambda>_.
     bind (get_proc i p_state) (\<lambda>st.
       if st = UNUSED then allocproc_found i
       else bind (on_lk (release (ProcLock i))) (\<lambda>_. allocproc_from is)))"

definition allocproc :: "('z proc_state_scheme, nat option) kern" where
  "allocproc = allocproc_from [0..<NPROC]"

definition growproc :: "int \<Rightarrow> ('z proc_state_scheme, int) kern" where
  "growproc n =
     bind curproc (\<lambda>i.
     bind (get_proc i id) (\<lambda>p.
       if n > 0 then
         bind (uvmalloc (p_pagetable p) (p_sz p) (p_sz p + of_int n) PTE_W) (\<lambda>sz.
           if sz = 0 then ret (- 1)
           else bind (set_proc i (\<lambda>p. p\<lparr>p_sz := sz\<rparr>)) (\<lambda>_. ret 0))
       else if n < 0 then
         bind (uvmdealloc (p_pagetable p) (p_sz p) (p_sz p + of_int n)) (\<lambda>sz.
           bind (set_proc i (\<lambda>p. p\<lparr>p_sz := sz\<rparr>)) (\<lambda>_. ret 0))
       else bind (set_proc i (\<lambda>q. q\<lparr>p_sz := p_sz p\<rparr>)) (\<lambda>_. ret 0)))"

definition either_copyout :: "bool \<Rightarrow> u64 \<Rightarrow> u8 list \<Rightarrow> ('z proc_state_scheme, int) kern" where
  "either_copyout user_dst dst src =
     bind myproc (\<lambda>_.
       if user_dst then
         bind curproc (\<lambda>i. bind (get_proc i p_pagetable) (\<lambda>pt. copyout pt dst src))
       else bind (on_mem (\<lambda>m. mwrite m dst src)) (\<lambda>_. ret 0))"

definition either_copyin :: "bool \<Rightarrow> u64 \<Rightarrow> nat \<Rightarrow> ('z proc_state_scheme, int \<times> u8 list) kern" where
  "either_copyin user_src src len =
     bind myproc (\<lambda>_.
       if user_src then
         bind curproc (\<lambda>i. bind (get_proc i p_pagetable) (\<lambda>pt. copyin pt src len))
       else bind (gets (\<lambda>s. mread (pmem s) src len)) (\<lambda>bs. ret (0, bs)))"

section \<open>Parents and children\<close>

definition reparent :: "nat \<Rightarrow> ('z proc_state_scheme, unit) kern" where
  "reparent i =
     block (map (\<lambda>j.
       bind (get_proc j p_parent) (\<lambda>parent.
         only_if (parent = Some i) (
           bind (gets initproc) (\<lambda>ip. block [
             set_proc j (\<lambda>p. p\<lparr>p_parent := ip\<rparr>),
             (case ip of None \<Rightarrow> ret () | Some k \<Rightarrow> wakeup (ChanProc k))]))))
       [0..<NPROC])"

text \<open>
  One scan of \<open>wait\<close> over the table: the value to return, if the scan has found a zombie, and
  \<^verbatim>\<open>havekids\<close>.
\<close>

fun wait_scan :: "nat list \<Rightarrow> nat \<Rightarrow> u64 \<Rightarrow> bool \<Rightarrow> ('z proc_state_scheme, int option \<times> bool) kern" where
  "wait_scan [] p addr havekids = ret (None, havekids)"
| "wait_scan (j # js) p addr havekids =
     bind (get_proc j p_parent) (\<lambda>parent.
       if parent = Some p then
         bind (on_lk (acquire (ProcLock j))) (\<lambda>_.
         bind (get_proc j id) (\<lambda>pp.
           if p_state pp = ZOMBIE then
             bind (if addr \<noteq> 0 then
                 bind (get_proc p p_pagetable) (\<lambda>pt.
                   copyout pt addr (le_bytes 4 (of_int (p_xstate pp) :: u32)))
               else ret 0) (\<lambda>r.
               if r < 0 then block_ret [
                   on_lk (release (ProcLock j)),
                   on_lk (release WaitLock)] (Some (- 1), True)
               else block_ret [
                   freeproc j,
                   on_lk (release (ProcLock j)),
                   on_lk (release WaitLock)] (Some (p_pid pp), True))
           else bind (on_lk (release (ProcLock j))) (\<lambda>_. wait_scan js p addr True)))
       else wait_scan js p addr havekids)"

text \<open>The loop of \<open>wait\<close> with \<^verbatim>\<open>wait_lock\<close> held; \<open>wait_return\<close> goes on after the sleep.\<close>

definition wait_loop :: "nat \<Rightarrow> u64 \<Rightarrow> ('z proc_state_scheme, int) kern" where
  "wait_loop p addr =
     bind (wait_scan [0..<NPROC] p addr False) (\<lambda>(r, havekids).
       case r of Some v \<Rightarrow> ret v
       | None \<Rightarrow>
           bind (if havekids then killed p else ret 0) (\<lambda>k.
             if \<not> havekids \<or> k \<noteq> 0 then block_ret [on_lk (release WaitLock)] (- 1)
             else block_ret [sleep (ChanProc p) WaitLock] 0))"

definition wait :: "u64 \<Rightarrow> ('z proc_state_scheme, int) kern" where
  "wait addr =
     bind curproc (\<lambda>p. bind (on_lk (acquire WaitLock)) (\<lambda>_. wait_loop p addr))"

definition wait_return :: "bool \<Rightarrow> nat \<Rightarrow> u64 \<Rightarrow> ('z proc_state_scheme, int) kern" where
  "wait_return ie p addr = bind (sleep_return ie p WaitLock) (\<lambda>_. wait_loop p addr)"

section \<open>Running the operations\<close>

lemma set_proc_run [kern_simps, simp]: "set_proc i f s = Ok () (s\<lparr>procs := (procs s)(i := f (procs s i))\<rparr>)"
  by (simp add: set_proc_def)

lemma get_proc_run [kern_simps, simp]: "get_proc i f s = Ok (f (procs s i)) s"
  by (simp add: get_proc_def)

lemma obliv_set_proc [oblivI]: "obliv (set_proc i f)"
  unfolding set_proc_def by (intro oblivI) simp

lemma obliv_get_proc [oblivI]: "obliv (get_proc i f)"
  unfolding get_proc_def by (intro oblivI) simp

lemma pushed_cproc [simp]: "cproc (mycpu (pushed L)) = cproc (mycpu L)"
  by (simp add: pushed_def mycpu_def cpuid_def)

lemma myproc_run [kern_simps]:
  assumes "settled (lk s)"
  shows "myproc s = Ok (cproc (mycpu (lk s))) s"
  using pop_pushed [OF assms] by (simp add: myproc_def on_lk_def kern_simps)

lemma curproc_run:
  assumes "settled (lk s)"
  shows "curproc s = (case cproc (mycpu (lk s)) of None \<Rightarrow> Panic ''kerneltrap'' | Some i \<Rightarrow> Ok i s)"
  by (simp add: curproc_def bind_run myproc_run [OF assms] split: option.splits)

lemma on_lk_run:
  "m (lk s) = Ok x L \<Longrightarrow> on_lk m s = Ok x (s\<lparr>lk := L\<rparr>)"
  by (simp add: on_lk_def)

definition plocks_free :: "lockstate \<Rightarrow> bool" where
  "plocks_free L \<longleftrightarrow> (\<forall>i. lock_free (ProcLock i) L)"

lemma calm_plocks [simp]: "calm L \<Longrightarrow> plocks_free L" "calm L \<Longrightarrow> settled L"
  by (simp_all add: calm_def plocks_free_def)

lemma plocks_freeD: "plocks_free L \<Longrightarrow> lock_free (ProcLock i) L"
  by (simp add: plocks_free_def)

text \<open>What \<open>wakeup\<close> does to the table.\<close>

definition wake_one :: "chan \<Rightarrow> nat option \<Rightarrow> nat \<Rightarrow> proc \<Rightarrow> proc" where
  "wake_one c me i p =
     (if me \<noteq> Some i \<and> p_state p = SLEEPING \<and> p_chan p = Some c then p\<lparr>p_state := RUNNABLE\<rparr> else p)"

definition wake_all :: "chan \<Rightarrow> nat option \<Rightarrow> (nat \<Rightarrow> proc) \<Rightarrow> nat \<Rightarrow> proc" where
  "wake_all c me ps = (\<lambda>i. if i < NPROC then wake_one c me i (ps i) else ps i)"

lemma procs_id [simp]: "s\<lparr>procs := procs s\<rparr> = s"
  by simp

lemma wakeup_one_run:
  assumes "settled (lk s)" "lock_free (ProcLock i) (lk s)"
  shows "wakeup_one c i s = Ok () (s\<lparr>procs := (procs s)(i := wake_one c (cproc (mycpu (lk s))) i (procs s i))\<rparr>)"
proof -
  let ?me = "cproc (mycpu (lk s))"
  let ?body = "bind (get_proc i id) (\<lambda>p. only_if (p_state p = SLEEPING \<and> p_chan p = Some c)
    (set_proc i (\<lambda>p. p\<lparr>p_state := RUNNABLE\<rparr>)))"
  have "obliv ?body" by (intro oblivI)
  then have w: "with_lock (ProcLock i) ?body s = ?body s"
    using assms by (intro with_lock_obliv)
  show ?thesis
  proof (cases "?me = Some i")
    case True
    with assms(1) show ?thesis by (simp add: wakeup_one_def bind_run myproc_run wake_one_def)
  next
    case False
    then have "?body s = Ok () (s\<lparr>procs := (procs s)(i := wake_one c ?me i (procs s i))\<rparr>)"
      by (simp add: bind_run only_if_def wake_one_def)
    with False assms(1) show ?thesis
      by (simp add: wakeup_one_def bind_run [of myproc] myproc_run w)
  qed
qed

primrec wake_list :: "chan \<Rightarrow> nat option \<Rightarrow> nat list \<Rightarrow> (nat \<Rightarrow> proc) \<Rightarrow> nat \<Rightarrow> proc" where
  "wake_list c me [] ps = ps"
| "wake_list c me (i # is) ps = wake_list c me is (ps(i := wake_one c me i (ps i)))"

lemma wake_list_at:
  "distinct is \<Longrightarrow> wake_list c me is ps j = (if j \<in> set is then wake_one c me j (ps j) else ps j)"
  by (induction "is" arbitrary: ps) auto

lemma wakeup_list:
  assumes "settled (lk s)" "plocks_free (lk s)"
  shows "block (map (wakeup_one c) is) s = Ok () (s\<lparr>procs := wake_list c (cproc (mycpu (lk s))) is (procs s)\<rparr>)"
  using assms
proof (induction "is" arbitrary: s)
  case (Cons i "is")
  then show ?case
    using Cons.IH [of "s\<lparr>procs := (procs s)(i := wake_one c (cproc (mycpu (lk s))) i (procs s i))\<rparr>"]
    by (simp add: bind_run wakeup_one_run plocks_freeD fun_upd_def)
qed simp

lemma wakeup_run [kern_simps]:
  assumes "settled (lk s)" "plocks_free (lk s)"
  shows "wakeup c s = Ok () (s\<lparr>procs := wake_all c (cproc (mycpu (lk s))) (procs s)\<rparr>)"
proof -
  have "wake_list c me [0..<NPROC] ps = wake_all c me ps" for me ps
    by (rule ext) (simp add: wake_all_def wake_list_at del: upt_Suc)
  then show ?thesis unfolding wakeup_def wakeup_list [OF assms] by simp
qed

text \<open>What \<open>kill\<close> does: the first process in the table with the pid.\<close>

definition kill_proc :: "proc \<Rightarrow> proc" where
  "kill_proc p = p\<lparr>p_killed := 1, p_state := (if p_state p = SLEEPING then RUNNABLE else p_state p)\<rparr>"

lemma kill_from_run:
  assumes "settled (lk s)" "\<forall>i\<in>set is. lock_free (ProcLock i) (lk s)"
  shows "kill_from is pid s =
    (case find (\<lambda>i. p_pid (procs s i) = pid) is of None \<Rightarrow> Ok (- 1) s
     | Some i \<Rightarrow> Ok 0 (s\<lparr>procs := (procs s)(i := kill_proc (procs s i))\<rparr>))"
  using assms
proof (induction "is")
  case Nil
  then show ?case by simp
next
  case (Cons i "is")
  let ?body = "bind (get_proc i id) (\<lambda>p. if p_pid p = pid then
      bind (set_proc i (\<lambda>p. p\<lparr>p_killed := 1\<rparr>)) (\<lambda>_.
      bind (only_if (p_state p = SLEEPING) (set_proc i (\<lambda>p. p\<lparr>p_state := RUNNABLE\<rparr>))) (\<lambda>_. ret True))
    else ret False)"
  have "obliv ?body" by (intro oblivI)
  then have w: "with_lock (ProcLock i) ?body s = ?body s"
    using Cons.prems by (intro with_lock_obliv) simp_all
  have b: "?body s = (if p_pid (procs s i) = pid
      then Ok True (s\<lparr>procs := (procs s)(i := kill_proc (procs s i))\<rparr>) else Ok False s)"
    by (simp add: bind_run only_if_def kill_proc_def)
  show ?case
    using Cons by (simp only: kill_from.simps bind_run [of "with_lock (ProcLock i) ?body"] w b) simp
qed

lemma kill_run:
  assumes "settled (lk s)" "plocks_free (lk s)"
  shows "kill pid s =
    (case find (\<lambda>i. p_pid (procs s i) = pid) [0..<NPROC] of None \<Rightarrow> Ok (- 1) s
     | Some i \<Rightarrow> Ok 0 (s\<lparr>procs := (procs s)(i := kill_proc (procs s i))\<rparr>))"
  unfolding kill_def using assms by (intro kill_from_run) (simp_all add: plocks_free_def)

lemma killed_run [kern_simps]:
  assumes "settled (lk s)" "plocks_free (lk s)"
  shows "killed i s = Ok (p_killed (procs s i)) s"
proof -
  have "obliv (get_proc i p_killed :: ('a proc_state_scheme, int) kern)" by (intro oblivI)
  then show ?thesis
    using assms by (simp add: killed_def with_lock_obliv plocks_freeD)
qed

text \<open>\<open>sleep\<close> with one lock held: the process sleeps on the channel and holds its own lock only.\<close>

definition locked_by :: "nat \<Rightarrow> lockid \<Rightarrow> lockstate \<Rightarrow> bool" where
  "locked_by h l L \<longleftrightarrow> sl_locked (locks L l) = 1 \<and> sl_cpu (locks L l) = Some h"

lemma release_deep:
  assumes "locked_by (hart L) l L" "noff (mycpu L) > 1" "\<not> intr_get L"
  shows "release l L = Ok () (set_mycpu (\<lambda>c. c\<lparr>noff := noff c - 1\<rparr>)
    (set_lock l (\<lambda>k. k\<lparr>sl_cpu := None, sl_locked := 0\<rparr>) L))"
  using assms
  by (simp add: release_def pop_off_def locked_by_def kern_simps lock_defs panic_if_def only_if_def)

definition handover :: "nat \<Rightarrow> lockid \<Rightarrow> lockstate \<Rightarrow> lockstate" where
  "handover p l L =
     set_mycpu (\<lambda>c. c\<lparr>noff := noff c - 1\<rparr>)
       (set_lock l (\<lambda>k. k\<lparr>sl_cpu := None, sl_locked := 0\<rparr>) (acquired (ProcLock p) L))"

lemma handover_sel:
  "hart (handover p l L) = hart L"
  "cpus (handover p l L) g =
     (if g = hart L then (cpus L g)\<lparr>noff := noff (cpus L g),
        intena := (if noff (cpus L g) = 0 then intr_get L else intena (cpus L g))\<rparr> else cpus L g)"
  "sstatus (handover p l L) g = (if g = hart L then sstatus L g AND NOT SSTATUS_SIE else sstatus L g)"
  "l \<noteq> ProcLock p \<Longrightarrow> locks (handover p l L) k =
     (if k = l then (locks L l)\<lparr>sl_cpu := None, sl_locked := 0\<rparr>
      else if k = ProcLock p then (locks L k)\<lparr>sl_locked := 1, sl_cpu := Some (hart L)\<rparr> else locks L k)"
  by (auto simp: handover_def acquired_def pushed_def lock_defs)

lemma handover_release:
  assumes "locked_by (hart L) l L" "noff (mycpu L) = 1" "l \<noteq> ProcLock p"
  shows "release l (acquired (ProcLock p) L) = Ok () (handover p l L)"
  unfolding handover_def using assms
  by (intro release_deep) (simp_all add: acquired_def pushed_def locked_by_def lock_defs)

lemma sched_run:
  assumes "cproc (mycpu (lk s)) = Some p" "noff (mycpu (lk s)) = 1" "\<not> intr_get (lk s)"
    "locked_by (hart (lk s)) (ProcLock p) (lk s)" "p_state (procs s p) \<noteq> RUNNING"
  shows "sched s = Sleeps (p_chan (procs s p)) s"
  using assms by (simp add: sched_def bind_run curproc_run settled_def holding_def locked_by_def cpuid_def)

lemma sleep_run:
  assumes s: "settled (lk s)" "cproc (mycpu (lk s)) = Some p" "noff (mycpu (lk s)) = 1"
    and l: "locked_by (hart (lk s)) l (lk s)" "lock_free (ProcLock p) (lk s)" "l \<noteq> ProcLock p"
  shows "sleep c l s =
    Sleeps (Some c) (s\<lparr>lk := handover p l (lk s),
      procs := (procs s)(p := (procs s p)\<lparr>p_chan := Some c, p_state := SLEEPING\<rparr>)\<rparr>)" (is "_ = Sleeps _ ?t")
proof -
  have "sched ?t = Sleeps (p_chan (procs ?t p)) ?t"
    using s l by (intro sched_run) (simp_all add: locked_by_def handover_sel mycpu_def cpuid_def intr_get_def)
  then show ?thesis
    using s l by (simp add: sleep_def bind_run block_run curproc_run acquire_run on_lk_def handover_release)
qed

text \<open>Process \<open>p\<close> runs on the executing hart and no spin lock is held.\<close>

definition runs_as :: "nat \<Rightarrow> 'z proc_state_scheme \<Rightarrow> bool" where
  "runs_as p s \<longleftrightarrow> calm (lk s) \<and> noff (mycpu (lk s)) = 0 \<and> cproc (mycpu (lk s)) = Some p"

lemma acquired_cproc [simp]: "cproc (mycpu (acquired l L)) = cproc (mycpu L)"
  by (simp add: acquired_def pushed_def lock_defs)

lemma runs_as_locks:
  assumes "runs_as p s"
  shows "settled (lk s)" "lock_free l (lk s)" "plocks_free (lk s)" "cproc (mycpu (lk s)) = Some p"
  using assms by (simp_all add: runs_as_def calm_def plocks_free_def)

lemma plocks_free_acquired: "plocks_free L \<Longrightarrow> (\<And>i. l \<noteq> ProcLock i) \<Longrightarrow> plocks_free (acquired l L)"
  by (simp add: plocks_free_def lock_free_acquired)

lemma curproc_as: "settled (lk s) \<Longrightarrow> cproc (mycpu (lk s)) = Some p \<Longrightarrow> curproc s = Ok p s"
  by (simp add: curproc_run)

lemma runs_as_acquired:
  assumes "runs_as p s"
  shows "on_lk (acquire l) s = Ok () (s\<lparr>lk := acquired l (lk s)\<rparr>)"
    "settled (acquired l (lk s))" "release l (acquired l (lk s)) = Ok () (lk s)"
    "(\<And>i. l \<noteq> ProcLock i) \<Longrightarrow> plocks_free (acquired l (lk s))"
    "cproc (mycpu (acquired l (lk s))) = Some p"
  using runs_as_locks [OF assms] by (simp_all add: on_lk_def acquire_run release_acquired settled_acquired plocks_free_acquired)

text \<open>Going to sleep with one lock held.\<close>

lemma sleep_inside:
  assumes "runs_as p s" "\<And>i. l \<noteq> ProcLock i"
  shows "sleep c l (s\<lparr>lk := acquired l (lk s)\<rparr>) =
    Sleeps (Some c) (s\<lparr>lk := handover p l (acquired l (lk s)),
      procs := (procs s)(p := (procs s p)\<lparr>p_chan := Some c, p_state := SLEEPING\<rparr>)\<rparr>)"
proof -
  let ?s = "s\<lparr>lk := acquired l (lk s)\<rparr>"
  have "noff (mycpu (lk ?s)) = 1" "locked_by (hart (lk ?s)) l (lk ?s)" "lock_free (ProcLock p) (lk ?s)"
    using assms(1) runs_as_locks(2) [OF assms(1), of "ProcLock p"] assms(2) [of p] assms(2) [of p, symmetric]
    by (simp_all add: runs_as_def acquired_def pushed_def locked_by_def lock_free_def lock_defs)
  with runs_as_acquired(2,5) [OF assms(1), of l] sleep_run [of ?s p l c] assms(2) show ?thesis by simp
qed

section \<open>Waking and killing\<close>

text \<open>
  C19: \<open>wakeup(chan)\<close> makes exactly the processes that sleep on the channel runnable, except the
  caller, and changes nothing else: neither the lock state nor memory nor any other process.
\<close>

theorem wakeup_exact:
  assumes "settled (lk s)" "plocks_free (lk s)"
  shows "\<exists>ps. wakeup c s = Ok () (s\<lparr>procs := ps\<rparr>) \<and>
    (\<forall>i. if i < NPROC \<and> cproc (mycpu (lk s)) \<noteq> Some i \<and> p_state (procs s i) = SLEEPING \<and> p_chan (procs s i) = Some c
      then ps i = (procs s i)\<lparr>p_state := RUNNABLE\<rparr> else ps i = procs s i)"
  using wakeup_run [OF assms] by (auto simp: wake_all_def wake_one_def)

text \<open>A process table for examples: process 1 runs, process 2 sleeps on a pipe.\<close>

definition idle_proc :: proc where
  "idle_proc = \<lparr>p_state = UNUSED, p_chan = None, p_killed = 0, p_xstate = 0, p_pid = 0, p_parent = None,
     p_kstack = 0, p_sz = 0, p_pagetable = 0, p_trapframe = 0,
     p_context = \<lparr>c_ra = 0, c_sp = 0, c_s = replicate 12 0\<rparr>, p_ofile = replicate NOFILE None,
     p_cwd = None, p_name = replicate 16 0\<rparr>"

definition two_procs :: proc_state where
  "two_procs = \<lparr>lk = boot_hart, pmem = (\<lambda>_. 0), freelist = 0, kend = 0x80021000,
     kernel_pagetable = 0, satp = (\<lambda>_. 0), etext = 0x80008000, trampoline = 0x80007000,
     procs = (\<lambda>i. idle_proc)(0 := idle_proc\<lparr>p_state := RUNNABLE, p_pid := 1\<rparr>,
       1 := idle_proc\<lparr>p_state := SLEEPING, p_chan := Some ChanTicks, p_pid := 2\<rparr>),
     initproc = Some 0, nextpid = 3, tframes = (\<lambda>_. undefined), forkret_addr = 0x80001000\<rparr>"

lemma two_procs_calm: "settled (lk two_procs)" "plocks_free (lk two_procs)"
  by (simp_all add: two_procs_def)

theorem wakeup_exact_witness:
  "\<exists>ps. wakeup ChanTicks two_procs = Ok () (two_procs\<lparr>procs := ps\<rparr>) \<and> p_state (ps 1) = RUNNABLE \<and> ps 0 = procs two_procs 0"
proof -
  obtain ps where r: "wakeup ChanTicks two_procs = Ok () (two_procs\<lparr>procs := ps\<rparr>)"
    and p: "\<forall>i. if i < NPROC \<and> cproc (mycpu (lk two_procs)) \<noteq> Some i \<and> p_state (procs two_procs i) = SLEEPING \<and>
        p_chan (procs two_procs i) = Some ChanTicks
      then ps i = (procs two_procs i)\<lparr>p_state := RUNNABLE\<rparr> else ps i = procs two_procs i"
    using wakeup_exact [OF two_procs_calm, of ChanTicks] by blast
  from p [rule_format, of 0] p [rule_format, of 1] r show ?thesis
    by (simp add: two_procs_def boot_hart_def mycpu_def idle_proc_def)
qed

text \<open>
  C20: \<open>kill(pid)\<close> fails with -1, changing nothing, exactly when no entry of the table has the pid.
  Otherwise it marks the first such entry as killed and makes it \<^verbatim>\<open>RUNNABLE\<close> if it sleeps; nothing else
  of the entry changes, and no other entry.
\<close>

theorem kill_marks_and_wakes:
  assumes "settled (lk s)" "plocks_free (lk s)"
  shows "((\<forall>i < NPROC. p_pid (procs s i) \<noteq> pid) \<longrightarrow> kill pid s = Ok (- 1) s) \<and>
    (\<forall>i < NPROC. p_pid (procs s i) = pid \<longrightarrow> (\<forall>j < i. p_pid (procs s j) \<noteq> pid) \<longrightarrow>
      kill pid s = Ok 0 (s\<lparr>procs := (procs s)(i := (procs s i)\<lparr>p_killed := 1,
        p_state := (if p_state (procs s i) = SLEEPING then RUNNABLE else p_state (procs s i))\<rparr>)\<rparr>))"
proof (intro conjI impI allI)
  assume "\<forall>i < NPROC. p_pid (procs s i) \<noteq> pid"
  then have "find (\<lambda>i. p_pid (procs s i) = pid) [0..<NPROC] = None" by (auto simp: find_None_iff simp del: upt_Suc)
  then show "kill pid s = Ok (- 1) s" by (simp only: kill_run [OF assms] option.case)
next
  fix i assume i: "i < NPROC" "p_pid (procs s i) = pid" "\<forall>j < i. p_pid (procs s j) \<noteq> pid"
  then have "find (\<lambda>i. p_pid (procs s i) = pid) [0..<NPROC] = Some i"
    by (auto simp: find_Some_iff simp del: upt_Suc intro!: exI [of _ i])
  then show "kill pid s = Ok 0 (s\<lparr>procs := (procs s)(i := (procs s i)\<lparr>p_killed := 1,
      p_state := (if p_state (procs s i) = SLEEPING then RUNNABLE else p_state (procs s i))\<rparr>)\<rparr>)"
    by (simp only: kill_run [OF assms] option.case kill_proc_def)
qed

theorem kill_marks_and_wakes_witness:
  "kill 7 two_procs = Ok (- 1) two_procs \<and>
   kill 2 two_procs = Ok 0 (two_procs\<lparr>procs := (procs two_procs)(1 := (procs two_procs 1)\<lparr>p_killed := 1, p_state := RUNNABLE\<rparr>)\<rparr>)"
proof -
  have f: "\<forall>i < NPROC. p_pid (procs two_procs i) \<noteq> 7" "p_pid (procs two_procs 1) = 2" "\<forall>j < 1. p_pid (procs two_procs j) \<noteq> 2"
    "p_state (procs two_procs 1) = SLEEPING"
    by (simp_all add: two_procs_def idle_proc_def)
  have a: "kill 7 two_procs = Ok (- 1) two_procs"
    by (rule conjunct1 [OF kill_marks_and_wakes [OF two_procs_calm], THEN mp, OF f(1)])
  have "(1::nat) < NPROC" by simp
  from conjunct2 [OF kill_marks_and_wakes [OF two_procs_calm], THEN spec, THEN mp, OF this, THEN mp, OF f(2), THEN mp, OF f(3)]
  show ?thesis unfolding f(4) simp_thms if_True using a by (intro conjI)
qed

text \<open>The first process runs on the boot hart.\<close>

definition running_hart :: lockstate where
  "running_hart = boot_hart\<lparr>cpus := (cpus boot_hart)(0 := (cpus boot_hart 0)\<lparr>cproc := Some 0\<rparr>)\<rparr>"

lemma running_hart_calm [simp]: "calm running_hart" "noff (mycpu running_hart) = 0" "cproc (mycpu running_hart) = Some 0"
  by (simp_all add: running_hart_def calm_def settled_def lock_free_def boot_hart_def lock_defs)

end
