(* ===== verification/Xv6_Harts.thy ===== *)
theory Xv6_Harts
  imports Xv6_Sched
begin

text \<open>
  The scheduler on several harts: \<open>sched_step\<close> interleaves the model functions of
  \<^verbatim>\<open>Xv6_Sched\<close>, each on one hart, and \<open>sched_inv\<close> is what the spinlocks protect across the
  \<^verbatim>\<open>swtch\<close> of \<open>scheduler\<close> and \<open>sched\<close>.
\<close>

section \<open>Several harts\<close>

text \<open>
  The machine in which any number of harts schedule the processes of one table. A hart is in
  \<open>scheduler\<close>; has just been switched to process \<open>i\<close>, which still holds \<^verbatim>\<open>p->lock\<close> from the
  scheduler; is in \<open>sleep\<close> after \<open>sched\<close> has returned and about to take the original lock again; runs
  \<open>i\<close> with no lock or with the lock \<open>l\<close>; has just switched from \<open>i\<close> back to the scheduler; or has
  panicked. Where a process goes on when it is switched to is what its saved \<^verbatim>\<open>context\<close> holds: at
  \<open>forkret\<close>, after the \<^verbatim>\<open>swtch\<close> of \<open>sched\<close> in \<open>yield\<close> or in \<open>sleep\<close> (with the \<^verbatim>\<open>intena\<close> that \<open>sched\<close>
  saved on its stack), or in \<open>exit\<close>, which \<open>sched\<close> must not return to.
\<close>

datatype hmode = InSched | Entered nat | Relocking nat lockid | Running nat | Holding nat lockid | Leaving nat | Panicked string

datatype resume_point = Fresh | Yielded bool | Slept bool lockid | Exited

record sched_sys =
  sy :: proc_state
  modes :: "nat \<Rightarrow> hmode"
  resume :: "nat \<Rightarrow> resume_point"

definition at_hart :: "nat \<Rightarrow> proc_state \<Rightarrow> proc_state" where
  "at_hart h s = s\<lparr>lk := (lk s)\<lparr>hart := h\<rparr>\<rparr>"

definition goes :: "sched_sys \<Rightarrow> nat \<Rightarrow> proc_state \<Rightarrow> hmode \<Rightarrow> sched_sys" where
  "goes y h t m = y\<lparr>sy := t, modes := (modes y)(h := m)\<rparr>"

text \<open>
  The hart after a call: a panic stops it, a lock that another hart holds makes it spin, so that
  the step does not happen yet. \<open>after_return\<close> is for calls that return and \<open>after_switch\<close> for those
  that end in the \<^verbatim>\<open>swtch\<close> of \<open>sched\<close>; the other outcome stops the hart too.
\<close>

definition after_return :: "sched_sys \<Rightarrow> nat \<Rightarrow> ('a, proc_state) outcome \<Rightarrow> ('a \<Rightarrow> hmode) \<Rightarrow> sched_sys option" where
  "after_return y h r m =
     (case r of
        Ok x t \<Rightarrow> Some (goes y h t (m x))
      | Panic e \<Rightarrow> Some (goes y h (sy y) (Panicked e))
      | Sleeps c t \<Rightarrow> Some (goes y h t (Panicked ''switched away''))
      | Spins l \<Rightarrow> None)"

definition after_switch :: "sched_sys \<Rightarrow> nat \<Rightarrow> nat \<Rightarrow> (unit, proc_state) outcome \<Rightarrow> (bool \<Rightarrow> resume_point) \<Rightarrow> sched_sys option" where
  "after_switch y h i r p =
     (case r of
        Ok x t \<Rightarrow> Some (goes y h t (Panicked ''did not switch''))
      | Panic e \<Rightarrow> Some (goes y h (sy y) (Panicked e))
      | Sleeps c t \<Rightarrow> Some ((goes y h t (Leaving i))\<lparr>resume := (resume y)(i := p (intena (cpus (lk t) h)))\<rparr>)
      | Spins l \<Rightarrow> None)"

text \<open>The locks a process takes on its own account: every one but the \<^verbatim>\<open>p->lock\<close>s, which \<open>yield\<close>, \<open>sleep\<close>, \<open>wakeup\<close> and \<open>kill\<close> take.\<close>

definition plain_lock :: "lockid \<Rightarrow> bool" where
  "plain_lock l \<longleftrightarrow> (\<forall>j. l \<noteq> ProcLock j)"

definition in_process :: "hmode \<Rightarrow> nat \<Rightarrow> bool" where
  "in_process m i \<longleftrightarrow> m = Running i \<or> (\<exists>l. m = Holding i l)"

text \<open>
  One step of one hart: a round of \<open>scheduler\<close> begins; \<open>scheduler\<close> tries a process; a process that
  was switched to goes on where its context says (\<open>forkret\<close> and \<open>yield\<close> release \<^verbatim>\<open>p->lock\<close>, \<open>sleep\<close>
  clears \<^verbatim>\<open>p->chan\<close>, releases \<^verbatim>\<open>p->lock\<close> and takes its lock in a step of its own); a running process
  takes or releases a lock, yields, sleeps with the lock it holds, exits with \<^verbatim>\<open>wait_lock\<close> held, or
  visits entry \<open>j\<close> in the loop of \<open>wakeup\<close> or \<open>kill\<close>; \<open>scheduler\<close> goes on after its \<^verbatim>\<open>swtch\<close>.
\<close>

inductive sched_step :: "sched_sys \<Rightarrow> sched_sys \<Rightarrow> bool" where
  next_round: "modes y h = InSched \<Longrightarrow> after_return y h (scheduler_round (at_hart h (sy y))) (\<lambda>_. InSched) = Some z \<Longrightarrow> sched_step y z"
| tries: "modes y h = InSched \<Longrightarrow>
    after_return y h (scheduler_try i (at_hart h (sy y))) (\<lambda>b. if b then Entered i else InSched) = Some z \<Longrightarrow> sched_step y z"
| starts: "modes y h = Entered i \<Longrightarrow> resume y i = Fresh \<Longrightarrow>
    after_return y h (on_lk (release (ProcLock i)) (at_hart h (sy y))) (\<lambda>_. Running i) = Some z \<Longrightarrow> sched_step y z"
| resumes: "modes y h = Entered i \<Longrightarrow> resume y i = Yielded ie \<Longrightarrow>
    after_return y h (yield_return ie i (at_hart h (sy y))) (\<lambda>_. Running i) = Some z \<Longrightarrow> sched_step y z"
| tidies: "modes y h = Entered i \<Longrightarrow> resume y i = Slept ie l \<Longrightarrow>
    after_return y h (sleep_tidy ie i (at_hart h (sy y))) (\<lambda>_. Relocking i l) = Some z \<Longrightarrow> sched_step y z"
| revives: "modes y h = Entered i \<Longrightarrow> resume y i = Exited \<Longrightarrow>
    after_return y h (panic ''zombie exit'' (at_hart h (sy y))) (\<lambda>_ :: unit. Running i) = Some z \<Longrightarrow> sched_step y z"
| relocks: "modes y h = Relocking i l \<Longrightarrow>
    after_return y h (on_lk (acquire l) (at_hart h (sy y))) (\<lambda>_. Holding i l) = Some z \<Longrightarrow> sched_step y z"
| acquires: "modes y h = Running i \<Longrightarrow> plain_lock l \<Longrightarrow>
    after_return y h (on_lk (acquire l) (at_hart h (sy y))) (\<lambda>_. Holding i l) = Some z \<Longrightarrow> sched_step y z"
| releases: "modes y h = Holding i l \<Longrightarrow>
    after_return y h (on_lk (release l) (at_hart h (sy y))) (\<lambda>_. Running i) = Some z \<Longrightarrow> sched_step y z"
| yields: "modes y h = Running i \<Longrightarrow> after_switch y h i (yield (at_hart h (sy y))) Yielded = Some z \<Longrightarrow> sched_step y z"
| sleeps: "modes y h = Holding i l \<Longrightarrow>
    after_switch y h i (sleep c l (at_hart h (sy y))) (\<lambda>ie. Slept ie l) = Some z \<Longrightarrow> sched_step y z"
| exits: "modes y h = Holding i WaitLock \<Longrightarrow>
    after_switch y h i (exit_zombie i status (at_hart h (sy y))) (\<lambda>_. Exited) = Some z \<Longrightarrow> sched_step y z"
| wakes: "in_process (modes y h) i \<Longrightarrow>
    after_return y h (wakeup_one c j (at_hart h (sy y))) (\<lambda>_. modes y h) = Some z \<Longrightarrow> sched_step y z"
| kills: "in_process (modes y h) i \<Longrightarrow>
    after_return y h (kill_from [j] pid (at_hart h (sy y))) (\<lambda>_. modes y h) = Some z \<Longrightarrow> sched_step y z"
| returns: "modes y h = Leaving i \<Longrightarrow>
    after_return y h (scheduler_back i (at_hart h (sy y))) (\<lambda>_. InSched) = Some z \<Longrightarrow> sched_step y z"

section \<open>The invariant\<close>

text \<open>The process that the hart's \<^verbatim>\<open>c->proc\<close> names, and the lock it holds.\<close>

fun mode_proc :: "hmode \<Rightarrow> nat option" where
  "mode_proc (Entered i) = Some i"
| "mode_proc (Relocking i l) = Some i"
| "mode_proc (Running i) = Some i"
| "mode_proc (Holding i l) = Some i"
| "mode_proc (Leaving i) = Some i"
| "mode_proc _ = None"

fun mode_lock :: "hmode \<Rightarrow> lockid option" where
  "mode_lock (Entered i) = Some (ProcLock i)"
| "mode_lock (Leaving i) = Some (ProcLock i)"
| "mode_lock (Holding i l) = Some l"
| "mode_lock _ = None"

definition runs :: "hmode \<Rightarrow> nat \<Rightarrow> bool" where
  "runs m i \<longleftrightarrow> mode_proc m = Some i \<and> m \<noteq> Leaving i"

definition hart_ok :: "lockstate \<Rightarrow> nat \<Rightarrow> hmode \<Rightarrow> bool" where
  "hart_ok L h m \<longleftrightarrow>
     (\<forall>e. m \<noteq> Panicked e) \<and> (\<forall>i l. m = Holding i l \<or> m = Relocking i l \<longrightarrow> plain_lock l) \<and>
     cproc (cpus L h) = mode_proc m \<and> noff (cpus L h) = (if mode_lock m = None then 0 else 1) \<and>
     (m \<noteq> InSched \<and> mode_lock m = None \<longrightarrow> intena (cpus L h) = (sstatus L h AND SSTATUS_SIE \<noteq> 0)) \<and>
     (mode_lock m \<noteq> None \<longrightarrow> sstatus L h AND SSTATUS_SIE = 0)"

definition lock_ok :: "sched_sys \<Rightarrow> lockid \<Rightarrow> bool" where
  "lock_ok y l \<longleftrightarrow>
     (\<forall>h. mode_lock (modes y h) = Some l \<longrightarrow> locked_by h l (lk (sy y))) \<and>
     ((\<forall>h. mode_lock (modes y h) \<noteq> Some l) \<longrightarrow> lock_free l (lk (sy y)))"

definition proc_ok :: "sched_sys \<Rightarrow> nat \<Rightarrow> bool" where
  "proc_ok y i \<longleftrightarrow>
     (\<forall>h. runs (modes y h) i \<longrightarrow> p_state (procs (sy y) i) = RUNNING) \<and>
     (\<forall>h. modes y h = Leaving i \<longrightarrow> p_state (procs (sy y) i) \<noteq> RUNNING) \<and>
     (p_state (procs (sy y) i) = RUNNING \<longrightarrow> (\<exists>h. runs (modes y h) i)) \<and>
     (\<forall>h h'. mode_proc (modes y h) = Some i \<longrightarrow> mode_proc (modes y h') = Some i \<longrightarrow> h = h') \<and>
     (resume y i = Exited \<longrightarrow> p_state (procs (sy y) i) = ZOMBIE) \<and> (\<forall>ie l. resume y i = Slept ie l \<longrightarrow> plain_lock l)"

definition sched_inv :: "sched_sys \<Rightarrow> bool" where
  "sched_inv y \<longleftrightarrow> (\<forall>h. hart_ok (lk (sy y)) h (modes y h)) \<and> (\<forall>l. lock_ok y l) \<and> (\<forall>i. proc_ok y i)"

text \<open>
  A step of hart \<open>h\<close> that concerns process \<open>i\<close>: only the hart's own \<^verbatim>\<open>struct cpu\<close> and
  \<^verbatim>\<open>sstatus\<close>, the lock it held or takes and the entry of \<open>i\<close> change.
\<close>

definition lock_same :: "lockid \<Rightarrow> lockstate \<Rightarrow> lockstate \<Rightarrow> bool" where
  "lock_same l L M \<longleftrightarrow> lock_free l M = lock_free l L \<and> (\<forall>g. locked_by g l M = locked_by g l L)"

definition local_change :: "nat \<Rightarrow> nat \<Rightarrow> hmode \<Rightarrow> hmode \<Rightarrow> proc_state \<Rightarrow> proc_state \<Rightarrow> bool" where
  "local_change h i m0 m s t \<longleftrightarrow>
     (\<forall>g. g \<noteq> h \<longrightarrow> cpus (lk t) g = cpus (lk s) g \<and> sstatus (lk t) g = sstatus (lk s) g) \<and>
     (\<forall>l. mode_lock m = Some l \<longrightarrow> locked_by h l (lk t) \<and> (mode_lock m0 = Some l \<or> lock_free l (lk s))) \<and>
     (\<forall>l. mode_lock m \<noteq> Some l \<longrightarrow> (if mode_lock m0 = Some l then lock_free l (lk t) else lock_same l (lk s) (lk t))) \<and>
     (\<forall>j. j \<noteq> i \<longrightarrow> procs t j = procs s j)"

lemma hart_ok_cong:
  "cpus L h = cpus L' h \<Longrightarrow> sstatus L h = sstatus L' h \<Longrightarrow> hart_ok L h m = hart_ok L' h m"
  by (simp add: hart_ok_def)

lemma locked_by_unique: "locked_by h l L \<Longrightarrow> locked_by h' l L \<Longrightarrow> h = h'" "locked_by h l L \<Longrightarrow> \<not> lock_free l L"
  by (auto simp: locked_by_def lock_free_def)

lemma sched_inv_local:
  assumes I: "sched_inv y" and c: "local_change h i (modes y h) m (sy y) t"
    and z: "sy z = t" "modes z = (modes y)(h := m)" "\<And>j. j \<noteq> i \<Longrightarrow> resume z j = resume y j"
    and ab: "mode_proc (modes y h) \<in> {None, Some i}" "mode_proc m \<in> {None, Some i}"
    and hk: "hart_ok (lk t) h m"
    and st: "runs m i \<Longrightarrow> p_state (procs t i) = RUNNING" "m = Leaving i \<Longrightarrow> p_state (procs t i) \<noteq> RUNNING"
      "p_state (procs t i) = RUNNING \<Longrightarrow> runs m i \<or> p_state (procs (sy y) i) = RUNNING \<and> \<not> runs (modes y h) i"
      "resume z i = Exited \<Longrightarrow> p_state (procs t i) = ZOMBIE" "\<And>ie l. resume z i = Slept ie l \<Longrightarrow> plain_lock l"
    and own: "mode_proc (modes y h) = Some i \<or> (\<forall>g. mode_proc (modes y g) \<noteq> Some i) \<or>
      mode_proc m = None \<and> p_state (procs t i) = p_state (procs (sy y) i)"
  shows "sched_inv z"
proof -
  have md: "modes z g = (if g = h then m else modes y g)" for g using z(2) by simp
  have old: "proc_ok y j" "lock_ok y l" "hart_ok (lk (sy y)) g (modes y g)" for j l g using I by (simp_all add: sched_inv_def)
  have uniq: "g = g'" if "mode_proc (modes y g) = Some j" "mode_proc (modes y g') = Some j" for g g' j
    using old(1) [of j] that unfolding proc_ok_def by blast
  have "hart_ok (lk t) g (modes z g)" for g
    using c hk old(3) [of g] hart_ok_cong [of "lk t" g "lk (sy y)"] by (cases "g = h") (simp_all add: md local_change_def)
  moreover have "lock_ok z l" for l
  proof (cases "mode_lock m = Some l")
    case True
    have "mode_lock (modes y g) \<noteq> Some l" if "g \<noteq> h" for g
    proof
      assume g: "mode_lock (modes y g) = Some l"
      have lb: "locked_by k l (lk (sy y))" if "mode_lock (modes y k) = Some l" for k
        using old(2) [of l] that by (simp add: lock_ok_def)
      have "mode_lock (modes y h) = Some l \<or> lock_free l (lk (sy y))" using c True by (simp add: local_change_def)
      then show False using lb [OF g] lb [of h] locked_by_unique [of g l "lk (sy y)"] that by blast
    qed
    moreover have "locked_by h l (lk t)" using True c by (simp add: local_change_def)
    ultimately show ?thesis using True by (auto simp: lock_ok_def md z(1))
  next
    case False
    show ?thesis
    proof (cases "mode_lock (modes y h) = Some l")
      case True
      have "mode_lock (modes y g) \<noteq> Some l" if "g \<noteq> h" for g
        using True old(2) [of l] locked_by_unique(1) [of g l "lk (sy y)" h] that unfolding lock_ok_def by blast
      moreover have "lock_free l (lk t)" using False True c by (simp add: local_change_def)
      ultimately show ?thesis using False by (auto simp: lock_ok_def md z(1))
    next
      case nh: False
      then have "lock_same l (lk (sy y)) (lk t)" using False c by (simp add: local_change_def)
      moreover have "(mode_lock (modes z g) = Some l) = (mode_lock (modes y g) = Some l)" for g using False nh by (simp add: md)
      ultimately show ?thesis using old(2) [of l] by (simp add: lock_ok_def z(1) lock_same_def)
    qed
  qed
  moreover have "proc_ok z j" for j
  proof (cases "j = i")
    case False
    have "(mode_proc (modes z g) = Some j) = (mode_proc (modes y g) = Some j)" "runs (modes z g) j = runs (modes y g) j"
        "(modes z g = Leaving j) = (modes y g = Leaving j)" for g
      using False ab by (auto simp: md runs_def)
    moreover have "procs t j = procs (sy y) j" using c False by (simp add: local_change_def)
    ultimately show ?thesis using old(1) [of j] False z(1,3) by (simp add: proc_ok_def)
  next
    case True
    have oth: "mode_proc m = None \<and> p_state (procs t i) = p_state (procs (sy y) i)"
      if "mode_proc (modes y g) = Some i" "g \<noteq> h" for g
      using own uniq that by blast
    have "p_state (procs t i) = RUNNING" if "runs (modes z g) i" for g
    proof (cases "g = h")
      case False
      with that have r: "runs (modes y g) i" by (simp add: md)
      with old(1) [of i] have "p_state (procs (sy y) i) = RUNNING" unfolding proc_ok_def by blast
      with oth [OF _ False] r show ?thesis by (simp add: runs_def)
    qed (use that st(1) in \<open>simp add: md\<close>)
    moreover have "p_state (procs t i) \<noteq> RUNNING" if "modes z g = Leaving i" for g
    proof (cases "g = h")
      case False
      with that have r: "modes y g = Leaving i" by (simp add: md)
      with old(1) [of i] have "p_state (procs (sy y) i) \<noteq> RUNNING" unfolding proc_ok_def by blast
      with oth [OF _ False] r show ?thesis by simp
    qed (use that st(2) in \<open>simp add: md\<close>)
    moreover have "\<exists>g. runs (modes z g) i" if "p_state (procs t i) = RUNNING"
    proof (cases "runs m i")
      case True
      then show ?thesis by (intro exI [of _ h]) (simp add: md)
    next
      case False
      with st(3) [OF that] old(1) [of i] obtain g where "runs (modes y g) i" "g \<noteq> h"
        unfolding proc_ok_def by blast
      then show ?thesis by (intro exI [of _ g]) (simp add: md)
    qed
    moreover have "g = g'" if "mode_proc (modes z g) = Some i" "mode_proc (modes z g') = Some i" for g g'
      using that oth uniq by (auto simp: md split: if_splits)
    ultimately show ?thesis unfolding proc_ok_def z(1) True using st(4,5) by blast
  qed
  ultimately show ?thesis unfolding sched_inv_def z(1) by blast
qed

text \<open>A step that changes one entry of the table, without its being \<^verbatim>\<open>RUNNING\<close> or not.\<close>

lemma sched_inv_table:
  assumes I: "sched_inv y" and lk: "lk t = (lk (sy y))\<lparr>hart := h\<rparr>"
    and other: "\<And>i. i \<noteq> j \<Longrightarrow> procs t i = procs (sy y) i"
    and run: "(p_state (procs t j) = RUNNING) = (p_state (procs (sy y) j) = RUNNING)"
      "p_state (procs (sy y) j) = ZOMBIE \<Longrightarrow> p_state (procs t j) = ZOMBIE"
  shows "sched_inv (goes y h t (modes y h))"
proof -
  have m: "modes (goes y h t (modes y h)) = modes y" "sy (goes y h t (modes y h)) = t" "resume (goes y h t (modes y h)) = resume y"
    by (simp_all add: goes_def)
  have l: "locked_by g l (lk t) = locked_by g l (lk (sy y))" "lock_free l (lk t) = lock_free l (lk (sy y))"
      "hart_ok (lk t) g n = hart_ok (lk (sy y)) g n" for g l n
    by (simp_all add: lk locked_by_def lock_free_def hart_ok_def)
  have r: "(p_state (procs t i) = RUNNING) = (p_state (procs (sy y) i) = RUNNING)"
    "p_state (procs (sy y) i) = ZOMBIE \<Longrightarrow> p_state (procs t i) = ZOMBIE" for i
    using other run by (cases "i = j"; simp)+
  have "proc_ok (goes y h t (modes y h)) i" for i
  proof -
    have "proc_ok y i" using I by (simp add: sched_inv_def)
    then show ?thesis using r(2) [of i] unfolding proc_ok_def m r(1) by blast
  qed
  then show ?thesis using I unfolding sched_inv_def lock_ok_def m l by blast
qed


lemma at_hart_sel [simp]:
  "lk (at_hart h s) = (lk s)\<lparr>hart := h\<rparr>" "procs (at_hart h s) = procs s"
  by (simp_all add: at_hart_def)

lemma goes_sel [simp]:
  "sy (goes y h t m) = t" "modes (goes y h t m) = (modes y)(h := m)" "resume (goes y h t m) = resume y"
  by (simp_all add: goes_def)

lemma after_simps [simp]:
  "after_return y h (Ok x t) m = Some z \<longleftrightarrow> z = goes y h t (m x)" "after_return y h (Spins l) m = None"
  "after_switch y h i (Sleeps c t) p = Some z \<longleftrightarrow> z = (goes y h t (Leaving i))\<lparr>resume := (resume y)(i := p (intena (cpus (lk t) h)))\<rparr>"
  by (auto simp: after_return_def after_switch_def)

lemma lock_free_hart [simp]: "lock_free l (L\<lparr>hart := h\<rparr>) = lock_free l L"
  by (simp add: lock_free_def)

lemma plain_neq: "plain_lock l \<Longrightarrow> l \<noteq> ProcLock j" "plain_lock l \<Longrightarrow> ProcLock j \<noteq> l" "plain_lock WaitLock"
  by (auto simp: plain_lock_def)

lemma invD:
  assumes "sched_inv y"
  shows "hart_ok (lk (sy y)) h (modes y h)" "lock_ok y l" "proc_ok y i"
  using assms by (simp_all add: sched_inv_def)

text \<open>A lock that the hart does not hold is free, or it spins on it.\<close>

lemma inv_acquire:
  assumes I: "sched_inv y" and n: "mode_lock (modes y h) \<noteq> Some l"
  shows "lock_free l (lk (sy y)) \<or> acquire l ((lk (sy y))\<lparr>hart := h\<rparr>) = Spins l"
proof (cases "\<exists>g. mode_lock (modes y g) = Some l")
  case True
  then obtain g where g: "mode_lock (modes y g) = Some l" by blast
  then have "locked_by g l (lk (sy y))" "g \<noteq> h" using invD(2) [OF I, of l] n by (auto simp: lock_ok_def)
  then show ?thesis by (intro disjI2 acquire_spins) (simp_all add: locked_by_def)
next
  case False
  then show ?thesis using invD(2) [OF I, of l] by (simp add: lock_ok_def)
qed

text \<open>
  \<^verbatim>\<open>intena\<close> is stale while no lock is held, until the next \<open>push_off\<close> writes it: a hart that
  enters \<open>scheduler\<close> has interrupts on and whatever \<^verbatim>\<open>intena\<close> was before.
\<close>

definition settle :: "lockstate \<Rightarrow> lockstate" where
  "settle L = set_mycpu (\<lambda>c. c\<lparr>intena := intr_get L\<rparr>) L"

lemma settled_settle: "noff (mycpu L) = 0 \<Longrightarrow> settled (settle L)"
  by (simp add: settle_def settled_def lock_defs)

lemma acquired_settle: "noff (mycpu L) = 0 \<Longrightarrow> acquired l (settle L) = acquired l L"
  by (simp add: settle_def acquired_def pushed_def lock_defs)

lemma lock_same_acquired: "l \<noteq> k \<Longrightarrow> lock_same l (L\<lparr>hart := h\<rparr>) (acquired k M) = lock_same l L M"
  by (simp add: lock_same_def acquired_def pushed_def lock_defs lock_free_def locked_by_def)

lemma scheduler_try_step:
  assumes I: "sched_inv y" and m: "modes y h = InSched"
  shows "scheduler_try i (at_hart h (sy y)) = Spins (ProcLock i) \<or>
    (\<exists>b t. scheduler_try i (at_hart h (sy y)) = Ok b t \<and> sched_inv (goes y h t (if b then Entered i else InSched)))"
proof (cases "acquire (ProcLock i) ((lk (sy y))\<lparr>hart := h\<rparr>) = Spins (ProcLock i)")
  case True
  then show ?thesis by (simp add: scheduler_try_def bind_run on_lk_def)
next
  case ns: False
  let ?L = "(lk (sy y))\<lparr>hart := h\<rparr>"
  have hk: "hart_ok (lk (sy y)) h InSched" using invD(1) [OF I, of h] m by simp
  have f: "lock_free (ProcLock i) (lk (sy y))" using inv_acquire [OF I, of h "ProcLock i"] m ns by simp
  have n: "noff (mycpu ?L) = 0" using hk by (simp add: hart_ok_def lock_defs)
  have acq: "acquire (ProcLock i) ?L = Ok () (acquired (ProcLock i) ?L)"
    using f by (intro acquire_run) simp
  have rel: "release (ProcLock i) (acquired (ProcLock i) ?L) = Ok () (settle ?L)"
    unfolding acquired_settle [OF n, symmetric] using settled_settle [OF n] f
    by (intro release_acquired) (simp_all add: settle_def lock_free_def lock_defs)
  show ?thesis
  proof (cases "p_state (procs (sy y) i) = RUNNABLE")
    case True
    let ?t = "(at_hart h (sy y))\<lparr>procs := (procs (sy y))(i := (procs (sy y) i)\<lparr>p_state := RUNNING\<rparr>),
        lk := set_mycpu (\<lambda>c. c\<lparr>cproc := Some i\<rparr>) (acquired (ProcLock i) ?L)\<rparr>"
    have run: "scheduler_try i (at_hart h (sy y)) = Ok True ?t"
      using True acq by (simp add: scheduler_try_def on_lk_def bind_run)
    have "mode_proc (modes y g) \<noteq> Some i" for g
    proof
      assume g: "mode_proc (modes y g) = Some i"
      then have "\<not> runs (modes y g) i" using True invD(3) [OF I, of i] unfolding proc_ok_def by auto
      then have "mode_lock (modes y g) = Some (ProcLock i)" using g by (simp add: runs_def)
      then show False using f invD(2) [OF I, of "ProcLock i"] locked_by_unique(2) unfolding lock_ok_def by blast
    qed
    moreover have c: "local_change h i (modes y h) (Entered i) (sy y) ?t"
      using m f by (auto simp: local_change_def lock_same_def acquired_def pushed_def lock_defs lock_free_def locked_by_def)
    moreover have "hart_ok (lk ?t) h (Entered i)"
      using hk by (simp add: hart_ok_def acquired_def pushed_def lock_defs)
    moreover have "resume y i \<noteq> Exited" "\<And>ie l. resume y i = Slept ie l \<Longrightarrow> plain_lock l"
      using True invD(3) [OF I, of i] by (auto simp: proc_ok_def)
    ultimately have "sched_inv (goes y h ?t (Entered i))"
      using m by (intro sched_inv_local [OF I c]) (auto simp: runs_def)
    then show ?thesis using run by (intro disjI2 exI [of _ True] exI [of _ ?t]) simp
  next
    case False
    let ?t = "(at_hart h (sy y))\<lparr>lk := settle ?L\<rparr>"
    have run: "scheduler_try i (at_hart h (sy y)) = Ok False ?t"
      using False acq rel by (simp add: scheduler_try_def on_lk_def bind_run at_hart_def)
    have c: "local_change h i (modes y h) InSched (sy y) ?t"
      using m by (auto simp: local_change_def lock_same_def settle_def lock_defs lock_free_def locked_by_def)
    moreover have "hart_ok (lk ?t) h InSched"
      using hk by (simp add: hart_ok_def settle_def lock_defs)
    moreover have "resume y i = Exited \<Longrightarrow> p_state (procs (sy y) i) = ZOMBIE" "\<And>ie l. resume y i = Slept ie l \<Longrightarrow> plain_lock l"
      using invD(3) [OF I, of i] by (auto simp: proc_ok_def)
    ultimately have "sched_inv (goes y h ?t InSched)"
      using m by (intro sched_inv_local [OF I c]) (auto simp: runs_def)
    then show ?thesis using run by (intro disjI2 exI [of _ False] exI [of _ ?t]) simp
  qed
qed

text \<open>Releasing the last lock restores the interrupt flag from \<^verbatim>\<open>intena\<close>.\<close>

definition freed :: "lockid \<Rightarrow> lockstate \<Rightarrow> lockstate" where
  "freed l L =
     (let M = set_mycpu (\<lambda>c. c\<lparr>noff := 0\<rparr>) (set_lock l (\<lambda>k. k\<lparr>sl_cpu := None, sl_locked := 0\<rparr>) L) in
      if intena (mycpu L) then intr_on M else M)"

lemma release_last:
  assumes "locked_by (hart L) l L" "noff (mycpu L) = 1" "\<not> intr_get L"
  shows "release l L = Ok () (freed l L)"
  using assms
  by (simp add: release_def pop_off_def freed_def locked_by_def kern_simps lock_defs panic_if_def only_if_def Let_def)

lemma freed_sel:
  "hart (freed l L) = hart L"
  "cpus (freed l L) g = (if g = hart L then (cpus L g)\<lparr>noff := 0\<rparr> else cpus L g)"
  "sstatus (freed l L) g =
     (if g = hart L \<and> intena (cpus L g) then sstatus L g OR SSTATUS_SIE else sstatus L g)"
  "locks (freed l L) = (locks L)(l := (locks L l)\<lparr>sl_cpu := None, sl_locked := 0\<rparr>)"
  by (auto simp: freed_def Let_def lock_defs)

lemma or_sie: "(x OR SSTATUS_SIE) AND SSTATUS_SIE \<noteq> 0"
  by (simp add: bit.conj_disj_distrib2)

text \<open>A hart that gives back the one lock that it holds.\<close>

lemma release_step:
  assumes I: "sched_inv y" and k: "mode_lock (modes y h) = Some l" and i: "mode_proc (modes y h) = Some i"
    and f: "\<And>c. noff (f c) = noff c" "cproc (f (cpus (lk (sy y)) h)) = mode_proc m"
    and m: "mode_lock m = None" "\<And>e. m \<noteq> Panicked e" "\<And>j l. m = Relocking j l \<Longrightarrow> plain_lock l"
      "if modes y h = Leaving i then m = InSched else mode_proc m = Some i"
    and q: "p_state q = p_state (procs (sy y) i)"
  defines "L \<equiv> set_mycpu f ((lk (sy y))\<lparr>hart := h\<rparr>)"
  shows "release l L = Ok () (freed l L)"
    "sched_inv (goes y h ((at_hart h (sy y))\<lparr>lk := freed l L, procs := (procs (sy y))(i := q)\<rparr>) m)"
proof -
  let ?t = "(at_hart h (sy y))\<lparr>lk := freed l L, procs := (procs (sy y))(i := q)\<rparr>"
  have hk: "hart_ok (lk (sy y)) h (modes y h)" by (rule invD [OF I])
  have lb: "locked_by h l (lk (sy y))" using invD(2) [OF I, of l] k by (simp add: lock_ok_def)
  show "release l L = Ok () (freed l L)"
    using hk lb k f(1) by (intro release_last) (simp_all add: L_def hart_ok_def locked_by_def lock_defs)
  have p: "proc_ok y i" by (rule invD [OF I])
  have c: "local_change h i (modes y h) m (sy y) ?t"
    using m(1) k by (auto simp: local_change_def lock_same_def L_def freed_sel lock_free_def locked_by_def lock_defs)
  moreover have "hart_ok (lk ?t) h m"
    using hk or_sie k f m(1-3) by (cases m) (auto simp: L_def hart_ok_def freed_sel lock_defs)
  moreover have "p_state (procs (sy y) i) = RUNNING" if "modes y h \<noteq> Leaving i"
    using p i that unfolding proc_ok_def runs_def by blast
  moreover have "p_state (procs (sy y) i) \<noteq> RUNNING" if "modes y h = Leaving i"
    using p that unfolding proc_ok_def by blast
  moreover have "resume y i = Exited \<Longrightarrow> p_state (procs (sy y) i) = ZOMBIE" "\<And>ie l. resume y i = Slept ie l \<Longrightarrow> plain_lock l"
    using p by (auto simp: proc_ok_def)
  ultimately show "sched_inv (goes y h ?t m)"
    using i q m(1,4) by (intro sched_inv_local [OF I c]) (auto simp: runs_def split: if_splits)
qed


section \<open>The steps keep it\<close>

lemma at_hart_procs: "(at_hart h s)\<lparr>lk := L, procs := (procs s)(i := procs s i)\<rparr> = (at_hart h s)\<lparr>lk := L\<rparr>"
  by (simp add: at_hart_def)

lemma set_mycpu_id: "set_mycpu (\<lambda>c. c) L = L"
  by (simp add: set_mycpu_def mycpu_def)

lemma lk_procs_commute: "s\<lparr>procs := P, lk := L\<rparr> = s\<lparr>lk := L, procs := P\<rparr>"
  by simp

lemma entered_step:
  assumes I: "sched_inv y" and m: "modes y h = Entered i"
  shows "\<exists>t. on_lk (release (ProcLock i)) (at_hart h (sy y)) = Ok () t \<and> sched_inv (goes y h t (Running i)) \<and> procs t = procs (sy y)"
    "\<exists>t. yield_return ie i (at_hart h (sy y)) = Ok () t \<and> sched_inv (goes y h t (Running i)) \<and> procs t = procs (sy y)"
    "plain_lock l \<Longrightarrow> \<exists>t. sleep_tidy ie i (at_hart h (sy y)) = Ok () t \<and> sched_inv (goes y h t (Relocking i l)) \<and>
      procs t = (procs (sy y))(i := (procs (sy y) i)\<lparr>p_chan := None\<rparr>)"
proof -
  have c: "cproc (cpus (lk (sy y)) h) = Some i" using invD(1) [OF I, of h] m by (simp add: hart_ok_def)
  have a: "release (ProcLock i) ((lk (sy y))\<lparr>hart := h\<rparr>) = Ok () (freed (ProcLock i) ((lk (sy y))\<lparr>hart := h\<rparr>))"
    "sched_inv (goes y h ((at_hart h (sy y))\<lparr>lk := freed (ProcLock i) ((lk (sy y))\<lparr>hart := h\<rparr>)\<rparr>) (Running i))"
    using release_step [OF I, of h "ProcLock i" i "\<lambda>c. c" "Running i" "procs (sy y) i"] m c
    unfolding set_mycpu_id at_hart_procs by simp_all
  then show "\<exists>t. on_lk (release (ProcLock i)) (at_hart h (sy y)) = Ok () t \<and> sched_inv (goes y h t (Running i)) \<and> procs t = procs (sy y)"
    by (simp add: on_lk_def)
  let ?L = "set_mycpu (\<lambda>c. c\<lparr>intena := ie\<rparr>) ((lk (sy y))\<lparr>hart := h\<rparr>)"
  have b: "release (ProcLock i) ?L = Ok () (freed (ProcLock i) ?L)"
    "sched_inv (goes y h ((at_hart h (sy y))\<lparr>lk := freed (ProcLock i) ?L\<rparr>) (Running i))"
    using release_step [OF I, of h "ProcLock i" i "\<lambda>c. c\<lparr>intena := ie\<rparr>" "Running i" "procs (sy y) i"] m c
    unfolding at_hart_procs by simp_all
  then show "\<exists>t. yield_return ie i (at_hart h (sy y)) = Ok () t \<and> sched_inv (goes y h t (Running i)) \<and> procs t = procs (sy y)"
    by (simp add: yield_return_def sched_return_def on_lk_def bind_run block_run)
  assume "plain_lock l"
  then have "sched_inv (goes y h ((at_hart h (sy y))\<lparr>lk := freed (ProcLock i) ?L, procs := (procs (sy y))(i := (procs (sy y) i)\<lparr>p_chan := None\<rparr>)\<rparr>)
      (Relocking i l))"
    using release_step(2) [OF I, of h "ProcLock i" i "\<lambda>c. c\<lparr>intena := ie\<rparr>" "Relocking i l" "(procs (sy y) i)\<lparr>p_chan := None\<rparr>"] m c by simp
  then show "\<exists>t. sleep_tidy ie i (at_hart h (sy y)) = Ok () t \<and> sched_inv (goes y h t (Relocking i l)) \<and>
      procs t = (procs (sy y))(i := (procs (sy y) i)\<lparr>p_chan := None\<rparr>)"
    using b(1) by (simp add: sleep_tidy_def sched_return_def on_lk_def bind_run block_run lk_procs_commute)
qed

lemma leaving_step:
  assumes I: "sched_inv y" and m: "modes y h = Leaving i"
  shows "\<exists>t. scheduler_back i (at_hart h (sy y)) = Ok () t \<and> sched_inv (goes y h t InSched) \<and> procs t = procs (sy y)"
  using release_step [OF I, of h "ProcLock i" i "\<lambda>c. c\<lparr>cproc := None\<rparr>" InSched "procs (sy y) i"] m
  unfolding at_hart_procs by (simp add: scheduler_back_def on_lk_def bind_run block_run)

lemma releases_step:
  assumes I: "sched_inv y" and m: "modes y h = Holding i l"
  shows "\<exists>t. on_lk (release l) (at_hart h (sy y)) = Ok () t \<and> sched_inv (goes y h t (Running i)) \<and> procs t = procs (sy y)"
proof -
  have "cproc (cpus (lk (sy y)) h) = Some i" using invD(1) [OF I, of h] m by (simp add: hart_ok_def)
  then show ?thesis
    using release_step [OF I, of h l i "\<lambda>c. c" "Running i" "procs (sy y) i"] m
    unfolding set_mycpu_id at_hart_procs by (simp add: on_lk_def)
qed

text \<open>A process on a hart: nobody holds its lock, so it can always take it.\<close>

lemma running_facts:
  assumes I: "sched_inv y" and m: "modes y h = Running i \<or> modes y h = Holding i l \<or> modes y h = Relocking i l"
  shows "lock_free (ProcLock i) (lk (sy y))" "cproc (cpus (lk (sy y)) h) = Some i" "settled ((lk (sy y))\<lparr>hart := h\<rparr>)"
    "p_state (procs (sy y) i) = RUNNING" "resume y i \<noteq> Exited" "\<And>ie k. resume y i = Slept ie k \<Longrightarrow> plain_lock k"
proof -
  have hk: "hart_ok (lk (sy y)) g (modes y g)" for g by (rule invD [OF I])
  have p: "proc_ok y i" by (rule invD [OF I])
  have mp: "mode_proc (modes y h) = Some i" "modes y h \<noteq> Leaving i" "modes y h \<noteq> Entered i" using m by auto
  then show "cproc (cpus (lk (sy y)) h) = Some i" using hk [of h] by (simp add: hart_ok_def)
  show r: "p_state (procs (sy y) i) = RUNNING" using p mp unfolding proc_ok_def runs_def by blast
  then show "resume y i \<noteq> Exited" "\<And>ie k. resume y i = Slept ie k \<Longrightarrow> plain_lock k" using p by (auto simp: proc_ok_def)
  have "mode_lock (modes y g) \<noteq> Some (ProcLock i)" for g
  proof
    assume g: "mode_lock (modes y g) = Some (ProcLock i)"
    then have "modes y g = Entered i \<or> modes y g = Leaving i"
      using hk [of g] by (cases "modes y g") (auto simp: hart_ok_def plain_lock_def)
    then have "mode_proc (modes y g) = Some i" by auto
    then have "g = h" using p mp(1) unfolding proc_ok_def by blast
    then show False using \<open>modes y g = Entered i \<or> modes y g = Leaving i\<close> mp(2,3) by blast
  qed
  then show "lock_free (ProcLock i) (lk (sy y))" using invD(2) [OF I, of "ProcLock i"] by (simp add: lock_ok_def)
  show "settled ((lk (sy y))\<lparr>hart := h\<rparr>)"
    using hk [of h] m by (auto simp: hart_ok_def settled_def lock_defs)
qed

lemma acquire_step:
  assumes I: "sched_inv y" and m: "modes y h = Running i \<or> modes y h = Relocking i l" and l: "plain_lock l"
  shows "on_lk (acquire l) (at_hart h (sy y)) = Spins l \<or>
    (\<exists>t. on_lk (acquire l) (at_hart h (sy y)) = Ok () t \<and> sched_inv (goes y h t (Holding i l)) \<and> procs t = procs (sy y))"
proof (cases "lock_free l (lk (sy y))")
  case False
  then show ?thesis using inv_acquire [OF I, of h l] m by (auto simp: on_lk_def)
next
  case True
  let ?L = "(lk (sy y))\<lparr>hart := h\<rparr>" and ?t = "(at_hart h (sy y))\<lparr>lk := acquired l ((lk (sy y))\<lparr>hart := h\<rparr>)\<rparr>"
  note r = running_facts [OF I, of h i l]
  have run: "on_lk (acquire l) (at_hart h (sy y)) = Ok () ?t" using True by (simp add: on_lk_def acquire_run)
  have "local_change h i (modes y h) (Holding i l) (sy y) ?t"
    using m True by (auto simp: local_change_def lock_same_def acquired_def pushed_def lock_defs lock_free_def locked_by_def)
  moreover have "hart_ok (lk ?t) h (Holding i l)"
    using m l invD(1) [OF I, of h] by (auto simp: hart_ok_def acquired_def pushed_def lock_defs)
  ultimately have "sched_inv (goes y h ?t (Holding i l))"
    using m r by (intro sched_inv_local [OF I]) (auto simp: runs_def)
  then show ?thesis using run by (intro disjI2 exI [of _ ?t]) simp
qed

lemma leave_step:
  assumes I: "sched_inv y" and m: "modes y h = Running i \<or> modes y h = Holding i l"
    and c: "local_change h i (modes y h) (Leaving i) (sy y) t" and hk: "hart_ok (lk t) h (Leaving i)"
    and st: "p_state (procs t i) \<noteq> RUNNING" "p = Exited \<Longrightarrow> p_state (procs t i) = ZOMBIE" "\<And>ie l. p = Slept ie l \<Longrightarrow> plain_lock l"
  shows "sched_inv ((goes y h t (Leaving i))\<lparr>resume := (resume y)(i := p)\<rparr>)"
  using m hk st by (intro sched_inv_local [OF I c]) (auto simp: runs_def)

lemma yield_step:
  assumes I: "sched_inv y" and m: "modes y h = Running i"
  shows "\<exists>c t. yield (at_hart h (sy y)) = Sleeps c t \<and>
    (\<forall>ie. sched_inv ((goes y h t (Leaving i))\<lparr>resume := (resume y)(i := Yielded ie)\<rparr>)) \<and>
    procs t = (procs (sy y))(i := (procs (sy y) i)\<lparr>p_state := RUNNABLE\<rparr>)"
proof -
  let ?t = "(at_hart h (sy y))\<lparr>lk := acquired (ProcLock i) ((lk (sy y))\<lparr>hart := h\<rparr>),
      procs := (procs (sy y))(i := (procs (sy y) i)\<lparr>p_state := RUNNABLE\<rparr>)\<rparr>"
  note r = running_facts [OF I disjI1 [OF m]]
  have n: "noff (cpus (lk (sy y)) h) = 0" using invD(1) [OF I, of h] m by (simp add: hart_ok_def)
  have "sched ?t = Sleeps (p_chan (procs ?t i)) ?t"
    using r n by (intro sched_run) (simp_all add: acquired_def pushed_def locked_by_def lock_defs)
  then have "yield (at_hart h (sy y)) = Sleeps (p_chan (procs (sy y) i)) ?t"
    using r by (simp add: yield_def bind_run block_run curproc_run mycpu_def cpuid_def on_lk_def acquire_run)
  moreover have "local_change h i (modes y h) (Leaving i) (sy y) ?t"
    using m r(1) by (auto simp: local_change_def lock_same_def acquired_def pushed_def lock_defs lock_free_def locked_by_def)
  moreover have "hart_ok (lk ?t) h (Leaving i)"
    using r n by (simp add: hart_ok_def acquired_def pushed_def lock_defs)
  ultimately show ?thesis
    using leave_step [OF I disjI1 [OF m], of ?t "Yielded _"] by (intro exI [of _ "p_chan (procs (sy y) i)"] exI [of _ ?t]) simp
qed

lemma holding_facts:
  assumes I: "sched_inv y" and m: "modes y h = Holding i l"
  shows "noff (cpus (lk (sy y)) h) = 1" "locked_by h l (lk (sy y))" "plain_lock l" "sstatus (lk (sy y)) h AND SSTATUS_SIE = 0"
proof -
  have hk: "hart_ok (lk (sy y)) h (modes y h)" "lock_ok y l" by (rule invD [OF I])+
  show "noff (cpus (lk (sy y)) h) = 1" "plain_lock l" "sstatus (lk (sy y)) h AND SSTATUS_SIE = 0" using hk m by (auto simp: hart_ok_def)
  show "locked_by h l (lk (sy y))" using hk(2) m by (simp add: lock_ok_def)
qed

text \<open>Handing over the lock that is held for the lock of the process.\<close>

lemma handover_step:
  assumes I: "sched_inv y" and m: "modes y h = Holding i l"
    and t: "t = (at_hart h (sy y))\<lparr>lk := handover i l ((lk (sy y))\<lparr>hart := h\<rparr>), procs := (procs (sy y))(i := q)\<rparr>"
    and q: "p_state q \<noteq> RUNNING" "p = Exited \<Longrightarrow> p_state q = ZOMBIE" "\<And>ie l. p = Slept ie l \<Longrightarrow> plain_lock l"
  shows "sched_inv ((goes y h t (Leaving i))\<lparr>resume := (resume y)(i := p)\<rparr>)"
proof (rule leave_step [OF I disjI2 [OF m]])
  note k = holding_facts [OF I m] and r = running_facts [OF I, of h i l]
  show "local_change h i (modes y h) (Leaving i) (sy y) t"
    using m k plain_neq(1,2) [OF k(3), of i] r(1)
    by (auto simp: t local_change_def lock_same_def handover_sel lock_free_def locked_by_def lock_defs)
  show "hart_ok (lk t) h (Leaving i)" using m k r(2) by (simp add: t hart_ok_def handover_sel)
qed (use q in \<open>simp_all add: t\<close>)

lemma sleep_step:
  assumes I: "sched_inv y" and m: "modes y h = Holding i l"
  shows "\<exists>t. sleep c l (at_hart h (sy y)) = Sleeps (Some c) t \<and>
    (\<forall>ie. sched_inv ((goes y h t (Leaving i))\<lparr>resume := (resume y)(i := Slept ie l)\<rparr>)) \<and>
    lock_free l (lk t) \<and> procs t = (procs (sy y))(i := (procs (sy y) i)\<lparr>p_chan := Some c, p_state := SLEEPING\<rparr>)"
proof -
  note k = holding_facts [OF I m] and r = running_facts [OF I, of h i l]
  have "sleep c l (at_hart h (sy y)) = Sleeps (Some c) ((at_hart h (sy y))\<lparr>lk := handover i l (lk (at_hart h (sy y))),
      procs := (procs (at_hart h (sy y)))(i := (procs (at_hart h (sy y)) i)\<lparr>p_chan := Some c, p_state := SLEEPING\<rparr>)\<rparr>)"
    using m k r plain_neq(1) [OF k(3)] by (intro sleep_run) (simp_all add: mycpu_def cpuid_def locked_by_def)
  then show ?thesis using handover_step [OF I m refl, of "(procs (sy y) i)\<lparr>p_chan := Some c, p_state := SLEEPING\<rparr>" "Slept _ l"] k(2,3)
      plain_neq(1,2) [OF k(3), of i]
    by (simp add: handover_sel lock_free_def)
qed

lemma exit_step:
  assumes I: "sched_inv y" and m: "modes y h = Holding i WaitLock"
  shows "\<exists>c t. exit_zombie i status (at_hart h (sy y)) = Sleeps c t \<and>
    sched_inv ((goes y h t (Leaving i))\<lparr>resume := (resume y)(i := Exited)\<rparr>) \<and>
    procs t = (procs (sy y))(i := (procs (sy y) i)\<lparr>p_xstate := status, p_state := ZOMBIE\<rparr>)"
proof -
  note k = holding_facts [OF I m] and r = running_facts [OF I, of h i WaitLock]
  let ?q = "(procs (sy y) i)\<lparr>p_xstate := status, p_state := ZOMBIE\<rparr>" and ?L = "(lk (sy y))\<lparr>hart := h\<rparr>"
  let ?t = "(at_hart h (sy y))\<lparr>lk := handover i WaitLock ?L, procs := (procs (sy y))(i := ?q)\<rparr>"
  have n: "locked_by (hart ?L) WaitLock ?L" "noff (mycpu ?L) = 1" using k by (simp_all add: locked_by_def mycpu_def cpuid_def)
  have "sched ?t = Sleeps (p_chan (procs ?t i)) ?t"
    using m k r by (intro sched_run) (simp_all add: locked_by_def handover_sel mycpu_def cpuid_def intr_get_def)
  then have "exit_zombie i status (at_hart h (sy y)) = Sleeps (p_chan (procs (sy y) i)) ?t"
    using m r(1) handover_release [OF n, of i] by (simp add: exit_zombie_def bind_run block_run on_lk_def acquire_run lk_procs_commute)
  then show ?thesis using handover_step [OF I m refl, of ?q Exited] by simp
qed

lemma with_lock_spins: "acquire l (lk s) = Spins k \<Longrightarrow> with_lock l m s = Spins k"
  by (simp add: with_lock_def on_lk_def bind_run)

lemma in_process_facts:
  assumes "sched_inv y" "in_process (modes y h) i"
  shows "settled ((lk (sy y))\<lparr>hart := h\<rparr>)" "cproc (cpus (lk (sy y)) h) = Some i" "lock_free (ProcLock i) (lk (sy y))"
    "mode_lock (modes y h) \<noteq> Some (ProcLock j)"
  using assms running_facts [OF assms(1), of h i] holding_facts(3) [OF assms(1), of h i] plain_neq(1)
  by (auto simp: in_process_def)

lemma wakeup_step:
  assumes I: "sched_inv y" and m: "in_process (modes y h) i"
  shows "wakeup_one c j (at_hart h (sy y)) = Spins (ProcLock j) \<or>
    (\<exists>t. wakeup_one c j (at_hart h (sy y)) = Ok () t \<and> sched_inv (goes y h t (modes y h)) \<and>
      procs t = (procs (sy y))(j := wake_one c (Some i) j (procs (sy y) j)))"
proof -
  note r = in_process_facts [OF I m]
  let ?t = "(at_hart h (sy y))\<lparr>procs := (procs (sy y))(j := wake_one c (Some i) j (procs (sy y) j))\<rparr>"
  have "sched_inv (goes y h ?t (modes y h))"
    by (rule sched_inv_table [OF I, of ?t h j]) (simp_all add: wake_one_def)
  moreover have "wakeup_one c j (at_hart h (sy y)) = Ok () ?t" if "lock_free (ProcLock j) (lk (sy y))"
    using wakeup_one_run [of "at_hart h (sy y)" j c] r that by (simp add: mycpu_def cpuid_def)
  moreover have "wakeup_one c j (at_hart h (sy y)) = Spins (ProcLock j)" if "\<not> lock_free (ProcLock j) (lk (sy y))"
  proof -
    have "acquire (ProcLock j) ((lk (sy y))\<lparr>hart := h\<rparr>) = Spins (ProcLock j)" using inv_acquire [OF I r(4)] that by blast
    moreover have "i \<noteq> j" using r(3) that by auto
    ultimately show ?thesis using r by (simp add: wakeup_one_def bind_run [of myproc] myproc_run mycpu_def cpuid_def with_lock_spins)
  qed
  ultimately show ?thesis by (metis proc_state.select_convs proc_state.update_convs proc_state.surjective)
qed

lemma kill_step:
  assumes I: "sched_inv y" and m: "in_process (modes y h) i"
  shows "kill_from [j] pid (at_hart h (sy y)) = Spins (ProcLock j) \<or>
    (\<exists>r t. kill_from [j] pid (at_hart h (sy y)) = Ok r t \<and> sched_inv (goes y h t (modes y h)) \<and>
      procs t = (procs (sy y))(j := if p_pid (procs (sy y) j) = pid then kill_proc (procs (sy y) j) else procs (sy y) j))"
proof (cases "lock_free (ProcLock j) (lk (sy y))")
  case False
  note r = in_process_facts [OF I m]
  have "acquire (ProcLock j) ((lk (sy y))\<lparr>hart := h\<rparr>) = Spins (ProcLock j)" using inv_acquire [OF I r(4)] False by blast
  then show ?thesis by (simp add: bind_run [of "with_lock _ _"] with_lock_spins)
next
  case True
  note r = in_process_facts [OF I m]
  let ?q = "if p_pid (procs (sy y) j) = pid then kill_proc (procs (sy y) j) else procs (sy y) j"
  let ?t = "(at_hart h (sy y))\<lparr>procs := (procs (sy y))(j := ?q)\<rparr>"
  have "sched_inv (goes y h ?t (modes y h))"
    by (rule sched_inv_table [OF I, of ?t h j]) (simp_all add: kill_proc_def)
  moreover have "kill_from [j] pid (at_hart h (sy y)) = Ok (if p_pid (procs (sy y) j) = pid then 0 else - 1) ?t"
  proof -
    have "kill_from [j] pid (at_hart h (sy y)) =
      (case find (\<lambda>i. p_pid (procs (at_hart h (sy y)) i) = pid) [j] of None \<Rightarrow> Ok (- 1) (at_hart h (sy y))
       | Some i \<Rightarrow> Ok 0 ((at_hart h (sy y))\<lparr>procs := (procs (at_hart h (sy y)))(i := kill_proc (procs (at_hart h (sy y)) i))\<rparr>))"
      using r True by (intro kill_from_run) simp_all
    then show ?thesis by (auto simp: at_hart_def)
  qed
  ultimately show ?thesis by simp
qed

lemma round_step:
  assumes I: "sched_inv y" and m: "modes y h = InSched"
  shows "\<exists>t. scheduler_round (at_hart h (sy y)) = Ok () t \<and> sched_inv (goes y h t InSched) \<and> procs t = procs (sy y)"
proof -
  let ?t = "(at_hart h (sy y))\<lparr>lk := intr_on ((lk (sy y))\<lparr>hart := h\<rparr>)\<rparr>"
  have run: "scheduler_round (at_hart h (sy y)) = Ok () ?t" by (simp add: scheduler_round_def on_lk_def)
  have c: "local_change h i (modes y h) InSched (sy y) ?t" for i
    using m by (auto simp: local_change_def lock_same_def lock_defs lock_free_def locked_by_def)
  have "hart_ok (lk ?t) h InSched" using invD(1) [OF I, of h] m by (simp add: hart_ok_def lock_defs)
  moreover have "resume y 0 = Exited \<Longrightarrow> p_state (procs (sy y) 0) = ZOMBIE" "\<And>ie l. resume y 0 = Slept ie l \<Longrightarrow> plain_lock l"
    using invD(3) [OF I, of 0] by (auto simp: proc_ok_def)
  ultimately have "sched_inv (goes y h ?t InSched)"
    using m by (intro sched_inv_local [OF I c [of 0]]) (auto simp: runs_def)
  then show ?thesis using run by simp
qed

lemma scheduler_try_state:
  assumes "scheduler_try i s = Ok b t"
  shows "b \<longleftrightarrow> p_state (procs s i) = RUNNABLE"
    "procs t = (if b then (procs s)(i := (procs s i)\<lparr>p_state := RUNNING\<rparr>) else procs s)"
  using assms by (auto simp: scheduler_try_def bind_run on_lk_def split: outcome.splits if_splits)

text \<open>Every step keeps the invariant, and a runnable process stays so until it runs.\<close>

definition step_ok :: "sched_sys \<Rightarrow> sched_sys \<Rightarrow> bool" where
  "step_ok y z \<longleftrightarrow> sched_inv z \<and>
     (\<forall>i. p_state (procs (sy y) i) = RUNNABLE \<longrightarrow> p_state (procs (sy z) i) = RUNNABLE \<or> p_state (procs (sy z) i) = RUNNING)"

lemma step_okI:
  "sched_inv z \<Longrightarrow> procs (sy z) = procs (sy y) \<Longrightarrow> step_ok y z"
  "sched_inv z \<Longrightarrow> procs (sy z) = (procs (sy y))(i := q) \<Longrightarrow> p_state q = RUNNABLE \<or> p_state q = RUNNING \<or> p_state (procs (sy y) i) \<noteq> RUNNABLE \<Longrightarrow>
    step_ok y z"
  by (auto simp: step_ok_def)

lemma entered_state: "sched_inv y \<Longrightarrow> modes y h = Entered i \<Longrightarrow> p_state (procs (sy y) i) = RUNNING"
proof -
  assume a: "sched_inv y" "modes y h = Entered i"
  then have "runs (modes y h) i" by (simp add: runs_def)
  then show ?thesis using invD(3) [OF a(1), of i] unfolding proc_ok_def by blast
qed

lemma sched_step_ok: "sched_step y z \<Longrightarrow> sched_inv y \<Longrightarrow> step_ok y z"
proof (induction rule: sched_step.induct)
  case (next_round y h z)
  then show ?case using round_step [of y h] by (auto simp: after_return_def intro!: step_okI(1))
next
  case (tries y h i z)
  from scheduler_try_step [OF tries(3,1), of i] show ?case
  proof
    assume "\<exists>b t. scheduler_try i (at_hart h (sy y)) = Ok b t \<and> sched_inv (goes y h t (if b then Entered i else InSched))"
    then obtain b t where t: "scheduler_try i (at_hart h (sy y)) = Ok b t" "sched_inv (goes y h t (if b then Entered i else InSched))" by blast
    then have "z = goes y h t (if b then Entered i else InSched)" using tries(2) by (simp add: after_return_def)
    then show ?thesis using t(2) scheduler_try_state [OF t(1)] by (auto simp: step_ok_def)
  qed (use tries(2) in \<open>simp add: after_return_def\<close>)
next
  case (starts y h i z)
  then show ?case using entered_step(1) [of y h i] by (auto simp: after_return_def intro!: step_okI(1))
next
  case (resumes y h i ie z)
  then show ?case using entered_step(2) [of y h i ie] by (auto simp: after_return_def intro!: step_okI(1))
next
  case (tidies y h i ie l z)
  then have "plain_lock l" using invD(3) [of y i] by (simp add: proc_ok_def)
  moreover have "p_state (procs (sy y) i) = RUNNING"
    using tidies entered_state by blast
  ultimately show ?case
    using tidies entered_step(3) [of y h i l ie] by (auto simp: after_return_def intro!: step_okI(2))
next
  case (revives y h i z)
  then have "p_state (procs (sy y) i) = RUNNING" "p_state (procs (sy y) i) = ZOMBIE"
    using entered_state invD(3) [of y i] by (auto simp: proc_ok_def)
  then show ?case by simp
next
  case (relocks y h i l z)
  then have "plain_lock l" using invD(1) [of y h] by (simp add: hart_ok_def)
  then show ?case using relocks acquire_step [of y h i l] by (auto simp: after_return_def intro!: step_okI(1))
next
  case (acquires y h i l z)
  then show ?case using acquire_step [of y h i l] by (auto simp: after_return_def intro!: step_okI(1))
next
  case (releases y h i l z)
  then show ?case using releases_step [of y h i l] by (auto simp: after_return_def intro!: step_okI(1))
next
  case (yields y h i z)
  then show ?case using yield_step [of y h i] by (auto simp: after_switch_def intro!: step_okI(2))
next
  case (sleeps y h i l c z)
  then show ?case using sleep_step [of y h i l c] running_facts(4) [of y h i l]
    by (auto simp: after_switch_def intro!: step_okI(2))
next
  case (exits y h i status z)
  then show ?case using exit_step [of y h i status] running_facts(4) [of y h i WaitLock]
    by (auto simp: after_switch_def intro!: step_okI(2))
next
  case (wakes y h i c j z)
  then show ?case using wakeup_step [of y h i c j] by (auto simp: after_return_def wake_one_def intro!: step_okI(2))
next
  case (kills y h i j pid z)
  then show ?case using kill_step [of y h i j pid] by (auto simp: after_return_def kill_proc_def simp del: kill_from.simps split: if_splits intro!: step_okI(2))
next
  case (returns y h i z)
  then show ?case using leaving_step [of y h i] by (auto simp: after_return_def intro!: step_okI(1))
qed

lemma sched_step_inv: "sched_step y z \<Longrightarrow> sched_inv y \<Longrightarrow> sched_inv z"
  using sched_step_ok by (simp add: step_ok_def)

lemma sched_steps_inv: "sched_step\<^sup>*\<^sup>* y z \<Longrightarrow> sched_inv y \<Longrightarrow> sched_inv z"
  by (induction rule: rtranclp_induct) (auto intro: sched_step_inv)

text \<open>Before any hart has found a process: no lock is held and no process has run.\<close>

definition sched_start :: "sched_sys \<Rightarrow> bool" where
  "sched_start y \<longleftrightarrow>
     (\<forall>h. modes y h = InSched \<and> cproc (cpus (lk (sy y)) h) = None \<and> noff (cpus (lk (sy y)) h) = 0) \<and>
     (\<forall>l. lock_free l (lk (sy y))) \<and> (\<forall>i. p_state (procs (sy y) i) \<noteq> RUNNING \<and> resume y i = Fresh)"

lemma sched_start_inv: "sched_start y \<Longrightarrow> sched_inv y"
  by (simp add: sched_start_def sched_inv_def hart_ok_def lock_ok_def proc_ok_def runs_def)

text \<open>
  C8: However many harts run \<open>scheduler\<close>, and in whatever order the processes on them start, yield,
  take and release locks, sleep, exit, wake and kill: no step ends in a panic, of \<open>acquire\<close>,
  \<open>release\<close>, \<open>push_off\<close>, \<open>pop_off\<close>, \<open>sched\<close> or \<open>exit\<close>; no process is ever on two harts; a process is
  \<^verbatim>\<open>RUNNING\<close> exactly when a hart has switched to it; the hart's \<^verbatim>\<open>c->proc\<close> names it; and the hart
  that holds a lock is the one recorded in it, with its interrupts off. Nor does a switch get
  stuck: a running process can yield, or sleep with the lock it holds, which \<open>sleep\<close> then has
  released; a process just switched to can leave \<open>sched\<close> and release \<^verbatim>\<open>p->lock\<close>; and the scheduler
  can release the lock of a process that switched back.
\<close>

theorem scheduler_safe:
  assumes "sched_start y" "sched_step\<^sup>*\<^sup>* y z"
  shows "(\<forall>h e. modes z h \<noteq> Panicked e) \<and>
    (\<forall>h h' i. mode_proc (modes z h) = Some i \<longrightarrow> mode_proc (modes z h') = Some i \<longrightarrow> h = h') \<and>
    (\<forall>i. p_state (procs (sy z) i) = RUNNING \<longleftrightarrow> (\<exists>h. runs (modes z h) i)) \<and>
    (\<forall>h. cproc (cpus (lk (sy z)) h) = mode_proc (modes z h)) \<and>
    (\<forall>h l. mode_lock (modes z h) = Some l \<longrightarrow> locked_by h l (lk (sy z)) \<and> sstatus (lk (sy z)) h AND SSTATUS_SIE = 0) \<and>
    (\<forall>h i. modes z h = Running i \<longrightarrow> (\<exists>c t. yield (at_hart h (sy z)) = Sleeps c t)) \<and>
    (\<forall>h i l c. modes z h = Holding i l \<longrightarrow> (\<exists>t. sleep c l (at_hart h (sy z)) = Sleeps (Some c) t \<and>
       lock_free l (lk t) \<and> p_state (procs t i) = SLEEPING \<and> p_chan (procs t i) = Some c)) \<and>
    (\<forall>h i ie. modes z h = Entered i \<longrightarrow> (\<exists>t. yield_return ie i (at_hart h (sy z)) = Ok () t) \<and>
       (\<exists>t. sleep_tidy ie i (at_hart h (sy z)) = Ok () t \<and> p_chan (procs t i) = None)) \<and>
    (\<forall>h i. modes z h = Leaving i \<longrightarrow> (\<exists>t. scheduler_back i (at_hart h (sy z)) = Ok () t))"
proof -
  have I: "sched_inv z" by (rule sched_steps_inv [OF assms(2) sched_start_inv [OF assms(1)]])
  note p = invD [OF I]
  show ?thesis
  proof (intro conjI allI impI)
    show "modes z h \<noteq> Panicked e" for h e using p(1) [of h] by (simp add: hart_ok_def)
  next
    fix h h' i assume "mode_proc (modes z h) = Some i" "mode_proc (modes z h') = Some i"
    then show "h = h'" using p(3) [of i] unfolding proc_ok_def by blast
  next
    show "p_state (procs (sy z) i) = RUNNING \<longleftrightarrow> (\<exists>h. runs (modes z h) i)" for i
      using p(3) [of i] unfolding proc_ok_def by blast
  next
    show "cproc (cpus (lk (sy z)) h) = mode_proc (modes z h)" for h using p(1) by (simp add: hart_ok_def)
  next
    fix h l assume "mode_lock (modes z h) = Some l"
    then show "locked_by h l (lk (sy z))" "sstatus (lk (sy z)) h AND SSTATUS_SIE = 0"
      using p(1) [of h] p(2) [of l] by (auto simp: lock_ok_def hart_ok_def)
  next
    fix h i assume "modes z h = Running i"
    from yield_step [OF I this] show "\<exists>c t. yield (at_hart h (sy z)) = Sleeps c t" by blast
  next
    fix h i l c assume "modes z h = Holding i l"
    from sleep_step [OF I this, of c]
    show "\<exists>t. sleep c l (at_hart h (sy z)) = Sleeps (Some c) t \<and>
       lock_free l (lk t) \<and> p_state (procs t i) = SLEEPING \<and> p_chan (procs t i) = Some c" by auto
  next
    fix h i ie assume e: "modes z h = Entered i"
    from entered_step(2) [OF I e] show "\<exists>t. yield_return ie i (at_hart h (sy z)) = Ok () t" by blast
    from entered_step(3) [OF I e plain_neq(3)]
    show "\<exists>t. sleep_tidy ie i (at_hart h (sy z)) = Ok () t \<and> p_chan (procs t i) = None" by fastforce
  next
    fix h i assume "modes z h = Leaving i"
    from leaving_step [OF I this] show "\<exists>t. scheduler_back i (at_hart h (sy z)) = Ok () t" by blast
  qed
qed

theorem scheduler_safe_witness:
  "\<exists>z. sched_step\<^sup>*\<^sup>* \<lparr>sy = two_procs, modes = (\<lambda>_. InSched), resume = (\<lambda>_. Fresh)\<rparr> z \<and> modes z 3 = Entered 0 \<and>
     p_state (procs (sy z) 0) = RUNNING \<and> (\<exists>t. yield_return True 0 (at_hart 3 (sy z)) = Ok () t)"
proof -
  let ?y = "\<lparr>sy = two_procs, modes = (\<lambda>_. InSched), resume = (\<lambda>_. Fresh)\<rparr>"
  have s: "sched_start ?y"
    by (simp add: sched_start_def two_procs_def idle_proc_def boot_hart_def lock_free_def)
  obtain t where t: "scheduler_try 0 (at_hart 3 two_procs) = Ok True t"
    by (simp add: scheduler_try_def bind_run on_lk_def acquire_run two_procs_def at_hart_def lock_free_def boot_hart_def)
  then have "sched_step ?y (goes ?y 3 t (Entered 0))" by (intro sched_step.tries [of _ 3 0]) (simp_all add: after_return_def)
  then have r: "sched_step\<^sup>*\<^sup>* ?y (goes ?y 3 t (Entered 0))" by (rule r_into_rtranclp)
  have e: "modes (goes ?y 3 t (Entered 0)) 3 = Entered 0" by (simp add: goes_def)
  have "runs (modes (goes ?y 3 t (Entered 0)) 3) 0" unfolding e by (simp add: runs_def)
  with scheduler_safe [OF s r] e
  have "p_state (procs (sy (goes ?y 3 t (Entered 0))) 0) = RUNNING"
    "\<exists>u. yield_return True 0 (at_hart 3 (sy (goes ?y 3 t (Entered 0)))) = Ok () u" by blast+
  with r e show ?thesis by (intro exI [of _ "goes ?y 3 t (Entered 0)"] conjI)
qed

end
