(* ===== verification/Xv6_Fair.thy ===== *)
theory Xv6_Fair
  imports Xv6_Harts
begin

text \<open>
  The order in which \<open>scheduler\<close> visits the process table, and what it guarantees: no process waits
  for more than one round of any hart.
\<close>

section \<open>Rounds through the table\<close>

text \<open>The body of the loop of \<open>scheduler\<close> at process \<open>i\<close>; process 0 begins a round.\<close>

definition scheduler_visit :: "nat \<Rightarrow> ('z proc_state_scheme, bool) kern" where
  "scheduler_visit i = bind (only_if (i = 0) scheduler_round) (\<lambda>_. scheduler_try i)"

text \<open>
  The harts with the process each of them visits next. A visit moves its hart on, to the first
  process after the last one; every other step of the system leaves the places alone. A run counts
  the visits of one hart.
\<close>

type_synonym loop_sys = "sched_sys \<times> (nat \<Rightarrow> nat)"

inductive loop_step :: "nat option \<Rightarrow> loop_sys \<Rightarrow> loop_sys \<Rightarrow> bool" where
  visit: "modes y h = InSched \<Longrightarrow> scheduler_visit (pos h) (at_hart h (sy y)) = Ok b t \<Longrightarrow>
    loop_step (Some h) (y, pos)
      (goes y h t (if b then Entered (pos h) else InSched), pos(h := Suc (pos h) mod NPROC))"
| other: "sched_step y z \<Longrightarrow> (\<And>h. modes y h = InSched \<Longrightarrow> modes z h = InSched) \<Longrightarrow>
    loop_step None (y, pos) (z, pos)"

inductive loop_run :: "nat \<Rightarrow> nat \<Rightarrow> loop_sys \<Rightarrow> loop_sys \<Rightarrow> bool" for h where
  none: "loop_run h 0 x x"
| more: "loop_run h n x y \<Longrightarrow> loop_step l y z \<Longrightarrow> loop_run h (if l = Some h then Suc n else n) x z"

section \<open>Steps and runnable processes\<close>

lemma runnable_kept:
  "sched_step y z \<Longrightarrow> sched_inv y \<Longrightarrow> p_state (procs (sy y) i) = RUNNABLE \<Longrightarrow>
    p_state (procs (sy z) i) = RUNNABLE \<or> p_state (procs (sy z) i) = RUNNING"
  using sched_step_ok [of y z] by (simp add: step_ok_def)

lemma scheduler_try_inv:
  assumes "sched_inv y" "modes y h = InSched" "scheduler_try i (at_hart h (sy y)) = Ok b t"
  shows "sched_inv (goes y h t (if b then Entered i else InSched))"
  using scheduler_try_step [OF assms(1,2), of i] assms(3) by auto

lemma visit_state:
  assumes "scheduler_visit i s = Ok b t"
  shows "b \<longleftrightarrow> p_state (procs s i) = RUNNABLE"
    "procs t = (if b then (procs s)(i := (procs s i)\<lparr>p_state := RUNNING\<rparr>) else procs s)"
proof -
  obtain u where "scheduler_try i u = Ok b t" "procs u = procs s"
    using assms by (cases "i = 0") (auto simp: scheduler_visit_def scheduler_round_def only_if_def bind_run on_lk_def)
  then show "b \<longleftrightarrow> p_state (procs s i) = RUNNABLE"
    "procs t = (if b then (procs s)(i := (procs s i)\<lparr>p_state := RUNNING\<rparr>) else procs s)"
    using scheduler_try_state [of i u b t] by simp_all
qed

lemma loop_step_inv:
  assumes "loop_step l x z" "sched_inv (fst x)"
  shows "sched_inv (fst z)"
  using assms
proof (induction rule: loop_step.induct)
  case (visit y h pos b t)
  show ?case
  proof (cases "pos h = 0")
    case True
    obtain u where u: "scheduler_round (at_hart h (sy y)) = Ok () u" by (simp add: scheduler_round_def on_lk_def)
    let ?u = "goes y h u InSched"
    have I: "sched_inv ?u" using round_step [of y h] visit u by auto
    have "at_hart h (sy ?u) = u" using u by (auto simp: scheduler_round_def on_lk_def goes_def at_hart_def lock_defs)
    then have "scheduler_try (pos h) (at_hart h (sy ?u)) = Ok b t"
      using visit(2) u True by (simp add: scheduler_visit_def only_if_def bind_run)
    from scheduler_try_inv [OF I _ this] show ?thesis by (simp add: goes_def)
  next
    case False
    then show ?thesis using visit scheduler_try_inv [of y h "pos h" b t] by (simp add: scheduler_visit_def only_if_def)
  qed
next
  case (other y z pos)
  then show ?case using sched_step_inv by simp
qed

lemma loop_run_inv: "loop_run h n x z \<Longrightarrow> sched_inv (fst x) \<Longrightarrow> sched_inv (fst z)"
  by (induction rule: loop_run.induct) (auto intro: loop_step_inv)


lemma loop_run_place: "loop_run h n x z \<Longrightarrow> snd x h < NPROC \<Longrightarrow> snd z h < NPROC"
  by (induction rule: loop_run.induct) (auto elim!: loop_step.cases)

section \<open>No process is passed over\<close>

text \<open>How many visits hart \<open>h\<close> makes before the one to process \<open>i\<close>.\<close>

definition visits_before :: "nat \<Rightarrow> nat \<Rightarrow> nat" where
  "visits_before p i = (i + NPROC - p) mod NPROC"

lemma visits_before_step:
  assumes "p < NPROC" "i < NPROC" "p \<noteq> i"
  shows "Suc (visits_before (Suc p mod NPROC) i) = visits_before p i"
  using assms by (cases "p < i") (auto simp: visits_before_def mod_if)

lemma visits_before_same: "p < NPROC \<Longrightarrow> visits_before p p = 0"
  by (simp add: visits_before_def)

text \<open>A step leaves a runnable process waiting, one visit of the hart nearer at most, or starts it.\<close>

lemma loop_step_waits:
  assumes st: "loop_step l x z" and I: "sched_inv (fst x)" and p: "snd x h < NPROC" and i: "i < NPROC"
    and r: "p_state (procs (sy (fst x)) i) = RUNNABLE"
  shows "p_state (procs (sy (fst z)) i) = RUNNING \<or>
    p_state (procs (sy (fst z)) i) = RUNNABLE \<and> snd z h < NPROC \<and>
    visits_before (snd x h) i = visits_before (snd z h) i + (if l = Some h then 1 else 0)"
  using st
proof (cases rule: loop_step.cases)
  case (visit y g pos b t)
  note s = visit_state [OF visit(5)]
  show ?thesis
  proof (cases "pos g = i")
    case True
    then show ?thesis using s r visit(2,3) by (simp add: goes_def)
  next
    case False
    then have "p_state (procs (sy (fst z)) i) = RUNNABLE" using s r visit(2,3) by (simp add: goes_def)
    moreover have "snd z h < NPROC" using p visit(2,3) by simp
    moreover have "visits_before (snd x h) i = visits_before (snd z h) i + (if l = Some h then 1 else 0)"
      using False visits_before_step [of "pos g" i] p i visit(1-3) by auto
    ultimately show ?thesis by blast
  qed
next
  case (other y y' pos)
  then show ?thesis using runnable_kept [of y y' i] I r p by auto
qed

lemma loop_run_waits:
  assumes "loop_run h n x z" "sched_inv (fst x)" "snd x h < NPROC" "i < NPROC" "p_state (procs (sy (fst x)) i) = RUNNABLE"
  shows "(\<exists>w n1 n2. n = n1 + n2 \<and> n1 \<le> Suc (visits_before (snd x h) i) \<and> loop_run h n1 x w \<and> loop_run h n2 w z \<and>
      p_state (procs (sy (fst w)) i) = RUNNING) \<or>
    p_state (procs (sy (fst z)) i) = RUNNABLE \<and> snd z h < NPROC \<and> visits_before (snd x h) i = visits_before (snd z h) i + n"
  using assms
proof (induction rule: loop_run.induct)
  case (more n x y l z)
  let ?d = "if l = Some h then 1 else 0 :: nat"
  have d: "(if l = Some h then Suc n else n) = n + ?d" by simp
  from more.IH [OF more.prems] show ?case
  proof (elim disjE exE conjE)
    fix w n1 n2 assume w: "n = n1 + n2" "n1 \<le> Suc (visits_before (snd x h) i)" "loop_run h n1 x w" "loop_run h n2 w y"
      "p_state (procs (sy (fst w)) i) = RUNNING"
    have "loop_run h (n2 + ?d) w z" using loop_run.more [OF w(4) more.hyps(2)] by (simp split: if_splits)
    then show ?thesis unfolding d using w by (metis add.assoc)
  next
    assume y: "p_state (procs (sy (fst y)) i) = RUNNABLE" "snd y h < NPROC" "visits_before (snd x h) i = visits_before (snd y h) i + n"
    have run: "loop_run h (n + ?d) x z" using loop_run.more [OF more.hyps] by (simp split: if_splits)
    from loop_step_waits [OF more.hyps(2) loop_run_inv [OF more.hyps(1) more.prems(1)] y(2) more.prems(3) y(1)]
    show ?thesis
    proof
      assume "p_state (procs (sy (fst z)) i) = RUNNING"
      moreover have "n + ?d \<le> Suc (visits_before (snd x h) i)" using y(3) by simp
      ultimately show ?thesis unfolding d using run loop_run.none by (metis add.right_neutral)
    next
      assume "p_state (procs (sy (fst z)) i) = RUNNABLE \<and> snd z h < NPROC \<and>
        visits_before (snd y h) i = visits_before (snd z h) i + ?d"
      then show ?thesis unfolding d using y(3) by simp
    qed
  qed
qed simp

text \<open>
  C37: no starvation. Whatever the other harts and the processes do, a process that is \<^verbatim>\<open>RUNNABLE\<close>
  starts to run before any one hart has been once around the process table: in every run in which
  hart \<open>h\<close>, wherever it is in its round, makes as many visits as take it to the process, there is a
  moment at which the process is \<^verbatim>\<open>RUNNING\<close>, and it comes no later than that visit. That the hart goes
  on visiting is what is left to the timer, which makes the running process yield.
\<close>

theorem scheduler_runs_everyone:
  assumes "sched_start y0" "\<forall>h. pos0 h < NPROC" "loop_run h m (y0, pos0) (y, pos)"
    and "i < NPROC" "p_state (procs (sy y) i) = RUNNABLE"
    and "loop_run h n (y, pos) z" "visits_before (pos h) i < n"
  shows "\<exists>w n1 n2. n = n1 + n2 \<and> n1 \<le> Suc (visits_before (pos h) i) \<and>
    loop_run h n1 (y, pos) w \<and> loop_run h n2 w z \<and> p_state (procs (sy (fst w)) i) = RUNNING"
proof -
  have "sched_inv y" using loop_run_inv [OF assms(3)] sched_start_inv [OF assms(1)] by simp
  moreover have "pos h < NPROC" using loop_run_place [OF assms(3)] assms(2) by simp
  ultimately show ?thesis using loop_run_waits [OF assms(6), of i] assms(4,5,7) by auto
qed


theorem scheduler_runs_everyone_witness:
  "\<exists>z w n1. loop_run 3 1 (\<lparr>sy = two_procs, modes = (\<lambda>_. InSched), resume = (\<lambda>_. Fresh)\<rparr>, \<lambda>_. 0) z \<and>
     loop_run 3 n1 (\<lparr>sy = two_procs, modes = (\<lambda>_. InSched), resume = (\<lambda>_. Fresh)\<rparr>, \<lambda>_. 0) w \<and> n1 \<le> 1 \<and> p_state (procs (sy (fst w)) 0) = RUNNING"
proof -
  let ?y = "\<lparr>sy = two_procs, modes = (\<lambda>_. InSched), resume = (\<lambda>_. Fresh)\<rparr>" and ?p = "\<lambda>_::nat. 0::nat"
  have s: "sched_start ?y"
    by (simp add: sched_start_def two_procs_def idle_proc_def boot_hart_def lock_free_def)
  have r: "p_state (procs (sy ?y) 0) = RUNNABLE" by (simp add: two_procs_def idle_proc_def)
  obtain t where "scheduler_visit (?p 3) (at_hart 3 (sy ?y)) = Ok True t"
    by (simp add: scheduler_visit_def only_if_def scheduler_round_def scheduler_try_def bind_run on_lk_def acquire_run two_procs_def
        at_hart_def lock_free_def boot_hart_def lock_defs)
  then have "loop_step (Some 3) (?y, ?p) (goes ?y 3 t (Entered (?p 3)), ?p(3 := Suc (?p 3) mod NPROC))"
    using loop_step.visit [of ?y 3 ?p True t] by simp
  from loop_run.more [OF loop_run.none this, of 3]
  have run: "loop_run 3 1 (?y, ?p) (goes ?y 3 t (Entered (?p 3)), ?p(3 := Suc (?p 3) mod NPROC))" by simp
  have "visits_before (?p 3) 0 = 0" by (simp add: visits_before_def)
  with scheduler_runs_everyone [OF s _ loop_run.none _ r run] run show ?thesis by fastforce
qed

end
