(* ===== verification/Xv6_Ring.thy ===== *)
theory Xv6_Ring
  imports Xv6_Prelude
begin

text \<open>
  Ring buffers with free-running counters, as the pipe (\<^verbatim>\<open>kernel/pipe.c\<close>), the serial port's
  output buffer (\<^verbatim>\<open>kernel/uart.c\<close>) and the console's input buffer (\<^verbatim>\<open>kernel/console.c\<close>) have
  them: the counters wrap around at their width and index the buffer modulo its size.

  \<open>bounded_queue\<close> is what their users rely on, a queue of bounded length; \<open>counter_ring\<close> holds the
  facts about the counters that show that a ring is one.
\<close>

section \<open>The interface\<close>

locale bounded_queue =
  fixes wf :: "'s \<Rightarrow> bool" and contents :: "'s \<Rightarrow> 'a list" and cap :: nat
    and is_full :: "'s \<Rightarrow> bool" and is_empty :: "'s \<Rightarrow> bool"
    and put :: "'a \<Rightarrow> 's \<Rightarrow> 's" and front :: "'s \<Rightarrow> 'a" and advance :: "'s \<Rightarrow> 's"
  assumes cap: "wf s \<Longrightarrow> length (contents s) \<le> cap"
    and full: "wf s \<Longrightarrow> is_full s \<longleftrightarrow> length (contents s) = cap"
    and empty: "wf s \<Longrightarrow> is_empty s \<longleftrightarrow> contents s = []"
    and put: "wf s \<Longrightarrow> \<not> is_full s \<Longrightarrow> wf (put x s) \<and> contents (put x s) = contents s @ [x]"
    and get: "wf s \<Longrightarrow> \<not> is_empty s \<Longrightarrow> wf (advance s) \<and> contents s = front s # contents (advance s)"
begin

lemma puts:
  "wf s \<Longrightarrow> length (contents s) + length xs \<le> cap \<Longrightarrow>
    wf (fold put xs s) \<and> contents (fold put xs s) = contents s @ xs"
proof (induction xs arbitrary: s)
  case (Cons x xs)
  then have "\<not> is_full s" using full [of s] by auto
  with put [of s x] Cons show ?case by simp
qed simp

lemma advances:
  "wf s \<Longrightarrow> n \<le> length (contents s) \<Longrightarrow> wf ((advance ^^ n) s) \<and> contents ((advance ^^ n) s) = drop n (contents s)"
proof (induction n arbitrary: s)
  case (Suc n)
  then have "\<not> is_empty s" using empty [of s] by auto
  with get [of s] Suc show ?case by (simp add: funpow_swap1)
qed simp

text \<open>What is taken out after a sequence of puts is what was put in, in order, behind the old contents.\<close>

lemma fifo:
  assumes "wf s" "length (contents s) + length xs \<le> cap" "n \<le> length (contents s) + length xs"
  shows "contents ((advance ^^ n) (fold put xs s)) = drop n (contents s @ xs)"
  using puts [OF assms(1,2)] advances [of "fold put xs s" n] assms(3) by simp

end

section \<open>Counters\<close>

definition ring_bytes :: "nat \<Rightarrow> 'a list \<Rightarrow> 'w::len word \<Rightarrow> 'w word \<Rightarrow> 'a list" where
  "ring_bytes n buf r w = map (\<lambda>i. buf ! (unat (r + of_nat i) mod n)) [0..<unat (w - r)]"

lemma ring_bytes_length [simp]: "length (ring_bytes n buf r w) = unat (w - r)"
  by (simp add: ring_bytes_def)

lemma ring_bytes_empty: "ring_bytes n buf r w = [] \<longleftrightarrow> r = w"
  by (auto simp: ring_bytes_def unat_eq_0)

lemma unat_Suc_distance: "w - r \<noteq> (- 1 :: 'w::len word) \<Longrightarrow> unat (w + 1 - r) = Suc (unat (w - r))"
proof -
  assume "w - r \<noteq> - 1"
  then have "1 + (w - r) \<noteq> 0" by (metis add.commute eq_neg_iff_add_eq_0)
  from unatSuc [OF this] show ?thesis by (simp add: algebra_simps)
qed

text \<open>
  A buffer of \<open>n\<close> entries whose counters have the type of \<open>z\<close>: the size divides the number of
  counter values, so that the index does not jump when a counter wraps.
\<close>

locale counter_ring =
  fixes n :: nat and z :: "'w::len word"
  assumes pos: "0 < n" and dvd: "n dvd 2 ^ LENGTH('w)" and small: "n < 2 ^ LENGTH('w)"
begin

lemma place_add: "unat (r + of_nat i :: 'w word) mod n = (unat r + i) mod n"
  using dvd by (simp add: unat_word_ariths unat_of_nat mod_mod_cancel mod_add_right_eq)

lemma place_inj:
  fixes r :: "'w word"
  assumes "i < n" "j < n" "unat (r + of_nat i) mod n = unat (r + of_nat j) mod n"
  shows "i = j"
proof -
  have "(unat r + i) mod n = (unat r + j) mod n" using assms(3) by (simp only: place_add)
  then have "i mod n = j mod n" by (simp add: nat_mod_eq_iff)
  with assms(1,2) show ?thesis by simp
qed

lemma full_iff:
  fixes r w :: "'w word"
  shows "w = r + of_nat n \<longleftrightarrow> unat (w - r) = n"
proof
  assume "unat (w - r) = n"
  then have "of_nat n = w - r" by auto
  then show "w = r + of_nat n" by simp
qed (use small in \<open>simp add: unat_of_nat\<close>)

lemma put_bytes:
  fixes r w :: "'w word"
  assumes "unat (w - r) < n" "length buf = n"
  shows "ring_bytes n (buf[unat w mod n := x]) r (w + 1) = ring_bytes n buf r w @ [x]"
    "unat (w + 1 - r) = Suc (unat (w - r))"
proof -
  let ?k = "unat (w - r)"
  have "w - r \<noteq> - 1"
  proof
    assume "w - r = - 1"
    then have "?k = 2 ^ LENGTH('w) - 1" by (simp add: unsigned_minus_1_eq_mask mask_eq_exp_minus_1)
    with assms(1) small show False by simp
  qed
  then show k: "unat (w + 1 - r) = Suc ?k" by (rule unat_Suc_distance)
  have w: "w = r + of_nat ?k" by simp
  have "buf[unat w mod n := x] ! (unat (r + of_nat i) mod n) = buf ! (unat (r + of_nat i) mod n)" if "i < ?k" for i
  proof -
    have "unat w mod n \<noteq> unat (r + of_nat i) mod n"
      using place_inj [of ?k i r] that assms(1) w by auto
    then show ?thesis by simp
  qed
  moreover have "buf[unat w mod n := x] ! (unat (r + of_nat ?k) mod n) = x"
    using pos assms(2) w by simp
  ultimately show "ring_bytes n (buf[unat w mod n := x]) r (w + 1) = ring_bytes n buf r w @ [x]"
    by (simp add: ring_bytes_def k)
qed

lemma get_bytes:
  fixes r w :: "'w word"
  assumes "r \<noteq> w"
  shows "ring_bytes n buf r w = buf ! (unat r mod n) # ring_bytes n buf (r + 1) w"
    "unat (w - (r + 1)) = unat (w - r) - 1"
proof -
  have "w - r \<noteq> 0" using assms by simp
  then have k: "unat (w - r) = Suc (unat (w - (r + 1)))"
    by (metis diff_diff_add Suc_pred' unat_gt_0 unat_minus_one)
  then show "unat (w - (r + 1)) = unat (w - r) - 1" by simp
  show "ring_bytes n buf r w = buf ! (unat r mod n) # ring_bytes n buf (r + 1) w"
    by (simp add: ring_bytes_def k upt_conv_Cons map_Suc_upt [symmetric] add.assoc del: upt_Suc)
qed

end

end
