(* ===== verification/Xv6_Console.thy ===== *)
theory Xv6_Console
  imports Xv6_Sched Xv6_Ring
begin

unbundle bit_operations_syntax

text \<open>
  The serial port, formatted output and the console: \<^verbatim>\<open>kernel/uart.c\<close>, \<^verbatim>\<open>kernel/printf.c\<close>,
  \<^verbatim>\<open>kernel/console.c\<close>, and \<open>procdump\<close> of \<^verbatim>\<open>kernel/proc.c\<close>.

  The 16550 UART is a parameter: \<open>uart_dev\<close> says what reading a register returns after the
  accesses in \<open>uart_io\<close>, which lists all reads and writes of its registers so far.
\<close>

section \<open>State\<close>

datatype mmio = MRead nat | MWrite nat u8

datatype dev_fun = ConsoleRead | ConsoleWrite

record devsw =
  dev_read :: "dev_fun option"
  dev_write :: "dev_fun option"

record cons_state = proc_state +
  uart_dev :: "mmio list \<Rightarrow> nat \<Rightarrow> u8"
  uart_io :: "mmio list"
  uart_tx_buf :: "u8 list"
  uart_tx_w :: u64
  uart_tx_r :: u64
  panicked :: int
  pr_locking :: int
  cons_buf :: "u8 list"
  cons_r :: u32
  cons_w :: u32
  cons_e :: u32
  devsws :: "nat \<Rightarrow> devsw"

abbreviation (input) UART_TX_BUF_SIZE :: "'a::numeral" where "UART_TX_BUF_SIZE \<equiv> 32"
abbreviation (input) INPUT_BUF_SIZE :: "'a::numeral" where "INPUT_BUF_SIZE \<equiv> 128"
abbreviation (input) BACKSPACE :: int where "BACKSPACE \<equiv> 0x100"
abbreviation (input) CONSOLE :: "'a::one" where "CONSOLE \<equiv> 1"

definition bytes :: "string \<Rightarrow> u8 list" where
  "bytes s = map of_char s"

section \<open>The UART driver\<close>

abbreviation (input) RHR :: nat where "RHR \<equiv> 0"
abbreviation (input) THR :: nat where "THR \<equiv> 0"
abbreviation (input) IER :: nat where "IER \<equiv> 1"
abbreviation (input) IER_RX_ENABLE :: u8 where "IER_RX_ENABLE \<equiv> 1"
abbreviation (input) IER_TX_ENABLE :: u8 where "IER_TX_ENABLE \<equiv> 2"
abbreviation (input) FCR :: nat where "FCR \<equiv> 2"
abbreviation (input) FCR_FIFO_ENABLE :: u8 where "FCR_FIFO_ENABLE \<equiv> 1"
abbreviation (input) FCR_FIFO_CLEAR :: u8 where "FCR_FIFO_CLEAR \<equiv> 6"
abbreviation (input) LCR :: nat where "LCR \<equiv> 3"
abbreviation (input) LCR_EIGHT_BITS :: u8 where "LCR_EIGHT_BITS \<equiv> 3"
abbreviation (input) LCR_BAUD_LATCH :: u8 where "LCR_BAUD_LATCH \<equiv> 128"
abbreviation (input) LSR :: nat where "LSR \<equiv> 5"
abbreviation (input) LSR_RX_READY :: u8 where "LSR_RX_READY \<equiv> 1"
abbreviation (input) LSR_TX_IDLE :: u8 where "LSR_TX_IDLE \<equiv> 32"

definition ReadReg :: "nat \<Rightarrow> ('z cons_state_scheme, u8) kern" where
  "ReadReg reg =
     bind (gets (\<lambda>s. uart_dev s (uart_io s) reg)) (\<lambda>v.
     bind (modify (\<lambda>s. s\<lparr>uart_io := uart_io s @ [MRead reg]\<rparr>)) (\<lambda>_. ret v))"

definition WriteReg :: "nat \<Rightarrow> u8 \<Rightarrow> ('z cons_state_scheme, unit) kern" where
  "WriteReg reg v = modify (\<lambda>s. s\<lparr>uart_io := uart_io s @ [MWrite reg v]\<rparr>)"

definition uartinit :: "('z cons_state_scheme, unit) kern" where
  "uartinit = block [
     WriteReg IER 0x00,
     WriteReg LCR LCR_BAUD_LATCH,
     WriteReg 0 0x03,
     WriteReg 1 0x00,
     WriteReg LCR LCR_EIGHT_BITS,
     WriteReg FCR (FCR_FIFO_ENABLE OR FCR_FIFO_CLEAR),
     WriteReg IER (IER_TX_ENABLE OR IER_RX_ENABLE),
     on_lk (initlock UartLock ''uart'')]"

text \<open>\<^verbatim>\<open>if(panicked) for(;;) ;\<close>\<close>

definition stop_if_panicked :: "('z cons_state_scheme, unit) kern" where
  "stop_if_panicked = bind (gets panicked) (\<lambda>p. only_if (p \<noteq> 0) (loop_while (ret True)))"

definition uartstart_step :: "('z cons_state_scheme, bool) kern" where
  "uartstart_step =
     bind (gets id) (\<lambda>s.
       if uart_tx_w s = uart_tx_r s then ret False
       else
         bind (ReadReg LSR) (\<lambda>l.
           if l AND LSR_TX_IDLE = 0 then ret False
           else
             bind (gets (\<lambda>s. uart_tx_buf s ! (unat (uart_tx_r s) mod UART_TX_BUF_SIZE))) (\<lambda>c.
             bind (block [
               modify (\<lambda>s. s\<lparr>uart_tx_r := uart_tx_r s + 1\<rparr>),
               wakeup ChanUart,
               WriteReg THR c]) (\<lambda>_. ret True))))"

definition uartstart :: "('z cons_state_scheme, unit) kern" where
  "uartstart = loop_while uartstart_step"

text \<open>The loop of \<open>uartputc\<close> with the lock held; \<open>uartputc_return\<close> goes on after a sleep.\<close>

definition uartputc_loop :: "int \<Rightarrow> ('z cons_state_scheme, unit) kern" where
  "uartputc_loop c =
     bind (gets id) (\<lambda>s.
       if uart_tx_w s = uart_tx_r s + UART_TX_BUF_SIZE then sleep ChanUart UartLock
       else block [
         modify (\<lambda>s. s\<lparr>uart_tx_buf := (uart_tx_buf s)[unat (uart_tx_w s) mod UART_TX_BUF_SIZE := of_int c]\<rparr>),
         modify (\<lambda>s. s\<lparr>uart_tx_w := uart_tx_w s + 1\<rparr>),
         uartstart,
         on_lk (release UartLock)])"

definition uartputc :: "int \<Rightarrow> ('z cons_state_scheme, unit) kern" where
  "uartputc c = block [on_lk (acquire UartLock), stop_if_panicked, uartputc_loop c]"

definition uartputc_return :: "bool \<Rightarrow> nat \<Rightarrow> int \<Rightarrow> ('z cons_state_scheme, unit) kern" where
  "uartputc_return ie p c = block [sleep_return ie p UartLock, uartputc_loop c]"

definition uartputc_sync :: "int \<Rightarrow> ('z cons_state_scheme, unit) kern" where
  "uartputc_sync c = block [
     on_lk push_off,
     stop_if_panicked,
     loop_while (bind (ReadReg LSR) (\<lambda>l. ret (l AND LSR_TX_IDLE = 0))),
     WriteReg THR (of_int c),
     on_lk pop_off]"

definition uartgetc :: "('z cons_state_scheme, int) kern" where
  "uartgetc =
     bind (ReadReg LSR) (\<lambda>l.
       if l AND 0x01 \<noteq> 0 then bind (ReadReg RHR) (\<lambda>c. ret (uint c)) else ret (- 1))"

section \<open>Formatted output\<close>

definition consputc :: "int \<Rightarrow> ('z cons_state_scheme, unit) kern" where
  "consputc c =
     (if c = BACKSPACE then block [uartputc_sync 8, uartputc_sync 32, uartputc_sync 8]
      else uartputc_sync c)"

definition digit_char :: "u32 \<Rightarrow> u8" where
  "digit_char x = bytes ''0123456789abcdef'' ! unat x"

text \<open>
  The digits of \<open>x\<close>, least significant first. Bases below 2, for which the loop in C would not
  end, stop after one digit.
\<close>

function print_digits :: "u32 \<Rightarrow> u32 \<Rightarrow> u8 list" where
  "print_digits base x =
     digit_char (x mod base) # (if x div base = 0 \<or> base < 2 then [] else print_digits base (x div base))"
  by pat_completeness auto
termination
proof (relation "measure (\<lambda>(base, x). unat x)")
  fix base x :: u32
  assume a: "\<not> (x div base = 0 \<or> base < 2)"
  then have "1 < unat base" by (simp add: word_less_nat_alt)
  moreover have "0 < unat x" using a by (cases "x = 0") (auto simp: unat_gt_0)
  ultimately show "((base, x div base), base, x) \<in> measure (\<lambda>(base, x). unat x)"
    by (simp add: unat_div div_less_dividend)
qed simp

declare print_digits.simps [simp del]

text \<open>Negating the least \<^verbatim>\<open>int\<close> is undefined behaviour.\<close>

definition printint :: "u32 \<Rightarrow> u32 \<Rightarrow> bool \<Rightarrow> ('z cons_state_scheme, unit) kern" where
  "printint xx base sign =
     (let neg = sign \<and> sint xx < 0; x = (if neg then - xx else xx) in
      if neg \<and> xx = 0x80000000 then undefined_behaviour
      else block (map (\<lambda>c. consputc (uint c)) (rev (print_digits base x @ (if neg then bytes ''-'' else [])))))"

text \<open>The digits of a pointer: \<^verbatim>\<open>digits[x >> 60]\<close> and \<^verbatim>\<open>x <<= 4\<close>, sixteen times.\<close>

primrec ptr_digits :: "nat \<Rightarrow> u64 \<Rightarrow> u8 list" where
  "ptr_digits 0 x = []"
| "ptr_digits (Suc n) x = digit_char (ucast (drop_bit 60 x)) # ptr_digits n (push_bit 4 x)"

definition printptr :: "u64 \<Rightarrow> ('z cons_state_scheme, unit) kern" where
  "printptr x = block [
     consputc 48, consputc 120,
     block (map (\<lambda>c. consputc (uint c)) (ptr_digits 16 x))]"

text \<open>The arguments of \<open>printf\<close>. An argument that is missing or of another type is undefined behaviour.\<close>

datatype parg = ArgInt u32 | ArgPtr u64 | ArgStr "u8 list option"

definition print_str :: "u8 list option \<Rightarrow> ('z cons_state_scheme, unit) kern" where
  "print_str s = block (map (\<lambda>c. consputc (uint c)) (case s of None \<Rightarrow> bytes ''(null)'' | Some cs \<Rightarrow> cs))"

fun printf_loop :: "u8 list \<Rightarrow> parg list \<Rightarrow> ('z cons_state_scheme, unit) kern" where
  "printf_loop [] ap = ret ()"
| "printf_loop (c # cs) ap =
     (if c \<noteq> of_char CHR ''%'' then bind (consputc (uint c)) (\<lambda>_. printf_loop cs ap)
      else case cs of
        [] \<Rightarrow> ret ()
      | f # fs \<Rightarrow>
          if f = of_char CHR ''d'' then
            (case ap of ArgInt x # as \<Rightarrow> bind (printint x 10 True) (\<lambda>_. printf_loop fs as) | _ \<Rightarrow> undefined_behaviour)
          else if f = of_char CHR ''x'' then
            (case ap of ArgInt x # as \<Rightarrow> bind (printint x 16 True) (\<lambda>_. printf_loop fs as) | _ \<Rightarrow> undefined_behaviour)
          else if f = of_char CHR ''p'' then
            (case ap of ArgPtr x # as \<Rightarrow> bind (printptr x) (\<lambda>_. printf_loop fs as) | _ \<Rightarrow> undefined_behaviour)
          else if f = of_char CHR ''s'' then
            (case ap of ArgStr s # as \<Rightarrow> bind (print_str s) (\<lambda>_. printf_loop fs as) | _ \<Rightarrow> undefined_behaviour)
          else if f = of_char CHR ''%'' then bind (consputc (uint f)) (\<lambda>_. printf_loop fs ap)
          else bind (consputc (uint c)) (\<lambda>_. bind (consputc (uint f)) (\<lambda>_. printf_loop fs ap)))"

definition printf :: "u8 list option \<Rightarrow> parg list \<Rightarrow> ('z cons_state_scheme, unit) kern" where
  "printf fmt ap =
     bind (gets pr_locking) (\<lambda>locking. block [
       only_if (locking \<noteq> 0) (on_lk (acquire PrLock)),
       (case fmt of None \<Rightarrow> panic ''null fmt'' | Some f \<Rightarrow> printf_loop f ap),
       only_if (locking \<noteq> 0) (on_lk (release PrLock))])"

text \<open>A call of \<open>printf\<close> with a literal format.\<close>

definition kprintf :: "string \<Rightarrow> parg list \<Rightarrow> ('z cons_state_scheme, unit) kern" where
  "kprintf fmt ap = printf (Some (bytes fmt)) ap"

text \<open>With a newline at the end.\<close>

definition kprintln :: "string \<Rightarrow> parg list \<Rightarrow> ('z cons_state_scheme, unit) kern" where
  "kprintln fmt ap = printf (Some (bytes fmt @ [10])) ap"

text \<open>\<^verbatim>\<open>panic\<close>; it prints and stops the hart, which other code sees as the outcome \<open>Panic\<close>.\<close>

definition kpanic :: "u8 list \<Rightarrow> ('z cons_state_scheme, unit) kern" where
  "kpanic s = block [
     modify (\<lambda>s. s\<lparr>pr_locking := 0\<rparr>),
     kprintf ''panic: '' [],
     printf (Some s) [],
     printf (Some [10]) [],
     modify (\<lambda>s. s\<lparr>panicked := 1\<rparr>),
     loop_while (ret True)]"

definition printfinit :: "('z cons_state_scheme, unit) kern" where
  "printfinit = block [on_lk (initlock PrLock ''pr''), modify (\<lambda>s. s\<lparr>pr_locking := 1\<rparr>)]"

primrec state_name :: "procstate \<Rightarrow> string" where
  "state_name UNUSED = ''unused''"
| "state_name USED = ''used''"
| "state_name SLEEPING = ''sleep ''"
| "state_name RUNNABLE = ''runble''"
| "state_name RUNNING = ''run   ''"
| "state_name ZOMBIE = ''zombie''"

definition procdump :: "('z cons_state_scheme, unit) kern" where
  "procdump = block [
     printf (Some [10]) [],
     block (map (\<lambda>i.
       bind (get_proc i id) (\<lambda>p. only_if (p_state p \<noteq> UNUSED) (block [
         kprintf ''%d %s %s'' [ArgInt (of_int (p_pid p)), ArgStr (Some (bytes (state_name (p_state p)))),
           ArgStr (Some (takeWhile (\<lambda>c. c \<noteq> 0) (p_name p)))],
         printf (Some [10]) []]))) [0..<NPROC])]"

section \<open>The console\<close>

primrec consolewrite_loop :: "nat \<Rightarrow> bool \<Rightarrow> u64 \<Rightarrow> int \<Rightarrow> ('z cons_state_scheme, int) kern" where
  "consolewrite_loop 0 user_src src i = ret i"
| "consolewrite_loop (Suc k) user_src src i =
     bind (either_copyin user_src (src + of_int i) 1) (\<lambda>(r, c).
       if r = - 1 then ret i
       else bind (uartputc (uint (hd c))) (\<lambda>_. consolewrite_loop k user_src src (i + 1)))"

definition consolewrite :: "bool \<Rightarrow> u64 \<Rightarrow> int \<Rightarrow> ('z cons_state_scheme, int) kern" where
  "consolewrite user_src src n = consolewrite_loop (nat n) user_src src 0"

text \<open>
  The loop of \<open>consoleread\<close> with \<open>n\<close> bytes left of \<open>target\<close>; \<open>consoleread_return\<close> goes on after a
  sleep.
\<close>

definition consoleread_done :: "nat \<Rightarrow> nat \<Rightarrow> ('z cons_state_scheme, int) kern" where
  "consoleread_done target n = bind (on_lk (release ConsLock)) (\<lambda>_. ret (int target - int n))"

primrec consoleread_loop :: "nat \<Rightarrow> bool \<Rightarrow> u64 \<Rightarrow> nat \<Rightarrow> ('z cons_state_scheme, int) kern" where
  "consoleread_loop 0 user_dst dst target = consoleread_done target 0"
| "consoleread_loop (Suc k) user_dst dst target =
     bind (gets id) (\<lambda>s.
       if cons_r s = cons_w s then
         bind curproc (\<lambda>p.
         bind (killed p) (\<lambda>kd.
           if kd \<noteq> 0 then bind (on_lk (release ConsLock)) (\<lambda>_. ret (- 1))
           else bind (sleep ChanCons ConsLock) (\<lambda>_. ret (- 1))))
       else
         bind (ret (cons_buf s ! (unat (cons_r s) mod INPUT_BUF_SIZE))) (\<lambda>c.
         bind (modify (\<lambda>s. s\<lparr>cons_r := cons_r s + 1\<rparr>)) (\<lambda>_.
           if c = 4 then
             bind (only_if (Suc k < target) (modify (\<lambda>s. s\<lparr>cons_r := cons_r s - 1\<rparr>))) (\<lambda>_.
               consoleread_done target (Suc k))
           else
             bind (either_copyout user_dst dst [c]) (\<lambda>r.
               if r = - 1 then consoleread_done target (Suc k)
               else if c = 10 then consoleread_done target k
               else consoleread_loop k user_dst (dst + 1) target))))"

definition consoleread :: "bool \<Rightarrow> u64 \<Rightarrow> int \<Rightarrow> ('z cons_state_scheme, int) kern" where
  "consoleread user_dst dst n =
     bind (on_lk (acquire ConsLock)) (\<lambda>_. consoleread_loop (nat n) user_dst dst (nat n))"

definition consoleread_return :: "bool \<Rightarrow> nat \<Rightarrow> nat \<Rightarrow> bool \<Rightarrow> u64 \<Rightarrow> nat \<Rightarrow> ('z cons_state_scheme, int) kern" where
  "consoleread_return ie p n user_dst dst target =
     bind (sleep_return ie p ConsLock) (\<lambda>_. consoleread_loop n user_dst dst target)"

definition kill_line_step :: "('z cons_state_scheme, bool) kern" where
  "kill_line_step =
     bind (gets id) (\<lambda>s.
       if cons_e s \<noteq> cons_w s \<and> cons_buf s ! (unat (cons_e s - 1) mod INPUT_BUF_SIZE) \<noteq> 10
       then bind (block [
         modify (\<lambda>s. s\<lparr>cons_e := cons_e s - 1\<rparr>),
         consputc BACKSPACE]) (\<lambda>_. ret True)
       else ret False)"

definition cons_store :: "int \<Rightarrow> ('z cons_state_scheme, unit) kern" where
  "cons_store c = block [
     consputc c,
     modify (\<lambda>s. s\<lparr>cons_buf := (cons_buf s)[unat (cons_e s) mod INPUT_BUF_SIZE := of_int c], cons_e := cons_e s + 1\<rparr>),
     bind (gets id) (\<lambda>s. only_if (c = 10 \<or> c = 4 \<or> cons_e s - cons_r s = INPUT_BUF_SIZE) (block [
       modify (\<lambda>s. s\<lparr>cons_w := cons_e s\<rparr>),
       wakeup ChanCons]))]"

definition consoleintr :: "int \<Rightarrow> ('z cons_state_scheme, unit) kern" where
  "consoleintr c = block [
     on_lk (acquire ConsLock),
     (if c = 0x10 then procdump
      else if c = 0x15 then loop_while kill_line_step
      else if c = 8 \<or> c = 0x7f then
        bind (gets id) (\<lambda>s. only_if (cons_e s \<noteq> cons_w s) (block [
          modify (\<lambda>s. s\<lparr>cons_e := cons_e s - 1\<rparr>),
          consputc BACKSPACE]))
      else
        bind (gets id) (\<lambda>s. only_if (c \<noteq> 0 \<and> cons_e s - cons_r s < INPUT_BUF_SIZE)
          (cons_store (if c = 13 then 10 else c)))),
     on_lk (release ConsLock)]"

definition uartintr :: "('z cons_state_scheme, unit) kern" where
  "uartintr = block [
     loop_while (bind uartgetc (\<lambda>c. if c = - 1 then ret False else bind (consoleintr c) (\<lambda>_. ret True))),
     on_lk (acquire UartLock),
     uartstart,
     on_lk (release UartLock)]"

definition consoleinit :: "('z cons_state_scheme, unit) kern" where
  "consoleinit = block [
     on_lk (initlock ConsLock ''cons''),
     uartinit,
     modify (\<lambda>s. s\<lparr>devsws := (devsws s)(CONSOLE := (devsws s CONSOLE)\<lparr>dev_read := Some ConsoleRead\<rparr>)\<rparr>),
     modify (\<lambda>s. s\<lparr>devsws := (devsws s)(CONSOLE := (devsws s CONSOLE)\<lparr>dev_write := Some ConsoleWrite\<rparr>)\<rparr>)]"

section \<open>Example\<close>

text \<open>A UART that can always send and has no input, and a console on it.\<close>

definition idle_uart :: "mmio list \<Rightarrow> nat \<Rightarrow> u8" where
  "idle_uart io reg = (if reg = LSR then LSR_TX_IDLE else 0)"

definition with_console :: "proc_state \<Rightarrow> cons_state" where
  "with_console s = proc_state.extend s
     \<lparr>uart_dev = idle_uart, uart_io = [], uart_tx_buf = replicate 32 0, uart_tx_w = 0, uart_tx_r = 0, panicked = 0, pr_locking = 1,
      cons_buf = replicate 128 0, cons_r = 0, cons_w = 0, cons_e = 0, devsws = (\<lambda>_. \<lparr>dev_read = None, dev_write = None\<rparr>)\<rparr>"

lemma with_console_sel [simp]:
  "lk (with_console s) = lk s" "procs (with_console s) = procs s" "pmem (with_console s) = pmem s"
  "uart_dev (with_console s) = idle_uart" "uart_io (with_console s) = []" "uart_tx_w (with_console s) = 0" "uart_tx_r (with_console s) = 0"
  "cons_r (with_console s) = 0" "cons_w (with_console s) = 0" "cons_e (with_console s) = 0" "panicked (with_console s) = 0"
  "length (uart_tx_buf (with_console s)) = 32" "length (cons_buf (with_console s)) = 128"
  by (simp_all add: with_console_def proc_state.defs)

section \<open>The output buffer is a queue\<close>

definition uart_bytes :: "'z cons_state_scheme \<Rightarrow> u8 list" where
  "uart_bytes s = ring_bytes UART_TX_BUF_SIZE (uart_tx_buf s) (uart_tx_r s) (uart_tx_w s)"

definition uart_wf :: "'z cons_state_scheme \<Rightarrow> bool" where
  "uart_wf s \<longleftrightarrow> length (uart_tx_buf s) = UART_TX_BUF_SIZE \<and> unat (uart_tx_w s - uart_tx_r s) \<le> UART_TX_BUF_SIZE"

interpretation uart_ring: counter_ring UART_TX_BUF_SIZE "0 :: u64"
  by unfold_locales simp_all

interpretation uart_queue: bounded_queue uart_wf uart_bytes UART_TX_BUF_SIZE
  "\<lambda>s :: 'z cons_state_scheme. uart_tx_w s = uart_tx_r s + UART_TX_BUF_SIZE" "\<lambda>s. uart_tx_w s = uart_tx_r s"
  "\<lambda>c s. s\<lparr>uart_tx_buf := (uart_tx_buf s)[unat (uart_tx_w s) mod UART_TX_BUF_SIZE := c], uart_tx_w := uart_tx_w s + 1\<rparr>"
  "\<lambda>s. uart_tx_buf s ! (unat (uart_tx_r s) mod UART_TX_BUF_SIZE)" "\<lambda>s. s\<lparr>uart_tx_r := uart_tx_r s + 1\<rparr>"
proof unfold_locales
  fix s :: "'z cons_state_scheme" and c
  show "uart_tx_w s = uart_tx_r s + UART_TX_BUF_SIZE \<longleftrightarrow> length (uart_bytes s) = UART_TX_BUF_SIZE"
    using uart_ring.full_iff [of "uart_tx_w s" "uart_tx_r s"] by (simp add: uart_bytes_def)
  show "uart_tx_w s = uart_tx_r s \<longleftrightarrow> uart_bytes s = []"
    by (auto simp add: uart_bytes_def ring_bytes_empty)
  assume w: "uart_wf s"
  then show "length (uart_bytes s) \<le> UART_TX_BUF_SIZE" by (simp add: uart_bytes_def uart_wf_def)
  {
    let ?t = "s\<lparr>uart_tx_buf := (uart_tx_buf s)[unat (uart_tx_w s) mod UART_TX_BUF_SIZE := c], uart_tx_w := uart_tx_w s + 1\<rparr>"
    assume "uart_tx_w s \<noteq> uart_tx_r s + UART_TX_BUF_SIZE"
    then have "unat (uart_tx_w s - uart_tx_r s) < UART_TX_BUF_SIZE"
      using w uart_ring.full_iff [of "uart_tx_w s" "uart_tx_r s"] by (simp add: uart_wf_def)
    with uart_ring.put_bytes [of "uart_tx_w s" "uart_tx_r s" "uart_tx_buf s"] w
    show "uart_wf ?t \<and> uart_bytes ?t = uart_bytes s @ [c]" by (simp add: uart_wf_def uart_bytes_def)
  next
    assume "uart_tx_w s \<noteq> uart_tx_r s"
    then have n: "uart_tx_r s \<noteq> uart_tx_w s" by simp
    show "uart_wf (s\<lparr>uart_tx_r := uart_tx_r s + 1\<rparr>) \<and>
        uart_bytes s = uart_tx_buf s ! (unat (uart_tx_r s) mod UART_TX_BUF_SIZE) # uart_bytes (s\<lparr>uart_tx_r := uart_tx_r s + 1\<rparr>)"
      using uart_ring.get_bytes(1) [OF n, of "uart_tx_buf s"] uart_ring.get_bytes(2) [OF n] w
      by (auto simp: uart_wf_def uart_bytes_def)
  }
qed

text \<open>The bytes given to the device so far.\<close>

definition sent :: "mmio list \<Rightarrow> u8 list" where
  "sent io = concat (map (\<lambda>m. case m of MWrite r v \<Rightarrow> if r = THR then [v] else [] | MRead r \<Rightarrow> []) io)"

lemma sent_simps [simp]:
  "sent [] = []" "sent (xs @ ys) = sent xs @ sent ys" "sent (MRead r # xs) = sent xs" "sent (MWrite THR v # xs) = v # sent xs"
  by (simp_all add: sent_def)

lemma ReadReg_run [kern_simps]: "ReadReg r s = Ok (uart_dev s (uart_io s) r) (s\<lparr>uart_io := uart_io s @ [MRead r]\<rparr>)"
  by (simp add: ReadReg_def bind_run)

lemma WriteReg_run [kern_simps]: "WriteReg r v s = Ok () (s\<lparr>uart_io := uart_io s @ [MWrite r v]\<rparr>)"
  by (simp add: WriteReg_def)

lemma wake_all_idem [simp]: "wake_all c me (wake_all c me ps) = wake_all c me ps"
  by (rule ext) (simp add: wake_all_def wake_one_def)

text \<open>One round of \<open>uartstart\<close>.\<close>

lemma uartstart_step_run:
  assumes "settled (lk s)" "plocks_free (lk s)"
  shows "uartstart_step s =
    (if uart_tx_w s = uart_tx_r s then Ok False s
     else if uart_dev s (uart_io s) LSR AND LSR_TX_IDLE = 0 then Ok False (s\<lparr>uart_io := uart_io s @ [MRead LSR]\<rparr>)
     else Ok True (s\<lparr>uart_io := uart_io s @ [MRead LSR, MWrite THR (uart_tx_buf s ! (unat (uart_tx_r s) mod UART_TX_BUF_SIZE))],
       uart_tx_r := uart_tx_r s + 1, procs := wake_all ChanUart (cproc (mycpu (lk s))) (procs s)\<rparr>))"
  using assms by (simp add: uartstart_step_def bind_run block_run ReadReg_run WriteReg_run wakeup_run)


lemma uartstart_unfold:
  assumes "settled (lk s)" "plocks_free (lk s)"
  shows "uartstart s =
    (if uart_tx_w s = uart_tx_r s then Ok () s
     else if uart_dev s (uart_io s) LSR AND LSR_TX_IDLE = 0 then Ok () (s\<lparr>uart_io := uart_io s @ [MRead LSR]\<rparr>)
     else uartstart (s\<lparr>uart_io := uart_io s @ [MRead LSR, MWrite THR (uart_tx_buf s ! (unat (uart_tx_r s) mod UART_TX_BUF_SIZE))],
       uart_tx_r := uart_tx_r s + 1, procs := wake_all ChanUart (cproc (mycpu (lk s))) (procs s)\<rparr>))"
  unfolding uartstart_def by (subst loop_while_unfold) (simp add: uartstart_step_run [OF assms])

text \<open>
  What \<open>uartstart\<close> does, whatever the device answers: it sends some of the oldest bytes; it stops
  when the buffer is empty or the device is busy.
\<close>

lemma uartstart_run:
  assumes "settled (lk s)" "plocks_free (lk s)" "uart_wf s"
  shows "\<exists>k io r ps. uartstart s = Ok () (s\<lparr>uart_io := uart_io s @ io, uart_tx_r := r, procs := ps\<rparr>) \<and>
    k \<le> length (uart_bytes s) \<and> uart_wf (s\<lparr>uart_tx_r := r\<rparr>) \<and> uart_bytes (s\<lparr>uart_tx_r := r\<rparr>) = drop k (uart_bytes s) \<and>
    sent io = take k (uart_bytes s) \<and>
    (k < length (uart_bytes s) \<longrightarrow> io \<noteq> [] \<and> last io = MRead LSR \<and> uart_dev s (uart_io s @ butlast io) LSR AND LSR_TX_IDLE = 0) \<and>
    ps = (if k = 0 then procs s else wake_all ChanUart (cproc (mycpu (lk s))) (procs s))"
  using assms
proof (induction "length (uart_bytes s)" arbitrary: s)
  case 0
  then have e: "uart_tx_w s = uart_tx_r s" "uart_bytes s = []" using uart_queue.empty [of s] by simp_all
  then have "uartstart s = Ok () s" using uartstart_unfold [OF 0(2,3)] by simp
  then show ?case
    using 0(4) e by (intro exI [of _ 0] exI [of _ "[]"] exI [of _ "uart_tx_r s"] exI [of _ "procs s"]) simp
next
  case (Suc n)
  then have ne: "uart_tx_w s \<noteq> uart_tx_r s" using uart_queue.empty [of s] by auto
  show ?case
  proof (cases "uart_dev s (uart_io s) LSR AND LSR_TX_IDLE = 0")
    case True
    then have "uartstart s = Ok () (s\<lparr>uart_io := uart_io s @ [MRead LSR]\<rparr>)"
      using uartstart_unfold [OF Suc.prems(1,2)] ne by simp
    then show ?thesis
      using True Suc.prems(3) by (intro exI [of _ 0] exI [of _ "[MRead LSR]"] exI [of _ "uart_tx_r s"] exI [of _ "procs s"]) simp
  next
    case False
    let ?c = "uart_tx_buf s ! (unat (uart_tx_r s) mod UART_TX_BUF_SIZE)" and ?ps = "wake_all ChanUart (cproc (mycpu (lk s))) (procs s)"
    let ?io = "[MRead LSR, MWrite THR ?c]"
    let ?t = "s\<lparr>uart_io := uart_io s @ ?io, uart_tx_r := uart_tx_r s + 1, procs := ?ps\<rparr>"
    have g: "uart_wf ?t" "uart_bytes s = ?c # uart_bytes ?t"
      using uart_queue.get [OF Suc.prems(3) ne] by (simp_all add: uart_wf_def uart_bytes_def)
    have "n = length (uart_bytes ?t)" "settled (lk ?t)" "plocks_free (lk ?t)" using Suc.hyps(2) Suc.prems g by simp_all
    from Suc.hyps(1) [OF this(1-3) g(1)] obtain k io r ps where
      IH: "uartstart ?t = Ok () (?t\<lparr>uart_io := uart_io ?t @ io, uart_tx_r := r, procs := ps\<rparr>)"
      "k \<le> length (uart_bytes ?t)" "uart_wf (?t\<lparr>uart_tx_r := r\<rparr>)" "uart_bytes (?t\<lparr>uart_tx_r := r\<rparr>) = drop k (uart_bytes ?t)"
      "sent io = take k (uart_bytes ?t)"
      "k < length (uart_bytes ?t) \<longrightarrow> io \<noteq> [] \<and> last io = MRead LSR \<and> uart_dev ?t (uart_io ?t @ butlast io) LSR AND LSR_TX_IDLE = 0"
      "ps = (if k = 0 then procs ?t else wake_all ChanUart (cproc (mycpu (lk ?t))) (procs ?t))"
      by (elim exE conjE) (rule that)
    have "uartstart s = Ok () (s\<lparr>uart_io := uart_io s @ (?io @ io), uart_tx_r := r, procs := ?ps\<rparr>)"
      using uartstart_unfold [OF Suc.prems(1,2)] ne False IH(1,7) by simp
    moreover have "uart_wf (s\<lparr>uart_tx_r := r\<rparr>)" "uart_bytes (s\<lparr>uart_tx_r := r\<rparr>) = drop (Suc k) (uart_bytes s)"
      using IH(3,4) g(2) by (simp_all add: uart_wf_def uart_bytes_def)
    moreover have "butlast (?io @ io) = ?io @ butlast io" if "io \<noteq> []" using that by (simp add: butlast_append)
    ultimately show ?thesis
      using IH(2,5,6) g(2)
      by (intro exI [of _ "Suc k"] exI [of _ "?io @ io"] exI [of _ r] exI [of _ ?ps]) auto
  qed
qed



text \<open>A process that writes to a UART with a byte in its buffer.\<close>

definition uart_example :: cons_state where
  "uart_example = (with_console (two_procs\<lparr>lk := running_hart\<rparr>))\<lparr>uart_tx_buf := 65 # replicate 31 0, uart_tx_w := 1\<rparr>"


section \<open>Printed numbers\<close>

lemma sint_u32: "sint (x :: u32) = (if uint x < 2 ^ 31 then uint x else uint x - 2 ^ 32)"
proof -
  have u: "uint x < 2 ^ 32" "0 \<le> uint x" using uint_lt2p [of x] by simp_all
  have "(uint x + 2 ^ 31) mod 2 ^ 32 = (if uint x < 2 ^ 31 then uint x + 2 ^ 31 else uint x + 2 ^ 31 - 2 ^ 32)"
    using u by (auto intro: mod_pos_pos_trivial simp: mod_pos_geq)
  then show ?thesis
    by (simp add: sint_uint signed_take_bit_eq_take_bit_shift take_bit_eq_mod)
qed
lemma unat_abs_u32: "int (unat (if sint (xx::u32) < 0 then - xx else xx)) = \<bar>sint xx\<bar>"
proof -
  have u: "uint xx < 2 ^ 32" "0 \<le> uint xx" using uint_lt2p [of xx] by simp_all
  have m: "uint (- xx) = (if uint xx = 0 then 0 else 2 ^ 32 - uint xx)"
    using u by (simp add: uint_word_ariths zmod_zminus1_eq_if)
  show ?thesis
  proof (cases "uint xx < 2 ^ 31")
    case True
    then show ?thesis unfolding sint_u32 using u by simp
  next
    case False
    then have "int (unat (- xx)) = 2 ^ 32 - uint xx" using m by simp
    then show ?thesis unfolding sint_u32 using u False by simp
  qed
qed

text \<open>
  Polled output. A 16550 that has been given a byte sets \<^verbatim>\<open>LSR_TX_IDLE\<close> again after some time:
  however its registers were used so far, reading \<^verbatim>\<open>LSR\<close> often enough shows it idle.
\<close>

definition uart_drains :: "'z cons_state_scheme \<Rightarrow> bool" where
  "uart_drains s \<longleftrightarrow> (\<forall>io. \<exists>n. uart_dev s (io @ replicate n (MRead LSR)) LSR AND LSR_TX_IDLE \<noteq> 0)"

text \<open>The accesses that send the bytes \<open>cs\<close>, each after the read of \<^verbatim>\<open>LSR\<close> that first shows the UART idle.\<close>

inductive polled :: "(mmio list \<Rightarrow> nat \<Rightarrow> u8) \<Rightarrow> mmio list \<Rightarrow> u8 list \<Rightarrow> mmio list \<Rightarrow> bool" for dev where
  all_sent: "polled dev h [] []"
| poll: "dev (h @ replicate n (MRead LSR)) LSR AND LSR_TX_IDLE \<noteq> 0 \<Longrightarrow>
    (\<And>m. m < n \<Longrightarrow> dev (h @ replicate m (MRead LSR)) LSR AND LSR_TX_IDLE = 0) \<Longrightarrow>
    polled dev (h @ replicate (Suc n) (MRead LSR) @ [MWrite THR c]) cs io \<Longrightarrow>
    polled dev h (c # cs) (replicate (Suc n) (MRead LSR) @ MWrite THR c # io)"

lemma poll_run:
  assumes "uart_dev s (uart_io s @ replicate n (MRead LSR)) LSR AND LSR_TX_IDLE \<noteq> 0"
    and "\<And>m. m < n \<Longrightarrow> uart_dev s (uart_io s @ replicate m (MRead LSR)) LSR AND LSR_TX_IDLE = 0"
  shows "loop_while (bind (ReadReg LSR) (\<lambda>l. ret (l AND LSR_TX_IDLE = 0))) s =
    Ok () (s\<lparr>uart_io := uart_io s @ replicate (Suc n) (MRead LSR)\<rparr>)"
  using assms
proof (induction n arbitrary: s)
  case 0
  then show ?case by (subst loop_while_unfold) (simp add: bind_run ReadReg_run)
next
  case (Suc n)
  let ?s = "s\<lparr>uart_io := uart_io s @ [MRead LSR]\<rparr>"
  have "uart_dev s (uart_io s) LSR AND LSR_TX_IDLE = 0" using Suc.prems(2) [of 0] by simp
  moreover have "uart_dev s (uart_io s @ MRead LSR # replicate m (MRead LSR)) LSR AND LSR_TX_IDLE = 0" if "m < n" for m
    using Suc.prems(2) [of "Suc m"] that by simp
  then have "loop_while (bind (ReadReg LSR) (\<lambda>l. ret (l AND LSR_TX_IDLE = 0))) ?s =
      Ok () (?s\<lparr>uart_io := uart_io ?s @ replicate (Suc n) (MRead LSR)\<rparr>)"
    using Suc.prems(1) by (intro Suc.IH) simp_all
  ultimately show ?case by (subst loop_while_unfold) (simp add: bind_run ReadReg_run)
qed

lemma uartputc_sync_run:
  assumes "settled (lk s)" "panicked s = 0" "uart_dev s (uart_io s @ replicate n (MRead LSR)) LSR AND LSR_TX_IDLE \<noteq> 0"
    and "\<And>m. m < n \<Longrightarrow> uart_dev s (uart_io s @ replicate m (MRead LSR)) LSR AND LSR_TX_IDLE = 0"
  shows "uartputc_sync c s = Ok () (s\<lparr>uart_io := uart_io s @ replicate (Suc n) (MRead LSR) @ [MWrite THR (of_int c)]\<rparr>)"
proof -
  let ?s = "s\<lparr>lk := pushed (lk s)\<rparr>"
  have "loop_while (bind (ReadReg LSR) (\<lambda>l. ret (l AND LSR_TX_IDLE = 0))) ?s =
      Ok () (?s\<lparr>uart_io := uart_io ?s @ replicate (Suc n) (MRead LSR)\<rparr>)"
    using assms(3,4) by (intro poll_run) simp_all
  then show ?thesis
    using assms pop_pushed [OF assms(1)]
    by (simp add: uartputc_sync_def block_run bind_run on_lk_def push_off_run stop_if_panicked_def only_if_def WriteReg_run)
qed

lemma print_bytes_run:
  assumes "settled (lk s)" "panicked s = 0" "uart_drains s"
  shows "\<exists>io. block (map (\<lambda>c. consputc (uint (c :: u8))) cs) s = Ok () (s\<lparr>uart_io := uart_io s @ io\<rparr>) \<and>
    polled (uart_dev s) (uart_io s) cs io"
  using assms
proof (induction cs arbitrary: s)
  case (Cons c cs)
  let ?idle = "\<lambda>n. uart_dev s (uart_io s @ replicate n (MRead LSR)) LSR AND LSR_TX_IDLE \<noteq> 0"
  define n where "n = (LEAST n. ?idle n)"
  have "\<exists>n. ?idle n" using Cons.prems(3) unfolding uart_drains_def by blast
  then have n: "?idle n" "m < n \<Longrightarrow> \<not> ?idle m" for m unfolding n_def by (rule LeastI_ex) (rule not_less_Least)
  let ?s = "s\<lparr>uart_io := uart_io s @ replicate (Suc n) (MRead LSR) @ [MWrite THR c]\<rparr>"
  have "uint c < 256" using uint_lt2p [of c] by simp
  then have "consputc (uint c) s = Ok () ?s"
    using uartputc_sync_run [OF Cons.prems(1,2) n(1)] n(2) by (simp add: consputc_def)
  moreover have "settled (lk ?s)" "panicked ?s = 0" "uart_drains ?s" using Cons.prems by (simp_all add: uart_drains_def)
  from Cons.IH [OF this] obtain io where "block (map (\<lambda>c. consputc (uint c)) cs) ?s = Ok () (?s\<lparr>uart_io := uart_io ?s @ io\<rparr>)"
    "polled (uart_dev ?s) (uart_io ?s) cs io" by blast
  ultimately show ?case
    using polled.poll [of "uart_dev s" "uart_io s" n c cs io] n
    by (intro exI [of _ "replicate (Suc n) (MRead LSR) @ MWrite THR c # io"]) (simp add: block_run bind_run)
next
  case Nil
  then show ?case by (intro exI [of _ "[]"]) (simp add: polled.all_sent)
qed

lemma sent_replicate: "sent (replicate n (MRead r)) = []"
  by (induction n) simp_all

lemma polled_sent: "polled dev h cs io \<Longrightarrow> sent io = cs"
  by (induction rule: polled.induct) (simp_all add: sent_replicate)

definition digit_value :: "u8 \<Rightarrow> nat" where
  "digit_value c = (if c < 58 then unat c - 48 else unat c - 87)"

definition numeral_value :: "nat \<Rightarrow> u8 list \<Rightarrow> nat" where
  "numeral_value base cs = foldl (\<lambda>a c. base * a + digit_value c) 0 cs"

lemma digit_table: "map digit_value (bytes ''0123456789abcdef'') = [0..<16]"
  by code_simp

lemma digit_char_value: "x < 16 \<Longrightarrow> digit_value (digit_char x) = unat x"
proof -
  assume "x < 16"
  then have x: "unat x < 16" by (simp add: word_less_nat_alt)
  then have "digit_value (bytes ''0123456789abcdef'' ! unat x) = map digit_value (bytes ''0123456789abcdef'') ! unat x"
    by (intro nth_map [symmetric]) (simp add: bytes_def)
  then show ?thesis unfolding digit_table digit_char_def using x by simp
qed

text \<open>The loop of \<open>printint\<close>: the digits are the value, and no more of them than needed.\<close>

lemma numeral_value_snoc: "numeral_value b (cs @ [c]) = b * numeral_value b cs + digit_value c"
  by (simp add: numeral_value_def)

lemma print_digits_value:
  assumes "2 \<le> base" "base \<le> 16"
  shows "numeral_value (unat base) (rev (print_digits base x)) = unat x \<and>
    (unat base ^ (length (print_digits base x) - 1) \<le> unat x \<or> length (print_digits base x) = 1)"
  using assms
proof (induction base x rule: print_digits.induct)
  case (1 base x)
  let ?b = "unat base" and ?q = "x div base" and ?d = "digit_char (x mod base)"
  have b: "2 \<le> ?b" "?b \<le> 16" using 1(2,3) by (simp_all add: word_le_nat_alt)
  have "unat (x mod base) < 16" using b by (simp add: unat_mod) (meson mod_less_divisor less_le_trans zero_less_numeral)
  then have d: "digit_value ?d = unat x mod ?b"
    by (subst digit_char_value) (simp_all add: unat_mod word_less_nat_alt)
  have nb: "\<not> base < 2" using 1(2) by simp
  show ?case
  proof (cases "?q = 0")
    case True
    then have "unat x div ?b = 0" by (metis unat_0 unat_div)
    then have "unat x < ?b" using b by (simp add: div_eq_0_iff)
    with True d show ?thesis by (subst (1 2 3) print_digits.simps) (simp add: numeral_value_def)
  next
    case False
    let ?L = "length (print_digits base ?q)"
    from 1(1) [OF _ 1(2,3)] False nb have IH: "numeral_value ?b (rev (print_digits base ?q)) = unat x div ?b"
      "?b ^ (?L - 1) \<le> unat x div ?b \<or> ?L = 1" by (simp_all add: unat_div)
    have pd: "print_digits base x = ?d # print_digits base ?q"
      using False nb by (subst print_digits.simps) simp
    have v: "numeral_value ?b (rev (print_digits base x)) = unat x"
      unfolding pd using IH(1) d by (simp add: numeral_value_snoc)
    have L: "0 < ?L" by (subst print_digits.simps) simp
    have "?b ^ ?L \<le> unat x"
    proof (cases "?L = 1")
      case True
      have "unat x div ?b \<noteq> 0" using False by (metis unat_div unat_eq_zero)
      with True b show ?thesis by (simp add: div_eq_0_iff not_less)
    next
      case False
      then have "?b * ?b ^ (?L - 1) \<le> ?b * (unat x div ?b)" using IH(2) by simp
      also have "\<dots> \<le> unat x" by simp
      finally show ?thesis using L by (metis power_eq_if less_numeral_extra(3))
    qed
    with v show ?thesis by (simp add: pd)
  qed
qed

lemma print_digits_length:
  assumes "base = 10 \<or> base = 16"
  shows "length (print_digits base x) \<le> 10"
proof (rule ccontr)
  assume "\<not> ?thesis"
  then have n: "10 \<le> length (print_digits base x) - 1" by simp
  have "2 \<le> base" "base \<le> 16" using assms by (auto simp: word_le_nat_alt)
  with print_digits_value [of base x] n have "unat base ^ (length (print_digits base x) - 1) \<le> unat x" by auto
  moreover have "unat base ^ 10 \<le> unat base ^ (length (print_digits base x) - 1)"
    using n assms by (intro power_increasing) auto
  moreover have "unat x < 2 ^ 32" by simp
  ultimately have "unat base ^ 10 < 2 ^ 32" by (meson le_less_trans)
  then show False using assms by auto
qed

text \<open>The numeral of a number: its digits in the base, most significant first, without leading zeros.\<close>

fun numeral_of :: "nat \<Rightarrow> nat \<Rightarrow> string" where
  "numeral_of b n =
     (if n < b \<or> b < 2 then [''0123456789abcdef'' ! (n mod b)]
      else numeral_of b (n div b) @ [''0123456789abcdef'' ! (n mod b)])"

declare numeral_of.simps [simp del]

lemma digit_char_bytes: "unat x < 16 \<Longrightarrow> digit_char x = of_char (''0123456789abcdef'' ! unat x)"
  unfolding digit_char_def bytes_def by (rule nth_map) simp

lemma bytes_append: "bytes (xs @ ys) = bytes xs @ bytes ys"
  by (simp add: bytes_def)

lemma print_digits_numeral:
  assumes "2 \<le> base" "base \<le> 16"
  shows "rev (print_digits base x) = bytes (numeral_of (unat base) (unat x))"
  using assms
proof (induction base x rule: print_digits.induct)
  case (1 base x)
  let ?b = "unat base"
  have b: "2 \<le> ?b" "?b \<le> 16" using 1(2,3) by (simp_all add: word_le_nat_alt)
  have "unat x mod ?b < 16" using b by (meson mod_less_divisor less_le_trans zero_less_numeral)
  then have d: "digit_char (x mod base) = of_char (''0123456789abcdef'' ! (unat x mod ?b))"
    using digit_char_bytes [of "x mod base"] by (simp add: unat_mod)
  have nb: "\<not> base < 2" using 1(2) by simp
  have q: "x div base = 0 \<longleftrightarrow> unat x < ?b"
    using b div_eq_0_iff [of "unat x" ?b] by (auto simp: unat_div [symmetric] unat_eq_zero)
  show ?case
  proof (cases "x div base = 0")
    case True
    then show ?thesis using d q b by (subst print_digits.simps, subst numeral_of.simps) (simp add: bytes_def)
  next
    case False
    then have "rev (print_digits base (x div base)) = bytes (numeral_of ?b (unat x div ?b))"
      using 1 nb by (simp add: unat_div)
    then show ?thesis using False d q b nb
      by (subst print_digits.simps, subst numeral_of.simps) (simp add: bytes_def)
  qed
qed

text \<open>
  C28: \<open>printint\<close> prints the number it is given. In base 10 or 16, on a UART that gets idle again
  after every byte, it returns, and the bytes it sends are exactly a minus sign for a negative
  number, if the number is taken as signed, and the numeral of the absolute value with the digits
  \<^verbatim>\<open>0123456789abcdef\<close>, whose value is that number; taken as unsigned, it is the numeral of the 32-bit
  number. They fit the 16 bytes of \<^verbatim>\<open>buf\<close>, each is written at the first read of \<^verbatim>\<open>LSR\<close> that shows the
  UART idle, and nothing else changes. The least \<^verbatim>\<open>int\<close>, which \<open>printint\<close> may not negate, is excluded.
\<close>

theorem printint_numeral:
  assumes "settled (lk s)" "panicked s = 0" "uart_drains s" "base = 10 \<or> base = 16" "\<not> (sign \<and> xx = 0x80000000)"
    and v: "v = (if sign then nat \<bar>sint xx\<bar> else unat xx)"
  shows "\<exists>io. printint xx base sign s = Ok () (s\<lparr>uart_io := uart_io s @ io\<rparr>) \<and>
    sent io = bytes ((if sign \<and> sint xx < 0 then ''-'' else []) @ numeral_of (unat base) v) \<and> length (sent io) \<le> 16 \<and>
    polled (uart_dev s) (uart_io s) (sent io) io \<and> numeral_value (unat base) (bytes (numeral_of (unat base) v)) = v"
proof -
  let ?neg = "sign \<and> sint xx < 0"
  let ?x = "if ?neg then - xx else xx"
  let ?cs = "rev (print_digits base ?x)"
  let ?out = "(if ?neg then bytes ''-'' else []) @ ?cs"
  have b: "2 \<le> base" "base \<le> 16" using assms(4) by (auto simp: word_le_nat_alt)
  have "int (unat ?x) = int v" using unat_abs_u32 [of xx] v by (cases "sint xx < 0") auto
  then have x: "unat ?x = v" by (rule of_nat_eq_iff [THEN iffD1])
  obtain io where io: "block (map (\<lambda>c. consputc (uint c)) ?out) s = Ok () (s\<lparr>uart_io := uart_io s @ io\<rparr>)"
    "polled (uart_dev s) (uart_io s) ?out io"
    using print_bytes_run [OF assms(1-3), of ?out] by blast
  have "printint xx base sign s = Ok () (s\<lparr>uart_io := uart_io s @ io\<rparr>)"
    using io(1) assms(5) by (cases ?neg) (auto simp: printint_def bytes_def)
  moreover have "?out = bytes ((if ?neg then ''-'' else []) @ numeral_of (unat base) v)"
    using print_digits_numeral [OF b, of ?x] x by (simp add: bytes_append) (simp add: bytes_def)
  moreover have "length ?out \<le> 16" using print_digits_length [OF assms(4), of ?x] by (cases ?neg) (auto simp: bytes_def)
  moreover have "numeral_value (unat base) (bytes (numeral_of (unat base) v)) = v"
    using print_digits_value [OF b, of ?x] unfolding print_digits_numeral [OF b] x by blast
  ultimately show ?thesis using io(2) polled_sent [OF io(2)] by (intro exI [of _ io]) simp
qed

text \<open>A UART that shows itself idle at the third read after a byte.\<close>

definition slow_uart :: "mmio list \<Rightarrow> nat \<Rightarrow> u8" where
  "slow_uart io r = (if take 2 (rev io) = [MRead LSR, MRead LSR] then LSR_TX_IDLE else 0)"

theorem printint_numeral_witness:
  "(\<exists>io. printint (- 123) 10 True (uart_example\<lparr>uart_dev := slow_uart\<rparr>) = Ok () (uart_example\<lparr>uart_dev := slow_uart, uart_io := io\<rparr>) \<and>
     sent io = bytes ''-123'') \<and>
   (\<exists>io. printint 0xffffffff 16 False (uart_example\<lparr>uart_dev := slow_uart\<rparr>) = Ok () (uart_example\<lparr>uart_dev := slow_uart, uart_io := io\<rparr>) \<and>
     sent io = bytes ''ffffffff'')"
proof -
  let ?s = "uart_example\<lparr>uart_dev := slow_uart\<rparr>"
  have s: "settled (lk ?s)" "panicked ?s = 0" "uart_io ?s = []" by (simp_all add: uart_example_def)
  have d: "uart_drains ?s"
    by (simp add: uart_drains_def slow_uart_def) (intro allI exI [of _ 2], simp add: numeral_2_eq_2)
  have v: "(123 :: nat) = (if True then nat \<bar>sint (- 123 :: u32)\<bar> else unat (- 123 :: u32))"
    "(0xffffffff :: nat) = (if False then nat \<bar>sint (0xffffffff :: u32)\<bar> else unat (0xffffffff :: u32))" "sint (- 123 :: u32) < 0"
    by (simp_all add: sint_u32)
  have n: "numeral_of 10 123 = ''123''" "numeral_of 16 0xffffffff = ''ffffffff''" by (simp_all add: numeral_of.simps)
  show ?thesis
    using printint_numeral [OF s(1,2) d _ _ v(1), of 10] printint_numeral [OF s(1,2) d _ _ v(2), of 16] s(3) v(3) n by auto
qed

end
