(* ===== verification/Xv6_Sleeplock.thy ===== *)
theory Xv6_Sleeplock
  imports Xv6_Console
begin

text \<open>
  Sleep locks: \<^verbatim>\<open>kernel/sleeplock.h\<close> and \<^verbatim>\<open>kernel/sleeplock.c\<close>. A sleep lock is named by the
  object it sits in; its spin lock \<^verbatim>\<open>lk->lk\<close> is \<open>SleepLk\<close> of that name and its wait channel
  \<open>ChanSleeplock\<close>. \<open>acquiresleep_return\<close> is what \<open>acquiresleep\<close> does when the process is
  switched to again after the \<open>sleep\<close> in its loop.
\<close>

section \<open>Operations\<close>

record sleeplock =
  slk_locked :: u32
  slk_name :: string
  slk_pid :: int

record sleep_state = cons_state +
  slocks :: "slockid \<Rightarrow> sleeplock"

definition set_slock :: "slockid \<Rightarrow> (sleeplock \<Rightarrow> sleeplock) \<Rightarrow> ('z sleep_state_scheme, unit) kern" where
  "set_slock l f = modify (\<lambda>s. s\<lparr>slocks := (slocks s)(l := f (slocks s l))\<rparr>)"

definition initsleeplock :: "slockid \<Rightarrow> string \<Rightarrow> ('z sleep_state_scheme, unit) kern" where
  "initsleeplock l name = block [
     on_lk (initlock (SleepLk l) ''sleep lock''),
     set_slock l (\<lambda>k. k\<lparr>slk_name := name\<rparr>),
     set_slock l (\<lambda>k. k\<lparr>slk_locked := 0\<rparr>),
     set_slock l (\<lambda>k. k\<lparr>slk_pid := 0\<rparr>)]"

text \<open>The loop of \<open>acquiresleep\<close> and what follows it, with \<^verbatim>\<open>lk->lk\<close> held.\<close>

definition acquiresleep_loop :: "slockid \<Rightarrow> ('z sleep_state_scheme, unit) kern" where
  "acquiresleep_loop l =
     bind (gets (\<lambda>s. slk_locked (slocks s l))) (\<lambda>locked.
       if locked \<noteq> 0 then sleep (ChanSleeplock l) (SleepLk l)
       else block [
         set_slock l (\<lambda>k. k\<lparr>slk_locked := 1\<rparr>),
         bind curproc (\<lambda>p. bind (get_proc p p_pid) (\<lambda>pid. set_slock l (\<lambda>k. k\<lparr>slk_pid := pid\<rparr>))),
         on_lk (release (SleepLk l))])"

definition acquiresleep :: "slockid \<Rightarrow> ('z sleep_state_scheme, unit) kern" where
  "acquiresleep l = block [on_lk (acquire (SleepLk l)), acquiresleep_loop l]"

definition acquiresleep_return :: "bool \<Rightarrow> nat \<Rightarrow> slockid \<Rightarrow> ('z sleep_state_scheme, unit) kern" where
  "acquiresleep_return ie p l = block [sleep_return ie p (SleepLk l), acquiresleep_loop l]"

definition releasesleep :: "slockid \<Rightarrow> ('z sleep_state_scheme, unit) kern" where
  "releasesleep l = block [
     on_lk (acquire (SleepLk l)),
     set_slock l (\<lambda>k. k\<lparr>slk_locked := 0\<rparr>),
     set_slock l (\<lambda>k. k\<lparr>slk_pid := 0\<rparr>),
     wakeup (ChanSleeplock l),
     on_lk (release (SleepLk l))]"

definition holdingsleep :: "slockid \<Rightarrow> ('z sleep_state_scheme, bool) kern" where
  "holdingsleep l =
     bind (on_lk (acquire (SleepLk l))) (\<lambda>_.
     bind (gets (\<lambda>s. slocks s l)) (\<lambda>k.
     bind (if slk_locked k \<noteq> 0 then bind curproc (\<lambda>p. bind (get_proc p p_pid) (\<lambda>pid. ret (slk_pid k = pid)))
           else ret False) (\<lambda>r.
     bind (on_lk (release (SleepLk l))) (\<lambda>_. ret r))))"

section \<open>Running the operations\<close>

lemma set_slock_run [kern_simps, simp]:
  "set_slock l f s = Ok () (s\<lparr>slocks := (slocks s)(l := f (slocks s l))\<rparr>)"
  by (simp add: set_slock_def)

lemma initsleeplock_run:
  "initsleeplock l name s =
    Ok () (s\<lparr>lk := set_lock (SleepLk l) (\<lambda>k. k\<lparr>sl_name := ''sleep lock'', sl_locked := 0, sl_cpu := None\<rparr>) (lk s),
      slocks := (slocks s)(l := \<lparr>slk_locked = 0, slk_name = name, slk_pid = 0\<rparr>)\<rparr>)"
  by (cases "slocks s l") (simp add: initsleeplock_def initlock_def on_lk_def bind_run block_run)

definition held_slock :: "int \<Rightarrow> sleeplock \<Rightarrow> sleeplock" where
  "held_slock pid k = k\<lparr>slk_locked := 1, slk_pid := pid\<rparr>"

definition free_slock :: "sleeplock \<Rightarrow> sleeplock" where
  "free_slock k = k\<lparr>slk_locked := 0, slk_pid := 0\<rparr>"

lemma acquiresleep_run:
  assumes "runs_as p s" "slk_locked (slocks s l) = 0"
  shows "acquiresleep l s = Ok () (s\<lparr>slocks := (slocks s)(l := held_slock (p_pid (procs s p)) (slocks s l))\<rparr>)"
  using assms(2) runs_as_acquired [OF assms(1), of "SleepLk l"]
  by (simp add: acquiresleep_def acquiresleep_loop_def bind_run block_run curproc_as on_lk_def held_slock_def)

lemma acquiresleep_waits:
  assumes "runs_as p s" "slk_locked (slocks s l) \<noteq> 0"
  shows "acquiresleep l s = Sleeps (Some (ChanSleeplock l))
    (s\<lparr>lk := handover p (SleepLk l) (acquired (SleepLk l) (lk s)),
       procs := (procs s)(p := (procs s p)\<lparr>p_chan := Some (ChanSleeplock l), p_state := SLEEPING\<rparr>)\<rparr>)"
  using runs_as_acquired(1) [OF assms(1), of "SleepLk l"] sleep_inside [OF assms(1), of "SleepLk l"] assms(2)
  by (simp add: acquiresleep_def acquiresleep_loop_def bind_run block_run)

lemma releasesleep_run:
  assumes "runs_as p s"
  shows "releasesleep l s = Ok () (s\<lparr>procs := wake_all (ChanSleeplock l) (Some p) (procs s),
      slocks := (slocks s)(l := free_slock (slocks s l))\<rparr>)"
  using runs_as_acquired [OF assms, of "SleepLk l"]
  by (simp add: releasesleep_def bind_run block_run wakeup_run on_lk_def free_slock_def)

lemma holdingsleep_run:
  assumes "runs_as p s"
  shows "holdingsleep l s =
    Ok (slk_locked (slocks s l) \<noteq> 0 \<and> slk_pid (slocks s l) = p_pid (procs s p)) s"
  using runs_as_acquired [OF assms, of "SleepLk l"]
  by (simp add: holdingsleep_def bind_run curproc_as on_lk_def)

text \<open>
  C21: A sleep lock excludes and hands over. A process that asks for a free sleep lock gets it
  and holds it by its pid; while it does, any other process that asks goes to sleep on the
  lock's channel, holding no spin lock but its own \<^verbatim>\<open>p->lock\<close>; \<open>releasesleep\<close> frees the lock and
  makes every process that sleeps on it runnable.
\<close>

theorem sleeplock_hands_over:
  fixes s :: "'z sleep_state_scheme"
  assumes "runs_as p s" "slk_locked (slocks s l) = 0"
  shows "\<exists>t. acquiresleep l s = Ok () t \<and> holdingsleep l t = Ok True t \<and>
    (\<forall>q (u :: 'z sleep_state_scheme). runs_as q u \<longrightarrow> slocks u = slocks t \<longrightarrow>
      (\<exists>v. acquiresleep l u = Sleeps (Some (ChanSleeplock l)) v \<and> p_state (procs v q) = SLEEPING \<and>
        locked_by (hart (lk v)) (ProcLock q) (lk v) \<and> noff (mycpu (lk v)) = 1)) \<and>
    (\<exists>v. releasesleep l t = Ok () v \<and> slk_locked (slocks v l) = 0 \<and> holdingsleep l v = Ok False v \<and>
      (\<forall>q < NPROC. q \<noteq> p \<longrightarrow> p_state (procs t q) = SLEEPING \<longrightarrow> p_chan (procs t q) = Some (ChanSleeplock l) \<longrightarrow>
        p_state (procs v q) = RUNNABLE))"
proof -
  let ?t = "s\<lparr>slocks := (slocks s)(l := held_slock (p_pid (procs s p)) (slocks s l))\<rparr>"
  let ?v = "?t\<lparr>procs := wake_all (ChanSleeplock l) (Some p) (procs ?t), slocks := (slocks ?t)(l := free_slock (slocks ?t l))\<rparr>"
  have r: "runs_as p ?t" "runs_as p ?v" using assms(1) by (simp_all add: runs_as_def)
  have a: "acquiresleep l s = Ok () ?t" by (rule acquiresleep_run [OF assms])
  have h: "holdingsleep l ?t = Ok True ?t"
    by (subst holdingsleep_run [OF r(1)]) (simp add: held_slock_def)
  have w: "\<exists>v. acquiresleep l u = Sleeps (Some (ChanSleeplock l)) v \<and> p_state (procs v q) = SLEEPING \<and>
      locked_by (hart (lk v)) (ProcLock q) (lk v) \<and> noff (mycpu (lk v)) = 1"
    if u: "runs_as q u" and "slocks u = slocks ?t" for q and u :: "'z sleep_state_scheme"
  proof -
    have "slk_locked (slocks u l) \<noteq> 0" using that(2) by (simp add: held_slock_def)
    from acquiresleep_waits [OF u this] u show ?thesis
      by (simp add: handover_sel acquired_def pushed_def locked_by_def runs_as_def lock_defs)
  qed
  have f: "releasesleep l ?t = Ok () ?v" by (rule releasesleep_run [OF r(1)])
  have n: "holdingsleep l ?v = Ok False ?v"
    by (subst holdingsleep_run [OF r(2)]) (simp add: free_slock_def)
  show ?thesis
    by (intro exI [of _ ?t] conjI a h allI impI w exI [of _ ?v] f n)
      (simp_all add: free_slock_def wake_all_def wake_one_def)
qed

text \<open>An example state: process 1 runs on the boot hart, process 2 sleeps on a buffer.\<close>

definition buf_sleeper :: sleep_state where
  "buf_sleeper = cons_state.extend
     (with_console (two_procs\<lparr>lk := running_hart,
       procs := (procs two_procs)(0 := (procs two_procs 0)\<lparr>p_state := RUNNING\<rparr>,
         1 := (procs two_procs 1)\<lparr>p_chan := Some (ChanSleeplock (BufLock 3))\<rparr>)\<rparr>))
     \<lparr>slocks = (\<lambda>_. \<lparr>slk_locked = 0, slk_name = ''buffer'', slk_pid = 0\<rparr>)\<rparr>"

theorem sleeplock_hands_over_witness:
  "\<exists>t v. acquiresleep (BufLock 3) buf_sleeper = Ok () t \<and> releasesleep (BufLock 3) t = Ok () v \<and>
     holdingsleep (BufLock 3) t = Ok True t \<and> slk_locked (slocks v (BufLock 3)) = 0"
proof -
  have "runs_as 0 buf_sleeper" "slk_locked (slocks buf_sleeper (BufLock 3)) = 0"
    by (simp_all add: buf_sleeper_def runs_as_def cons_state.defs)
  from sleeplock_hands_over [OF this] show ?thesis by blast
qed

end
