(* ===== verification/Xv6_Bio.thy ===== *)
theory Xv6_Bio
  imports Xv6_Sleeplock
begin

text \<open>
  The buffer cache: \<^verbatim>\<open>kernel/buf.h\<close> and \<^verbatim>\<open>kernel/bio.c\<close>. A buffer is named by its index in
  \<^verbatim>\<open>bcache.buf\<close>, the list head \<^verbatim>\<open>bcache.head\<close> by \<open>NBUF\<close>; the list links are kept as the source
  has them, as \<^verbatim>\<open>prev\<close> and \<^verbatim>\<open>next\<close> of every buffer.

  The disk is a map from block numbers to blocks together with the sequence of block writes
  it has completed, from which every disk contents a crash can leave behind is read off.
  \<open>disk_rw\<close> is the effect of a completed \<^verbatim>\<open>virtio_disk_rw\<close>: one block, read or written.

  \<open>ring\<close> abstracts the links to the list of buffers in order of use, \<open>lblk\<close> is the contents of
  a block as the cache and the disk together represent it, \<open>bio_inv\<close> the invariant of the cache.
\<close>

section \<open>State\<close>

abbreviation (input) BSIZE :: "'a::numeral" where "BSIZE \<equiv> 1024"

record buf =
  b_valid :: int
  b_disk :: int
  b_dev :: u32
  b_blockno :: u32
  b_refcnt :: u32
  b_prev :: nat
  b_next :: nat
  b_data :: "u8 list"

record bio_state = sleep_state +
  bufs :: "nat \<Rightarrow> buf"
  disk :: "u32 \<Rightarrow> u8 list"
  written :: "(u32 \<times> u8 list) list"

definition set_buf :: "nat \<Rightarrow> (buf \<Rightarrow> buf) \<Rightarrow> ('z bio_state_scheme, unit) kern" where
  "set_buf i f = modify (\<lambda>s. s\<lparr>bufs := (bufs s)(i := f (bufs s i))\<rparr>)"

definition get_buf :: "nat \<Rightarrow> (buf \<Rightarrow> 'a) \<Rightarrow> ('z bio_state_scheme, 'a) kern" where
  "get_buf i f = gets (\<lambda>s. f (bufs s i))"

definition disk_rw :: "nat \<Rightarrow> bool \<Rightarrow> ('z bio_state_scheme, unit) kern" where
  "disk_rw i wr =
     bind (get_buf i id) (\<lambda>b.
       if wr then modify (\<lambda>s. s\<lparr>disk := (disk s)(b_blockno b := b_data b),
         written := written s @ [(b_blockno b, b_data b)]\<rparr>)
       else bind (gets (\<lambda>s. disk s (b_blockno b))) (\<lambda>d. set_buf i (\<lambda>b. b\<lparr>b_data := d\<rparr>)))"

section \<open>Operations\<close>

text \<open>The statements that put \<open>i\<close> in front of the list, as in \<open>binit\<close> and \<open>brelse\<close>.\<close>

definition link_front :: "nat \<Rightarrow> ('z bio_state_scheme, unit) kern" where
  "link_front i = block [
     bind (get_buf NBUF b_next) (\<lambda>n. set_buf i (\<lambda>b. b\<lparr>b_next := n\<rparr>)),
     set_buf i (\<lambda>b. b\<lparr>b_prev := NBUF\<rparr>),
     bind (get_buf NBUF b_next) (\<lambda>n. set_buf n (\<lambda>b. b\<lparr>b_prev := i\<rparr>)),
     set_buf NBUF (\<lambda>b. b\<lparr>b_next := i\<rparr>)]"

definition binit_body :: "nat \<Rightarrow> ('z bio_state_scheme, unit) kern" where
  "binit_body i = block [
     bind (get_buf NBUF b_next) (\<lambda>n. set_buf i (\<lambda>b. b\<lparr>b_next := n\<rparr>)),
     set_buf i (\<lambda>b. b\<lparr>b_prev := NBUF\<rparr>),
     initsleeplock (BufLock i) ''buffer'',
     bind (get_buf NBUF b_next) (\<lambda>n. set_buf n (\<lambda>b. b\<lparr>b_prev := i\<rparr>)),
     set_buf NBUF (\<lambda>b. b\<lparr>b_next := i\<rparr>)]"

definition binit :: "('z bio_state_scheme, unit) kern" where
  "binit = block [
     on_lk (initlock BcacheLock ''bcache''),
     set_buf NBUF (\<lambda>b. b\<lparr>b_prev := NBUF\<rparr>),
     set_buf NBUF (\<lambda>b. b\<lparr>b_next := NBUF\<rparr>),
     block (map binit_body [0..<NBUF])]"

text \<open>The two loops of \<open>bget\<close>; the fuel is the number of list nodes.\<close>

fun bget_cached :: "nat \<Rightarrow> nat \<Rightarrow> u32 \<Rightarrow> u32 \<Rightarrow> ('z bio_state_scheme, nat option) kern" where
  "bget_cached 0 i dev blockno = panic ''out of fuel''"
| "bget_cached (Suc n) i dev blockno =
     (if i = NBUF then ret None
      else bind (get_buf i id) (\<lambda>b.
        if b_dev b = dev \<and> b_blockno b = blockno then ret (Some i)
        else bget_cached n (b_next b) dev blockno))"

fun bget_recycle :: "nat \<Rightarrow> nat \<Rightarrow> ('z bio_state_scheme, nat option) kern" where
  "bget_recycle 0 i = panic ''out of fuel''"
| "bget_recycle (Suc n) i =
     (if i = NBUF then ret None
      else bind (get_buf i id) (\<lambda>b.
        if b_refcnt b = 0 then ret (Some i) else bget_recycle n (b_prev b)))"

definition bget :: "u32 \<Rightarrow> u32 \<Rightarrow> ('z bio_state_scheme, nat) kern" where
  "bget dev blockno =
     bind (on_lk (acquire BcacheLock)) (\<lambda>_.
     bind (get_buf NBUF b_next) (\<lambda>first.
     bind (bget_cached (Suc NBUF) first dev blockno) (\<lambda>found.
       case found of Some i \<Rightarrow>
         block_ret [
           set_buf i (\<lambda>b. b\<lparr>b_refcnt := b_refcnt b + 1\<rparr>),
           on_lk (release BcacheLock),
           acquiresleep (BufLock i)] i
       | None \<Rightarrow>
           bind (get_buf NBUF b_prev) (\<lambda>final.
           bind (bget_recycle (Suc NBUF) final) (\<lambda>unused.
             case unused of Some i \<Rightarrow>
               block_ret [
                 set_buf i (\<lambda>b. b\<lparr>b_dev := dev\<rparr>),
                 set_buf i (\<lambda>b. b\<lparr>b_blockno := blockno\<rparr>),
                 set_buf i (\<lambda>b. b\<lparr>b_valid := 0\<rparr>),
                 set_buf i (\<lambda>b. b\<lparr>b_refcnt := 1\<rparr>),
                 on_lk (release BcacheLock),
                 acquiresleep (BufLock i)] i
             | None \<Rightarrow> panic ''bget: no buffers'')))))"

definition bread :: "u32 \<Rightarrow> u32 \<Rightarrow> ('z bio_state_scheme, nat) kern" where
  "bread dev blockno =
     bind (bget dev blockno) (\<lambda>i.
     bind (get_buf i b_valid) (\<lambda>v.
       block_ret [only_if (v = 0) (block [
         disk_rw i False,
         set_buf i (\<lambda>b. b\<lparr>b_valid := 1\<rparr>)])] i))"

definition bwrite :: "nat \<Rightarrow> ('z bio_state_scheme, unit) kern" where
  "bwrite i =
     bind (holdingsleep (BufLock i)) (\<lambda>h. block [
       panic_if (\<not> h) ''bwrite'',
       disk_rw i True])"

text \<open>The part of \<open>brelse\<close> for a buffer no one is waiting for.\<close>

definition move_front :: "nat \<Rightarrow> ('z bio_state_scheme, unit) kern" where
  "move_front i = block [
     bind (get_buf i id) (\<lambda>b. set_buf (b_next b) (\<lambda>n. n\<lparr>b_prev := b_prev b\<rparr>)),
     bind (get_buf i id) (\<lambda>b. set_buf (b_prev b) (\<lambda>n. n\<lparr>b_next := b_next b\<rparr>)),
     link_front i]"

definition brelse :: "nat \<Rightarrow> ('z bio_state_scheme, unit) kern" where
  "brelse i =
     bind (holdingsleep (BufLock i)) (\<lambda>h. block [
       panic_if (\<not> h) ''brelse'',
       releasesleep (BufLock i),
       on_lk (acquire BcacheLock),
       set_buf i (\<lambda>b. b\<lparr>b_refcnt := b_refcnt b - 1\<rparr>),
       bind (get_buf i b_refcnt) (\<lambda>r. only_if (r = 0) (move_front i)),
       on_lk (release BcacheLock)])"

definition bpin :: "nat \<Rightarrow> ('z bio_state_scheme, unit) kern" where
  "bpin i = with_lock BcacheLock (set_buf i (\<lambda>b. b\<lparr>b_refcnt := b_refcnt b + 1\<rparr>))"

definition bunpin :: "nat \<Rightarrow> ('z bio_state_scheme, unit) kern" where
  "bunpin i = with_lock BcacheLock (set_buf i (\<lambda>b. b\<lparr>b_refcnt := b_refcnt b - 1\<rparr>))"

section \<open>The list of buffers\<close>

text \<open>
  \<open>dll nx pv a xs z\<close>: following \<^verbatim>\<open>next\<close> from \<open>a\<close> visits \<open>xs\<close> and then reaches \<open>z\<close>, and
  \<^verbatim>\<open>prev\<close> leads back the same way.
\<close>

primrec dll :: "(nat \<Rightarrow> nat) \<Rightarrow> (nat \<Rightarrow> nat) \<Rightarrow> nat \<Rightarrow> nat list \<Rightarrow> nat \<Rightarrow> bool" where
  "dll nx pv a [] z \<longleftrightarrow> nx a = z \<and> pv z = a"
| "dll nx pv a (x # xs) z \<longleftrightarrow> nx a = x \<and> pv x = a \<and> dll nx pv x xs z"

lemma dll_append: "dll nx pv a (xs @ y # ys) z \<longleftrightarrow> dll nx pv a xs y \<and> dll nx pv y ys z"
  by (induction xs arbitrary: a) auto

lemma dll_cong:
  "(\<And>x. x \<in> set (a # xs) \<Longrightarrow> nx x = nx' x) \<Longrightarrow> (\<And>x. x \<in> set (z # xs) \<Longrightarrow> pv x = pv' x) \<Longrightarrow>
    dll nx pv a xs z = dll nx' pv' a xs z"
  by (induction xs arbitrary: a) auto

lemma dll_unlink:
  assumes "dll nx pv a us x" "dll nx pv x vs z" "distinct (a # us @ x # vs)" "distinct (us @ x # vs @ [z])"
  shows "dll (nx(pv x := nx x)) (pv(nx x := pv x)) a (us @ vs) z"
  using assms
proof (induction us arbitrary: a)
  case Nil
  then have a: "nx a = x" "pv x = a" "a \<noteq> x" by auto
  show ?case
  proof (cases vs)
    case (Cons v vs')
    with Nil have "nx x = v" "dll nx pv v vs' z" by auto
    moreover have "dll (nx(a := v)) (pv(v := a)) v vs' z = dll nx pv v vs' z"
      using Nil Cons by (intro dll_cong) auto
    ultimately show ?thesis using a Cons by (simp add: fun_upd_def)
  qed (use Nil a in \<open>simp add: fun_upd_def\<close>)
next
  case (Cons u us)
  from Cons.prems have *: "nx a = u" "pv u = a" "dll nx pv u us x" by auto
  have IH: "dll (nx(pv x := nx x)) (pv(nx x := pv x)) u (us @ vs) z"
    using Cons.prems * by (intro Cons.IH) auto
  have "pv x \<in> set (u # us)"
    using *(3) by (induction us arbitrary: u) auto
  moreover have "nx x \<in> set (vs @ [z])"
    using Cons.prems(2) by (cases vs) auto
  ultimately have "pv x \<noteq> a" "nx x \<noteq> u" using Cons.prems by auto
  with IH * show ?case by (simp add: fun_upd_def)
qed

lemma dll_front:
  assumes "dll nx pv h xs h" "distinct (h # xs)" "x \<notin> set (h # xs)"
  shows "dll (nx(x := nx h, h := x)) (pv(x := h, nx h := x)) h (x # xs) h"
proof (cases xs)
  case Nil
  with assms show ?thesis by (simp add: fun_upd_def)
next
  case (Cons y ys)
  with assms have y: "nx h = y" "dll nx pv y ys h" "x \<noteq> h" "x \<noteq> y" by auto
  have "dll (nx(x := y, h := x)) (pv(x := h, y := x)) y ys h = dll nx pv y ys h"
    using assms Cons by (intro dll_cong) auto
  with y Cons show ?thesis by (simp add: fun_upd_def)
qed

definition ring :: "(nat \<Rightarrow> buf) \<Rightarrow> nat list \<Rightarrow> bool" where
  "ring bs xs \<longleftrightarrow> dll (\<lambda>i. b_next (bs i)) (\<lambda>i. b_prev (bs i)) NBUF xs NBUF \<and>
     distinct xs \<and> set xs = {..<NBUF}"

lemma ring_cong:
  "(\<And>i. b_next (bs i) = b_next (cs i)) \<Longrightarrow> (\<And>i. b_prev (bs i) = b_prev (cs i)) \<Longrightarrow> ring bs xs = ring cs xs"
  by (simp add: ring_def)

lemma ring_distinct:
  assumes "ring bs xs"
  shows "distinct (NBUF # xs)" "length xs = NBUF" "i \<in> set xs \<longleftrightarrow> i < NBUF"
proof -
  have xs: "distinct xs" "set xs = {..<NBUF}" using assms unfolding ring_def by blast+
  show "i \<in> set xs \<longleftrightarrow> i < NBUF" unfolding xs(2) lessThan_iff ..
  show "distinct (NBUF # xs)" unfolding distinct.simps(2) xs(2) lessThan_iff using xs(1) by simp
  have "length xs = card {..<NBUF :: nat}" unfolding xs(2) [symmetric] using xs(1) by (simp only: distinct_card)
  then show "length xs = NBUF" unfolding card_lessThan .
qed

section \<open>What the cache represents\<close>

definition holds_blk :: "(nat \<Rightarrow> buf) \<Rightarrow> u32 \<Rightarrow> u32 \<Rightarrow> nat \<Rightarrow> bool" where
  "holds_blk bs dev b i \<longleftrightarrow> b_dev (bs i) = dev \<and> b_blockno (bs i) = b"

definition cached :: "'z bio_state_scheme \<Rightarrow> u32 \<Rightarrow> u32 \<Rightarrow> nat option" where
  "cached s dev b = find (holds_blk (bufs s) dev b) [0..<NBUF]"

text \<open>The contents of a block, the references to it, and the pid of the process that has it locked.\<close>

definition lblk :: "'z bio_state_scheme \<Rightarrow> u32 \<Rightarrow> u32 \<Rightarrow> u8 list" where
  "lblk s dev b = (case cached s dev b of None \<Rightarrow> disk s b
     | Some i \<Rightarrow> if b_valid (bufs s i) \<noteq> 0 then b_data (bufs s i) else disk s b)"

definition brefs :: "'z bio_state_scheme \<Rightarrow> u32 \<Rightarrow> u32 \<Rightarrow> nat" where
  "brefs s dev b = (case cached s dev b of None \<Rightarrow> 0 | Some i \<Rightarrow> unat (b_refcnt (bufs s i)))"

definition slock_owner :: "sleeplock \<Rightarrow> int option" where
  "slock_owner k = (if slk_locked k = 0 then None else Some (slk_pid k))"

definition bowner :: "'z bio_state_scheme \<Rightarrow> u32 \<Rightarrow> u32 \<Rightarrow> int option" where
  "bowner s dev b = (case cached s dev b of None \<Rightarrow> None | Some i \<Rightarrow> slock_owner (slocks s (BufLock i)))"

definition bio_unique :: "(nat \<Rightarrow> buf) \<Rightarrow> bool" where
  "bio_unique bs \<longleftrightarrow> (\<forall>i j. i < NBUF \<longrightarrow> j < NBUF \<longrightarrow> b_dev (bs i) \<noteq> 0 \<longrightarrow>
     b_dev (bs i) = b_dev (bs j) \<longrightarrow> b_blockno (bs i) = b_blockno (bs j) \<longrightarrow> i = j)"

definition buf_ok :: "'z bio_state_scheme \<Rightarrow> nat \<Rightarrow> bool" where
  "buf_ok s i \<longleftrightarrow>
     (b_refcnt (bufs s i) = 0 \<longrightarrow> slk_locked (slocks s (BufLock i)) = 0 \<and>
       (b_valid (bufs s i) \<noteq> 0 \<longrightarrow> b_data (bufs s i) = disk s (b_blockno (bufs s i)))) \<and>
     (b_valid (bufs s i) \<noteq> 0 \<longrightarrow> length (b_data (bufs s i)) = BSIZE) \<and>
     (b_valid (bufs s i) \<noteq> 0 \<or> b_refcnt (bufs s i) \<noteq> 0 \<longrightarrow> b_dev (bufs s i) = ROOTDEV)"

definition bio_inv :: "'z bio_state_scheme \<Rightarrow> bool" where
  "bio_inv s \<longleftrightarrow> (\<exists>xs. ring (bufs s) xs) \<and> bio_unique (bufs s) \<and> (\<forall>i < NBUF. buf_ok s i) \<and>
     (\<forall>b. length (disk s b) = BSIZE)"

lemma find_unique:
  assumes "\<And>i j. P i \<Longrightarrow> P j \<Longrightarrow> i \<in> set xs \<Longrightarrow> j \<in> set xs \<Longrightarrow> i = j"
  shows "find P xs = Some i \<longleftrightarrow> i \<in> set xs \<and> P i"
  using assms by (induction xs) (auto split: if_splits)

lemma find_same:
  assumes "\<And>i j. P i \<Longrightarrow> P j \<Longrightarrow> i \<in> set xs \<Longrightarrow> j \<in> set xs \<Longrightarrow> i = j" "set xs = set ys"
  shows "find P xs = find P ys"
proof (cases "find P ys")
  case None
  then have "find P xs = None" using assms(2) by (simp add: find_None_iff)
  with None show ?thesis by simp
next
  case (Some i)
  with find_unique [of P ys i] find_unique [of P xs i] assms show ?thesis by (metis (mono_tags, lifting))
qed

lemma bio_uniqueD:
  assumes "bio_unique bs" "dev \<noteq> 0" "i < NBUF" "j < NBUF" "holds_blk bs dev b i" "holds_blk bs dev b j"
  shows "i = j"
  using assms(1) [unfolded bio_unique_def, rule_format, OF assms(3,4)] assms(2,5,6)
  by (simp add: holds_blk_def)

lemma set_upt_NBUF: "i \<in> set [0..<NBUF] \<longleftrightarrow> i < NBUF"
  unfolding set_upt by simp

lemma cached_iff:
  assumes "bio_unique (bufs s)" "dev \<noteq> 0"
  shows "cached s dev b = Some i \<longleftrightarrow> i < NBUF \<and> holds_blk (bufs s) dev b i"
  unfolding cached_def set_upt_NBUF [symmetric]
  by (rule find_unique) (simp only: set_upt_NBUF bio_uniqueD [OF assms])

lemma cached_None: "cached s dev b = None \<longleftrightarrow> (\<forall>i < NBUF. \<not> holds_blk (bufs s) dev b i)"
  unfolding cached_def find_None_iff set_upt_NBUF [symmetric] by blast

lemma cached_ring:
  assumes "bio_inv s" "ring (bufs s) xs" "dev \<noteq> 0"
  shows "find (holds_blk (bufs s) dev b) xs = cached s dev b"
  unfolding cached_def
proof (rule find_same)
  have u: "bio_unique (bufs s)" using assms(1) by (simp add: bio_inv_def)
  note xs = ring_distinct(3) [OF assms(2)]
  show "i = j" if "holds_blk (bufs s) dev b i" "holds_blk (bufs s) dev b j" "i \<in> set xs" "j \<in> set xs" for i j
    by (rule bio_uniqueD [OF u assms(3) _ _ that(1,2)]) (use that xs in blast)+
  show "set xs = set [0..<NBUF]" using xs set_upt_NBUF by blast
qed

section \<open>Running the operations\<close>

lemma set_buf_run [kern_simps, simp]: "set_buf i f s = Ok () (s\<lparr>bufs := (bufs s)(i := f (bufs s i))\<rparr>)"
  by (simp add: set_buf_def)

lemma get_buf_run [kern_simps, simp]: "get_buf i f s = Ok (f (bufs s i)) s"
  by (simp add: get_buf_def)

lemma bget_cached_run:
  assumes "dll (\<lambda>i. b_next (bufs s i)) pv a xs NBUF" "NBUF \<notin> set xs" "length xs < n"
  shows "bget_cached n (b_next (bufs s a)) dev b s = Ok (find (holds_blk (bufs s) dev b) xs) s"
  using assms
proof (induction xs arbitrary: a n)
  case Nil
  then show ?case by (cases n) auto
next
  case (Cons x xs)
  then obtain m where n: "n = Suc m" "length xs < m" by (cases n) auto
  from Cons.prems have x: "b_next (bufs s a) = x" "x \<noteq> NBUF" "dll (\<lambda>i. b_next (bufs s i)) pv x xs NBUF" by auto
  have "bget_cached m (b_next (bufs s x)) dev b s = Ok (find (holds_blk (bufs s) dev b) xs) s"
    using Cons.prems x(3) n by (intro Cons.IH) auto
  with x(1,2) n(1) show ?case by (simp add: bind_run holds_blk_def [of _ _ _ x])
qed

lemma bget_recycle_run:
  assumes "dll nx (\<lambda>i. b_prev (bufs s i)) NBUF xs z" "NBUF \<notin> set xs" "length xs < n"
  shows "bget_recycle n (b_prev (bufs s z)) s = Ok (find (\<lambda>i. b_refcnt (bufs s i) = 0) (rev xs)) s"
  using assms
proof (induction xs arbitrary: z n rule: rev_induct)
  case Nil
  then show ?case by (cases n) auto
next
  case (snoc x xs)
  then obtain m where n: "n = Suc m" "length xs < m" by (cases n) auto
  from snoc.prems have x: "b_prev (bufs s z) = x" "x \<noteq> NBUF" "dll nx (\<lambda>i. b_prev (bufs s i)) NBUF xs x"
    by (auto simp: dll_append)
  have "bget_recycle m (b_prev (bufs s x)) s = Ok (find (\<lambda>i. b_refcnt (bufs s i) = 0) (rev xs)) s"
    using snoc.prems x(3) n by (intro snoc.IH) auto
  with x(1,2) n(1) show ?case by (simp add: bind_run)
qed

lemma ring_scans:
  assumes "ring (bufs s) xs" "bio_inv s" "dev \<noteq> 0"
  shows "bget_cached (Suc NBUF) (b_next (bufs s NBUF)) dev b s = Ok (cached s dev b) s"
    "bget_recycle (Suc NBUF) (b_prev (bufs s NBUF)) s = Ok (find (\<lambda>i. b_refcnt (bufs s i) = 0) (rev xs)) s"
proof -
  have d: "dll (\<lambda>i. b_next (bufs s i)) (\<lambda>i. b_prev (bufs s i)) NBUF xs NBUF"
    using assms(1) unfolding ring_def by blast
  have x: "NBUF \<notin> set xs" "length xs < Suc NBUF"
    unfolding ring_distinct(2) [OF assms(1)] using ring_distinct(1) [OF assms(1)] by simp_all
  show "bget_cached (Suc NBUF) (b_next (bufs s NBUF)) dev b s = Ok (cached s dev b) s"
    unfolding bget_cached_run [OF d x] cached_ring [OF assms(2,1,3)] ..
  show "bget_recycle (Suc NBUF) (b_prev (bufs s NBUF)) s = Ok (find (\<lambda>i. b_refcnt (bufs s i) = 0) (rev xs)) s"
    by (rule bget_recycle_run [OF d x])
qed

lemma bio_inv_lk [simp]: "bio_inv (s\<lparr>lk := L\<rparr>) = bio_inv s" "cached (s\<lparr>lk := L\<rparr>) = cached s"
  by (simp_all add: bio_inv_def buf_ok_def cached_def fun_eq_iff)

lemma find_SomeD: "find P xs = Some x \<Longrightarrow> x \<in> set xs \<and> P x"
  by (induction xs) (auto split: if_splits)

lemma bget_hit:
  assumes "runs_as p s" "bio_inv s" "dev \<noteq> 0" "cached s dev b = Some i" "slk_locked (slocks s (BufLock i)) = 0"
  shows "bget dev b s = Ok i (s\<lparr>bufs := (bufs s)(i := (bufs s i)\<lparr>b_refcnt := b_refcnt (bufs s i) + 1\<rparr>),
    slocks := (slocks s)(BufLock i := held_slock (p_pid (procs s p)) (slocks s (BufLock i)))\<rparr>)"
proof -
  let ?s = "s\<lparr>lk := acquired BcacheLock (lk s)\<rparr>"
  let ?t = "s\<lparr>bufs := (bufs s)(i := (bufs s i)\<lparr>b_refcnt := b_refcnt (bufs s i) + 1\<rparr>)\<rparr>"
  obtain xs where "ring (bufs ?s) xs" using assms(2) by (auto simp: bio_inv_def)
  from ring_scans(1) [OF this, of dev b] assms(2,3,4)
  have c: "bget_cached (Suc NBUF) (b_next (bufs ?s NBUF)) dev b ?s = Ok (Some i) ?s" by simp
  have "runs_as p ?t" using assms(1) by (simp add: runs_as_def)
  from acquiresleep_run [OF this, of "BufLock i"] assms(5)
  have a: "acquiresleep (BufLock i) ?t = Ok () (?t\<lparr>slocks := (slocks s)(BufLock i := held_slock (p_pid (procs s p)) (slocks s (BufLock i)))\<rparr>)"
    by simp
  show ?thesis
    unfolding bget_def bind_run runs_as_acquired(1) [OF assms(1)] outcome.case get_buf_run c option.case
    using runs_as_acquired(3) [OF assms(1), of BcacheLock] a
    by (simp add: block_ret_def bind_run block_run on_lk_def)
qed

text \<open>Of the buffers that nobody uses, the last one in the list is recycled.\<close>

definition lru_unused :: "(nat \<Rightarrow> buf) \<Rightarrow> nat list \<Rightarrow> nat option" where
  "lru_unused bs xs = find (\<lambda>i. b_refcnt (bs i) = 0) (rev xs)"

lemma lru_unusedD:
  assumes "ring bs xs" "lru_unused bs xs = Some i"
  shows "i < NBUF" "b_refcnt (bs i) = 0"
  using ring_distinct(3) [OF assms(1), of i] find_SomeD [OF assms(2) [unfolded lru_unused_def]] by simp_all

lemma lru_unused_ex:
  assumes "ring bs xs" "\<exists>i < NBUF. b_refcnt (bs i) = 0"
  obtains i where "lru_unused bs xs = Some i"
proof -
  obtain j where j: "j < NBUF" "b_refcnt (bs j) = 0" using assms(2) by blast
  then have "lru_unused bs xs \<noteq> None"
    using ring_distinct(3) [OF assms(1), of j] unfolding lru_unused_def find_None_iff by auto
  then show thesis using that by blast
qed

lemma bget_miss:
  assumes "runs_as p s" "bio_inv s" "dev \<noteq> 0" "cached s dev b = None" "ring (bufs s) xs" "lru_unused (bufs s) xs = Some i"
  shows "bget dev b s = Ok i (s\<lparr>bufs := (bufs s)(i := (bufs s i)\<lparr>b_dev := dev, b_blockno := b, b_valid := 0, b_refcnt := 1\<rparr>),
      slocks := (slocks s)(BufLock i := held_slock (p_pid (procs s p)) (slocks s (BufLock i)))\<rparr>)"
proof -
  let ?s = "s\<lparr>lk := acquired BcacheLock (lk s)\<rparr>"
  have xs: "ring (bufs ?s) xs" using assms(5) by simp
  from ring_scans(1) [OF this, of dev b] assms(2,3,4)
  have c: "bget_cached (Suc NBUF) (b_next (bufs ?s NBUF)) dev b ?s = Ok None ?s" by simp
  from ring_scans(2) [OF xs] assms(2,3,6)
  have r: "bget_recycle (Suc NBUF) (b_prev (bufs ?s NBUF)) ?s = Ok (Some i) ?s" by (simp add: lru_unused_def)
  let ?t = "s\<lparr>bufs := (bufs s)(i := (bufs s i)\<lparr>b_dev := dev, b_blockno := b, b_valid := 0, b_refcnt := 1\<rparr>)\<rparr>"
  have l: "slk_locked (slocks s (BufLock i)) = 0"
    using assms(2) lru_unusedD [OF assms(5,6)] by (simp add: bio_inv_def buf_ok_def)
  have "runs_as p ?t" using assms(1) by (simp add: runs_as_def)
  from acquiresleep_run [OF this, of "BufLock i"] l
  have a: "acquiresleep (BufLock i) ?t = Ok () (?t\<lparr>slocks := (slocks s)(BufLock i := held_slock (p_pid (procs s p)) (slocks s (BufLock i)))\<rparr>)"
    by simp
  show ?thesis
    unfolding bget_def bind_run runs_as_acquired(1) [OF assms(1)] outcome.case get_buf_run c option.case r
    using runs_as_acquired(3) [OF assms(1), of BcacheLock] a
    by (simp add: block_ret_def bind_run block_run on_lk_def)
qed

text \<open>The buffer of \<open>b\<close> that \<open>bread\<close> returns, and what that means for the cache.\<close>

definition bread_buf :: "'z bio_state_scheme \<Rightarrow> u32 \<Rightarrow> u32 \<Rightarrow> nat \<Rightarrow> buf \<Rightarrow> bool" where
  "bread_buf s dev b i x \<longleftrightarrow> b_dev x = dev \<and> b_blockno x = b \<and> b_valid x \<noteq> 0 \<and> b_data x = lblk s dev b \<and>
     b_refcnt x = of_nat (Suc (brefs s dev b)) \<and> b_next x = b_next (bufs s i) \<and> b_prev x = b_prev (bufs s i)"

lemma bread_run:
  assumes r: "runs_as p s" and I: "bio_inv s" and d: "dev \<noteq> 0" and o: "bowner s dev b = None"
    and room: "cached s dev b \<noteq> None \<or> (\<exists>i < NBUF. b_refcnt (bufs s i) = 0)"
  shows "\<exists>i x. bread dev b s = Ok i (s\<lparr>slocks := (slocks s)(BufLock i := held_slock (p_pid (procs s p)) (slocks s (BufLock i))),
      bufs := (bufs s)(i := x)\<rparr>) \<and> bread_buf s dev b i x \<and> i < NBUF \<and>
    (cached s dev b = Some i \<or> cached s dev b = None \<and> b_refcnt (bufs s i) = 0)"
proof (cases "cached s dev b")
  case (Some i)
  have u: "bio_unique (bufs s)" using I by (simp add: bio_inv_def)
  have i: "i < NBUF" "b_dev (bufs s i) = dev" "b_blockno (bufs s i) = b"
    using Some cached_iff [OF u d, of b i] by (simp_all add: holds_blk_def)
  have l: "slk_locked (slocks s (BufLock i)) = 0"
    using o Some by (simp add: bowner_def slock_owner_def split: if_splits)
  let ?x = "(bufs s i)\<lparr>b_refcnt := b_refcnt (bufs s i) + 1, b_data := lblk s dev b,
    b_valid := if b_valid (bufs s i) = 0 then 1 else b_valid (bufs s i)\<rparr>"
  have "bread_buf s dev b i ?x"
    using i Some by (simp add: bread_buf_def brefs_def)
  moreover have "bread dev b s = Ok i (s\<lparr>slocks := (slocks s)(BufLock i := held_slock (p_pid (procs s p)) (slocks s (BufLock i))),
      bufs := (bufs s)(i := ?x)\<rparr>)"
    using bget_hit [OF r I d Some l] i Some
    by (simp add: bread_def bind_run block_ret_def block_run only_if_def disk_rw_def lblk_def)
  ultimately show ?thesis using i Some by blast
next
  case None
  then have e: "\<exists>i < NBUF. b_refcnt (bufs s i) = 0" using room by simp
  obtain xs where xs: "ring (bufs s) xs" using I by (auto simp: bio_inv_def)
  obtain i where l: "lru_unused (bufs s) xs = Some i" by (rule lru_unused_ex [OF xs e])
  note i = lru_unusedD [OF xs l] and g = bget_miss [OF r I d None xs l]
  let ?x = "(bufs s i)\<lparr>b_dev := dev, b_blockno := b, b_refcnt := 1, b_data := disk s b, b_valid := 1\<rparr>"
  have "bread_buf s dev b i ?x"
    using None by (simp add: bread_buf_def brefs_def lblk_def)
  moreover have "bread dev b s = Ok i (s\<lparr>slocks := (slocks s)(BufLock i := held_slock (p_pid (procs s p)) (slocks s (BufLock i))),
      bufs := (bufs s)(i := ?x)\<rparr>)"
    using g by (simp add: bread_def bind_run block_ret_def block_run only_if_def disk_rw_def)
  ultimately show ?thesis using i None by blast
qed

lemma unique_upd:
  assumes "bio_unique bs" "b_dev x = dev" "b_blockno x = b"
    and "\<And>j. j < NBUF \<Longrightarrow> holds_blk bs dev b j \<Longrightarrow> j = i"
  shows "bio_unique (bs(i := x))"
  unfolding bio_unique_def
proof (intro allI impI)
  fix j k
  assume jk: "j < NBUF" "k < NBUF" "b_dev ((bs(i := x)) j) \<noteq> 0"
    "b_dev ((bs(i := x)) j) = b_dev ((bs(i := x)) k)" "b_blockno ((bs(i := x)) j) = b_blockno ((bs(i := x)) k)"
  have k: "k = i" if "j = i"
  proof (rule ccontr)
    assume n: "k \<noteq> i"
    with that jk assms(2,3) have "holds_blk bs dev b k" by (simp add: holds_blk_def)
    with n assms(4) [OF jk(2)] show False by simp
  qed
  have j: "j = i" if "k = i"
  proof (rule ccontr)
    assume n: "j \<noteq> i"
    with that jk assms(2,3) have "holds_blk bs dev b j" by (simp add: holds_blk_def)
    with n assms(4) [OF jk(1)] show False by simp
  qed
  show "j = k"
  proof (cases "j = i \<or> k = i")
    case True
    with j k show ?thesis by blast
  next
    case False
    with jk assms(1) [unfolded bio_unique_def, rule_format, of j k] show ?thesis by simp
  qed
qed

lemma cached_upd:
  assumes "bio_unique (bufs s)" "bio_unique (bufs t)" "dev \<noteq> 0" "i < NBUF" "bufs t = (bufs s)(i := x)"
    "b_dev x = dev" "b_blockno x = b"
  shows "cached t dev b' = (if b' = b then Some i else if cached s dev b' = Some i then None else cached s dev b')"
proof -
  note c = cached_iff [OF assms(1,3)] cached_iff [OF assms(2,3)]
  show ?thesis
  proof (cases "b' = b")
    case True
    then show ?thesis using c(2) [of b' i] assms by (simp add: holds_blk_def)
  next
    case False
    have h: "holds_blk (bufs t) dev b' j \<longleftrightarrow> j \<noteq> i \<and> holds_blk (bufs s) dev b' j" for j
      using assms False by (simp add: holds_blk_def)
    show ?thesis
    proof (cases "cached t dev b'")
      case None
      then have "\<forall>j < NBUF. \<not> (j \<noteq> i \<and> holds_blk (bufs s) dev b' j)" unfolding cached_None h .
      then have "cached s dev b' = None \<or> cached s dev b' = Some i"
        using c(1) [of b'] by (cases "cached s dev b'") auto
      then show ?thesis using None False by auto
    next
      case (Some j)
      then have "cached s dev b' = Some j" "j \<noteq> i" using c [of b' j] h [of j] by auto
      then show ?thesis using Some False by auto
    qed
  qed
qed

lemma bio_invD:
  assumes "bio_inv s"
  shows "bio_unique (bufs s)" "i < NBUF \<Longrightarrow> buf_ok s i" "length (disk s b) = BSIZE"
  using assms unfolding bio_inv_def by blast+

text \<open>A buffer that is not referenced represents what is on the disk.\<close>

lemma unreferenced:
  assumes "bio_inv s" "dev \<noteq> 0" "cached s dev b = Some i" "b_refcnt (bufs s i) = 0"
  shows "lblk s dev b = disk s b" "brefs s dev b = 0" "bowner s dev b = None"
proof -
  have "i < NBUF" "b_blockno (bufs s i) = b"
    using cached_iff [OF bio_invD(1) [OF assms(1)] assms(2), of b i] assms(3) by (simp_all add: holds_blk_def)
  with bio_invD(2) [OF assms(1), of i] assms(3,4)
  show "lblk s dev b = disk s b" "brefs s dev b = 0" "bowner s dev b = None"
    by (auto simp: lblk_def brefs_def bowner_def slock_owner_def buf_ok_def)
qed

lemma lblk_length:
  assumes "bio_inv s" "dev \<noteq> 0"
  shows "length (lblk s dev b) = BSIZE"
proof (cases "cached s dev b")
  case None
  then show ?thesis using bio_invD(3) [OF assms(1)] by (simp add: lblk_def)
next
  case (Some i)
  then have "i < NBUF" using cached_iff [OF bio_invD(1) [OF assms(1)] assms(2), of b i] by simp
  from bio_invD(2) [OF assms(1) this] bio_invD(3) [OF assms(1)] Some show ?thesis
    by (simp add: lblk_def buf_ok_def)
qed

lemma bread_effect:
  assumes I: "bio_inv s" and d1: "dev = ROOTDEV" and i: "i < NBUF" and x: "bread_buf s dev b i x"
    and c: "cached s dev b = Some i \<or> cached s dev b = None \<and> b_refcnt (bufs s i) = 0"
    and n: "brefs s dev b < 2 ^ 32 - 1"
    and t: "t = s\<lparr>slocks := (slocks s)(BufLock i := held_slock pid (slocks s (BufLock i))), bufs := (bufs s)(i := x)\<rparr>"
  shows "bio_inv t" "cached t dev b = Some i" "lblk t dev = lblk s dev"
    "brefs t dev = (brefs s dev)(b := Suc (brefs s dev b))" "bowner t dev = (bowner s dev)(b := Some pid)"
    "\<And>b' j. cached s dev b' = Some j \<Longrightarrow> b_valid (bufs s j) \<noteq> 0 \<Longrightarrow> brefs s dev b' \<noteq> 0 \<Longrightarrow>
      cached t dev b' = Some j \<and> b_valid (bufs t j) \<noteq> 0"
proof -
  note u = bio_invD(1) [OF I]
  have d: "dev \<noteq> 0" using d1 by simp
  have x': "b_dev x = dev" "b_blockno x = b" "b_valid x \<noteq> 0" "b_data x = lblk s dev b"
      "b_next x = b_next (bufs s i)" "b_prev x = b_prev (bufs s i)"
    and r: "b_refcnt x = of_nat (Suc (brefs s dev b))"
    using x by (simp_all add: bread_buf_def)
  have r': "unat (b_refcnt x) = Suc (brefs s dev b)"
    using n unfolding r by (simp add: unat_of_nat del: of_nat_Suc)
  then have r0: "b_refcnt x \<noteq> 0" by auto
  have only: "j = i" if "j < NBUF" "holds_blk (bufs s) dev b j" for j
    using c cached_iff [OF u d, of b j] that by auto
  have u': "bio_unique (bufs t)" unfolding t by (simp add: unique_upd [OF u x'(1,2) only])
  have bt: "bufs t = (bufs s)(i := x)" by (simp add: t)
  note ct = cached_upd [OF u u' d i bt x'(1,2)]
  show "cached t dev b = Some i" using ct by simp
  have other: "lblk t dev b' = lblk s dev b'" "brefs t dev b' = brefs s dev b'" "bowner t dev b' = bowner s dev b'"
    if "b' \<noteq> b" for b'
  proof (atomize (full), cases "cached s dev b' = Some i")
    case True
    have "cached s dev b \<noteq> Some i"
      using True cached_iff [OF u d] that by (auto simp: holds_blk_def)
    with c have "b_refcnt (bufs s i) = 0" by simp
    from unreferenced [OF I d True this] ct [of b'] True that
    show "lblk t dev b' = lblk s dev b' \<and> brefs t dev b' = brefs s dev b' \<and> bowner t dev b' = bowner s dev b'"
      by (simp add: lblk_def [of t] brefs_def [of t] bowner_def [of t]) (simp add: t)
  next
    case False
    with ct [of b'] that have "cached t dev b' = cached s dev b'" by simp
    with False show "lblk t dev b' = lblk s dev b' \<and> brefs t dev b' = brefs s dev b' \<and> bowner t dev b' = bowner s dev b'"
      by (auto simp: lblk_def brefs_def bowner_def t split: option.splits)
  qed
  have same: "lblk t dev b = lblk s dev b" "brefs t dev b = Suc (brefs s dev b)" "bowner t dev b = Some pid"
    using ct [of b] x'(3,4) r' by (simp_all add: lblk_def [of t] brefs_def [of t] bowner_def [of t])
      (simp_all add: t slock_owner_def held_slock_def)
  show "lblk t dev = lblk s dev" "brefs t dev = (brefs s dev)(b := Suc (brefs s dev b))"
      "bowner t dev = (bowner s dev)(b := Some pid)"
    by (rule ext, case_tac "x = b", simp_all add: same other)+
  show "cached t dev b' = Some j \<and> b_valid (bufs t j) \<noteq> 0"
    if j: "cached s dev b' = Some j" "b_valid (bufs s j) \<noteq> 0" "brefs s dev b' \<noteq> 0" for b' j
  proof (cases "b' = b")
    case True
    with j c have "j = i" by auto
    with True ct [of b] x'(3) show ?thesis by (simp add: bt)
  next
    case False
    have "j \<noteq> i"
    proof
      assume "j = i"
      with j have "b_refcnt (bufs s i) \<noteq> 0" by (auto simp: brefs_def)
      with c have "cached s dev b = Some i" by simp
      with j \<open>j = i\<close> False cached_iff [OF u d] show False by (auto simp: holds_blk_def)
    qed
    with False j ct [of b'] show ?thesis by (simp add: bt)
  qed
  obtain xs where xs: "ring (bufs s) xs" using I by (auto simp: bio_inv_def)
  have "ring (bufs t) xs" using xs x'(5,6) unfolding bt by (subst ring_cong) auto
  moreover have "buf_ok t j" if "j < NBUF" for j
    using bio_invD(2) [OF I that] r0 x'(1,4) d1 lblk_length [OF I d, of b]
    by (cases "j = i") (simp_all add: buf_ok_def t)
  moreover have "length (disk t b') = BSIZE" for b'
    using bio_invD(3) [OF I] by (simp add: t)
  ultimately show "bio_inv t" using u' unfolding bio_inv_def by blast
qed

subsection \<open>Giving a buffer back\<close>

definition unlink_buf :: "nat \<Rightarrow> (nat \<Rightarrow> buf) \<Rightarrow> nat \<Rightarrow> buf" where
  "unlink_buf i bs =
     (let bs1 = bs(b_next (bs i) := (bs (b_next (bs i)))\<lparr>b_prev := b_prev (bs i)\<rparr>)
      in bs1(b_prev (bs1 i) := (bs1 (b_prev (bs1 i)))\<lparr>b_next := b_next (bs1 i)\<rparr>))"

definition front_buf :: "nat \<Rightarrow> (nat \<Rightarrow> buf) \<Rightarrow> nat \<Rightarrow> buf" where
  "front_buf i bs =
     (let bs1 = bs(i := (bs i)\<lparr>b_next := b_next (bs NBUF), b_prev := NBUF\<rparr>);
          bs2 = bs1(b_next (bs1 NBUF) := (bs1 (b_next (bs1 NBUF)))\<lparr>b_prev := i\<rparr>)
      in bs2(NBUF := (bs2 NBUF)\<lparr>b_next := i\<rparr>))"

definition dropped_buf :: "nat \<Rightarrow> (nat \<Rightarrow> buf) \<Rightarrow> nat \<Rightarrow> buf" where
  "dropped_buf i bs =
     (let bs1 = bs(i := (bs i)\<lparr>b_refcnt := b_refcnt (bs i) - 1\<rparr>)
      in if b_refcnt (bs1 i) = 0 then front_buf i (unlink_buf i bs1) else bs1)"

lemma unlink_buf_sel:
  assumes "b_next (bs i) \<noteq> i"
  shows "b_next (unlink_buf i bs j) = ((\<lambda>j. b_next (bs j))(b_prev (bs i) := b_next (bs i))) j"
    "b_prev (unlink_buf i bs j) = ((\<lambda>j. b_prev (bs j))(b_next (bs i) := b_prev (bs i))) j"
  using assms by (simp_all add: unlink_buf_def Let_def)

lemma front_buf_sel:
  assumes "i \<noteq> NBUF"
  shows "b_next (front_buf i bs j) = ((\<lambda>j. b_next (bs j))(i := b_next (bs NBUF), NBUF := i)) j"
    "b_prev (front_buf i bs j) = ((\<lambda>j. b_prev (bs j))(i := NBUF, b_next (bs NBUF) := i)) j"
  using assms by (simp_all add: front_buf_def Let_def)

lemma link_bufs_same:
  "b_dev (unlink_buf i bs j) = b_dev (bs j)" "b_blockno (unlink_buf i bs j) = b_blockno (bs j)"
  "b_valid (unlink_buf i bs j) = b_valid (bs j)" "b_data (unlink_buf i bs j) = b_data (bs j)"
  "b_refcnt (unlink_buf i bs j) = b_refcnt (bs j)"
  "b_dev (front_buf i bs j) = b_dev (bs j)" "b_blockno (front_buf i bs j) = b_blockno (bs j)"
  "b_valid (front_buf i bs j) = b_valid (bs j)" "b_data (front_buf i bs j) = b_data (bs j)"
  "b_refcnt (front_buf i bs j) = b_refcnt (bs j)"
  by (simp_all add: unlink_buf_def front_buf_def Let_def)

lemma dropped_buf_same:
  "b_dev (dropped_buf i bs j) = b_dev (bs j)" "b_blockno (dropped_buf i bs j) = b_blockno (bs j)"
  "b_valid (dropped_buf i bs j) = b_valid (bs j)" "b_data (dropped_buf i bs j) = b_data (bs j)"
  "b_refcnt (dropped_buf i bs j) = (if j = i then b_refcnt (bs j) - 1 else b_refcnt (bs j))"
  by (simp_all add: dropped_buf_def Let_def link_bufs_same)

text \<open>The links after \<open>brelse\<close>: a buffer that nobody uses any more becomes the most recently used.\<close>

lemma ring_dropped:
  assumes "ring bs xs" "i < NBUF"
  shows "ring (dropped_buf i bs) (if b_refcnt (bs i) = 1 then i # remove1 i xs else xs)"
proof (cases "b_refcnt (bs i) = 1")
  case False
  then have "dropped_buf i bs = bs(i := (bs i)\<lparr>b_refcnt := b_refcnt (bs i) - 1\<rparr>)"
    by (simp add: dropped_buf_def)
  with False assms(1) ring_cong [of "dropped_buf i bs" bs xs] show ?thesis by simp
next
  case True
  let ?bs = "bs(i := (bs i)\<lparr>b_refcnt := b_refcnt (bs i) - 1\<rparr>)"
  have d: "dropped_buf i bs = front_buf i (unlink_buf i ?bs)"
    using True by (simp add: dropped_buf_def)
  have "i \<in> set xs" using ring_distinct(3) [OF assms(1)] assms(2) by simp
  then obtain us vs where xs: "xs = us @ i # vs" by (auto simp: in_set_conv_decomp)
  have dx: "distinct (NBUF # us @ i # vs)" using ring_distinct(1) [OF assms(1)] xs by simp
  let ?nx = "\<lambda>j. b_next (bs j)" and ?pv = "\<lambda>j. b_prev (bs j)"
  have "dll ?nx ?pv NBUF (us @ i # vs) NBUF" using assms(1) xs by (simp add: ring_def)
  then have l: "dll ?nx ?pv NBUF us i" "dll ?nx ?pv i vs NBUF" by (simp_all add: dll_append)
  have "?nx i \<in> set (vs @ [NBUF])" using l(2) by (cases vs) auto
  then have ni: "b_next (bs i) \<noteq> i" using dx by auto
  have u: "(\<lambda>j. b_next (unlink_buf i ?bs j)) = ?nx(?pv i := ?nx i)" "(\<lambda>j. b_prev (unlink_buf i ?bs j)) = ?pv(?nx i := ?pv i)"
    using unlink_buf_sel [of ?bs i] ni by (auto simp: fun_eq_iff)
  have "dll (\<lambda>j. b_next (unlink_buf i ?bs j)) (\<lambda>j. b_prev (unlink_buf i ?bs j)) NBUF (us @ vs) NBUF"
    unfolding u by (rule dll_unlink [OF l]) (use dx in auto)
  moreover have "i \<noteq> NBUF" using dx by auto
  moreover have "distinct (NBUF # us @ vs)" "i \<notin> set (NBUF # us @ vs)" using dx by auto
  ultimately have "dll (\<lambda>j. b_next (dropped_buf i bs j)) (\<lambda>j. b_prev (dropped_buf i bs j)) NBUF (i # us @ vs) NBUF"
    unfolding d front_buf_sel [OF \<open>i \<noteq> NBUF\<close>] by (intro dll_front)
  moreover have "i # remove1 i xs = i # us @ vs" using dx xs by (simp add: remove1_append)
  moreover have "distinct (i # us @ vs)" "set (i # us @ vs) = set xs" using dx xs by auto
  ultimately show ?thesis using True assms(1) unfolding ring_def by simp
qed

lemma link_front_run: "link_front i s = Ok () (s\<lparr>bufs := front_buf i (bufs s)\<rparr>)"
  by (simp add: link_front_def bind_run block_run front_buf_def Let_def)

lemma move_front_run: "move_front i s = Ok () (s\<lparr>bufs := front_buf i (unlink_buf i (bufs s))\<rparr>)"
  by (simp add: move_front_def link_front_run bind_run block_run unlink_buf_def Let_def)

lemma brelse_run:
  assumes r: "runs_as p s" and h: "slk_locked (slocks s (BufLock i)) \<noteq> 0" "slk_pid (slocks s (BufLock i)) = p_pid (procs s p)"
  shows "brelse i s = Ok () (s\<lparr>procs := wake_all (ChanSleeplock (BufLock i)) (Some p) (procs s),
    slocks := (slocks s)(BufLock i := free_slock (slocks s (BufLock i))), bufs := dropped_buf i (bufs s)\<rparr>)"
proof -
  let ?u = "s\<lparr>procs := wake_all (ChanSleeplock (BufLock i)) (Some p) (procs s),
    slocks := (slocks s)(BufLock i := free_slock (slocks s (BufLock i)))\<rparr>"
  have u: "runs_as p ?u" using r by (simp add: runs_as_def)
  have a: "holdingsleep (BufLock i) s = Ok True s" using holdingsleep_run [OF r, of "BufLock i"] h by simp
  note b = releasesleep_run [OF r, of "BufLock i"]
  note c = runs_as_acquired [OF u, of BcacheLock]
  show ?thesis
    using a b c(1,3)
    by (simp add: brelse_def bind_run block_run on_lk_def move_front_run only_if_def dropped_buf_def Let_def)
qed

lemma cached_cong:
  "(\<And>j. b_dev (bufs t j) = b_dev (bufs s j)) \<Longrightarrow> (\<And>j. b_blockno (bufs t j) = b_blockno (bufs s j)) \<Longrightarrow>
    cached t = cached s"
proof -
  assume "\<And>j. b_dev (bufs t j) = b_dev (bufs s j)" "\<And>j. b_blockno (bufs t j) = b_blockno (bufs s j)"
  then have "holds_blk (bufs t) = holds_blk (bufs s)" by (simp add: holds_blk_def fun_eq_iff)
  then show ?thesis by (intro ext) (simp only: cached_def)
qed

lemma unique_cong:
  "(\<And>j. b_dev (bs j) = b_dev (cs j)) \<Longrightarrow> (\<And>j. b_blockno (bs j) = b_blockno (cs j)) \<Longrightarrow>
    bio_unique cs \<Longrightarrow> bio_unique bs"
  by (simp add: bio_unique_def)

text \<open>
  Operations that leave the assignment of buffers to blocks alone: the view changes at the one
  block whose buffer changes.
\<close>

lemma one_buffer_effect:
  assumes I: "bio_inv s" and d: "dev \<noteq> 0" and c: "cached s dev b = Some i"
    and same: "\<And>j. b_dev (bufs t j) = b_dev (bufs s j)" "\<And>j. b_blockno (bufs t j) = b_blockno (bufs s j)"
    and other: "\<And>j. j < NBUF \<Longrightarrow> j \<noteq> i \<Longrightarrow> b_valid (bufs t j) = b_valid (bufs s j) \<and> b_data (bufs t j) = b_data (bufs s j) \<and>
      b_refcnt (bufs t j) = b_refcnt (bufs s j) \<and> slocks t (BufLock j) = slocks s (BufLock j)"
    and dk: "\<And>b'. b' \<noteq> b \<Longrightarrow> disk t b' = disk s b'"
  shows "cached t = cached s"
    "lblk t dev = (lblk s dev)(b := if b_valid (bufs t i) \<noteq> 0 then b_data (bufs t i) else disk t b)"
    "brefs t dev = (brefs s dev)(b := unat (b_refcnt (bufs t i)))"
    "bowner t dev = (bowner s dev)(b := slock_owner (slocks t (BufLock i)))"
proof -
  show ct: "cached t = cached s" by (rule cached_cong [OF same])
  have "lblk t dev b' = lblk s dev b' \<and> brefs t dev b' = brefs s dev b' \<and> bowner t dev b' = bowner s dev b'"
    if "b' \<noteq> b" for b'
  proof (cases "cached s dev b'")
    case None
    then show ?thesis using dk [OF that] by (simp add: lblk_def brefs_def bowner_def ct)
  next
    case (Some j)
    have "j < NBUF" "j \<noteq> i"
      using Some c that cached_iff [OF bio_invD(1) [OF I] d] by (auto simp: holds_blk_def)
    from other [OF this] dk [OF that] Some show ?thesis by (simp add: lblk_def brefs_def bowner_def ct)
  qed
  then show "lblk t dev = (lblk s dev)(b := if b_valid (bufs t i) \<noteq> 0 then b_data (bufs t i) else disk t b)"
    "brefs t dev = (brefs s dev)(b := unat (b_refcnt (bufs t i)))"
    "bowner t dev = (bowner s dev)(b := slock_owner (slocks t (BufLock i)))"
    using c by (auto simp: fun_eq_iff lblk_def brefs_def bowner_def ct)
qed

lemma bio_inv_one:
  assumes I: "bio_inv s" and r: "\<exists>xs. ring (bufs t) xs" and d: "dev \<noteq> 0" and c: "cached s dev b = Some i"
    and same: "\<And>j. b_dev (bufs t j) = b_dev (bufs s j)" "\<And>j. b_blockno (bufs t j) = b_blockno (bufs s j)"
    and other: "\<And>j. j < NBUF \<Longrightarrow> j \<noteq> i \<Longrightarrow> b_valid (bufs t j) = b_valid (bufs s j) \<and> b_data (bufs t j) = b_data (bufs s j) \<and>
      b_refcnt (bufs t j) = b_refcnt (bufs s j) \<and> slocks t (BufLock j) = slocks s (BufLock j)"
    and dk: "\<And>b'. b' \<noteq> b \<Longrightarrow> disk t b' = disk s b'" "length (disk t b) = BSIZE"
    and i: "buf_ok t i" and d1: "dev = ROOTDEV"
  shows "bio_inv t"
proof -
  note u = bio_invD(1) [OF I]
  have "buf_ok t j" if "j < NBUF" for j
  proof (cases "j = i")
    case False
    have "b_valid (bufs s j) \<noteq> 0 \<Longrightarrow> b_blockno (bufs s j) \<noteq> b"
    proof
      assume "b_valid (bufs s j) \<noteq> 0" "b_blockno (bufs s j) = b"
      then have "holds_blk (bufs s) dev b j"
        using bio_invD(2) [OF I that] d1 by (simp add: buf_ok_def holds_blk_def)
      then have "cached s dev b = Some j" using cached_iff [OF u d] that by blast
      with c False show False by simp
    qed
    with other [OF that False] bio_invD(2) [OF I that] same dk(1) show ?thesis by (auto simp: buf_ok_def)
  qed (simp add: i)
  moreover have "length (disk t b') = BSIZE" for b'
    using dk bio_invD(3) [OF I, of b'] by (cases "b' = b") simp_all
  ultimately show ?thesis
    using r unique_cong [OF same u] unfolding bio_inv_def by blast
qed

lemma cached_refs:
  assumes "bio_inv s" "dev \<noteq> 0" "bowner s dev b = Some pid"
  obtains i where "cached s dev b = Some i" "i < NBUF" "b_dev (bufs s i) = dev" "b_blockno (bufs s i) = b"
    "slk_locked (slocks s (BufLock i)) \<noteq> 0" "slk_pid (slocks s (BufLock i)) = pid" "b_refcnt (bufs s i) \<noteq> 0"
proof -
  obtain i where i: "cached s dev b = Some i" "slk_locked (slocks s (BufLock i)) \<noteq> 0" "slk_pid (slocks s (BufLock i)) = pid"
    using assms(3) by (auto simp: bowner_def slock_owner_def split: option.splits if_splits)
  moreover from i(1) have n: "i < NBUF" "b_dev (bufs s i) = dev" "b_blockno (bufs s i) = b"
    using cached_iff [OF bio_invD(1) [OF assms(1)] assms(2), of b i] by (simp_all add: holds_blk_def)
  moreover have "b_refcnt (bufs s i) \<noteq> 0" using bio_invD(2) [OF assms(1) n(1)] i(2) by (auto simp: buf_ok_def)
  ultimately show thesis using that by blast
qed

lemma brelse_effect:
  assumes I: "bio_inv s" and d: "dev = ROOTDEV" and c: "cached s dev b = Some i" and n: "b_refcnt (bufs s i) \<noteq> 0"
    and clean: "brefs s dev b = 1 \<Longrightarrow> lblk s dev b = disk s b"
    and t: "t = s\<lparr>procs := ps, slocks := (slocks s)(BufLock i := free_slock (slocks s (BufLock i))), bufs := dropped_buf i (bufs s)\<rparr>"
  shows "bio_inv t" "cached t = cached s" "lblk t dev = lblk s dev"
    "brefs t dev = (brefs s dev)(b := brefs s dev b - 1)" "bowner t dev = (bowner s dev)(b := None)"
proof -
  have d0: "dev \<noteq> 0" using d by simp
  have i: "i < NBUF" "b_blockno (bufs s i) = b"
    using c cached_iff [OF bio_invD(1) [OF I] d0, of b i] by (simp_all add: holds_blk_def)
  have oth: "b_valid (bufs t j) = b_valid (bufs s j) \<and> b_data (bufs t j) = b_data (bufs s j) \<and>
      b_refcnt (bufs t j) = b_refcnt (bufs s j) \<and> slocks t (BufLock j) = slocks s (BufLock j)" if "j \<noteq> i" for j
    using that by (simp add: t dropped_buf_same)
  note e = one_buffer_effect [OF I d0 c, of t, OF _ _ oth]
  have s: "b_dev (bufs t j) = b_dev (bufs s j)" "b_blockno (bufs t j) = b_blockno (bufs s j)" "disk t = disk s" for j
    by (simp_all add: t dropped_buf_same)
  show "cached t = cached s" by (rule e(1)) (simp_all add: s)
  show "lblk t dev = lblk s dev"
    by (subst e(2)) (simp_all add: s fun_eq_iff, simp_all add: t dropped_buf_same lblk_def c)
  have "unat (b_refcnt (bufs s i) - 1) = unat (b_refcnt (bufs s i)) - 1"
    using n by (simp add: unat_minus_one)
  then show "brefs t dev = (brefs s dev)(b := brefs s dev b - 1)"
    by (subst e(3)) (simp_all add: s, simp_all add: t dropped_buf_same brefs_def c)
  show "bowner t dev = (bowner s dev)(b := None)"
    by (subst e(4)) (simp_all add: s, simp_all add: t slock_owner_def free_slock_def)
  obtain xs where "ring (bufs s) xs" using I by (auto simp: bio_inv_def)
  from ring_dropped [OF this i(1)] have r: "\<exists>xs. ring (bufs t) xs" by (auto simp: t)
  have "b_refcnt (bufs s i) = 1 \<Longrightarrow> b_valid (bufs s i) \<noteq> 0 \<Longrightarrow> b_data (bufs s i) = disk s b"
    using clean c by (simp add: brefs_def lblk_def)
  then have "buf_ok t i"
    using bio_invD(2) [OF I i(1)] i(2) n by (auto simp: buf_ok_def t dropped_buf_same free_slock_def)
  then show "bio_inv t"
    using bio_invD(3) [OF I] d by (intro bio_inv_one [OF I r d0 c _ _ oth]) (simp_all add: s)
qed

text \<open>Changing the data of a locked buffer.\<close>

lemma set_data_effect:
  assumes I: "bio_inv s" and d: "dev = ROOTDEV" and c: "cached s dev b = Some i" and n: "b_refcnt (bufs s i) \<noteq> 0"
    and v: "b_valid (bufs s i) \<noteq> 0" and l: "length x = BSIZE"
    and t: "t = s\<lparr>bufs := (bufs s)(i := (bufs s i)\<lparr>b_data := x\<rparr>)\<rparr>"
  shows "bio_inv t" "cached t = cached s" "lblk t dev = (lblk s dev)(b := x)" "brefs t dev = brefs s dev"
    "bowner t dev = bowner s dev"
proof -
  have d0: "dev \<noteq> 0" using d by simp
  have i: "i < NBUF" using c cached_iff [OF bio_invD(1) [OF I] d0, of b i] by simp
  have s: "b_dev (bufs t j) = b_dev (bufs s j)" "b_blockno (bufs t j) = b_blockno (bufs s j)" "disk t = disk s" for j
    by (simp_all add: t)
  have oth: "b_valid (bufs t j) = b_valid (bufs s j) \<and> b_data (bufs t j) = b_data (bufs s j) \<and>
      b_refcnt (bufs t j) = b_refcnt (bufs s j) \<and> slocks t (BufLock j) = slocks s (BufLock j)" if "j \<noteq> i" for j
    using that by (simp add: t)
  note e = one_buffer_effect [OF I d0 c, of t, OF _ _ oth]
  show "cached t = cached s" by (rule e(1)) (simp_all add: s)
  show "lblk t dev = (lblk s dev)(b := x)" by (subst e(2)) (simp_all add: s, simp_all add: t v)
  show "brefs t dev = brefs s dev"
    by (subst e(3)) (simp_all add: s, simp_all add: t brefs_def c fun_eq_iff)
  show "bowner t dev = bowner s dev"
    by (subst e(4)) (simp_all add: s, simp_all add: t bowner_def c fun_eq_iff)
  obtain xs where "ring (bufs s) xs" using I by (auto simp: bio_inv_def)
  then have "ring (bufs t) xs" by (subst ring_cong [of "bufs t" "bufs s"]) (simp_all add: t)
  then have r: "\<exists>xs. ring (bufs t) xs" by blast
  have "buf_ok t i" using bio_invD(2) [OF I i] n v l by (simp add: buf_ok_def t)
  then show "bio_inv t"
    using bio_invD(3) [OF I] d by (intro bio_inv_one [OF I r d0 c _ _ oth]) (simp_all add: s)
qed

text \<open>Writing a locked buffer to the disk.\<close>

lemma disk_write_effect:
  assumes I: "bio_inv s" and d: "dev = ROOTDEV" and c: "cached s dev b = Some i" and v: "b_valid (bufs s i) \<noteq> 0"
    and t: "t = s\<lparr>disk := (disk s)(b := b_data (bufs s i)), written := w\<rparr>"
  shows "bio_inv t" "cached t = cached s" "lblk t dev = lblk s dev" "brefs t dev = brefs s dev"
    "bowner t dev = bowner s dev"
proof -
  have d0: "dev \<noteq> 0" using d by simp
  have i: "i < NBUF" "b_blockno (bufs s i) = b"
    using c cached_iff [OF bio_invD(1) [OF I] d0, of b i] by (simp_all add: holds_blk_def)
  have s: "bufs t = bufs s" "slocks t = slocks s" by (simp_all add: t)
  note e = one_buffer_effect [OF I d0 c, of t]
  show "cached t = cached s" by (rule e(1)) (simp_all add: s, simp add: t)
  show "lblk t dev = lblk s dev"
    by (subst e(2)) (simp_all add: s v, simp_all add: t lblk_def c v fun_eq_iff)
  show "brefs t dev = brefs s dev"
    by (subst e(3)) (simp_all add: s, simp_all add: t brefs_def c fun_eq_iff)
  show "bowner t dev = bowner s dev"
    by (subst e(4)) (simp_all add: s, simp_all add: t bowner_def c fun_eq_iff)
  have r: "\<exists>xs. ring (bufs t) xs" using I by (auto simp: bio_inv_def s)
  have k: "buf_ok t i" "length (b_data (bufs s i)) = BSIZE" using bio_invD(2) [OF I i(1)] v i(2) by (simp_all add: buf_ok_def t)
  show "bio_inv t"
    using k d by (intro bio_inv_one [OF I r d0 c]) (simp_all add: s, simp_all add: t)
qed

text \<open>Pinning and unpinning.\<close>

lemma refcnt_effect:
  assumes I: "bio_inv s" and d: "dev = ROOTDEV" and c: "cached s dev b = Some i"
    and n: "b_refcnt (bufs s i) \<noteq> 0" "r \<noteq> 0"
    and t: "t = s\<lparr>bufs := (bufs s)(i := (bufs s i)\<lparr>b_refcnt := r\<rparr>)\<rparr>"
  shows "bio_inv t" "cached t = cached s" "lblk t dev = lblk s dev" "brefs t dev = (brefs s dev)(b := unat r)"
    "bowner t dev = bowner s dev"
proof -
  have d0: "dev \<noteq> 0" using d by simp
  have i: "i < NBUF" using c cached_iff [OF bio_invD(1) [OF I] d0, of b i] by simp
  have s: "b_dev (bufs t j) = b_dev (bufs s j)" "b_blockno (bufs t j) = b_blockno (bufs s j)" "disk t = disk s" for j
    by (simp_all add: t)
  have oth: "b_valid (bufs t j) = b_valid (bufs s j) \<and> b_data (bufs t j) = b_data (bufs s j) \<and>
      b_refcnt (bufs t j) = b_refcnt (bufs s j) \<and> slocks t (BufLock j) = slocks s (BufLock j)" if "j \<noteq> i" for j
    using that by (simp add: t)
  note e = one_buffer_effect [OF I d0 c, of t, OF _ _ oth]
  show "cached t = cached s" by (rule e(1)) (simp_all add: s)
  show "lblk t dev = lblk s dev"
    by (subst e(2)) (simp_all add: s, simp_all add: t lblk_def c fun_eq_iff)
  show "brefs t dev = (brefs s dev)(b := unat r)" by (subst e(3)) (simp_all add: s, simp_all add: t)
  show "bowner t dev = bowner s dev"
    by (subst e(4)) (simp_all add: s, simp_all add: t bowner_def c fun_eq_iff)
  obtain xs where "ring (bufs s) xs" using I by (auto simp: bio_inv_def)
  then have "ring (bufs t) xs" by (subst ring_cong [of "bufs t" "bufs s"]) (simp_all add: t)
  then have r: "\<exists>xs. ring (bufs t) xs" by blast
  have "buf_ok t i" using bio_invD(2) [OF I i] n by (simp add: buf_ok_def t)
  then show "bio_inv t"
    using bio_invD(3) [OF I] d by (intro bio_inv_one [OF I r d0 c _ _ oth]) (simp_all add: s)
qed

section \<open>The operations as steps on the represented blocks\<close>

text \<open>
  What the operations of the cache leave alone: everything but the process table, in which
  sleeping processes may have become runnable, the locks of the buffers, and the buffers.
\<close>

definition woken :: "(nat \<Rightarrow> proc) \<Rightarrow> (nat \<Rightarrow> proc) \<Rightarrow> bool" where
  "woken ps qs \<longleftrightarrow> (\<forall>i. qs i = ps i \<or> p_state (ps i) = SLEEPING \<and> qs i = (ps i)\<lparr>p_state := RUNNABLE\<rparr>)"

lemma woken_refl [simp]: "woken ps ps"
  by (simp add: woken_def)

lemma woken_trans: "woken ps qs \<Longrightarrow> woken qs rs \<Longrightarrow> woken ps rs"
  unfolding woken_def
proof (intro allI)
  fix i
  assume a: "\<forall>i. qs i = ps i \<or> p_state (ps i) = SLEEPING \<and> qs i = (ps i)\<lparr>p_state := RUNNABLE\<rparr>"
    "\<forall>i. rs i = qs i \<or> p_state (qs i) = SLEEPING \<and> rs i = (qs i)\<lparr>p_state := RUNNABLE\<rparr>"
  from a(1) [rule_format, of i] a(2) [rule_format, of i]
  show "rs i = ps i \<or> p_state (ps i) = SLEEPING \<and> rs i = (ps i)\<lparr>p_state := RUNNABLE\<rparr>" by auto
qed

lemma woken_wake_all [simp]: "woken ps (wake_all c me ps)"
  by (simp add: woken_def wake_all_def wake_one_def)

lemma woken_same: "woken ps qs \<Longrightarrow> p_pid (qs i) = p_pid (ps i) \<and> p_pagetable (qs i) = p_pagetable (ps i) \<and>
  p_cwd (qs i) = p_cwd (ps i) \<and> p_ofile (qs i) = p_ofile (ps i) \<and> p_sz (qs i) = p_sz (ps i)"
  by (drule woken_def [THEN iffD1, THEN spec, of _ _ i]) auto

definition bio_step :: "'z bio_state_scheme \<Rightarrow> 'z bio_state_scheme \<Rightarrow> bool" where
  "bio_step s t \<longleftrightarrow> (\<exists>ps ls bs. t = s\<lparr>procs := ps, slocks := ls, bufs := bs\<rparr> \<and> woken (procs s) ps \<and>
     (\<forall>k. ls (InodeLock k) = slocks s (InodeLock k)))"

lemma bio_stepI:
  "woken (procs s) ps \<Longrightarrow> (\<And>k. ls (InodeLock k) = slocks s (InodeLock k)) \<Longrightarrow>
    bio_step s (s\<lparr>procs := ps, slocks := ls, bufs := bs\<rparr>)"
  "(\<And>k. ls (InodeLock k) = slocks s (InodeLock k)) \<Longrightarrow> bio_step s (s\<lparr>slocks := ls, bufs := bs\<rparr>)"
  "bio_step s (s\<lparr>bufs := bs\<rparr>)"
  unfolding bio_step_def
  by (rule exI [of _ ps], rule exI [of _ ls], rule exI [of _ bs], simp)
    (rule exI [of _ "procs s"], rule exI [of _ ls], rule exI [of _ bs], simp,
     rule exI [of _ "procs s"], rule exI [of _ "slocks s"], rule exI [of _ bs], simp)

lemma bio_step_refl [simp]: "bio_step s s"
  unfolding bio_step_def by (intro exI [of _ "procs s"] exI [of _ "slocks s"] exI [of _ "bufs s"]) simp

lemma bio_step_trans [trans]:
  assumes "bio_step s t" "bio_step t u"
  shows "bio_step s u"
proof -
  obtain ps ls bs where 1: "t = s\<lparr>procs := ps, slocks := ls, bufs := bs\<rparr>" "woken (procs s) ps"
    "\<forall>k. ls (InodeLock k) = slocks s (InodeLock k)" using assms(1) by (auto simp: bio_step_def)
  obtain qs ms cs where 2: "u = t\<lparr>procs := qs, slocks := ms, bufs := cs\<rparr>" "woken (procs t) qs"
    "\<forall>k. ms (InodeLock k) = slocks t (InodeLock k)" using assms(2) by (auto simp: bio_step_def)
  have "u = s\<lparr>procs := qs, slocks := ms, bufs := cs\<rparr>" using 1(1) 2(1) by simp
  moreover have "woken (procs s) qs" using 1 2 woken_trans by simp
  ultimately show ?thesis using 1 2 unfolding bio_step_def by (intro exI [of _ qs] exI [of _ ms] exI [of _ cs]) simp
qed

lemma bio_step_same:
  assumes "bio_step s t"
  shows "runs_as p t = runs_as p s" "p_pid (procs t q) = p_pid (procs s q)" "disk t = disk s" "written t = written s"
    "slocks t (InodeLock k) = slocks s (InodeLock k)" "pmem t = pmem s" "p_pagetable (procs t q) = p_pagetable (procs s q)"
    "lk t = lk s"
  using assms by (auto simp: bio_step_def runs_as_def woken_same)

text \<open>Enough buffers: a block is referenced already, or there is a buffer without references.\<close>

definition refd :: "'z bio_state_scheme \<Rightarrow> u32 set" where
  "refd s = {b. brefs s ROOTDEV b \<noteq> 0}"

definition room :: "'z bio_state_scheme \<Rightarrow> u32 \<Rightarrow> bool" where
  "room s b \<longleftrightarrow> b \<in> refd s \<or> card (refd s) < NBUF"

lemma room_free:
  assumes I: "bio_inv s" and r: "room s b"
  shows "cached s ROOTDEV b \<noteq> None \<or> (\<exists>i < NBUF. b_refcnt (bufs s i) = 0)"
proof (rule ccontr)
  assume *: "\<not> ?thesis"
  let ?f = "\<lambda>i. b_blockno (bufs s i)"
  note u = bio_invD(1) [OF I]
  have n: "cached s ROOTDEV b = None" "i < NBUF \<Longrightarrow> b_refcnt (bufs s i) \<noteq> 0" for i using * by auto
  have dev: "b_dev (bufs s i) = ROOTDEV" if "i < NBUF" for i
    using bio_invD(2) [OF I that] n(2) [OF that] by (simp add: buf_ok_def)
  have c: "cached s ROOTDEV (?f i) = Some i" if "i < NBUF" for i
    using cached_iff [OF u, of ROOTDEV "?f i" i] dev [OF that] that by (simp add: holds_blk_def)
  have "inj_on ?f {..<NBUF}"
  proof (rule inj_onI)
    fix i j assume ij: "i \<in> {..<NBUF :: nat}" "j \<in> {..<NBUF :: nat}" and f: "?f i = ?f j"
    have "Some i = Some j"
      unfolding c [OF ij(1) [unfolded lessThan_iff], symmetric] c [OF ij(2) [unfolded lessThan_iff], symmetric] f ..
    then show "i = j" by simp
  qed
  moreover have "?f ` {..<NBUF} \<subseteq> refd s"
  proof (rule image_subsetI)
    fix i assume "i \<in> {..<NBUF :: nat}"
    then have "i < NBUF" unfolding lessThan_iff .
    from c [OF this] n(2) [OF this] show "?f i \<in> refd s" by (simp add: refd_def brefs_def word_unat_eq_iff)
  qed
  ultimately have "card {..<NBUF :: nat} \<le> card (refd s)" by (rule card_inj_on_le) simp
  then have "\<not> card (refd s) < NBUF" unfolding card_lessThan by simp
  moreover have "b \<notin> refd s" using n(1) by (simp add: refd_def brefs_def)
  ultimately show False using r by (simp add: room_def)
qed

definition has_buf :: "'z bio_state_scheme \<Rightarrow> u32 \<Rightarrow> nat \<Rightarrow> bool" where
  "has_buf s b i \<longleftrightarrow> cached s ROOTDEV b = Some i \<and> b_valid (bufs s i) \<noteq> 0"

lemma has_buf_data: "has_buf s b i \<Longrightarrow> b_data (bufs s i) = lblk s ROOTDEV b"
  by (simp add: has_buf_def lblk_def)

lemma bread_ok:
  assumes r: "runs_as p s" and I: "bio_inv s" and o: "bowner s ROOTDEV b = None" and m: "room s b"
    and n: "brefs s ROOTDEV b < 2 ^ 32 - 1"
  obtains i t where "bread ROOTDEV b s = Ok i t" "bio_step s t" "bio_inv t" "has_buf t b i"
    "lblk t ROOTDEV = lblk s ROOTDEV" "brefs t ROOTDEV = (brefs s ROOTDEV)(b := Suc (brefs s ROOTDEV b))"
    "bowner t ROOTDEV = (bowner s ROOTDEV)(b := Some (p_pid (procs s p)))"
    "\<And>b' j. has_buf s b' j \<Longrightarrow> brefs s ROOTDEV b' \<noteq> 0 \<Longrightarrow> has_buf t b' j"
proof -
  obtain i x where run: "bread ROOTDEV b s = Ok i (s\<lparr>slocks := (slocks s)(BufLock i := held_slock (p_pid (procs s p)) (slocks s (BufLock i))),
      bufs := (bufs s)(i := x)\<rparr>)" (is "_ = Ok i ?t") and x: "bread_buf s ROOTDEV b i x" and i: "i < NBUF"
    and c: "cached s ROOTDEV b = Some i \<or> cached s ROOTDEV b = None \<and> b_refcnt (bufs s i) = 0"
    using bread_run [OF r I _ o room_free [OF I m]] by auto
  note e = bread_effect [OF I refl i x c n refl]
  have "bio_step s ?t" by (rule bio_stepI) simp
  moreover have "has_buf ?t b i" using e(2) x by (simp add: has_buf_def bread_buf_def)
  moreover have "has_buf ?t b' j" if "has_buf s b' j" "brefs s ROOTDEV b' \<noteq> 0" for b' j
    using e(6) [of b' j] that by (simp add: has_buf_def)
  ultimately show thesis by (intro that [OF run _ e(1) _ e(3-5)])
qed

lemma brelse_ok:
  assumes r: "runs_as p s" and I: "bio_inv s" and h: "cached s ROOTDEV b = Some i"
    and o: "bowner s ROOTDEV b = Some (p_pid (procs s p))"
    and clean: "brefs s ROOTDEV b = 1 \<Longrightarrow> lblk s ROOTDEV b = disk s b"
  obtains t where "brelse i s = Ok () t" "bio_step s t" "bio_inv t" "cached t = cached s" "lblk t ROOTDEV = lblk s ROOTDEV"
    "brefs t ROOTDEV = (brefs s ROOTDEV)(b := brefs s ROOTDEV b - 1)"
    "bowner t ROOTDEV = (bowner s ROOTDEV)(b := None)" "\<And>j. b_valid (bufs t j) = b_valid (bufs s j)"
proof -
  obtain i' where i': "cached s ROOTDEV b = Some i'" "slk_locked (slocks s (BufLock i')) \<noteq> 0"
    "slk_pid (slocks s (BufLock i')) = p_pid (procs s p)" "b_refcnt (bufs s i') \<noteq> 0"
    using cached_refs [OF I _ o] by auto
  with h have i: "i' = i" by simp
  let ?t = "s\<lparr>procs := wake_all (ChanSleeplock (BufLock i)) (Some p) (procs s),
    slocks := (slocks s)(BufLock i := free_slock (slocks s (BufLock i))), bufs := dropped_buf i (bufs s)\<rparr>"
  have run: "brelse i s = Ok () ?t" using brelse_run [OF r i'(2,3)] i by simp
  note e = brelse_effect [OF I refl h i'(4) [unfolded i] clean refl]
  have st: "bio_step s ?t" by (rule bio_stepI) simp_all
  have v: "b_valid (bufs ?t j) = b_valid (bufs s j)" for j by (simp add: dropped_buf_same)
  show thesis by (rule that [OF run st e(1) e(2) e(3) e(4) e(5) v])
qed

lemma bwrite_ok:
  assumes r: "runs_as p s" and I: "bio_inv s" and h: "has_buf s b i" and o: "bowner s ROOTDEV b = Some (p_pid (procs s p))"
    and t: "t = s\<lparr>disk := (disk s)(b := lblk s ROOTDEV b), written := written s @ [(b, lblk s ROOTDEV b)]\<rparr>"
  shows "bwrite i s = Ok () t" "bio_inv t" "cached t = cached s" "lblk t ROOTDEV = lblk s ROOTDEV"
    "brefs t ROOTDEV = brefs s ROOTDEV" "bowner t ROOTDEV = bowner s ROOTDEV"
proof -
  obtain i' where i': "cached s ROOTDEV b = Some i'" "slk_locked (slocks s (BufLock i')) \<noteq> 0" "b_blockno (bufs s i') = b"
    "slk_pid (slocks s (BufLock i')) = p_pid (procs s p)" using cached_refs [OF I _ o] by auto
  have i: "i' = i" and v: "b_valid (bufs s i) \<noteq> 0" using h i'(1) by (simp_all add: has_buf_def)
  have d: "b_data (bufs s i) = lblk s ROOTDEV b" by (rule has_buf_data [OF h])
  show "bwrite i s = Ok () t"
    using holdingsleep_run [OF r, of "BufLock i"] i' i d
    by (simp add: bwrite_def bind_run block_run disk_rw_def t)
  show "bio_inv t" "cached t = cached s" "lblk t ROOTDEV = lblk s ROOTDEV"
    "brefs t ROOTDEV = brefs s ROOTDEV" "bowner t ROOTDEV = bowner s ROOTDEV"
    using disk_write_effect [OF I refl i'(1) [unfolded i] v, of t "written t"] by (simp_all add: t d)
qed

lemma obliv_set_buf [oblivI]: "obliv (set_buf i f)"
  unfolding set_buf_def by (intro oblivI) simp

lemma pin_run:
  assumes "runs_as p s"
  shows "bpin i s = Ok () (s\<lparr>bufs := (bufs s)(i := (bufs s i)\<lparr>b_refcnt := b_refcnt (bufs s i) + 1\<rparr>)\<rparr>)"
    "bunpin i s = Ok () (s\<lparr>bufs := (bufs s)(i := (bufs s i)\<lparr>b_refcnt := b_refcnt (bufs s i) - 1\<rparr>)\<rparr>)"
  using runs_as_locks [OF assms] by (simp_all add: bpin_def bunpin_def with_lock_obliv obliv_set_buf)

lemma bpin_ok:
  assumes r: "runs_as p s" and I: "bio_inv s" and c: "cached s ROOTDEV b = Some i"
    and n: "brefs s ROOTDEV b \<noteq> 0" "brefs s ROOTDEV b < 2 ^ 32 - 1"
  obtains t where "bpin i s = Ok () t" "bio_step s t" "bio_inv t" "cached t = cached s" "lblk t ROOTDEV = lblk s ROOTDEV"
    "brefs t ROOTDEV = (brefs s ROOTDEV)(b := Suc (brefs s ROOTDEV b))" "bowner t ROOTDEV = bowner s ROOTDEV"
    "\<And>j. b_valid (bufs t j) = b_valid (bufs s j)"
proof -
  let ?r = "b_refcnt (bufs s i)"
  have u: "unat ?r = brefs s ROOTDEV b" using c by (simp add: brefs_def)
  have "unat (?r + 1) = Suc (brefs s ROOTDEV b)"
    using n u by (simp add: unat_word_ariths)
  then have p: "unat (?r + 1) = Suc (brefs s ROOTDEV b)" "?r \<noteq> 0" "?r + 1 \<noteq> 0"
    using n(1) u by auto
  let ?t = "s\<lparr>bufs := (bufs s)(i := (bufs s i)\<lparr>b_refcnt := ?r + 1\<rparr>)\<rparr>"
  note e = refcnt_effect [OF I refl c p(2,3) refl]
  show thesis
    by (rule that [OF pin_run(1) [OF r] bio_stepI(3) e(1-3) _ e(5)]) (simp_all add: e(4) p(1))
qed

lemma bunpin_ok:
  assumes r: "runs_as p s" and I: "bio_inv s" and c: "cached s ROOTDEV b = Some i" and n: "brefs s ROOTDEV b > 1"
  obtains t where "bunpin i s = Ok () t" "bio_step s t" "bio_inv t" "cached t = cached s" "lblk t ROOTDEV = lblk s ROOTDEV"
    "brefs t ROOTDEV = (brefs s ROOTDEV)(b := brefs s ROOTDEV b - 1)" "bowner t ROOTDEV = bowner s ROOTDEV"
    "\<And>j. b_valid (bufs t j) = b_valid (bufs s j)"
proof -
  let ?r = "b_refcnt (bufs s i)"
  have u: "unat ?r = brefs s ROOTDEV b" using c by (simp add: brefs_def)
  then have r0: "?r \<noteq> 0" using n by auto
  then have "unat (?r - 1) = brefs s ROOTDEV b - 1" using u by (simp add: unat_minus_one)
  then have p: "unat (?r - 1) = brefs s ROOTDEV b - 1" "?r - 1 \<noteq> 0" using n by auto
  note e = refcnt_effect [OF I refl c r0 p(2) refl]
  show thesis
    by (rule that [OF pin_run(2) [OF r] bio_stepI(3) e(1-3) _ e(5)]) (simp_all add: e(4) p(1))
qed

lemma set_data_ok:
  assumes I: "bio_inv s" and h: "has_buf s b i" and n: "brefs s ROOTDEV b \<noteq> 0" and l: "length x = BSIZE"
    and t: "t = s\<lparr>bufs := (bufs s)(i := (bufs s i)\<lparr>b_data := x\<rparr>)\<rparr>"
  shows "bio_inv t" "has_buf t b i" "cached t = cached s" "lblk t ROOTDEV = (lblk s ROOTDEV)(b := x)"
    "brefs t ROOTDEV = brefs s ROOTDEV" "bowner t ROOTDEV = bowner s ROOTDEV" "bio_step s t"
proof -
  have c: "cached s ROOTDEV b = Some i" and v: "b_valid (bufs s i) \<noteq> 0" using h by (simp_all add: has_buf_def)
  have r: "b_refcnt (bufs s i) \<noteq> 0" using n c by (auto simp: brefs_def)
  note e = set_data_effect [OF I refl c r v l t]
  show "bio_inv t" "cached t = cached s" "lblk t ROOTDEV = (lblk s ROOTDEV)(b := x)"
    "brefs t ROOTDEV = brefs s ROOTDEV" "bowner t ROOTDEV = bowner s ROOTDEV" by (rule e)+
  show "has_buf t b i" using e(2) h by (simp add: has_buf_def t)
  show "bio_step s t" unfolding t by (rule bio_stepI)
qed

section \<open>Properties\<close>

text \<open>
  C15: \<open>bread\<close> returns a locked buffer with the current contents of the block: what was last put
  into the cache for it, or else what is on the disk. It is the only buffer for that block; its
  reference count is one more than the block had (0 when the block was not cached), and the count of
  every other block is unchanged; no block's contents change, neither in the cache nor on the disk.
  When every buffer is in use it panics.
\<close>

theorem bread_returns_block:
  assumes r: "runs_as p s" and I: "bio_inv s" and o: "bowner s ROOTDEV b = None" and n: "brefs s ROOTDEV b < 2 ^ 32 - 1"
  shows "(room s b \<longrightarrow> (\<exists>i t. bread ROOTDEV b s = Ok i t \<and> bio_inv t \<and> holdingsleep (BufLock i) t = Ok True t \<and>
      b_data (bufs t i) = lblk s ROOTDEV b \<and> lblk t ROOTDEV = lblk s ROOTDEV \<and> disk t = disk s \<and>
      unat (b_refcnt (bufs t i)) = Suc (brefs s ROOTDEV b) \<and> (\<forall>c. c \<noteq> b \<longrightarrow> brefs t ROOTDEV c = brefs s ROOTDEV c) \<and>
      (\<forall>j < NBUF. b_dev (bufs t j) = ROOTDEV \<and> b_blockno (bufs t j) = b \<longleftrightarrow> j = i))) \<and>
    (cached s ROOTDEV b = None \<longrightarrow> (\<forall>i < NBUF. b_refcnt (bufs s i) \<noteq> 0) \<longrightarrow> bread ROOTDEV b s = Panic ''bget: no buffers'')"
proof (intro conjI impI)
  assume "room s b"
  from bread_ok [OF r I o this n]
  obtain i t where t: "bread ROOTDEV b s = Ok i t" "bio_step s t" "bio_inv t" "has_buf t b i"
    "lblk t ROOTDEV = lblk s ROOTDEV" "brefs t ROOTDEV = (brefs s ROOTDEV)(b := Suc (brefs s ROOTDEV b))"
    "bowner t ROOTDEV = (bowner s ROOTDEV)(b := Some (p_pid (procs s p)))" .
  have c: "cached t ROOTDEV b = Some i" using t(4) by (simp add: has_buf_def)
  have "slk_locked (slocks t (BufLock i)) \<noteq> 0 \<and> slk_pid (slocks t (BufLock i)) = p_pid (procs s p)"
    using fun_cong [OF t(7), of b] c by (simp add: bowner_def slock_owner_def split: if_splits)
  then have "holdingsleep (BufLock i) t = Ok True t"
    using holdingsleep_run [of p t "BufLock i"] r bio_step_same(1,2) [OF t(2)] by simp
  moreover have "b_dev (bufs t j) = ROOTDEV \<and> b_blockno (bufs t j) = b \<longleftrightarrow> j = i" if "j < NBUF" for j
    using cached_iff [OF bio_invD(1) [OF t(3)], of ROOTDEV b j] c that by (auto simp: holds_blk_def)
  moreover have "unat (b_refcnt (bufs t i)) = Suc (brefs s ROOTDEV b)"
    using fun_cong [OF t(6), of b] c by (simp add: brefs_def [of t])
  ultimately show "\<exists>i t. bread ROOTDEV b s = Ok i t \<and> bio_inv t \<and> holdingsleep (BufLock i) t = Ok True t \<and>
      b_data (bufs t i) = lblk s ROOTDEV b \<and> lblk t ROOTDEV = lblk s ROOTDEV \<and> disk t = disk s \<and>
      unat (b_refcnt (bufs t i)) = Suc (brefs s ROOTDEV b) \<and> (\<forall>c. c \<noteq> b \<longrightarrow> brefs t ROOTDEV c = brefs s ROOTDEV c) \<and>
      (\<forall>j < NBUF. b_dev (bufs t j) = ROOTDEV \<and> b_blockno (bufs t j) = b \<longleftrightarrow> j = i)"
    using t has_buf_data [OF t(4)] bio_step_same(3) [OF t(2)] by (intro exI [of _ i] exI [of _ t]) simp
next
  assume c: "cached s ROOTDEV b = None" and u: "\<forall>i < NBUF. b_refcnt (bufs s i) \<noteq> 0"
  let ?s = "s\<lparr>lk := acquired BcacheLock (lk s)\<rparr>"
  obtain xs where xs: "ring (bufs ?s) xs" using I by (auto simp: bio_inv_def)
  have "find (\<lambda>i. b_refcnt (bufs ?s i) = 0) (rev xs) = None"
    unfolding find_None_iff using ring_distinct(3) [OF xs] u by simp
  with ring_scans(1) [OF xs, of ROOTDEV b] ring_scans(2) [OF xs, of ROOTDEV] I c
  have "bget_cached (Suc NBUF) (b_next (bufs ?s NBUF)) ROOTDEV b ?s = Ok None ?s"
    "bget_recycle (Suc NBUF) (b_prev (bufs ?s NBUF)) ?s = Ok None ?s" by simp_all
  then show "bread ROOTDEV b s = Panic ''bget: no buffers''"
    unfolding bread_def bget_def bind_run runs_as_acquired(1) [OF r] outcome.case get_buf_run by simp
qed

text \<open>
  C16: The cache replaces the least recently used buffer. With the buffers in the order \<open>xs\<close>, most
  recently used first, a block that is not cached gets the last buffer of \<open>xs\<close> that nobody uses,
  and \<open>brelse\<close> then moves that buffer to the front, keeping the order of the others.
\<close>

theorem lru_replacement:
  assumes r: "runs_as p s" and I: "bio_inv s" and xs: "ring (bufs s) xs"
    and c: "cached s ROOTDEV b = None" and l: "lru_unused (bufs s) xs = Some i"
  shows "\<exists>t u. bread ROOTDEV b s = Ok i t \<and> ring (bufs t) xs \<and> b_refcnt (bufs s i) = 0 \<and>
    brelse i t = Ok () u \<and> ring (bufs u) (i # remove1 i xs)"
proof -
  have d: "ROOTDEV \<noteq> (0 :: u32)" by simp
  note i = lru_unusedD [OF xs l] and g = bget_miss [OF r I d c xs l]
  let ?x = "(bufs s i)\<lparr>b_dev := ROOTDEV, b_blockno := b, b_refcnt := 1, b_data := disk s b, b_valid := 1\<rparr>"
  let ?t = "s\<lparr>slocks := (slocks s)(BufLock i := held_slock (p_pid (procs s p)) (slocks s (BufLock i))), bufs := (bufs s)(i := ?x)\<rparr>"
  have t: "bread ROOTDEV b s = Ok i ?t"
    using g by (simp add: bread_def bind_run block_ret_def block_run only_if_def disk_rw_def)
  have rt: "ring (bufs ?t) xs" using xs by (subst ring_cong [of "bufs ?t" "bufs s"]) simp_all
  let ?u = "?t\<lparr>procs := wake_all (ChanSleeplock (BufLock i)) (Some p) (procs ?t),
    slocks := (slocks ?t)(BufLock i := free_slock (slocks ?t (BufLock i))), bufs := dropped_buf i (bufs ?t)\<rparr>"
  have "runs_as p ?t" using r by (simp add: runs_as_def)
  then have u: "brelse i ?t = Ok () ?u"
    by (rule brelse_run) (simp_all add: held_slock_def)
  have ru: "ring (bufs ?u) (i # remove1 i xs)"
    using ring_dropped [OF rt i(1)] by simp
  show ?thesis by (intro exI [of _ ?t] exI [of _ ?u] conjI t rt i(2) u ru)
qed

subsection \<open>Initialisation\<close>

abbreviation new_slock :: sleeplock where
  "new_slock \<equiv> \<lparr>slk_locked = 0, slk_name = ''buffer'', slk_pid = 0\<rparr>"

lemma binit_body_run:
  "\<exists>L. binit_body i s = Ok () (s\<lparr>lk := L, slocks := (slocks s)(BufLock i := new_slock), bufs := front_buf i (bufs s)\<rparr>)"
  by (rule exI [of _ "set_lock (SleepLk (BufLock i)) (\<lambda>k. k\<lparr>sl_name := ''sleep lock'', sl_locked := 0, sl_cpu := None\<rparr>) (lk s)"])
    (simp add: binit_body_def initsleeplock_run bind_run block_run front_buf_def Let_def)

lemma binit_loop:
  assumes "ring0 = (\<lambda>bs xs. dll (\<lambda>i. b_next (bs i)) (\<lambda>i. b_prev (bs i)) NBUF xs NBUF)"
    and "ring0 (bufs s) []" "n \<le> NBUF"
  shows "\<exists>L sl bs. block (map binit_body [0..<n]) s = Ok () (s\<lparr>lk := L, slocks := sl, bufs := bs\<rparr>) \<and>
    ring0 bs (rev [0..<n]) \<and> (\<forall>i < n. sl (BufLock i) = new_slock) \<and>
    (\<forall>i. b_dev (bs i) = b_dev (bufs s i) \<and> b_blockno (bs i) = b_blockno (bufs s i) \<and> b_valid (bs i) = b_valid (bufs s i) \<and>
      b_data (bs i) = b_data (bufs s i) \<and> b_refcnt (bs i) = b_refcnt (bufs s i))"
  using assms(3)
proof (induction n)
  case 0
  then show ?case
    using assms(2) by (intro exI [of _ "lk s"] exI [of _ "slocks s"] exI [of _ "bufs s"]) simp
next
  case (Suc n)
  then obtain L sl bs where s: "block (map binit_body [0..<n]) s = Ok () (s\<lparr>lk := L, slocks := sl, bufs := bs\<rparr>)"
    and r: "ring0 bs (rev [0..<n])" and l: "\<forall>i < n. sl (BufLock i) = new_slock"
    and f: "\<forall>i. b_dev (bs i) = b_dev (bufs s i) \<and> b_blockno (bs i) = b_blockno (bufs s i) \<and> b_valid (bs i) = b_valid (bufs s i) \<and>
      b_data (bs i) = b_data (bufs s i) \<and> b_refcnt (bs i) = b_refcnt (bufs s i)" by auto
  obtain L' where b: "binit_body n (s\<lparr>lk := L, slocks := sl, bufs := bs\<rparr>) =
      Ok () (s\<lparr>lk := L', slocks := sl(BufLock n := new_slock), bufs := front_buf n bs\<rparr>)"
    using binit_body_run [of n "s\<lparr>lk := L, slocks := sl, bufs := bs\<rparr>"] by auto
  have n: "n < NBUF" "n \<noteq> NBUF" using Suc.prems by simp_all
  have "ring0 (front_buf n bs) (n # rev [0..<n])"
    unfolding assms(1) front_buf_sel [OF n(2)]
    by (rule dll_front) (use r n in \<open>auto simp: assms(1)\<close>)
  then have "ring0 (front_buf n bs) (rev [0..<Suc n])" by simp
  moreover have "block (map binit_body [0..<Suc n]) s =
      Ok () (s\<lparr>lk := L', slocks := sl(BufLock n := new_slock), bufs := front_buf n bs\<rparr>)"
    using s b by (simp add: block_append bind_run)
  moreover have "\<forall>i < Suc n. (sl(BufLock n := new_slock)) (BufLock i) = new_slock"
    using l by (simp add: less_Suc_eq)
  ultimately show ?case using f
    by (intro exI [of _ L'] exI [of _ "sl(BufLock n := new_slock)"] exI [of _ "front_buf n bs"]) (simp add: link_bufs_same fun_upd_def)
qed

text \<open>
  C22: \<open>binit\<close> turns the zero-initialised buffer table into a list of all \<^verbatim>\<open>NBUF\<close> buffers, all
  unlocked, that satisfies the invariant of the cache.
\<close>

theorem binit_establishes_cache:
  assumes "\<forall>i < NBUF. b_valid (bufs s i) = 0 \<and> b_refcnt (bufs s i) = 0 \<and> b_dev (bufs s i) = 0"
    "\<forall>b. length (disk s b) = BSIZE"
  shows "\<exists>t. binit s = Ok () t \<and> bio_inv t \<and> ring (bufs t) (rev [0..<NBUF]) \<and> disk t = disk s \<and>
    (\<forall>i < NBUF. slk_locked (slocks t (BufLock i)) = 0)"
proof -
  define s1 where "s1 = s\<lparr>lk := set_lock BcacheLock (\<lambda>k. k\<lparr>sl_name := ''bcache'', sl_locked := 0, sl_cpu := None\<rparr>) (lk s),
    bufs := (bufs s)(NBUF := (bufs s NBUF)\<lparr>b_prev := NBUF, b_next := NBUF\<rparr>)\<rparr>"
  have b0: "binit s = block (map binit_body [0..<NBUF]) s1"
    unfolding binit_def s1_def
    by (simp add: block_run bind_run on_lk_def initlock_def del: upt_rec_numeral)
  have "dll (\<lambda>i. b_next (bufs s1 i)) (\<lambda>i. b_prev (bufs s1 i)) NBUF [] NBUF" by (simp add: s1_def)
  from binit_loop [OF refl this, of NBUF]
  obtain L sl bs where b: "block (map binit_body [0..<NBUF]) s1 = Ok () (s1\<lparr>lk := L, slocks := sl, bufs := bs\<rparr>)"
    and r: "dll (\<lambda>i. b_next (bs i)) (\<lambda>i. b_prev (bs i)) NBUF (rev [0..<NBUF]) NBUF"
    and l: "\<forall>i < NBUF. sl (BufLock i) = new_slock"
    and f: "\<forall>i. b_dev (bs i) = b_dev (bufs s1 i) \<and> b_blockno (bs i) = b_blockno (bufs s1 i) \<and> b_valid (bs i) = b_valid (bufs s1 i) \<and>
      b_data (bs i) = b_data (bufs s1 i) \<and> b_refcnt (bs i) = b_refcnt (bufs s1 i)" by auto
  let ?t = "s1\<lparr>lk := L, slocks := sl, bufs := bs\<rparr>"
  have z: "b_valid (bs i) = 0" "b_refcnt (bs i) = 0" "b_dev (bs i) = 0" if "i < NBUF" for i
    using assms(1) [rule_format, OF that] f [rule_format, of i] that by (simp_all add: s1_def)
  have bt: "binit s = Ok () ?t" unfolding b0 b ..
  have rg: "ring bs (rev [0..<NBUF])"
    unfolding ring_def set_rev set_upt distinct_rev atLeast0LessThan using r by (intro conjI) (simp_all only: distinct_upt)
  moreover have "bio_unique bs" unfolding bio_unique_def using z(3) by blast
  moreover have "buf_ok ?t i" if "i < NBUF" for i
    using z [OF that] l [rule_format, OF that] by (simp add: buf_ok_def)
  moreover have "\<forall>b. length (disk ?t b) = BSIZE" using assms(2) by (simp add: s1_def)
  ultimately have "bio_inv ?t" unfolding bio_inv_def by auto
  moreover have "\<forall>i < NBUF. slk_locked (slocks ?t (BufLock i)) = 0" using l by simp
  moreover have "disk ?t = disk s" by (simp add: s1_def)
  ultimately show ?thesis using bt rg by (intro exI [of _ ?t]) (simp del: upt_rec_numeral)
qed

text \<open>Example states: the zeroed buffer table at boot, and the cache after \<open>binit\<close>.\<close>

definition zero_buf :: buf where
  "zero_buf = \<lparr>b_valid = 0, b_disk = 0, b_dev = 0, b_blockno = 0, b_refcnt = 0, b_prev = 0, b_next = 0, b_data = []\<rparr>"

definition fresh_bufs :: "nat \<Rightarrow> buf" where
  "fresh_bufs i = zero_buf\<lparr>b_next := if i = 0 then NBUF else i - 1, b_prev := if i = NBUF then 0 else i + 1\<rparr>"

definition sevens :: "u32 \<Rightarrow> u8 list" where
  "sevens b = replicate BSIZE 7"

lemma length_sevens [simp]: "length (sevens b) = BSIZE"
  by (simp add: sevens_def)

definition bio_with :: "(nat \<Rightarrow> buf) \<Rightarrow> bio_state" where
  "bio_with bs = sleep_state.extend buf_sleeper \<lparr>bufs = bs, disk = sevens, written = []\<rparr>"

lemma bio_with_sel [simp]:
  "bufs (bio_with bs) = bs" "disk (bio_with bs) = sevens" "slk_locked (slocks (bio_with bs) l) = 0" "runs_as 0 (bio_with bs)"
  by (simp_all add: bio_with_def buf_sleeper_def sleep_state.defs cons_state.defs runs_as_def)

lemma fresh_bufs_sel [simp]:
  "b_next (fresh_bufs i) = (if i = 0 then NBUF else i - 1)" "b_prev (fresh_bufs i) = (if i = NBUF then 0 else i + 1)"
  "b_valid (fresh_bufs i) = 0" "b_refcnt (fresh_bufs i) = 0" "b_dev (fresh_bufs i) = 0"
  by (simp_all add: fresh_bufs_def zero_buf_def)

lemma fresh_dll: "n < NBUF \<Longrightarrow> dll (\<lambda>i. b_next (fresh_bufs i)) (\<lambda>i. b_prev (fresh_bufs i)) n (rev [0..<n]) NBUF"
  by (induction n) auto

lemma fresh_ring: "ring fresh_bufs (rev [0..<NBUF])"
proof -
  have d: "dll (\<lambda>i. b_next (fresh_bufs i)) (\<lambda>i. b_prev (fresh_bufs i)) 29 (rev [0..<29]) NBUF"
    by (rule fresh_dll) simp
  have "rev [0..<NBUF] = 29 # rev [0..<29 :: nat]"
    using upt_Suc_append [of 0 29] by (simp add: numeral_eq_Suc)
  then have "dll (\<lambda>i. b_next (fresh_bufs i)) (\<lambda>i. b_prev (fresh_bufs i)) NBUF (rev [0..<NBUF]) NBUF"
    using d by simp
  then show ?thesis
    unfolding ring_def set_rev set_upt distinct_rev atLeast0LessThan by (intro conjI) (simp_all only: distinct_upt)
qed

lemma fresh_cache: "bio_inv (bio_with fresh_bufs)" "cached (bio_with fresh_bufs) ROOTDEV b = None"
  "brefs (bio_with fresh_bufs) ROOTDEV b = 0" "bowner (bio_with fresh_bufs) ROOTDEV b = None" "room (bio_with fresh_bufs) b"
proof -
  have "bio_unique fresh_bufs" unfolding bio_unique_def by simp
  then show "bio_inv (bio_with fresh_bufs)"
    unfolding bio_inv_def using fresh_ring by (auto simp: buf_ok_def simp del: upt_rec_numeral)
  show c: "cached (bio_with fresh_bufs) ROOTDEV b = None" for b
    unfolding cached_None by (simp add: holds_blk_def)
  then show "brefs (bio_with fresh_bufs) ROOTDEV b = 0" "bowner (bio_with fresh_bufs) ROOTDEV b = None" "room (bio_with fresh_bufs) b"
    by (simp_all add: brefs_def bowner_def room_def refd_def)
qed

theorem binit_establishes_cache_witness:
  "\<exists>t. binit (bio_with (\<lambda>_. zero_buf)) = Ok () t \<and> bio_inv t \<and> ring (bufs t) (rev [0..<NBUF])"
proof -
  have "\<forall>i < NBUF. b_valid (bufs (bio_with (\<lambda>_. zero_buf)) i) = 0 \<and> b_refcnt (bufs (bio_with (\<lambda>_. zero_buf)) i) = 0 \<and>
    b_dev (bufs (bio_with (\<lambda>_. zero_buf)) i) = 0" "\<forall>b. length (disk (bio_with (\<lambda>_. zero_buf)) b) = BSIZE"
    by (simp_all add: zero_buf_def)
  from binit_establishes_cache [OF this] show ?thesis by blast
qed

theorem bread_returns_block_witness:
  "\<exists>i t. bread ROOTDEV 5 (bio_with fresh_bufs) = Ok i t \<and> holdingsleep (BufLock i) t = Ok True t \<and> b_data (bufs t i) = sevens 5 \<and>
     b_refcnt (bufs t i) = 1"
proof -
  have "lblk (bio_with fresh_bufs) ROOTDEV 5 = sevens 5" using fresh_cache(2) [of 5] by (simp add: lblk_def)
  moreover have "brefs (bio_with fresh_bufs) ROOTDEV 5 < 2 ^ 32 - 1" by (simp add: fresh_cache)
  from bread_returns_block [OF bio_with_sel(4) fresh_cache(1,4) this] fresh_cache(5) [of 5]
  obtain i t where "bread ROOTDEV 5 (bio_with fresh_bufs) = Ok i t" "holdingsleep (BufLock i) t = Ok True t"
    "b_data (bufs t i) = lblk (bio_with fresh_bufs) ROOTDEV 5"
    "unat (b_refcnt (bufs t i)) = Suc (brefs (bio_with fresh_bufs) ROOTDEV 5)" by blast
  moreover from this(4) have "b_refcnt (bufs t i) = 1" by (simp add: fresh_cache word_unat_eq_iff)
  ultimately show ?thesis by auto
qed

theorem lru_replacement_witness:
  "\<exists>t u. bread ROOTDEV 5 (bio_with fresh_bufs) = Ok 0 t \<and> brelse 0 t = Ok () u \<and> ring (bufs u) (0 # remove1 0 (rev [0..<NBUF]))"
proof -
  have "lru_unused (bufs (bio_with fresh_bufs)) (rev [0..<NBUF]) = Some 0"
    by (simp add: lru_unused_def upt_conv_Cons)
  moreover have "ring (bufs (bio_with fresh_bufs)) (rev [0..<NBUF])" using fresh_ring by simp
  ultimately show ?thesis
    using lru_replacement [OF bio_with_sel(4) fresh_cache(1) _ fresh_cache(2)] by blast
qed

section \<open>Rules for code that uses the cache\<close>

text \<open>
  \<open>bst p pid s B R H\<close>: process \<open>p\<close> with the given pid runs, and the cache represents the contents
  \<open>B\<close>, the reference counts \<open>R\<close> and the lock owners \<open>H\<close>.
\<close>

definition bst :: "nat \<Rightarrow> int \<Rightarrow> 'z bio_state_scheme \<Rightarrow> (u32 \<Rightarrow> u8 list) \<Rightarrow> (u32 \<Rightarrow> nat) \<Rightarrow> (u32 \<Rightarrow> int option) \<Rightarrow> bool" where
  "bst p pid s B R H \<longleftrightarrow> runs_as p s \<and> p_pid (procs s p) = pid \<and> bio_inv s \<and>
     lblk s ROOTDEV = B \<and> brefs s ROOTDEV = R \<and> bowner s ROOTDEV = H"

text \<open>A run in which nothing but buffers, buffer locks, woken processes and the disk change.\<close>

definition io_step :: "'z bio_state_scheme \<Rightarrow> 'z bio_state_scheme \<Rightarrow> bool" where
  "io_step s t \<longleftrightarrow> (\<exists>d w. bio_step (s\<lparr>disk := d, written := w\<rparr>) t)"

lemma io_stepI:
  "bio_step s t \<Longrightarrow> io_step s t" "io_step s (s\<lparr>disk := d, written := w\<rparr>)"
  unfolding io_step_def
  by (rule exI [of _ "disk s"], rule exI [of _ "written s"], simp) (rule exI [of _ d], rule exI [of _ w], simp)

lemma bio_step_disk:
  assumes "bio_step s t"
  shows "bio_step (s\<lparr>disk := d, written := w\<rparr>) (t\<lparr>disk := d, written := w\<rparr>)"
proof -
  obtain ps ls bs where t: "t = s\<lparr>procs := ps, slocks := ls, bufs := bs\<rparr>" "woken (procs s) ps"
    "\<forall>k. ls (InodeLock k) = slocks s (InodeLock k)" using assms by (auto simp: bio_step_def)
  have "t\<lparr>disk := d, written := w\<rparr> = s\<lparr>disk := d, written := w\<rparr>\<lparr>procs := ps, slocks := ls, bufs := bs\<rparr>"
    unfolding t(1) by simp
  then show ?thesis
    unfolding bio_step_def using t(2,3) by (intro exI [of _ ps] exI [of _ ls] exI [of _ bs]) simp
qed

lemma io_step_trans [trans]:
  assumes "io_step s t" "io_step t u"
  shows "io_step s u"
proof -
  obtain d w where 1: "bio_step (s\<lparr>disk := d, written := w\<rparr>) t" using assms(1) by (auto simp: io_step_def)
  obtain e v where 2: "bio_step (t\<lparr>disk := e, written := v\<rparr>) u" using assms(2) by (auto simp: io_step_def)
  have "bio_step (s\<lparr>disk := e, written := v\<rparr>) (t\<lparr>disk := e, written := v\<rparr>)"
    using bio_step_disk [OF 1, where d = e and w = v] by simp
  from bio_step_trans [OF this 2] show ?thesis unfolding io_step_def by blast
qed

lemma bst_bread:
  assumes "bst p pid s B R H" "H b = None" "R b \<noteq> 0 \<or> card {b. R b \<noteq> 0} < NBUF" "R b < 2 ^ 32 - 1"
  obtains i t where "bread ROOTDEV b s = Ok i t" "bio_step s t" "bst p pid t B (R(b := Suc (R b))) (H(b := Some pid))"
    "has_buf t b i" "\<And>b' j. has_buf s b' j \<Longrightarrow> R b' \<noteq> 0 \<Longrightarrow> has_buf t b' j"
proof -
  have s: "runs_as p s" "bio_inv s" "p_pid (procs s p) = pid" "lblk s ROOTDEV = B" "brefs s ROOTDEV = R" "bowner s ROOTDEV = H"
    using assms(1) by (simp_all add: bst_def)
  have "bowner s ROOTDEV b = None" "room s b" "brefs s ROOTDEV b < 2 ^ 32 - 1"
    using assms(2-4) s by (simp_all add: room_def refd_def)
  from bread_ok [OF s(1,2) this] obtain i t where t: "bread ROOTDEV b s = Ok i t" "bio_step s t" "bio_inv t" "has_buf t b i"
    "lblk t ROOTDEV = lblk s ROOTDEV" "brefs t ROOTDEV = (brefs s ROOTDEV)(b := Suc (brefs s ROOTDEV b))"
    "bowner t ROOTDEV = (bowner s ROOTDEV)(b := Some (p_pid (procs s p)))"
    "\<And>b' j. has_buf s b' j \<Longrightarrow> brefs s ROOTDEV b' \<noteq> 0 \<Longrightarrow> has_buf t b' j" by blast
  then show thesis
    using s bio_step_same(1,2) [OF t(2)] by (intro that [of i t]) (simp_all add: bst_def)
qed

lemma bst_brelse:
  assumes "bst p pid s B R H" "has_buf s b i" "H b = Some pid" "R b = 1 \<Longrightarrow> B b = disk s b"
  obtains t where "brelse i s = Ok () t" "bio_step s t" "bst p pid t B (R(b := R b - 1)) (H(b := None))"
    "\<And>b' j. has_buf s b' j \<Longrightarrow> has_buf t b' j"
proof -
  have s: "runs_as p s" "bio_inv s" "p_pid (procs s p) = pid" "lblk s ROOTDEV = B" "brefs s ROOTDEV = R" "bowner s ROOTDEV = H"
    using assms(1) by (simp_all add: bst_def)
  have "cached s ROOTDEV b = Some i" "bowner s ROOTDEV b = Some (p_pid (procs s p))"
    "brefs s ROOTDEV b = 1 \<Longrightarrow> lblk s ROOTDEV b = disk s b"
    using assms(2-4) s by (simp_all add: has_buf_def)
  from brelse_ok [OF s(1,2) this] obtain t where t: "brelse i s = Ok () t" "bio_step s t" "bio_inv t" "cached t = cached s"
    "lblk t ROOTDEV = lblk s ROOTDEV" "brefs t ROOTDEV = (brefs s ROOTDEV)(b := brefs s ROOTDEV b - 1)"
    "bowner t ROOTDEV = (bowner s ROOTDEV)(b := None)" "\<And>j. b_valid (bufs t j) = b_valid (bufs s j)" by blast
  then show thesis
    using s bio_step_same(1,2) [OF t(2)] by (intro that [of t]) (simp_all add: bst_def has_buf_def)
qed

lemma bst_bwrite:
  assumes "bst p pid s B R H" "has_buf s b i" "H b = Some pid"
    "t = s\<lparr>disk := (disk s)(b := B b), written := written s @ [(b, B b)]\<rparr>"
  shows "bwrite i s = Ok () t" "bst p pid t B R H" "has_buf s b' j \<Longrightarrow> has_buf t b' j" "io_step s t"
proof -
  have s: "runs_as p s" "bio_inv s" "p_pid (procs s p) = pid" "lblk s ROOTDEV = B" "brefs s ROOTDEV = R" "bowner s ROOTDEV = H"
    using assms(1) by (simp_all add: bst_def)
  have o: "bowner s ROOTDEV b = Some (p_pid (procs s p))" using s assms(3) by simp
  note w = bwrite_ok [OF s(1,2) assms(2) o, of t]
  show "bwrite i s = Ok () t" using w(1) assms(4) s by simp
  show "bst p pid t B R H" using w(2-) assms(4) s by (simp add: bst_def runs_as_def)
  show "has_buf s b' j \<Longrightarrow> has_buf t b' j" using w(3) assms(4) s by (simp add: has_buf_def)
  show "io_step s t" unfolding assms(4) by (rule io_stepI)
qed

lemma bst_set:
  assumes "bst p pid s B R H" "has_buf s b i" "R b \<noteq> 0" "length x = BSIZE"
    "t = s\<lparr>bufs := (bufs s)(i := (bufs s i)\<lparr>b_data := x\<rparr>)\<rparr>"
  shows "bst p pid t (B(b := x)) R H" "has_buf s b' j \<Longrightarrow> has_buf t b' j" "bio_step s t"
proof -
  have s: "runs_as p s" "bio_inv s" "p_pid (procs s p) = pid" "lblk s ROOTDEV = B" "brefs s ROOTDEV = R" "bowner s ROOTDEV = H"
    using assms(1) by (simp_all add: bst_def)
  have "brefs s ROOTDEV b \<noteq> 0" using s assms(3) by simp
  note e = set_data_ok [OF s(2) assms(2) this assms(4,5)]
  show "bst p pid t (B(b := x)) R H" using e s assms(5) by (simp add: bst_def runs_as_def)
  show "has_buf s b' j \<Longrightarrow> has_buf t b' j" using e(3) assms(5) by (auto simp: has_buf_def)
  show "bio_step s t" by (rule e(7))
qed

lemma bst_bunpin:
  assumes "bst p pid s B R H" "has_buf s b i" "R b > 1"
  obtains t where "bunpin i s = Ok () t" "bio_step s t" "bst p pid t B (R(b := R b - 1)) H"
    "\<And>b' j. has_buf s b' j \<Longrightarrow> has_buf t b' j"
proof -
  have s: "runs_as p s" "bio_inv s" "p_pid (procs s p) = pid" "lblk s ROOTDEV = B" "brefs s ROOTDEV = R" "bowner s ROOTDEV = H"
    using assms(1) by (simp_all add: bst_def)
  have "cached s ROOTDEV b = Some i" "brefs s ROOTDEV b > 1" using assms(2,3) s by (simp_all add: has_buf_def)
  from bunpin_ok [OF s(1,2) this] obtain t where t: "bunpin i s = Ok () t" "bio_step s t" "bio_inv t" "cached t = cached s"
    "lblk t ROOTDEV = lblk s ROOTDEV" "brefs t ROOTDEV = (brefs s ROOTDEV)(b := brefs s ROOTDEV b - 1)"
    "bowner t ROOTDEV = bowner s ROOTDEV" "\<And>j. b_valid (bufs t j) = b_valid (bufs s j)" by blast
  then show thesis
    using s bio_step_same(1,2) [OF t(2)] by (intro that [of t]) (simp_all add: bst_def has_buf_def)
qed

lemma bst_data: "bst p pid s B R H \<Longrightarrow> has_buf s b i \<Longrightarrow> b_data (bufs s i) = B b"
  using has_buf_data by (auto simp: bst_def)

lemma bst_length: "bst p pid s B R H \<Longrightarrow> length (B b) = BSIZE"
  using lblk_length [of s ROOTDEV b] by (auto simp: bst_def)

end
