(* ===== verification/Xv6_Log.thy ===== *)
theory Xv6_Log
  imports Xv6_Bio
begin

text \<open>
  The write-ahead log: \<^verbatim>\<open>kernel/log.c\<close>, with \<^verbatim>\<open>struct superblock\<close> of \<^verbatim>\<open>kernel/fs.h\<close>. Accesses to
  \<^verbatim>\<open>log.lh.block\<close> outside of the array, which C leaves undefined, end in a panic of the model.

  The main result is that \<open>commit\<close> is atomic: \<open>written\<close> lists the block writes of a run in
  order, so the disk after a crash is the result of a prefix of it, and \<open>recover_from_log\<close> at the
  next boot turns each of those into either the disk before the transaction or the one after it.
\<close>

section \<open>State and operations\<close>

record superblock =
  sb_magic :: u32
  sb_size :: u32
  sb_nblocks :: u32
  sb_ninodes :: u32
  sb_nlog :: u32
  sb_logstart :: u32
  sb_inodestart :: u32
  sb_bmapstart :: u32

record logheader =
  lh_n :: int
  lh_block :: "u32 list"

record log_state = bio_state +
  log_start :: u32
  log_size :: int
  log_outstanding :: int
  log_committing :: int
  log_dev :: u32
  log_lh :: logheader

definition set_lh :: "(logheader \<Rightarrow> logheader) \<Rightarrow> ('z log_state_scheme, unit) kern" where
  "set_lh f = modify (\<lambda>s. s\<lparr>log_lh := f (log_lh s)\<rparr>)"

definition get_lh :: "(logheader \<Rightarrow> 'a) \<Rightarrow> ('z log_state_scheme, 'a) kern" where
  "get_lh f = gets (\<lambda>s. f (log_lh s))"

definition lh_at :: "nat \<Rightarrow> ('z log_state_scheme, u32) kern" where
  "lh_at i = bind (get_lh lh_block) (\<lambda>bs. if i < length bs then ret (bs ! i) else undefined_behaviour)"

text \<open>\<^verbatim>\<open>memmove(to->data, from->data, BSIZE)\<close>.\<close>

definition copy_data :: "nat \<Rightarrow> nat \<Rightarrow> ('z bio_state_scheme, unit) kern" where
  "copy_data to from = bind (get_buf from b_data) (\<lambda>d. set_buf to (\<lambda>b. b\<lparr>b_data := d\<rparr>))"

definition install_body :: "bool \<Rightarrow> nat \<Rightarrow> ('z log_state_scheme, unit) kern" where
  "install_body recovering tail =
     bind (gets log_dev) (\<lambda>dev.
     bind (gets log_start) (\<lambda>start.
     bind (bread dev (start + of_nat tail + 1)) (\<lambda>lbuf.
     bind (lh_at tail) (\<lambda>home.
     bind (bread dev home) (\<lambda>dbuf. block [
       copy_data dbuf lbuf,
       bwrite dbuf,
       only_if (\<not> recovering) (bunpin dbuf),
       brelse lbuf,
       brelse dbuf])))))"

definition install_trans :: "bool \<Rightarrow> ('z log_state_scheme, unit) kern" where
  "install_trans recovering =
     bind (get_lh lh_n) (\<lambda>n. block (map (install_body recovering) [0..<nat n]))"

text \<open>The header block: \<^verbatim>\<open>n\<close> at offset 0, \<^verbatim>\<open>block[i]\<close> at \<open>4 + 4 * i\<close>.\<close>

definition hb_n :: "u8 list \<Rightarrow> int" where
  "hb_n d = sint (get32 d 0)"

definition hb_block :: "u8 list \<Rightarrow> nat \<Rightarrow> u32" where
  "hb_block d i = get32 d (4 + 4 * i)"

primrec put_blocks :: "nat \<Rightarrow> u32 list \<Rightarrow> u8 list \<Rightarrow> u8 list" where
  "put_blocks i [] d = d"
| "put_blocks i (b # bs) d = put_blocks (Suc i) bs (put32 d (4 + 4 * i) b)"

definition read_head :: "('z log_state_scheme, unit) kern" where
  "read_head =
     bind (gets log_dev) (\<lambda>dev.
     bind (gets log_start) (\<lambda>start.
     bind (bread dev start) (\<lambda>b.
     bind (get_buf b b_data) (\<lambda>d. block [
       set_lh (\<lambda>h. h\<lparr>lh_n := hb_n d\<rparr>),
       (if hb_n d > LOGSIZE then undefined_behaviour
        else set_lh (\<lambda>h. h\<lparr>lh_block := map (hb_block d) [0..<nat (hb_n d)] @ drop (nat (hb_n d)) (lh_block h)\<rparr>)),
       brelse b]))))"

definition write_head :: "('z log_state_scheme, unit) kern" where
  "write_head =
     bind (gets log_dev) (\<lambda>dev.
     bind (gets log_start) (\<lambda>start.
     bind (bread dev start) (\<lambda>b.
     bind (get_lh id) (\<lambda>h. block [
       set_buf b (\<lambda>bf. bf\<lparr>b_data := put32 (b_data bf) 0 (of_int (lh_n h))\<rparr>),
       (if lh_n h > int (length (lh_block h)) then undefined_behaviour
        else set_buf b (\<lambda>bf. bf\<lparr>b_data := put_blocks 0 (take (nat (lh_n h)) (lh_block h)) (b_data bf)\<rparr>)),
       bwrite b,
       brelse b]))))"

definition recover_from_log :: "('z log_state_scheme, unit) kern" where
  "recover_from_log = block [
     read_head,
     install_trans True,
     set_lh (\<lambda>h. h\<lparr>lh_n := 0\<rparr>),
     write_head]"

definition initlog :: "u32 \<Rightarrow> superblock \<Rightarrow> ('z log_state_scheme, unit) kern" where
  "initlog dev sb = block [
     panic_if (4 + 4 * LOGSIZE \<ge> (BSIZE :: nat)) ''initlog: too big logheader'',
     on_lk (initlock LogLock ''log''),
     modify (\<lambda>s. s\<lparr>log_start := sb_logstart sb\<rparr>),
     modify (\<lambda>s. s\<lparr>log_size := sint (sb_nlog sb)\<rparr>),
     modify (\<lambda>s. s\<lparr>log_dev := dev\<rparr>),
     recover_from_log]"

definition write_log_body :: "nat \<Rightarrow> ('z log_state_scheme, unit) kern" where
  "write_log_body tail =
     bind (gets log_dev) (\<lambda>dev.
     bind (gets log_start) (\<lambda>start.
     bind (bread dev (start + of_nat tail + 1)) (\<lambda>to.
     bind (lh_at tail) (\<lambda>home.
     bind (bread dev home) (\<lambda>from. block [
       copy_data to from,
       bwrite to,
       brelse from,
       brelse to])))))"

definition write_log :: "('z log_state_scheme, unit) kern" where
  "write_log = bind (get_lh lh_n) (\<lambda>n. block (map write_log_body [0..<nat n]))"

definition commit :: "('z log_state_scheme, unit) kern" where
  "commit =
     bind (get_lh lh_n) (\<lambda>n. only_if (n > 0) (block [
       write_log,
       write_head,
       install_trans False,
       set_lh (\<lambda>h. h\<lparr>lh_n := 0\<rparr>),
       write_head]))"

text \<open>The loop of \<open>begin_op\<close> with \<^verbatim>\<open>log.lock\<close> held; \<open>begin_op_return\<close> goes on after a sleep.\<close>

definition begin_op_loop :: "('z log_state_scheme, unit) kern" where
  "begin_op_loop =
     bind (gets id) (\<lambda>s.
       if log_committing s \<noteq> 0 then sleep ChanLog LogLock
       else if lh_n (log_lh s) + (log_outstanding s + 1) * MAXOPBLOCKS > LOGSIZE then sleep ChanLog LogLock
       else block [
         modify (\<lambda>s. s\<lparr>log_outstanding := log_outstanding s + 1\<rparr>),
         on_lk (release LogLock)])"

definition begin_op :: "('z log_state_scheme, unit) kern" where
  "begin_op = block [on_lk (acquire LogLock), begin_op_loop]"

definition begin_op_return :: "bool \<Rightarrow> nat \<Rightarrow> ('z log_state_scheme, unit) kern" where
  "begin_op_return ie p = block [sleep_return ie p LogLock, begin_op_loop]"

definition end_op :: "('z log_state_scheme, unit) kern" where
  "end_op =
     bind (on_lk (acquire LogLock)) (\<lambda>_.
     bind (modify (\<lambda>s. s\<lparr>log_outstanding := log_outstanding s - 1\<rparr>)) (\<lambda>_.
     bind (gets log_committing) (\<lambda>c.
     bind (panic_if (c \<noteq> 0) ''log.committing'') (\<lambda>_.
     bind (gets log_outstanding) (\<lambda>n.
     bind (if n = 0 then modify (\<lambda>s. s\<lparr>log_committing := 1\<rparr>) else wakeup ChanLog) (\<lambda>_.
     bind (on_lk (release LogLock)) (\<lambda>_.
       only_if (n = 0) (block [
         commit,
         on_lk (acquire LogLock),
         modify (\<lambda>s. s\<lparr>log_committing := 0\<rparr>),
         wakeup ChanLog,
         on_lk (release LogLock)]))))))))"

text \<open>The search for an absorbed block in \<open>log_write\<close>: the index where the loop ends.\<close>

primrec log_slot :: "u32 list \<Rightarrow> u32 \<Rightarrow> nat" where
  "log_slot [] b = 0"
| "log_slot (x # xs) b = (if x = b then 0 else Suc (log_slot xs b))"

definition log_write :: "nat \<Rightarrow> ('z log_state_scheme, unit) kern" where
  "log_write b =
     bind (on_lk (acquire LogLock)) (\<lambda>_.
     bind (gets id) (\<lambda>s.
     bind (panic_if (lh_n (log_lh s) \<ge> LOGSIZE \<or> lh_n (log_lh s) \<ge> log_size s - 1) ''too big a transaction'') (\<lambda>_.
     bind (panic_if (log_outstanding s < 1) ''log_write outside of trans'') (\<lambda>_.
     bind (get_buf b b_blockno) (\<lambda>no.
     bind (ret (log_slot (take (nat (lh_n (log_lh s))) (lh_block (log_lh s))) no)) (\<lambda>i. block [
       set_lh (\<lambda>h. h\<lparr>lh_block := (lh_block h)[i := no]\<rparr>),
       only_if (int i = lh_n (log_lh s)) (block [
         bpin b,
         set_lh (\<lambda>h. h\<lparr>lh_n := lh_n h + 1\<rparr>)]),
       on_lk (release LogLock)]))))))"

section \<open>Copying blocks between log and home\<close>

lemma lh_run [kern_simps, simp]:
  "set_lh f s = Ok () (s\<lparr>log_lh := f (log_lh s)\<rparr>)" "get_lh g s = Ok (g (log_lh s)) s"
  "i < length (lh_block (log_lh s)) \<Longrightarrow> lh_at i s = Ok (lh_block (log_lh s) ! i) s"
  by (simp_all add: set_lh_def get_lh_def lh_at_def bind_run)

lemma copy_data_run [kern_simps, simp]:
  "copy_data i j s = Ok () (s\<lparr>bufs := (bufs s)(i := (bufs s i)\<lparr>b_data := b_data (bufs s j)\<rparr>)\<rparr>)"
  by (simp add: copy_data_def bind_run)

lemma io_step_log:
  fixes s :: "'z log_state_scheme"
  assumes "io_step s t"
  shows "log_start t = log_start s" "log_dev t = log_dev s" "log_lh t = log_lh s" "log_size t = log_size s"
    "log_outstanding t = log_outstanding s" "log_committing t = log_committing s"
  using assms by (auto simp: io_step_def bio_step_def)

lemmas bio_step_log = io_step_log [OF io_stepI(1)]

lemma write_log_body_ok:
  fixes s :: "'z log_state_scheme"
  assumes b: "bst p pid s B R (\<lambda>_. None)" and dev: "log_dev s = ROOTDEV"
    and k: "k < length (lh_block (log_lh s))" and home: "home = lh_block (log_lh s) ! k"
    and lb: "lb = log_start s + of_nat k + 1" and ne: "home \<noteq> lb"
    and R: "R home = 1" "R lb = 0" "card {b. R b \<noteq> 0} < NBUF"
  obtains t where "write_log_body k s = Ok () t" "io_step s t" "bst p pid t (B(lb := B home)) R (\<lambda>_. None)"
    "disk t = (disk s)(lb := B home)" "written t = written s @ [(lb, B home)]"
proof -
  obtain i s1 where 1: "bread ROOTDEV lb s = Ok i s1" "bio_step s s1"
      "bst p pid s1 B (R(lb := Suc (R lb))) ((\<lambda>_. None)(lb := Some pid))" "has_buf s1 lb i"
    by (rule bst_bread [OF b, of lb]) (use R in simp_all)
  obtain j s2 where 2: "bread ROOTDEV home s1 = Ok j s2" "bio_step s1 s2"
      "bst p pid s2 B ((R(lb := Suc (R lb)))(home := Suc (Suc 0))) ((\<lambda>_. None)(lb := Some pid, home := Some pid))"
      "has_buf s2 home j" "has_buf s2 lb i"
    by (rule bst_bread [OF 1(3), of home]) (use R ne 1(4) in simp_all)
  let ?R2 = "(R(lb := Suc (R lb)))(home := Suc (Suc 0))" and ?H2 = "(\<lambda>_. None)(lb := Some pid, home := Some pid)"
  define s3 where "s3 = s2\<lparr>bufs := (bufs s2)(i := (bufs s2 i)\<lparr>b_data := B home\<rparr>)\<rparr>"
  have "?R2 lb \<noteq> 0" using R ne by simp
  note e3 = bst_set [OF 2(3) 2(5) this bst_length [OF b, of home] s3_def]
  define s4 where "s4 = s3\<lparr>disk := (disk s3)(lb := (B(lb := B home)) lb), written := written s3 @ [(lb, (B(lb := B home)) lb)]\<rparr>"
  have "?H2 lb = Some pid" using ne by simp
  note e4 = bst_bwrite [OF e3(1) e3(2) [OF 2(5)] this s4_def]
  obtain s5 where 5: "brelse j s4 = Ok () s5" "bio_step s4 s5"
      "bst p pid s5 (B(lb := B home)) (?R2(home := ?R2 home - 1)) (?H2(home := None))"
      "\<And>b' j. has_buf s4 b' j \<Longrightarrow> has_buf s5 b' j"
    by (rule bst_brelse [OF e4(2) e4(3) [OF e3(2) [OF 2(4)]]]) (simp_all add: fun_upd_def)
  let ?R5 = "?R2(home := ?R2 home - 1)" and ?H5 = "?H2(home := None)"
  have d: "disk s4 = (disk s)(lb := B home)" "written s4 = written s @ [(lb, B home)]"
    using bio_step_same(3,4) [OF 1(2)] bio_step_same(3,4) [OF 2(2)] by (simp_all add: s4_def s3_def)
  obtain s6 where 6: "brelse i s5 = Ok () s6" "bio_step s5 s6"
      "bst p pid s6 (B(lb := B home)) (?R5(lb := ?R5 lb - 1)) (?H5(lb := None))"
    by (rule bst_brelse [OF 5(3) 5(4) [OF e4(3) [OF e3(2) [OF 2(5)]]]])
      (use ne d bio_step_same(3) [OF 5(2)] in simp_all)
  have "?R5(lb := ?R5 lb - 1) = R" "?H5(lb := None) = (\<lambda>_. None)" using R by (auto simp: fun_eq_iff)
  with 6(3) have b6: "bst p pid s6 (B(lb := B home)) R (\<lambda>_. None)" by (simp only:)
  have io: "io_step s s4"
    by (rule io_step_trans [OF io_stepI(1) [OF bio_step_trans [OF bio_step_trans [OF 1(2) 2(2)] e3(3)]] e4(4)])
  then have io6: "io_step s s6" by (rule io_step_trans [OF _ io_stepI(1) [OF bio_step_trans [OF 5(2) 6(2)]]])
  have "write_log_body k s = Ok () s6"
    using 1(1) 2(1) 5(1) 6(1) e4(1) dev k home lb bst_data [OF 2(3,4)] bio_step_log [OF 1(2)]
    by (simp add: write_log_body_def bind_run block_run s3_def)
  then show thesis
    using io6 b6 d bio_step_same(3,4) [OF 5(2)] bio_step_same(3,4) [OF 6(2)] by (intro that [of s6]) simp_all
qed

lemma install_body_ok:
  fixes s :: "'z log_state_scheme"
  assumes b: "bst p pid s B R (\<lambda>_. None)" and dev: "log_dev s = ROOTDEV"
    and k: "k < length (lh_block (log_lh s))" and home: "home = lh_block (log_lh s) ! k"
    and lb: "lb = log_start s + of_nat k + 1" and ne: "home \<noteq> lb"
    and R: "R home = (if recovering then 0 else 1)" "R lb = 0" "card {b. R b \<noteq> 0} < NBUF" "recovering \<Longrightarrow> card {b. R b \<noteq> 0} < NBUF - 1"
    and clean: "B lb = disk s lb"
  obtains t where "install_body recovering k s = Ok () t" "io_step s t" "bst p pid t (B(home := B lb)) (R(home := 0)) (\<lambda>_. None)"
    "disk t = (disk s)(home := B lb)" "written t = written s @ [(home, B lb)]"
proof -
  obtain i s1 where 1: "bread ROOTDEV lb s = Ok i s1" "bio_step s s1"
      "bst p pid s1 B (R(lb := Suc (R lb))) ((\<lambda>_. None)(lb := Some pid))" "has_buf s1 lb i"
    by (rule bst_bread [OF b, of lb]) (use R in simp_all)
  let ?R1 = "R(lb := Suc (R lb))"
  have "{b. ?R1 b \<noteq> 0} \<subseteq> insert lb {b. R b \<noteq> 0}" by auto
  then have "card {b. ?R1 b \<noteq> 0} \<le> Suc (card {b. R b \<noteq> 0})"
    using card_mono [of "insert lb {b. R b \<noteq> 0}" "{b. ?R1 b \<noteq> 0}"] R(2) by simp
  then have c1: "?R1 home \<noteq> 0 \<or> card {b. ?R1 b \<noteq> 0} < NBUF" using R(1,4) ne by (cases recovering) auto
  obtain j s2 where 2: "bread ROOTDEV home s1 = Ok j s2" "bio_step s1 s2"
      "bst p pid s2 B (?R1(home := Suc (?R1 home))) ((\<lambda>_. None)(lb := Some pid, home := Some pid))"
      "has_buf s2 home j" "has_buf s2 lb i"
    by (rule bst_bread [OF 1(3) _ c1]) (use R ne 1(4) in \<open>simp_all add: fun_upd_def\<close>)
  let ?R2 = "?R1(home := Suc (?R1 home))" and ?H2 = "(\<lambda>_. None)(lb := Some pid, home := Some pid)"
  define s3 where "s3 = s2\<lparr>bufs := (bufs s2)(j := (bufs s2 j)\<lparr>b_data := B lb\<rparr>)\<rparr>"
  have "?R2 home \<noteq> 0" by simp
  note e3 = bst_set [OF 2(3) 2(4) this bst_length [OF b, of lb] s3_def]
  define s4 where "s4 = s3\<lparr>disk := (disk s3)(home := (B(home := B lb)) home), written := written s3 @ [(home, (B(home := B lb)) home)]\<rparr>"
  have "?H2 home = Some pid" by simp
  note e4 = bst_bwrite [OF e3(1) e3(2) [OF 2(4)] this s4_def]
  have d: "disk s4 = (disk s)(home := B lb)" "written s4 = written s @ [(home, B lb)]"
    using bio_step_same(3,4) [OF 1(2)] bio_step_same(3,4) [OF 2(2)] by (simp_all add: s4_def s3_def)
  let ?R5 = "?R2(home := 1)"
  obtain s5 where 5: "only_if (\<not> recovering) (bunpin j) s4 = Ok () s5" "bio_step s4 s5" "bst p pid s5 (B(home := B lb)) ?R5 ?H2"
      "\<And>b' j. has_buf s4 b' j \<Longrightarrow> has_buf s5 b' j"
  proof (cases recovering)
    case True
    then have "?R5 = ?R2" using R(1) ne by (auto simp: fun_eq_iff)
    with e4(2) have "bst p pid s4 (B(home := B lb)) ?R5 ?H2" by (simp only:)
    with True show thesis by (intro that [of s4]) simp_all
  next
    case False
    then have "?R2 home > 1" using R(1) ne by simp
    from bst_bunpin [OF e4(2) e4(3) [OF e3(2) [OF 2(4)]] this] obtain t where t: "bunpin j s4 = Ok () t" "bio_step s4 t"
      "bst p pid t (B(home := B lb)) (?R2(home := ?R2 home - 1)) ?H2" "\<And>b' j. has_buf s4 b' j \<Longrightarrow> has_buf t b' j" by blast
    have "?R2(home := ?R2 home - 1) = ?R5" using False R(1) ne by simp
    with t(3) have "bst p pid t (B(home := B lb)) ?R5 ?H2" by (simp only:)
    with t False show thesis by (intro that [of t]) simp_all
  qed
  have hb: "has_buf s5 lb i" "has_buf s5 home j" using 5(4) e4(3) e3(2) 2(4,5) by blast+
  obtain s6 where 6: "brelse i s5 = Ok () s6" "bio_step s5 s6"
      "bst p pid s6 (B(home := B lb)) (?R5(lb := ?R5 lb - 1)) (?H2(lb := None))" "\<And>b' j. has_buf s5 b' j \<Longrightarrow> has_buf s6 b' j"
    by (rule bst_brelse [OF 5(3) hb(1)]) (use ne d clean bio_step_same(3) [OF 5(2)] in simp_all)
  let ?R6 = "?R5(lb := ?R5 lb - 1)" and ?H6 = "?H2(lb := None)"
  obtain s7 where 7: "brelse j s6 = Ok () s7" "bio_step s6 s7"
      "bst p pid s7 (B(home := B lb)) (?R6(home := ?R6 home - 1)) (?H6(home := None))"
    by (rule bst_brelse [OF 6(3) 6(4) [OF hb(2)]])
      (use ne d bio_step_same(3) [OF 5(2)] bio_step_same(3) [OF 6(2)] in simp_all)
  have "?R6(home := ?R6 home - 1) = R(home := 0)" "?H6(home := None) = (\<lambda>_. None)" using R(2) ne by (auto simp: fun_eq_iff)
  with 7(3) have b7: "bst p pid s7 (B(home := B lb)) (R(home := 0)) (\<lambda>_. None)" by (simp only:)
  have io: "io_step s s4"
    by (rule io_step_trans [OF io_stepI(1) [OF bio_step_trans [OF bio_step_trans [OF 1(2) 2(2)] e3(3)]] e4(4)])
  then have io7: "io_step s s7"
    by (rule io_step_trans [OF _ io_stepI(1) [OF bio_step_trans [OF bio_step_trans [OF 5(2) 6(2)] 7(2)]]])
  have "install_body recovering k s = Ok () s7"
    using 1(1) 2(1) 5(1) 6(1) 7(1) e4(1) dev k home lb bst_data [OF 2(3,5)] bio_step_log [OF 1(2)]
    by (simp add: install_body_def bind_run block_run s3_def)
  then show thesis
    using io7 b7 d bio_step_same(3,4) [OF 5(2)] bio_step_same(3,4) [OF 6(2)] bio_step_same(3,4) [OF 7(2)]
    by (intro that [of s7]) simp_all
qed

section \<open>The header block and replaying writes\<close>

definition mk_head :: "u32 list \<Rightarrow> u8 list \<Rightarrow> u8 list" where
  "mk_head bl d = put_blocks 0 bl (put32 d 0 (of_nat (length bl)))"

lemma length_put_blocks [simp]:
  "4 + 4 * (i + length bl) \<le> length d \<Longrightarrow> length (put_blocks i bl d) = length d"
  by (induction bl arbitrary: i d) simp_all

lemma put_blocks_before:
  "4 + 4 * (i + length bl) \<le> length d \<Longrightarrow> j + 4 \<le> 4 + 4 * i \<Longrightarrow> get32 (put_blocks i bl d) j = get32 d j"
  by (induction bl arbitrary: i d) (simp_all add: get_put_other)

lemma put_blocks_at:
  "4 + 4 * (i + length bl) \<le> length d \<Longrightarrow> j < length bl \<Longrightarrow> get32 (put_blocks i bl d) (4 + 4 * (i + j)) = bl ! j"
proof (induction bl arbitrary: i d j)
  case (Cons b bl)
  let ?d = "put32 d (4 + 4 * i) b"
  have pre: "4 + 4 * (Suc i + length bl) \<le> length ?d" using Cons.prems by simp
  show ?case
  proof (cases j)
    case 0
    with put_blocks_before [OF pre, of "4 + 4 * i"] Cons.prems show ?thesis by simp
  next
    case (Suc k)
    with Cons.IH [OF pre, of k] Cons.prems show ?thesis by simp
  qed
qed simp

lemma mk_head_get:
  assumes "length d = BSIZE" "length bl \<le> LOGSIZE"
  shows "length (mk_head bl d) = BSIZE" "hb_n (mk_head bl d) = int (length bl)"
    "i < length bl \<Longrightarrow> hb_block (mk_head bl d) i = bl ! i"
proof -
  have p: "4 + 4 * (0 + length bl) \<le> length (put32 d 0 (of_nat (length bl)))" using assms by simp
  show "length (mk_head bl d) = BSIZE" unfolding mk_head_def length_put_blocks [OF p] using assms by simp
  have "get32 (mk_head bl d) 0 = of_nat (length bl)"
    unfolding mk_head_def using put_blocks_before [OF p, of 0] assms by simp
  moreover have "sint (of_nat (length bl) :: u32) = int (length bl)"
    using assms(2) by (intro sint_of_nat_small) simp
  ultimately show "hb_n (mk_head bl d) = int (length bl)" by (simp add: hb_n_def)
  show "hb_block (mk_head bl d) i = bl ! i" if "i < length bl"
    unfolding hb_block_def mk_head_def using put_blocks_at [OF p that] by simp
qed

definition replay :: "(u32 \<times> 'a) list \<Rightarrow> (u32 \<Rightarrow> 'a) \<Rightarrow> u32 \<Rightarrow> 'a" where
  "replay ws d = fold (\<lambda>(b, x) d. d(b := x)) ws d"

lemma replay_simps [simp]:
  "replay [] d = d" "replay ((b, x) # ws) d = replay ws (d(b := x))" "replay (ws @ vs) d = replay vs (replay ws d)"
  by (simp_all add: replay_def)

lemma replay_other: "b \<notin> fst ` set ws \<Longrightarrow> replay ws d b = d b"
  by (induction ws arbitrary: d) auto

lemma replay_map_other:
  assumes "\<forall>i < n. b \<noteq> f i"
  shows "replay (map (\<lambda>i. (f i, g i)) [0..<n]) d b = d b"
  using assms by (intro replay_other) auto

lemma replay_map:
  assumes "inj_on f {..<n}" "i < n"
  shows "replay (map (\<lambda>i. (f i, g i)) [0..<n]) d (f i) = g i"
  using assms
proof (induction n)
  case (Suc n)
  have inj: "inj_on f {..<n}" using Suc.prems(1) by (rule inj_on_subset) auto
  show ?case
  proof (cases "i = n")
    case False
    then have "f i \<noteq> f n" "i < n" using Suc.prems by (auto dest: inj_onD)
    with Suc.IH [OF inj] show ?thesis by simp
  qed simp
qed simp

section \<open>Committing\<close>

definition lhome :: "'z log_state_scheme \<Rightarrow> u32 list" where
  "lhome s = take (nat (lh_n (log_lh s))) (lh_block (log_lh s))"

definition in_log :: "u32 \<Rightarrow> u32 \<Rightarrow> bool" where
  "in_log st b \<longleftrightarrow> (\<exists>i < LOGSIZE. b = st + of_nat i)"

definition lblock :: "u32 \<Rightarrow> nat \<Rightarrow> u32" where
  "lblock st i = st + of_nat i + 1"

lemma of_nat_u32_inj: "i < 2 ^ 32 \<Longrightarrow> j < 2 ^ 32 \<Longrightarrow> (of_nat i :: u32) = of_nat j \<longleftrightarrow> i = j"
  by (simp add: word_unat_eq_iff unat_of_nat)

lemma in_log_iff: "in_log st b \<longleftrightarrow> unat (b - st) < LOGSIZE"
proof
  assume "in_log st b"
  then show "unat (b - st) < LOGSIZE" by (auto simp: in_log_def unat_of_nat)
next
  assume "unat (b - st) < LOGSIZE"
  then show "in_log st b" unfolding in_log_def by (intro exI [of _ "unat (b - st)"]) simp
qed

lemma lblock_facts:
  "Suc i < LOGSIZE \<Longrightarrow> in_log st (lblock st i)" "in_log st st" "inj_on (lblock st) {..<LOGSIZE}"
  "i < LOGSIZE \<Longrightarrow> lblock st i \<noteq> st"
proof -
  show "in_log st (lblock st i)" if "Suc i < LOGSIZE"
    unfolding in_log_def lblock_def using that by (intro exI [of _ "Suc i"]) simp
  show "in_log st st" unfolding in_log_def by (intro exI [of _ 0]) simp
  show "inj_on (lblock st) {..<LOGSIZE}"
  proof (rule inj_onI)
    fix i j assume ij: "i \<in> {..<LOGSIZE :: nat}" "j \<in> {..<LOGSIZE :: nat}" and e: "lblock st i = lblock st j"
    have "i < LOGSIZE" "j < LOGSIZE" using ij unfolding lessThan_iff by blast+
    moreover from e have "(of_nat i :: u32) = of_nat j" by (simp add: lblock_def)
    ultimately show "i = j" using of_nat_u32_inj [of i j] by simp
  qed
  show "lblock st i \<noteq> st" if "i < LOGSIZE"
  proof
    assume "lblock st i = st"
    then have "st + (of_nat i + 1) = st + 0" by (simp add: lblock_def add.assoc)
    then have "of_nat i + 1 = (0 :: u32)" by (simp only: add_left_cancel)
    then have "(of_nat (Suc i) :: u32) = of_nat 0" by (simp add: add.commute)
    then show False using of_nat_u32_inj [of "Suc i" 0] that by simp
  qed
qed

lemma write_head_ok:
  fixes s :: "'z log_state_scheme"
  assumes b: "bst p pid s B R (\<lambda>_. None)" and dev: "log_dev s = ROOTDEV" and st: "st = log_start s"
    and R: "R st = 0" "card {b. R b \<noteq> 0} < NBUF"
    and n: "0 \<le> lh_n (log_lh s)" "lh_n (log_lh s) \<le> int (length (lh_block (log_lh s)))" "length (lh_block (log_lh s)) \<le> LOGSIZE"
    and hdb: "hdb = mk_head (lhome s) (B st)"
  obtains t where "write_head s = Ok () t" "io_step s t" "bst p pid t (B(st := hdb)) R (\<lambda>_. None)"
    "disk t = (disk s)(st := hdb)" "written t = written s @ [(st, hdb)]"
proof -
  obtain i s1 where 1: "bread ROOTDEV st s = Ok i s1" "bio_step s s1"
      "bst p pid s1 B (R(st := Suc (R st))) ((\<lambda>_. None)(st := Some pid))" "has_buf s1 st i"
    by (rule bst_bread [OF b, of st]) (use R in simp_all)
  let ?R = "R(st := Suc (R st))" and ?H = "(\<lambda>_. None)(st := Some pid)"
  have len: "length (lhome s) = nat (lh_n (log_lh s))" using n by (simp add: lhome_def)
  have hl: "length hdb = BSIZE" unfolding hdb using n len bst_length [OF b, of st] by (intro mk_head_get) simp_all
  define s2 where "s2 = s1\<lparr>bufs := (bufs s1)(i := (bufs s1 i)\<lparr>b_data := hdb\<rparr>)\<rparr>"
  have "?R st \<noteq> 0" by simp
  note e2 = bst_set [OF 1(3,4) this hl s2_def]
  define s3 where "s3 = s2\<lparr>disk := (disk s2)(st := (B(st := hdb)) st), written := written s2 @ [(st, (B(st := hdb)) st)]\<rparr>"
  have "?H st = Some pid" by simp
  note e3 = bst_bwrite [OF e2(1) e2(2) [OF 1(4)] this s3_def]
  have d: "disk s3 = (disk s)(st := hdb)" "written s3 = written s @ [(st, hdb)]"
    using bio_step_same(3,4) [OF 1(2)] by (simp_all add: s3_def s2_def)
  obtain s4 where 4: "brelse i s3 = Ok () s4" "bio_step s3 s4"
      "bst p pid s4 (B(st := hdb)) (?R(st := ?R st - 1)) (?H(st := None))"
    by (rule bst_brelse [OF e3(2) e3(3) [OF e2(2) [OF 1(4)]]]) (use d in \<open>simp_all add: fun_upd_def\<close>)
  have "?R(st := ?R st - 1) = R" "?H(st := None) = (\<lambda>_. None)" using R by (auto simp: fun_eq_iff)
  with 4(3) have b4: "bst p pid s4 (B(st := hdb)) R (\<lambda>_. None)" by (simp only:)
  have io: "io_step s s4"
    by (rule io_step_trans [OF io_step_trans [OF io_stepI(1) [OF bio_step_trans [OF 1(2) e2(3)]] e3(4)] io_stepI(1) [OF 4(2)]])
  have "put_blocks 0 (take (nat (lh_n (log_lh s))) (lh_block (log_lh s))) (put32 (b_data (bufs s1 i)) 0 (of_int (lh_n (log_lh s)))) = hdb"
    unfolding hdb mk_head_def len bst_data [OF 1(3,4)] using n(1) by (simp add: lhome_def)
  then have "write_head s = Ok () s4"
    using 1(1) 4(1) e3(1) dev st n bio_step_log [OF 1(2)]
    by (simp add: write_head_def bind_run block_run s2_def)
  then show thesis
    using io b4 d bio_step_same(3,4) [OF 4(2)] by (intro that [of s4]) simp_all
qed

lemma replay_home:
  assumes "\<not> in_log st b" "k < LOGSIZE"
  shows "replay (map (\<lambda>i. (lblock st i, g i)) [0..<k]) d b = d b"
proof (rule replay_map_other, intro allI impI)
  fix i assume "i < k"
  then show "b \<noteq> lblock st i" using lblock_facts(1) [of i st] assms by auto
qed

lemma lhome_nth:
  assumes "k < length (lhome s)"
  shows "k < length (lh_block (log_lh s))" "lhome s ! k = lh_block (log_lh s) ! k"
  using assms by (simp_all add: lhome_def)

lemma io_step_lhome: "io_step s t \<Longrightarrow> lhome t = lhome s"
  by (simp add: lhome_def io_step_log)

lemma write_log_loop:
  fixes s :: "'z log_state_scheme"
  assumes b: "bst p pid s B R (\<lambda>_. None)" and dev: "log_dev s = ROOTDEV" and st: "st = log_start s" and bl: "bl = lhome s"
    and nl: "\<And>b. b \<in> set bl \<Longrightarrow> \<not> in_log st b" "length bl < LOGSIZE"
    and R: "\<And>b. b \<in> set bl \<Longrightarrow> R b = 1" "\<And>b. in_log st b \<Longrightarrow> R b = 0" "card {b. R b \<noteq> 0} < NBUF"
    and k: "k \<le> length bl"
    and ws: "ws = (\<lambda>k. map (\<lambda>i. (lblock st i, B (bl ! i))) [0..<k])"
  shows "\<exists>t. block (map write_log_body [0..<k]) s = Ok () t \<and> io_step s t \<and>
    bst p pid t (replay (ws k) B) R (\<lambda>_. None) \<and> disk t = replay (ws k) (disk s) \<and> written t = written s @ ws k"
  using k
proof (induction k)
  case 0
  then show ?case using b by (intro exI [of _ s]) (simp add: ws io_stepI)
next
  case (Suc k)
  then obtain t where t: "block (map write_log_body [0..<k]) s = Ok () t" "io_step s t"
    "bst p pid t (replay (ws k) B) R (\<lambda>_. None)" "disk t = replay (ws k) (disk s)" "written t = written s @ ws k" by auto
  have kl: "k < length (lhome s)" using Suc.prems bl by simp
  note lh = lhome_nth [OF kl] and ft = io_step_log [OF t(2)]
  have hm: "bl ! k \<in> set bl" using Suc.prems by simp
  have ne: "bl ! k \<noteq> lblock st k" using nl(1) [OF hm] lblock_facts(1) [of k st] Suc.prems nl(2) by auto
  have same: "replay (ws k) B (bl ! k) = B (bl ! k)"
    unfolding ws by (rule replay_home [OF nl(1) [OF hm]]) (use Suc.prems nl(2) in simp)
  obtain u where u: "write_log_body k t = Ok () u" "io_step t u"
    "bst p pid u ((replay (ws k) B)(lblock st k := replay (ws k) B (bl ! k))) R (\<lambda>_. None)"
    "disk u = (disk t)(lblock st k := replay (ws k) B (bl ! k))" "written u = written t @ [(lblock st k, replay (ws k) B (bl ! k))]"
    by (rule write_log_body_ok [OF t(3), where k = k and home = "bl ! k" and lb = "lblock st k"])
      (use dev ft lh ne R hm st bl nl lblock_facts(1) [of k st] Suc.prems in \<open>simp_all add: lblock_def\<close>)
  have w: "ws (Suc k) = ws k @ [(lblock st k, B (bl ! k))]" by (simp add: ws)
  show ?case
    using t u same by (intro exI [of _ u]) (simp add: block_append bind_run w io_step_trans [OF t(2) u(2)] fun_upd_def)
qed

lemma install_loop:
  fixes s :: "'z log_state_scheme"
  assumes b: "bst p pid s B R (\<lambda>_. None)" and dev: "log_dev s = ROOTDEV" and st: "st = log_start s" and bl: "bl = lhome s"
    and nl: "\<And>b. b \<in> set bl \<Longrightarrow> \<not> in_log st b" "length bl < LOGSIZE" "distinct bl"
    and R: "\<And>b. R b = (if \<not> recovering \<and> b \<in> set bl then 1 else 0)" "length bl < NBUF"
    and clean: "\<And>i. i < length bl \<Longrightarrow> B (lblock st i) = disk s (lblock st i)"
    and k: "k \<le> length bl"
    and ws: "ws = (\<lambda>k. map (\<lambda>i. (bl ! i, B (lblock st i))) [0..<k])"
    and Rk: "Rk = (\<lambda>k b. if \<not> recovering \<and> b \<in> set (drop k bl) then 1 else 0)"
  shows "\<exists>t. block (map (install_body recovering) [0..<k]) s = Ok () t \<and> io_step s t \<and>
    bst p pid t (replay (ws k) B) (Rk k) (\<lambda>_. None) \<and> disk t = replay (ws k) (disk s) \<and> written t = written s @ ws k"
  using k
proof (induction k)
  case 0
  have "Rk 0 = R" using R(1) by (simp add: Rk fun_eq_iff)
  then show ?case using b by (intro exI [of _ s]) (simp add: ws io_stepI)
next
  case (Suc k)
  then obtain t where t: "block (map (install_body recovering) [0..<k]) s = Ok () t" "io_step s t"
    "bst p pid t (replay (ws k) B) (Rk k) (\<lambda>_. None)" "disk t = replay (ws k) (disk s)" "written t = written s @ ws k" by auto
  have kl: "k < length (lhome s)" "k < length bl" using Suc.prems bl by simp_all
  note lh = lhome_nth [OF kl(1)] and ft = io_step_log [OF t(2)]
  have hm: "bl ! k \<in> set bl" using Suc.prems by simp
  have il: "in_log st (lblock st k)" using lblock_facts(1) [of k st] kl nl(2) by simp
  have ne: "bl ! k \<noteq> lblock st k" using nl(1) [OF hm] il by auto
  have other: "replay (ws k) f (lblock st k) = f (lblock st k)" for f :: "u32 \<Rightarrow> u8 list"
    unfolding ws
  proof (rule replay_map_other, intro allI impI)
    fix i assume "i < k"
    then show "lblock st k \<noteq> bl ! i" using nl(1) [of "bl ! i"] il kl by auto
  qed
  have d: "drop k bl = bl ! k # drop (Suc k) bl" using kl(2) by (simp add: Cons_nth_drop_Suc)
  have nd: "bl ! k \<notin> set (drop (Suc k) bl)" using nl(3) distinct_drop [of bl k] by (simp add: d)
  have sub: "{b. Rk k b \<noteq> 0} \<subseteq> set bl" by (auto simp: Rk dest: in_set_dropD)
  then have card: "card {b. Rk k b \<noteq> 0} < NBUF" using card_mono [OF finite_set sub] card_length [of bl] R(2) by linarith
  have card0: "recovering \<Longrightarrow> {b. Rk k b \<noteq> 0} = {}" by (simp add: Rk)
  obtain u where u: "install_body recovering k t = Ok () u" "io_step t u"
    "bst p pid u ((replay (ws k) B)(bl ! k := replay (ws k) B (lblock st k))) ((Rk k)(bl ! k := 0)) (\<lambda>_. None)"
    "disk u = (disk t)(bl ! k := replay (ws k) B (lblock st k))" "written u = written t @ [(bl ! k, replay (ws k) B (lblock st k))]"
  proof (rule install_body_ok [OF t(3), where k = k and home = "bl ! k" and lb = "lblock st k" and recovering = recovering])
    show "Rk k (bl ! k) = (if recovering then 0 else 1)" by (simp add: Rk d)
    show "Rk k (lblock st k) = 0" using il nl(1) by (auto simp: Rk dest: in_set_dropD)
    show "replay (ws k) B (lblock st k) = disk t (lblock st k)" using clean [OF kl(2)] t(4) other by simp
  qed (use dev ft lh ne st bl card card0 in \<open>simp_all add: lblock_def\<close>)
  have "(Rk k)(bl ! k := 0) = Rk (Suc k)" using nd by (auto simp: Rk d fun_eq_iff)
  with u(3) have u3: "bst p pid u ((replay (ws k) B)(bl ! k := B (lblock st k))) (Rk (Suc k)) (\<lambda>_. None)"
    unfolding other by simp
  have w: "ws (Suc k) = ws k @ [(bl ! k, B (lblock st k))]" by (simp add: ws)
  show ?case
    using t u(1,2,4,5) u3 other by (intro exI [of _ u]) (simp add: block_append bind_run w io_step_trans [OF t(2) u(2)] fun_upd_def)
qed

definition commit_writes :: "u32 \<Rightarrow> u32 list \<Rightarrow> (u32 \<Rightarrow> u8 list) \<Rightarrow> (u32 \<times> u8 list) list" where
  "commit_writes st bl B =
     map (\<lambda>i. (lblock st i, B (bl ! i))) [0..<length bl] @ [(st, mk_head bl (B st))] @
     map (\<lambda>i. (bl ! i, B (bl ! i))) [0..<length bl] @ [(st, mk_head [] (mk_head bl (B st)))]"

text \<open>
  A log ready to commit: the logged blocks are pinned and lie outside of the log, every other
  block has its contents on the disk, and the log on the disk is empty.
\<close>

definition log_ready :: "nat \<Rightarrow> int \<Rightarrow> 'z log_state_scheme \<Rightarrow> (u32 \<Rightarrow> u8 list) \<Rightarrow> bool" where
  "log_ready p pid s B \<longleftrightarrow>
     bst p pid s B (\<lambda>b. if b \<in> set (lhome s) then 1 else 0) (\<lambda>_. None) \<and> log_dev s = ROOTDEV \<and>
     distinct (lhome s) \<and> (\<forall>b \<in> set (lhome s). \<not> in_log (log_start s) b) \<and>
     length (lh_block (log_lh s)) = LOGSIZE \<and> 0 \<le> lh_n (log_lh s) \<and> lh_n (log_lh s) < LOGSIZE \<and>
     (\<forall>b. b \<notin> set (lhome s) \<longrightarrow> B b = disk s b) \<and> hb_n (disk s (log_start s)) = 0"

lemma log_ready_length:
  assumes "log_ready p pid s B"
  shows "nat (lh_n (log_lh s)) = length (lhome s)" "length (lhome s) < LOGSIZE"
proof -
  have "nat (lh_n (log_lh s)) < LOGSIZE" "length (lh_block (log_lh s)) = LOGSIZE"
    using assms by (simp_all add: log_ready_def nat_less_iff)
  then show "nat (lh_n (log_lh s)) = length (lhome s)" "length (lhome s) < LOGSIZE" by (simp_all add: lhome_def)
qed

lemma bst_cong:
  assumes "bufs t = bufs s" "slocks t = slocks s" "disk t = disk s" "runs_as p t = runs_as p s" "p_pid (procs t p) = p_pid (procs s p)"
  shows "bst p pid t B R H = bst p pid s B R H"
proof -
  have c: "cached t = cached s" by (intro ext) (simp only: cached_def assms(1))
  have v: "lblk t = lblk s" "brefs t = brefs s" "bowner t = bowner s"
    by (intro ext, simp only: lblk_def brefs_def bowner_def c assms(1-3))+
  have i: "bio_inv t = bio_inv s" by (simp only: bio_inv_def buf_ok_def assms(1-3))
  show ?thesis unfolding bst_def v i assms(4,5) ..
qed

lemma bst_lh [simp]: "bst p pid (s\<lparr>log_lh := h\<rparr>) B R H = bst p pid s B R H"
  by (rule bst_cong) (simp_all add: runs_as_def)

lemma bio_step_lh:
  assumes "bio_step s t"
  shows "bio_step (s\<lparr>log_lh := h\<rparr>) (t\<lparr>log_lh := h\<rparr> :: 'z log_state_scheme)"
proof -
  obtain ps ls bs where t: "t = s\<lparr>procs := ps, slocks := ls, bufs := bs\<rparr>" "woken (procs s) ps"
    "\<forall>k. ls (InodeLock k) = slocks s (InodeLock k)" using assms by (auto simp: bio_step_def)
  have "t\<lparr>log_lh := h\<rparr> = s\<lparr>log_lh := h\<rparr>\<lparr>procs := ps, slocks := ls, bufs := bs\<rparr>" unfolding t(1) by simp
  then show ?thesis
    unfolding bio_step_def using t(2,3) by (intro exI [of _ ps] exI [of _ ls] exI [of _ bs]) simp
qed

lemma io_step_lh:
  assumes "io_step s t"
  shows "io_step (s\<lparr>log_lh := h\<rparr>) (t\<lparr>log_lh := h\<rparr> :: 'z log_state_scheme)"
proof -
  obtain d w where "bio_step (s\<lparr>disk := d, written := w\<rparr>) t" using assms by (auto simp: io_step_def)
  moreover have "s\<lparr>disk := d, written := w, log_lh := h\<rparr> = s\<lparr>log_lh := h, disk := d, written := w\<rparr>" by simp
  ultimately show ?thesis unfolding io_step_def using bio_step_lh [of "s\<lparr>disk := d, written := w\<rparr>" t h] by metis
qed

lemma card_pinned: "distinct bl \<Longrightarrow> card {b. (if b \<in> set bl then 1 else 0 :: nat) \<noteq> 0} = length bl"
  by (simp add: distinct_card)

lemma bst_clean:
  assumes "bst p pid s B (\<lambda>_. 0) H"
  shows "B = disk s"
proof
  fix b
  have "brefs s ROOTDEV b = 0" "bio_inv s" "lblk s ROOTDEV = B" using assms by (simp_all add: bst_def)
  note f = this
  have "lblk s ROOTDEV b = disk s b"
  proof (cases "cached s ROOTDEV b")
    case (Some i)
    then have i: "i < NBUF" "b_blockno (bufs s i) = b" using cached_iff [of s ROOTDEV b i] f(2) by (simp_all add: bio_inv_def holds_blk_def)
    then have "buf_ok s i" using f(2) by (simp add: bio_inv_def)
    then show ?thesis using Some i f(1) by (simp add: lblk_def brefs_def buf_ok_def unat_eq_0)
  qed (simp add: lblk_def)
  then show "B b = disk s b" using f(3) by simp
qed

lemma commit_ok:
  fixes s :: "'z log_state_scheme"
  assumes L: "log_ready p pid s B" and n: "lh_n (log_lh s) > 0"
    and st: "st = log_start s" and bl: "bl = lhome s"
  shows "\<exists>t. commit s = Ok () t \<and> lh_n (log_lh t) = 0 \<and> bst p pid t (disk t) (\<lambda>_. 0) (\<lambda>_. None) \<and>
    io_step (s\<lparr>log_lh := (log_lh s)\<lparr>lh_n := 0\<rparr>\<rparr>) t \<and>
    disk t = replay (commit_writes st bl B) (disk s) \<and> written t = written s @ commit_writes st bl B"
proof -
  let ?R = "\<lambda>b. if b \<in> set bl then 1 else 0 :: nat"
  have b: "bst p pid s B ?R (\<lambda>_. None)" and dev: "log_dev s = ROOTDEV" and dist: "distinct bl"
    and nl: "\<And>b. b \<in> set bl \<Longrightarrow> \<not> in_log st b" and len: "length (lh_block (log_lh s)) = LOGSIZE"
    using L by (simp_all add: log_ready_def bl st)
  have nn: "nat (lh_n (log_lh s)) = length bl" "length bl < LOGSIZE" "length bl < NBUF"
    using log_ready_length [OF L] by (simp_all add: bl)
  have card: "card {b. ?R b \<noteq> 0} < NBUF" using card_pinned [OF dist] nn(3) by simp
  have R0: "?R b = 0" if "in_log st b" for b using nl that by auto
  define lw where "lw = map (\<lambda>i. (lblock st i, B (bl ! i))) [0..<length bl]"
  obtain s1 where 1: "block (map write_log_body [0..<length bl]) s = Ok () s1" "io_step s s1"
    "bst p pid s1 (replay lw B) ?R (\<lambda>_. None)" "disk s1 = replay lw (disk s)" "written s1 = written s @ lw"
    using write_log_loop [OF b dev st bl nl nn(2) _ R0 card order.refl refl] by (auto simp: lw_def)
  note f1 = io_step_log [OF 1(2)] and h1 = io_step_lhome [OF 1(2)]
  have lb: "replay lw B (lblock st i) = B (bl ! i)" "lblock st i \<noteq> st" if "i < length bl" for i
  proof -
    have "inj_on (lblock st) {..<length bl}"
      using lblock_facts(3) by (rule inj_on_subset) (use nn(2) in auto)
    from replay_map [OF this that] show "replay lw B (lblock st i) = B (bl ! i)" by (simp add: lw_def)
    show "lblock st i \<noteq> st" using lblock_facts(4) [of i st] that nn(2) by simp
  qed
  have s0: "replay lw B st = B st" unfolding lw_def by (intro replay_map_other allI impI not_sym [OF lb(2)])
  define hdb where "hdb = mk_head bl (B st)"
  have p1: "log_dev s1 = ROOTDEV" "st = log_start s1" "0 \<le> lh_n (log_lh s1)" "lh_n (log_lh s1) \<le> int (length (lh_block (log_lh s1)))"
      "length (lh_block (log_lh s1)) \<le> LOGSIZE"
    using f1 h1 dev st n len L by (simp_all add: log_ready_def)
  have p2: "hdb = mk_head (lhome s1) (replay lw B st)"
    by (simp only: hdb_def s0 h1 bl)
  obtain s2 where 2: "write_head s1 = Ok () s2" "io_step s1 s2" "bst p pid s2 ((replay lw B)(st := hdb)) ?R (\<lambda>_. None)"
    "disk s2 = (disk s1)(st := hdb)" "written s2 = written s1 @ [(st, hdb)]"
    by (rule write_head_ok [OF 1(3) p1(1,2) R0 [OF lblock_facts(2)] card p1(3-5) p2])
  note f2 = io_step_log [OF 2(2)] and h2 = io_step_lhome [OF 2(2)]
  let ?B2 = "(replay lw B)(st := hdb)"
  have B2: "?B2 (lblock st i) = B (bl ! i)" if "i < length bl" for i using lb [OF that] by simp
  define iw where "iw = map (\<lambda>i. (bl ! i, B (bl ! i))) [0..<length bl]"
  have iw: "map (\<lambda>i. (bl ! i, ?B2 (lblock st i))) [0..<length bl] = iw"
    unfolding iw_def by (rule map_cong) (use B2 in auto)
  have cl: "?B2 (lblock st i) = disk s2 (lblock st i)" if "i < length bl" for i
  proof -
    have "inj_on (lblock st) {..<length bl}"
      using lblock_facts(3) by (rule inj_on_subset) (use nn(2) in auto)
    from replay_map [OF this that, of "\<lambda>i. B (bl ! i)" "disk s"] have "replay lw (disk s) (lblock st i) = B (bl ! i)"
      by (simp add: lw_def)
    then show ?thesis using B2 [OF that] 2(4) 1(4) lb(2) [OF that] by simp
  qed
  have p3: "log_dev s2 = ROOTDEV" "st = log_start s2" "bl = lhome s2"
    using f1 f2 h1 h2 dev st bl by simp_all
  have p4: "?R b = (if \<not> False \<and> b \<in> set bl then 1 else 0)" for b by simp
  have p5: "(\<lambda>b. if \<not> False \<and> b \<in> set [] then 1 else 0 :: nat) = (\<lambda>_. 0)" by simp
  obtain s3 where 3: "block (map (install_body False) [0..<length bl]) s2 = Ok () s3" "io_step s2 s3"
    "bst p pid s3 (replay iw ?B2) (\<lambda>_. 0) (\<lambda>_. None)" "disk s3 = replay iw (disk s2)" "written s3 = written s2 @ iw"
    using install_loop [where recovering = False, OF 2(3) p3 nl nn(2) dist p4 nn(3) cl order.refl refl refl]
    unfolding iw drop_all [OF order.refl] p5 
    by (simp only: simp_thms triv_forall_equality True_implies_equals implies_True_equals) (elim exE conjE, rule that)
  note f3 = io_step_log [OF 3(2)]
  let ?s4 = "s3\<lparr>log_lh := (log_lh s3)\<lparr>lh_n := 0\<rparr>\<rparr>"
  have st3: "replay iw ?B2 st = hdb"
    unfolding iw_def by (subst replay_map_other) (use nl lblock_facts(2) nth_mem in \<open>auto\<close>)
  obtain s5 where 5: "write_head ?s4 = Ok () s5" "io_step ?s4 s5" "bst p pid s5 ((replay iw ?B2)(st := mk_head [] hdb)) (\<lambda>_. 0) (\<lambda>_. None)"
    "disk s5 = (disk ?s4)(st := mk_head [] hdb)" "written s5 = written ?s4 @ [(st, mk_head [] hdb)]"
    by (rule write_head_ok [of p pid ?s4 "replay iw ?B2" "\<lambda>_. 0" st "mk_head [] hdb"])
      (use 3(3) f1 f2 f3 dev st len st3 in \<open>simp_all add: lhome_def\<close>)
  have "commit s = Ok () s5"
    using n 1(1) 2(1) 3(1) 5(1) f1 f2 nn(1)
    by (simp add: commit_def write_log_def install_trans_def bind_run block_run)
  moreover have "lh_n (log_lh s5) = 0" using io_step_log [OF 5(2)] by simp
  moreover have "disk s5 = replay (commit_writes st bl B) (disk s)"
    using 5(4) 3(4) 2(4) 1(4) by (simp add: commit_writes_def lw_def iw_def hdb_def)
  moreover have "written s5 = written s @ commit_writes st bl B"
    using 5(5) 3(5) 2(5) 1(5) by (simp add: commit_writes_def lw_def iw_def hdb_def)
  moreover have "io_step (s\<lparr>log_lh := (log_lh s)\<lparr>lh_n := 0\<rparr>\<rparr>) s5"
    using io_step_trans [OF io_step_lh [OF io_step_trans [OF io_step_trans [OF 1(2) 2(2)] 3(2)]] 5(2)] f1 f2 f3 by simp
  ultimately show ?thesis using 5(3) bst_clean [OF 5(3)] by auto
qed

section \<open>Recovery\<close>

text \<open>
  What the log on a disk says: the home blocks to write and what to write to them. \<open>log_view\<close> is
  the disk with the log applied.
\<close>

definition log_writes :: "u32 \<Rightarrow> (u32 \<Rightarrow> u8 list) \<Rightarrow> (u32 \<times> u8 list) list" where
  "log_writes st d = map (\<lambda>i. (hb_block (d st) i, d (lblock st i))) [0..<nat (hb_n (d st))]"

definition recover_writes :: "u32 \<Rightarrow> (u32 \<Rightarrow> u8 list) \<Rightarrow> (u32 \<times> u8 list) list" where
  "recover_writes st d = log_writes st d @ [(st, mk_head [] (d st))]"

definition log_view :: "u32 \<Rightarrow> (u32 \<Rightarrow> u8 list) \<Rightarrow> u32 \<Rightarrow> u8 list" where
  "log_view st d = replay (log_writes st d) d"

definition wf_log :: "u32 \<Rightarrow> (u32 \<Rightarrow> u8 list) \<Rightarrow> bool" where
  "wf_log st d \<longleftrightarrow> 0 \<le> hb_n (d st) \<and> hb_n (d st) < LOGSIZE \<and> distinct (map (hb_block (d st)) [0..<nat (hb_n (d st))]) \<and>
     (\<forall>i < nat (hb_n (d st)). \<not> in_log st (hb_block (d st) i)) \<and> (\<forall>b. length (d b) = BSIZE)"

lemma read_head_ok:
  fixes s :: "'z log_state_scheme"
  assumes b: "bst p pid s B (\<lambda>_. 0) (\<lambda>_. None)" and dev: "log_dev s = ROOTDEV" and st: "st = log_start s"
    and B: "B st = disk s st"
    and len: "length (lh_block (log_lh s)) = LOGSIZE" and n: "0 \<le> hb_n (B st)" "hb_n (B st) < LOGSIZE"
  obtains h t where "read_head s = Ok () t" "io_step (s\<lparr>log_lh := h\<rparr>) t" "bst p pid t B (\<lambda>_. 0) (\<lambda>_. None)"
    "disk t = disk s" "written t = written s"
    "lhome t = map (hb_block (B st)) [0..<nat (hb_n (B st))]" "length (lh_block h) = LOGSIZE" "lh_n h = hb_n (B st)"
proof -
  obtain i s1 where 1: "bread ROOTDEV st s = Ok i s1" "bio_step s s1"
      "bst p pid s1 B ((\<lambda>_. 0)(st := Suc 0)) ((\<lambda>_. None)(st := Some pid))" "has_buf s1 st i"
    by (rule bst_bread [OF b, of st]) (simp_all add: fun_upd_def)
  let ?bl = "map (hb_block (B st)) [0..<nat (hb_n (B st))]"
  define h where "h = (log_lh s)\<lparr>lh_n := hb_n (B st), lh_block := ?bl @ drop (nat (hb_n (B st))) (lh_block (log_lh s))\<rparr>"
  let ?s2 = "s1\<lparr>log_lh := h\<rparr>"
  have hb: "has_buf ?s2 st i" using 1(4) by (simp add: has_buf_def cached_def)
  obtain s3 where 3: "brelse i ?s2 = Ok () s3" "bio_step ?s2 s3"
      "bst p pid s3 B (((\<lambda>_. 0)(st := Suc 0))(st := ((\<lambda>_. 0)(st := Suc 0)) st - 1)) (((\<lambda>_. None)(st := Some pid))(st := None))"
    by (rule bst_brelse [OF _ hb, of p pid B "(\<lambda>_. 0)(st := Suc 0)" "(\<lambda>_. None)(st := Some pid)"])
      (use 1(3) B bio_step_same(3) [OF 1(2)] in \<open>simp_all add: fun_upd_def\<close>)
  have e: "((\<lambda>_. 0)(st := Suc 0))(st := ((\<lambda>_. 0)(st := Suc 0)) st - 1) = (\<lambda>_. 0)"
    "((\<lambda>_. None)(st := Some pid))(st := None) = (\<lambda>_. None)" by (auto simp: fun_eq_iff)
  have l1: "log_lh s1 = log_lh s" "log_dev s1 = log_dev s" using bio_step_log [OF 1(2)] by simp_all
  have h: "length (lh_block h) = LOGSIZE" "lh_n h = hb_n (B st)" "take (nat (lh_n h)) (lh_block h) = ?bl"
    using n len by (simp_all add: h_def)
  have "read_head s = Ok () s3"
    using 1(1) 3(1) dev st n l1 bst_data [OF 1(3,4)]
    by (simp add: read_head_def bind_run block_run h_def)
  moreover have "bio_step (s\<lparr>log_lh := h\<rparr>) s3"
  proof (rule bio_step_trans [OF _ 3(2)])
    obtain ps ls bs where "s1 = s\<lparr>procs := ps, slocks := ls, bufs := bs\<rparr>" "woken (procs s) ps"
      "\<forall>k. ls (InodeLock k) = slocks s (InodeLock k)" using 1(2) by (auto simp: bio_step_def)
    then show "bio_step (s\<lparr>log_lh := h\<rparr>) ?s2"
      unfolding bio_step_def by (intro exI [of _ ps] exI [of _ ls] exI [of _ bs]) simp
  qed
  moreover have "bst p pid s3 B (\<lambda>_. 0) (\<lambda>_. None)" using 3(3) by (simp only: e)
  moreover have "disk s3 = disk s" "written s3 = written s"
    using bio_step_same(3,4) [OF 1(2)] bio_step_same(3,4) [OF 3(2)] by simp_all
  moreover have "lhome s3 = ?bl" using bio_step_log [OF 3(2)] h(3) by (simp add: lhome_def)
  ultimately show thesis using h(1,2) that io_stepI(1) by blast
qed

lemma replay_same:
  assumes "X b = Y b"
  shows "replay ws X b = replay ws Y b"
  using assms
proof (induction ws arbitrary: X Y)
  case (Cons w ws)
  obtain c x where w: "w = (c, x)" by (cases w)
  have "(X(c := x)) b = (Y(c := x)) b" using Cons.prems by simp
  from Cons.IH [of "X(c := x)" "Y(c := x)", OF this] show ?case by (simp only: w replay_simps)
qed simp

lemma recover_ok:
  fixes s :: "'z log_state_scheme"
  assumes b: "bst p pid s (disk s) (\<lambda>_. 0) (\<lambda>_. None)" and dev: "log_dev s = ROOTDEV" and st: "st = log_start s"
    and len: "length (lh_block (log_lh s)) = LOGSIZE" and wf: "wf_log st (disk s)"
  shows "\<exists>t. recover_from_log s = Ok () t \<and> bst p pid t (disk t) (\<lambda>_. 0) (\<lambda>_. None) \<and> lh_n (log_lh t) = 0 \<and>
    length (lh_block (log_lh t)) = LOGSIZE \<and> log_dev t = ROOTDEV \<and> log_start t = st \<and>
    disk t = replay (recover_writes st (disk s)) (disk s) \<and> written t = written s @ recover_writes st (disk s)"
proof -
  let ?d = "disk s" and ?bl = "map (hb_block (disk s st)) [0..<nat (hb_n (disk s st))]"
  have n: "0 \<le> hb_n (?d st)" "hb_n (?d st) < LOGSIZE" and dist: "distinct ?bl"
    using wf by (simp_all add: wf_log_def)
  have nl: "\<not> in_log st b" if "b \<in> set ?bl" for b using wf that by (auto simp: wf_log_def)
  have nn: "length ?bl < LOGSIZE" "length ?bl < NBUF" using n by simp_all
  obtain h s1 where 1: "read_head s = Ok () s1" "io_step (s\<lparr>log_lh := h\<rparr>) s1" "bst p pid s1 ?d (\<lambda>_. 0) (\<lambda>_. None)"
    "disk s1 = ?d" "written s1 = written s" "lhome s1 = ?bl" "length (lh_block h) = LOGSIZE" "lh_n h = hb_n (?d st)"
    by (rule read_head_ok [OF b dev st refl len n])
  note f1 = io_step_log [OF 1(2)]
  have p1: "log_dev s1 = ROOTDEV" "st = log_start s1" "?bl = lhome s1" using f1 dev st 1(6) by simp_all
  have p2: "0 = (if \<not> True \<and> b \<in> set ?bl then 1 else 0 :: nat)" for b by simp
  have cl: "?d (lblock st i) = disk s1 (lblock st i)" if "i < length ?bl" for i using 1(4) by simp
  have iw: "map (\<lambda>i. (?bl ! i, ?d (lblock st i))) [0..<length ?bl] = log_writes st ?d"
    by (simp add: log_writes_def)
  obtain s2 where 2: "block (map (install_body True) [0..<length ?bl]) s1 = Ok () s2" "io_step s1 s2"
    "bst p pid s2 (replay (log_writes st ?d) ?d) (\<lambda>_. 0) (\<lambda>_. None)" "disk s2 = replay (log_writes st ?d) (disk s1)"
    "written s2 = written s1 @ log_writes st ?d"
    using install_loop [where recovering = True, OF 1(3) p1 nl nn(1) dist p2 nn(2) cl order.refl refl refl] unfolding iw
    by (simp only: simp_thms triv_forall_equality True_implies_equals implies_True_equals if_False) (elim exE conjE, rule that)
  note f2 = io_step_log [OF 2(2)]
  let ?s3 = "s2\<lparr>log_lh := (log_lh s2)\<lparr>lh_n := 0\<rparr>\<rparr>"
  have ds: "disk s2 = replay (log_writes st ?d) ?d" using 2(4) 1(4) by simp
  have st0: "replay (log_writes st ?d) ?d st = ?d st"
    unfolding log_writes_def by (rule replay_map_other) (use wf lblock_facts(2) in \<open>auto simp: wf_log_def\<close>)
  obtain s4 where 4: "write_head ?s3 = Ok () s4" "io_step ?s3 s4"
    "bst p pid s4 ((replay (log_writes st ?d) ?d)(st := mk_head [] (?d st))) (\<lambda>_. 0) (\<lambda>_. None)"
    "disk s4 = (disk ?s3)(st := mk_head [] (?d st))" "written s4 = written ?s3 @ [(st, mk_head [] (?d st))]"
    by (rule write_head_ok [of p pid ?s3 "replay (log_writes st ?d) ?d" "\<lambda>_. 0" st "mk_head [] (?d st)"])
      (use 2(3) f1 f2 dev st 1(7) st0 in \<open>simp_all add: lhome_def\<close>)
  note f4 = io_step_log [OF 4(2)]
  have "nat (lh_n (log_lh s1)) = length ?bl" using f1 1(8) by simp
  then have "recover_from_log s = Ok () s4"
    using 1(1) 2(1) 4(1) by (simp add: recover_from_log_def install_trans_def bind_run block_run)
  moreover have "disk s4 = replay (recover_writes st ?d) ?d" using 4(4) ds by (simp add: recover_writes_def)
  moreover from this have "bst p pid s4 (disk s4) (\<lambda>_. 0) (\<lambda>_. None)" using 4(3) by (simp add: recover_writes_def)
  moreover have "written s4 = written s @ recover_writes st ?d" using 4(5) 2(5) 1(5) by (simp add: recover_writes_def)
  ultimately show ?thesis using f1 f2 f4 1(7) dev st by simp
qed

section \<open>Crashes\<close>

lemma replay_all: "(\<And>b. P (d b)) \<Longrightarrow> (\<And>b x. (b, x) \<in> set ws \<Longrightarrow> P x) \<Longrightarrow> P (replay ws d b)"
proof (induction ws arbitrary: d)
  case (Cons w ws)
  obtain c x where w: "w = (c, x)" by (cases w)
  have "P (replay ws (d(c := x)) b)" by (rule Cons.IH) (use Cons.prems w in auto)
  then show ?case by (simp only: w replay_simps)
qed simp

lemma replay_length:
  assumes "\<And>b. length (d b) = n" "\<And>i. i < k \<Longrightarrow> length (g i) = n"
  shows "length (replay (map (\<lambda>i. (f i, g i)) [0..<k]) d b) = n"
  by (rule replay_all [where P = "\<lambda>x. length x = n"]) (use assms in auto)

lemma replay_const:
  assumes "d b = B b \<or> b \<in> f ` set xs"
  shows "replay (map (\<lambda>i. (f i, B (f i))) xs) d b = B b"
  using assms
proof (induction xs arbitrary: d)
  case (Cons x xs)
  then show ?case by (cases "b = f x") (auto intro!: Cons.IH)
qed simp

text \<open>The log on the disk holds the transaction that writes \<open>B\<close> to the blocks \<open>bl\<close>.\<close>

definition logged :: "u32 \<Rightarrow> u32 list \<Rightarrow> (u32 \<Rightarrow> u8 list) \<Rightarrow> (u32 \<Rightarrow> u8 list) \<Rightarrow> bool" where
  "logged st bl B d \<longleftrightarrow> hb_n (d st) = int (length bl) \<and> (\<forall>i < length bl. hb_block (d st) i = bl ! i) \<and>
     (\<forall>i < length bl. d (lblock st i) = B (bl ! i)) \<and> (\<forall>b. length (d b) = BSIZE) \<and>
     (\<forall>b. \<not> in_log st b \<longrightarrow> b \<notin> set bl \<longrightarrow> d b = B b)"

lemma logged_writes:
  assumes "logged st bl B d"
  shows "log_writes st d = map (\<lambda>i. (bl ! i, B (bl ! i))) [0..<length bl]"
    "map (hb_block (d st)) [0..<nat (hb_n (d st))] = bl"
proof -
  show "log_writes st d = map (\<lambda>i. (bl ! i, B (bl ! i))) [0..<length bl]"
    unfolding log_writes_def using assms by (intro map_cong) (auto simp: logged_def)
  have "map (hb_block (d st)) [0..<nat (hb_n (d st))] = map ((!) bl) [0..<length bl]"
    using assms by (intro map_cong) (auto simp: logged_def)
  then show "map (hb_block (d st)) [0..<nat (hb_n (d st))] = bl" by (simp add: map_nth)
qed

lemma nth_upt_set: "(!) bl ` set [0..<length bl] = set bl"
  by (simp add: nth_image)

lemma logged_view:
  assumes "logged st bl B d" "distinct bl" "\<forall>b \<in> set bl. \<not> in_log st b" "length bl < LOGSIZE"
  shows "wf_log st d" "\<not> in_log st b \<Longrightarrow> log_view st d b = B b"
proof -
  have "\<forall>i < length bl. \<not> in_log st (bl ! i)" using assms(3) by simp
  then show "wf_log st d"
    using assms logged_writes(2) [OF assms(1)] by (simp add: wf_log_def logged_def)
  assume b: "\<not> in_log st b"
  have "d b = B b \<or> b \<in> (!) bl ` set [0..<length bl]" using assms(1) b unfolding nth_upt_set logged_def by blast
  then show "log_view st d b = B b"
    unfolding log_view_def logged_writes(1) [OF assms(1)] by (rule replay_const)
qed

lemma empty_view:
  assumes "hb_n (d st) = 0" "\<forall>b. length (d b) = BSIZE"
  shows "wf_log st d" "log_view st d = d" "log_writes st d = []"
  using assms by (simp_all add: wf_log_def log_view_def log_writes_def)

text \<open>The disk after the first \<open>k\<close> of the writes of a commit.\<close>

lemma commit_writes_take:
  "length (commit_writes st bl B) = 2 * length bl + 2"
  "k \<le> length bl \<Longrightarrow> take k (commit_writes st bl B) = map (\<lambda>i. (lblock st i, B (bl ! i))) [0..<k]"
  "j \<le> length bl \<Longrightarrow> take (length bl + Suc j) (commit_writes st bl B) = map (\<lambda>i. (lblock st i, B (bl ! i))) [0..<length bl] @
     [(st, mk_head bl (B st))] @ map (\<lambda>i. (bl ! i, B (bl ! i))) [0..<j]"
  by (simp_all add: commit_writes_def take_map)

lemma commit_logged:
  assumes B: "\<And>b. b \<notin> set bl \<Longrightarrow> B b = d b" and len: "\<And>b. length (B b) = BSIZE" "\<And>b. length (d b) = BSIZE"
    and bl: "\<forall>b \<in> set bl. \<not> in_log st b" "length bl < LOGSIZE" and j: "j \<le> length bl"
  shows "logged st bl B (replay (take (length bl + Suc j) (commit_writes st bl B)) d)"
proof -
  define lw where "lw = map (\<lambda>i. (lblock st i, B (bl ! i))) [0..<length bl]"
  define iw where "iw = map (\<lambda>i. (bl ! i, B (bl ! i))) [0..<j]"
  define e where "e = (replay lw d)(st := mk_head bl (B st))"
  have r: "replay (take (length bl + Suc j) (commit_writes st bl B)) d = replay iw e"
    unfolding commit_writes_take(3) [OF j] lw_def [symmetric] iw_def [symmetric] e_def by simp
  have il: "replay iw e b = e b" if "in_log st b" for b
    unfolding iw_def by (rule replay_map_other) (use that bl(1) j in auto)
  have hd: "replay iw e st = mk_head bl (B st)" using il [OF lblock_facts(2)] by (simp add: e_def)
  note h = mk_head_get [of "B st" bl, OF len(1) less_imp_le [OF bl(2)]]
  have lb: "replay iw e (lblock st i) = B (bl ! i)" if i: "i < length bl" for i
  proof -
    have "inj_on (lblock st) {..<length bl}"
      using lblock_facts(3) by (rule inj_on_subset) (use bl(2) in auto)
    from replay_map [OF this i] have "replay lw d (lblock st i) = B (bl ! i)" by (simp add: lw_def)
    then show ?thesis using il [OF lblock_facts(1), of i] lblock_facts(4) [of i st] i bl(2) by (simp add: e_def)
  qed
  have "length (e b) = BSIZE" for b
    using replay_length [OF len(2) len(1)] h(1) by (simp add: e_def lw_def)
  from replay_length [OF this len(1)] have "length (replay iw e b) = BSIZE" for b by (simp add: iw_def)
  moreover have "replay iw e b = B b" if "\<not> in_log st b" "b \<notin> set bl" for b
  proof -
    have "replay iw e b = e b" unfolding iw_def by (rule replay_map_other) (use that j in auto)
    also have "\<dots> = replay lw d b" using that(1) lblock_facts(2) [of st] by (auto simp: e_def)
    also have "\<dots> = d b" unfolding lw_def by (rule replay_home [OF that(1)]) (use bl(2) in simp)
    finally show ?thesis using B [OF that(2)] by simp
  qed
  ultimately show ?thesis unfolding r logged_def hd using h lb by simp
qed

text \<open>
  Whatever a crash leaves of a commit, the log then describes the old disk when the header is not
  written yet, and the new one from then on.
\<close>

lemma commit_prefix:
  assumes B: "\<And>b. b \<notin> set bl \<Longrightarrow> B b = d b" and len: "\<And>b. length (B b) = BSIZE" "\<And>b. length (d b) = BSIZE"
    and bl: "distinct bl" "\<forall>b \<in> set bl. \<not> in_log st b" "length bl < LOGSIZE" and n: "hb_n (d st) = 0"
    and e: "e = replay (take k (commit_writes st bl B)) d"
  shows "wf_log st e" "\<not> in_log st b \<Longrightarrow> log_view st e b = (if k \<le> length bl then d b else B b)"
proof -
  have "k \<le> n \<or> (\<exists>j \<le> n. k = n + Suc j) \<or> k \<ge> 2 * n + 2" for n :: nat by presburger
  then consider "k \<le> length bl" | j where "j \<le> length bl" "k = length bl + Suc j" | "k \<ge> 2 * length bl + 2"
    by blast
  then have "wf_log st e \<and> (\<not> in_log st b \<longrightarrow> log_view st e b = (if k \<le> length bl then d b else B b))"
  proof cases
    case 1
    have "e st = d st" unfolding e commit_writes_take(2) [OF 1]
      by (rule replay_map_other, intro allI impI not_sym [OF lblock_facts(4)]) (use 1 bl(3) in simp)
    moreover have "e b = d b" if "\<not> in_log st b"
      unfolding e commit_writes_take(2) [OF 1] by (rule replay_home [OF that]) (use 1 bl(3) in simp)
    moreover have "\<forall>b. length (e b) = BSIZE" 
      unfolding e commit_writes_take(2) [OF 1] by (intro allI replay_length [OF len(2) len(1)])
    ultimately show ?thesis using empty_view [of e st] n 1 by simp
  next
    case 2
    have l: "logged st bl B e" unfolding e 2(2) by (rule commit_logged [OF B len bl(2,3) 2(1)])
    show ?thesis using logged_view [OF l bl] 2(2) by simp
  next
    case 3
    define f where "f = replay (take (length bl + Suc (length bl)) (commit_writes st bl B)) d"
    have l: "logged st bl B f" unfolding f_def by (rule commit_logged [OF B len bl(2,3)]) simp_all
    let ?h = "mk_head [] (mk_head bl (B st))"
    have ef: "e = f(st := ?h)"
      unfolding e f_def commit_writes_take(3) [OF order.refl] using 3 by (simp add: commit_writes_take(1)) (simp add: commit_writes_def)
    have "length (mk_head bl (B st)) = BSIZE" using mk_head_get(1) [OF len(1)] bl(3) by simp
    from mk_head_get [OF this, of "[]"] have h: "length ?h = BSIZE" "hb_n ?h = 0" by simp_all
    have "\<forall>b. length (e b) = BSIZE" using h l by (simp add: ef logged_def)
    moreover have "e b = B b" if "\<not> in_log st b"
    proof -
      have "e b = f b" using that lblock_facts(2) [of st] by (auto simp: ef)
      moreover have "f b = B b" if "b \<in> set bl"
        unfolding f_def commit_writes_take(3) [OF order.refl] replay_simps
        by (rule replay_const [where f = "(!) bl" and B = B]) (use that in \<open>simp only: nth_upt_set simp_thms\<close>)
      ultimately show ?thesis using l that by (auto simp: logged_def)
    qed
    ultimately show ?thesis using empty_view [of e st] h 3 by (simp add: ef)
  qed
  then show "wf_log st e" "\<not> in_log st b \<Longrightarrow> log_view st e b = (if k \<le> length bl then d b else B b)" by blast+
qed

lemma logged_home:
  assumes "logged st bl B d" "\<forall>b \<in> set bl. \<not> in_log st b" "j \<le> length bl" "\<And>b. length (B b) = BSIZE" "length bl < LOGSIZE"
  shows "logged st bl B (replay (map (\<lambda>i. (bl ! i, B (bl ! i))) [0..<j]) d)"
proof -
  define e where "e = replay (map (\<lambda>i. (bl ! i, B (bl ! i))) [0..<j]) d"
  have il: "e b = d b" if "b \<notin> set bl" for b
    unfolding e_def by (rule replay_map_other) (use that assms(3) in auto)
  have lg: "e b = d b" if "in_log st b" for b using il that assms(2) by blast
  have "length (e b) = BSIZE" for b
    unfolding e_def by (rule replay_length) (use assms(1,4) in \<open>simp_all add: logged_def\<close>)
  moreover have "e (lblock st i) = B (bl ! i)" if "i < length bl" for i
    using lg [OF lblock_facts(1), of i] assms(1,5) that by (simp add: logged_def)
  moreover have "e st = d st" using lg [OF lblock_facts(2)] .
  ultimately show ?thesis
    using assms(1) il unfolding e_def [symmetric] logged_def by simp
qed

lemma wf_logged:
  assumes "wf_log st d" and bl: "bl = map (hb_block (d st)) [0..<nat (hb_n (d st))]"
  shows "logged st bl (log_view st d) d" "distinct bl" "\<forall>b \<in> set bl. \<not> in_log st b" "length bl < LOGSIZE"
    "length (log_view st d b) = BSIZE"
proof -
  have l: "length (d b) = BSIZE" for b using assms(1) by (simp add: wf_log_def)
  show "length (log_view st d b) = BSIZE" for b
    unfolding log_view_def log_writes_def by (rule replay_length [OF l l])
  show "distinct bl" "\<forall>b \<in> set bl. \<not> in_log st b" "length bl < LOGSIZE"
    using assms by (auto simp: wf_log_def nat_less_iff)
  have n: "length bl = nat (hb_n (d st))" by (simp add: bl)
  have inj: "inj_on (hb_block (d st)) {..<nat (hb_n (d st))}"
    using \<open>distinct bl\<close> by (simp add: bl distinct_map lessThan_atLeast0)
  have 1: "d (lblock st i) = log_view st d (bl ! i)" if "i < length bl" for i
    using replay_map [OF inj, of i "\<lambda>i. d (lblock st i)" d] that
    by (simp add: log_view_def log_writes_def bl)
  have 2: "d b = log_view st d b" if "b \<notin> set bl" for b
    unfolding log_view_def log_writes_def by (rule sym, rule replay_map_other) (use that in \<open>auto simp: bl\<close>)
  have "hb_n (d st) = int (length bl)" "\<forall>i < length bl. hb_block (d st) i = bl ! i"
    using assms(1) by (simp_all add: bl wf_log_def)
  then show "logged st bl (log_view st d) d"
    unfolding logged_def using 1 2 l by blast
qed

text \<open>Recovery that is interrupted leaves a log that describes the same disk.\<close>

lemma recover_prefix:
  assumes wf: "wf_log st d" and e: "e = replay (take j (recover_writes st d)) d"
  shows "wf_log st e" "\<not> in_log st b \<Longrightarrow> log_view st e b = log_view st d b"
proof -
  define bl where "bl = map (hb_block (d st)) [0..<nat (hb_n (d st))]"
  note w = wf_logged [OF wf bl_def]
  let ?B = "log_view st d"
  have rw: "recover_writes st d = map (\<lambda>i. (bl ! i, ?B (bl ! i))) [0..<length bl] @ [(st, mk_head [] (d st))]"
    using logged_writes(1) [OF w(1)] by (simp add: recover_writes_def)
  have "wf_log st e \<and> (\<not> in_log st b \<longrightarrow> log_view st e b = ?B b)"
  proof (cases "j \<le> length bl")
    case True
    then have "take j (recover_writes st d) = map (\<lambda>i. (bl ! i, ?B (bl ! i))) [0..<j]"
      by (simp add: rw take_map)
    with logged_home [OF w(1,3) True w(5,4)] have "logged st bl ?B e" by (simp add: e)
    from logged_view [OF this w(2-4)] show ?thesis by simp
  next
    case False
    define f where "f = replay (map (\<lambda>i. (bl ! i, ?B (bl ! i))) [0..<length bl]) d"
    have f: "logged st bl ?B f" unfolding f_def by (rule logged_home [OF w(1,3) order.refl w(5,4)])
    have ef: "e = f(st := mk_head [] (d st))" using False by (simp add: e f_def rw)
    have "length (d st) = BSIZE" using wf by (simp add: wf_log_def)
    from mk_head_get [OF this, of "[]"] have h: "length (mk_head [] (d st)) = BSIZE" "hb_n (mk_head [] (d st)) = 0"
      by simp_all
    have "\<forall>b. length (e b) = BSIZE" using h f by (simp add: ef logged_def)
    moreover have "e b = ?B b" if "\<not> in_log st b"
    proof -
      have "e b = f b" using that lblock_facts(2) [of st] by (auto simp: ef)
      moreover have "f = ?B" unfolding f_def logged_writes(1) [OF w(1), symmetric] by (simp only: log_view_def)
      ultimately show ?thesis by simp
    qed
    ultimately show ?thesis using empty_view [of e st] h by (simp add: ef)
  qed
  then show "wf_log st e" "\<not> in_log st b \<Longrightarrow> log_view st e b = log_view st d b" by blast+
qed

text \<open>A machine that has just booted from the disk \<open>d\<close>, about to read the log.\<close>

definition booted :: "nat \<Rightarrow> int \<Rightarrow> (u32 \<Rightarrow> u8 list) \<Rightarrow> 'z log_state_scheme \<Rightarrow> bool" where
  "booted p pid d s \<longleftrightarrow> bst p pid s d (\<lambda>_. 0) (\<lambda>_. None) \<and> disk s = d \<and> length (lh_block (log_lh s)) = LOGSIZE"

lemma runs_as_initlock:
  assumes "runs_as p s"
  shows "runs_as p (s\<lparr>lk := set_lock l (\<lambda>k. k\<lparr>sl_name := nm, sl_locked := 0, sl_cpu := None\<rparr>) (lk s)\<rparr>)"
  using assms by (simp add: runs_as_def calm_def settled_def lock_free_def lock_defs)

lemma initlog_ok:
  fixes s :: "'z log_state_scheme"
  assumes b: "booted p pid d s" and wf: "wf_log (sb_logstart sb) d"
  shows "\<exists>t. initlog ROOTDEV sb s = Ok () t \<and> lh_n (log_lh t) = 0 \<and>
    disk t = replay (recover_writes (sb_logstart sb) d) d \<and> written t = written s @ recover_writes (sb_logstart sb) d \<and>
    (\<forall>b. \<not> in_log (sb_logstart sb) b \<longrightarrow> disk t b = log_view (sb_logstart sb) d b)"
proof -
  let ?st = "sb_logstart sb"
  define s1 where "s1 = s\<lparr>lk := set_lock LogLock (\<lambda>k. k\<lparr>sl_name := ''log'', sl_locked := 0, sl_cpu := None\<rparr>) (lk s),
    log_start := ?st, log_size := sint (sb_nlog sb), log_dev := ROOTDEV\<rparr>"
  have e: "bst p pid s1 d (\<lambda>_. 0) (\<lambda>_. None)"
  proof -
    have bs: "bst p pid s d (\<lambda>_. 0) (\<lambda>_. None)" using b by (simp add: booted_def)
    have r: "runs_as p s" using bs by (simp add: bst_def)
    have "runs_as p s1 = runs_as p s"
      using r runs_as_initlock [OF r, of LogLock "''log''"] by (simp add: runs_as_def s1_def)
    with bs show ?thesis by (subst bst_cong [of _ s]) (simp_all add: s1_def)
  qed
  have d: "disk s1 = d" "length (lh_block (log_lh s1)) = LOGSIZE" "log_dev s1 = ROOTDEV" "?st = log_start s1" "written s1 = written s"
    using b by (simp_all add: booted_def s1_def)
  have "initlog ROOTDEV sb s = recover_from_log s1"
    by (simp add: initlog_def block_run bind_run panic_if_def on_lk_def initlock_def s1_def)
  then obtain t where t: "initlog ROOTDEV sb s = Ok () t" "lh_n (log_lh t) = 0" "disk t = replay (recover_writes ?st d) d"
    "written t = written s1 @ recover_writes ?st d"
    using recover_ok [OF _ d(3,4,2)] e wf d(1) by auto
  moreover have "disk t b = log_view ?st d b" if "\<not> in_log ?st b" for b
    using that lblock_facts(2) [of ?st] t(3) by (auto simp: recover_writes_def log_view_def)
  ultimately show ?thesis using d(5) by simp
qed

lemma commit_effect:
  assumes "b \<notin> set bl \<Longrightarrow> B b = d b" "\<not> in_log st b" "length bl < LOGSIZE"
  shows "replay (commit_writes st bl B) d b = B b"
proof -
  have ne: "b \<noteq> st" using assms(2) lblock_facts(2) [of st] by auto
  define e where "e = (replay (map (\<lambda>i. (lblock st i, B (bl ! i))) [0..<length bl]) d)(st := mk_head bl (B st))"
  have "e b = d b" using replay_home [OF assms(2,3)] ne by (simp add: e_def)
  then have "e b = B b \<or> b \<in> (!) bl ` set [0..<length bl]" unfolding nth_upt_set using assms(1) by metis
  from replay_const [of e b B "(!) bl", OF this] show ?thesis using ne by (simp add: commit_writes_def e_def)
qed

text \<open>
  C1: A commit is atomic. \<open>commit\<close> returns, with the log emptied and the home blocks of the
  transaction written. If the machine stops after any number \<open>k\<close> of its block writes and boots
  again, \<open>initlog\<close> leaves every block outside of the log as it was before the transaction when the
  header had not been written (\<open>k \<le> n\<close>), and as the transaction wants it otherwise.
\<close>

theorem commit_crash_safe:
  fixes s :: "'z log_state_scheme"
  assumes L: "log_ready p pid s B" and n: "lh_n (log_lh s) > 0" and st: "st = log_start s"
  shows "\<exists>t ws. commit s = Ok () t \<and> lh_n (log_lh t) = 0 \<and> written t = written s @ ws \<and> disk t = replay ws (disk s) \<and>
    (\<forall>b. \<not> in_log st b \<longrightarrow> disk t b = B b) \<and>
    (\<forall>k q qid sb (u :: 'y log_state_scheme). booted q qid (replay (take k ws) (disk s)) u \<and> sb_logstart sb = st \<longrightarrow>
      (\<exists>v. initlog ROOTDEV sb u = Ok () v \<and>
        (\<forall>b. \<not> in_log st b \<longrightarrow> disk v b = (if k \<le> nat (lh_n (log_lh s)) then disk s b else B b))))"
proof -
  define bl where "bl = lhome s"
  define ws where "ws = commit_writes st bl B"
  obtain t where t: "commit s = Ok () t" "lh_n (log_lh t) = 0" "disk t = replay ws (disk s)" "written t = written s @ ws"
    using commit_ok [OF L n st bl_def] by (auto simp: ws_def)
  have b: "bst p pid s B (\<lambda>b. if b \<in> set bl then 1 else 0) (\<lambda>_. None)" using L by (simp add: log_ready_def bl_def)
  have len: "length (B b) = BSIZE" "length (disk s b) = BSIZE" for b
    using bst_length [OF b] b by (simp_all add: bst_def bio_inv_def)
  have nn: "nat (lh_n (log_lh s)) = length bl" using log_ready_length [OF L] by (simp add: bl_def)
  have B: "B b = disk s b" if "b \<notin> set bl" for b using L that by (simp add: log_ready_def bl_def)
  have bl: "distinct bl" "\<forall>b \<in> set bl. \<not> in_log st b" "length bl < LOGSIZE" "hb_n (disk s st) = 0"
    using L log_ready_length [OF L] by (simp_all add: log_ready_def bl_def st)
  have cp: "wf_log st (replay (take k ws) (disk s))"
    "\<not> in_log st b \<Longrightarrow> log_view st (replay (take k ws) (disk s)) b = (if k \<le> length bl then disk s b else B b)" for k b
    using commit_prefix [of bl B "disk s" st, OF B len bl refl] by (simp_all add: ws_def)
  have crash: "\<exists>v. initlog ROOTDEV sb u = Ok () v \<and>
      (\<forall>b. \<not> in_log st b \<longrightarrow> disk v b = (if k \<le> nat (lh_n (log_lh s)) then disk s b else B b))"
    if "booted q qid (replay (take k ws) (disk s)) u" "sb_logstart sb = st" for k q qid sb and u :: "'y log_state_scheme"
    using initlog_ok [OF that(1), of sb] cp [where k = k] unfolding that(2) nn by fastforce
  have "disk t b = B b" if nb: "\<not> in_log st b" for b
    unfolding t(3) ws_def using B nb bl(3) by (intro commit_effect) simp_all
  then show ?thesis using t crash by blast
qed

text \<open>
  C13: Recovery is idempotent across crashes. On any disk with a well-formed log \<open>initlog\<close> returns
  and applies the log; if it is cut off after any number \<open>j\<close> of its block writes, running it again on
  the next boot gives the same blocks outside of the log.
\<close>

theorem recovery_survives_crash:
  fixes s :: "'z log_state_scheme"
  assumes "booted p pid d s" and wf: "wf_log (sb_logstart sb) d"
  shows "\<exists>t ws. initlog ROOTDEV sb s = Ok () t \<and> written t = written s @ ws \<and> lh_n (log_lh t) = 0 \<and>
    (\<forall>b. \<not> in_log (sb_logstart sb) b \<longrightarrow> disk t b = log_view (sb_logstart sb) d b) \<and>
    (\<forall>j q qid (u :: 'y log_state_scheme). booted q qid (replay (take j ws) d) u \<longrightarrow>
      (\<exists>v. initlog ROOTDEV sb u = Ok () v \<and> (\<forall>b. \<not> in_log (sb_logstart sb) b \<longrightarrow> disk v b = disk t b)))"
proof -
  define ws where "ws = recover_writes (sb_logstart sb) d"
  obtain t where t: "initlog ROOTDEV sb s = Ok () t" "lh_n (log_lh t) = 0" "written t = written s @ ws"
    "\<forall>b. \<not> in_log (sb_logstart sb) b \<longrightarrow> disk t b = log_view (sb_logstart sb) d b"
    using initlog_ok [OF assms] by (auto simp: ws_def)
  have "\<exists>v. initlog ROOTDEV sb u = Ok () v \<and> (\<forall>b. \<not> in_log (sb_logstart sb) b \<longrightarrow> disk v b = disk t b)"
    if "booted q qid (replay (take j ws) d) u" for j q qid and u :: "'y log_state_scheme"
    using initlog_ok [OF that, of sb] recover_prefix [OF wf refl, where j = j] t(4) unfolding ws_def [symmetric] by fastforce
  with t show ?thesis by blast
qed

text \<open>An example: block 40 is logged with new contents, on a disk of zeros with its log at 2.\<close>

definition zeros :: "u32 \<Rightarrow> u8 list" where
  "zeros b = replicate BSIZE 0"

definition example_log :: "(nat \<Rightarrow> buf) \<Rightarrow> int \<Rightarrow> u32 list \<Rightarrow> log_state" where
  "example_log bs n bl = bio_state.extend (bio_with bs\<lparr>disk := zeros\<rparr>)
     \<lparr>log_start = 2, log_size = 30, log_outstanding = 0, log_committing = 0, log_dev = ROOTDEV,
      log_lh = \<lparr>lh_n = n, lh_block = bl @ replicate (LOGSIZE - length bl) 0\<rparr>\<rparr>"

definition pinned_bufs :: "nat \<Rightarrow> buf" where
  "pinned_bufs = fresh_bufs(0 := (fresh_bufs 0)\<lparr>b_valid := 1, b_dev := ROOTDEV, b_blockno := 40, b_refcnt := 1, b_data := sevens 40\<rparr>)"

lemma le_word_zeros: "le_word (replicate n 0) = 0"
  by (induction n) simp_all

lemma example_log_sel [simp]:
  "bufs (example_log bs n bl) = bs" "disk (example_log bs n bl) = zeros" "slk_locked (slocks (example_log bs n bl) l) = 0"
  "runs_as 0 (example_log bs n bl)" "log_start (example_log bs n bl) = 2" "log_dev (example_log bs n bl) = ROOTDEV"
  "log_lh (example_log bs n bl) = \<lparr>lh_n = n, lh_block = bl @ replicate (LOGSIZE - length bl) 0\<rparr>"
  "length (zeros b) = BSIZE" "hb_n (zeros b) = 0"
  by (simp_all add: example_log_def bio_with_def buf_sleeper_def bio_state.defs sleep_state.defs cons_state.defs runs_as_def
      zeros_def hb_n_def get32_def Xv6_Prelude.slice_def le_word_zeros)

lemma example_booted: "booted 0 (p_pid (procs (example_log fresh_bufs 0 []) 0)) zeros (example_log fresh_bufs 0 [])"
proof -
  let ?s = "example_log fresh_bufs 0 []"
  have c: "cached ?s ROOTDEV = (\<lambda>_. None)" by (intro ext, unfold cached_None) (simp add: holds_blk_def)
  have "bio_unique fresh_bufs" unfolding bio_unique_def by simp
  then have "bio_inv ?s"
    unfolding bio_inv_def using fresh_ring by (auto simp: buf_ok_def simp del: upt_rec_numeral)
  then show ?thesis by (simp add: booted_def bst_def lblk_def brefs_def bowner_def c fun_eq_iff)
qed

lemma example_ready:
  "log_ready 0 (p_pid (procs (example_log pinned_bufs 1 [40]) 0)) (example_log pinned_bufs 1 [40]) (zeros(40 := sevens 40))"
proof -
  let ?s = "example_log pinned_bufs 1 [40]"
  have "ring pinned_bufs (rev [0..<NBUF])"
    using fresh_ring by (subst ring_cong [of _ fresh_bufs]) (simp_all add: pinned_bufs_def del: upt_rec_numeral)
  moreover have u: "bio_unique pinned_bufs" unfolding bio_unique_def by (simp add: pinned_bufs_def)
  ultimately have "bio_inv ?s"
    unfolding bio_inv_def by (auto simp: buf_ok_def pinned_bufs_def simp del: upt_rec_numeral)
  moreover have c: "cached ?s ROOTDEV b = (if b = 40 then Some 0 else None)" for b
  proof (cases "b = 40")
    case True
    then show ?thesis using cached_iff [of ?s ROOTDEV b 0] u by (simp add: holds_blk_def pinned_bufs_def)
  next
    case False
    then have "cached ?s ROOTDEV b = None" unfolding cached_None by (simp add: holds_blk_def pinned_bufs_def)
    with False show ?thesis by simp
  qed
  moreover have "\<not> in_log 2 40" by (simp add: in_log_iff)
  ultimately show ?thesis
    by (simp add: log_ready_def bst_def lblk_def brefs_def bowner_def fun_eq_iff lhome_def pinned_bufs_def slock_owner_def)
qed

definition example_sb :: superblock where
  "example_sb = \<lparr>sb_magic = 0x10203040, sb_size = 1000, sb_nblocks = 954, sb_ninodes = 200, sb_nlog = 30,
     sb_logstart = 2, sb_inodestart = 32, sb_bmapstart = 45\<rparr>"

theorem commit_crash_safe_witness:
  "\<exists>t v. commit (example_log pinned_bufs 1 [40]) = Ok () t \<and> disk t 40 = sevens 40 \<and>
     initlog ROOTDEV example_sb (example_log fresh_bufs 0 []) = Ok () v \<and> disk v 40 = zeros 40"
proof -
  have nl: "\<not> in_log 2 40" using example_ready by (simp add: log_ready_def lhome_def)
  let ?s = "example_log pinned_bufs 1 [40]" and ?B = "zeros(40 := sevens 40)"
  have "lh_n (log_lh ?s) > 0" "2 = log_start ?s" by simp_all
  from commit_crash_safe [OF example_ready this, where 'y = unit] nl
  obtain t ws where t: "commit ?s = Ok () t" "disk t 40 = ?B 40"
    and c: "\<forall>k q qid sb (u :: log_state). booted q qid (replay (take k ws) (disk ?s)) u \<and> sb_logstart sb = 2 \<longrightarrow>
      (\<exists>v. initlog ROOTDEV sb u = Ok () v \<and> (\<forall>b. \<not> in_log 2 b \<longrightarrow> disk v b = (if k \<le> nat (lh_n (log_lh ?s)) then disk ?s b else ?B b)))"
    by blast
  have "booted 0 (p_pid (procs (example_log fresh_bufs 0 []) 0)) (replay (take 0 ws) (disk ?s)) (example_log fresh_bufs 0 [])"
    using example_booted by simp
  from c [rule_format, OF conjI, OF this, of example_sb] nl t show ?thesis by (auto simp: example_sb_def)
qed

theorem recovery_survives_crash_witness:
  "\<exists>t. initlog ROOTDEV example_sb (example_log fresh_bufs 0 []) = Ok () t \<and> lh_n (log_lh t) = 0"
proof -
  have "wf_log (sb_logstart example_sb) zeros" by (simp add: wf_log_def)
  from recovery_survives_crash [OF example_booted this] show ?thesis by blast
qed

section \<open>Logging a block\<close>

lemma log_slot_in: "b \<in> set xs \<Longrightarrow> log_slot xs b < length xs \<and> xs ! log_slot xs b = b"
  by (induction xs) auto

lemma log_slot_out: "b \<notin> set xs \<Longrightarrow> log_slot xs b = length xs"
  by (induction xs) auto

lemma bpin_locked:
  assumes "settled (lk s)" "lock_free BcacheLock (lk s)"
  shows "bpin i s = Ok () (s\<lparr>bufs := (bufs s)(i := (bufs s i)\<lparr>b_refcnt := b_refcnt (bufs s i) + 1\<rparr>)\<rparr>)"
  using assms by (simp add: bpin_def with_lock_obliv obliv_set_buf)

definition logged_lh :: "u32 \<Rightarrow> logheader \<Rightarrow> logheader" where
  "logged_lh b h = h\<lparr>lh_block := (lh_block h)[nat (lh_n h) := b], lh_n := lh_n h + 1\<rparr>"

lemma lhome_lk [simp]: "lhome (s\<lparr>lk := L\<rparr>) = lhome s"
  by (simp add: lhome_def)

lemma log_write_run:
  fixes s :: "'z log_state_scheme"
  assumes r: "runs_as p s" and n: "0 \<le> lh_n (log_lh s)" "lh_n (log_lh s) < LOGSIZE" "lh_n (log_lh s) < log_size s - 1"
    and len: "length (lh_block (log_lh s)) = LOGSIZE" and out: "log_outstanding s \<ge> 1" and no: "no = b_blockno (bufs s i)"
  shows "log_write i s = Ok () (if no \<in> set (lhome s) then s
    else s\<lparr>bufs := (bufs s)(i := (bufs s i)\<lparr>b_refcnt := b_refcnt (bufs s i) + 1\<rparr>), log_lh := logged_lh no (log_lh s)\<rparr>)"
proof -
  let ?h = "log_lh s" and ?k = "log_slot (lhome s) no"
  have nn: "length (lhome s) = nat (lh_n ?h)" using n len by (simp add: lhome_def)
  have "settled (acquired LogLock (lk s))" "lock_free BcacheLock (acquired LogLock (lk s))"
    using runs_as_acquired [OF r] runs_as_locks [OF r] by (simp_all add: lock_free_acquired)
  note pin = bpin_locked [where s = "s\<lparr>lk := acquired LogLock (lk s), log_lh := h\<rparr>" for h, simplified, OF this]
  note al = acquire_run [OF runs_as_locks(2) [OF r], of LogLock] and rl = runs_as_acquired(3) [OF r, of LogLock]
  show ?thesis
  proof (cases "no \<in> set (lhome s)")
    case True
    then have k: "?k < nat (lh_n ?h)" "lhome s ! ?k = no" using log_slot_in [OF True] nn by simp_all
    then have "lh_block ?h ! ?k = no" by (simp add: lhome_def)
    then have "(lh_block ?h)[?k := no] = lh_block ?h" by (metis list_update_id)
    moreover have "int ?k \<noteq> lh_n ?h" using k(1) by simp
    ultimately show ?thesis
      using True n out al rl no
      by (simp add: log_write_def bind_run block_run panic_if_def set_lh_def lhome_def [symmetric] on_lk_def only_if_def)
  next
    case False
    then have k: "?k = nat (lh_n ?h)" using log_slot_out [OF False] nn by simp
    then show ?thesis
      using False n out al rl no pin
      by (simp add: log_write_def bind_run block_run panic_if_def set_lh_def lhome_def [symmetric] on_lk_def only_if_def logged_lh_def)
  qed
qed

section \<open>Rules for code inside a transaction\<close>

text \<open>
  \<open>tx p pid s B H\<close>: process \<open>p\<close> is in a transaction, \<open>B\<close> is what every block holds as the process
  sees it, and \<open>H\<close> is the set of blocks it has locked. The logged blocks are pinned; every block
  that is neither logged nor locked is on the disk as it is in \<open>B\<close>.
\<close>

definition tx_refs :: "u32 list \<Rightarrow> u32 set \<Rightarrow> u32 \<Rightarrow> nat" where
  "tx_refs L H b = (if b \<in> set L then 1 else 0) + (if b \<in> H then 1 else 0)"

definition tx_owner :: "int \<Rightarrow> u32 set \<Rightarrow> u32 \<Rightarrow> int option" where
  "tx_owner pid H b = (if b \<in> H then Some pid else None)"

definition tx :: "nat \<Rightarrow> int \<Rightarrow> 'z log_state_scheme \<Rightarrow> (u32 \<Rightarrow> u8 list) \<Rightarrow> u32 set \<Rightarrow> bool" where
  "tx p pid s B H \<longleftrightarrow>
     bst p pid s B (tx_refs (lhome s) H) (tx_owner pid H) \<and> finite H \<and> log_dev s = ROOTDEV \<and>
     distinct (lhome s) \<and> (\<forall>b \<in> set (lhome s). \<not> in_log (log_start s) b) \<and>
     length (lh_block (log_lh s)) = LOGSIZE \<and> 0 \<le> lh_n (log_lh s) \<and> lh_n (log_lh s) < LOGSIZE \<and>
     (\<forall>b. b \<notin> set (lhome s) \<longrightarrow> b \<notin> H \<longrightarrow> B b = disk s b) \<and> hb_n (disk s (log_start s)) = 0 \<and>
     log_outstanding s \<ge> 1 \<and> log_committing s = 0 \<and> log_size s \<le> LOGSIZE"

text \<open>The frame: in a transaction nothing reaches the disk.\<close>

definition tx_step :: "'z log_state_scheme \<Rightarrow> 'z log_state_scheme \<Rightarrow> bool" where
  "tx_step s t \<longleftrightarrow> (\<exists>h. bio_step (s\<lparr>log_lh := h\<rparr>) t)"

lemma tx_stepI: "bio_step s t \<Longrightarrow> tx_step s t" "tx_step s (s\<lparr>log_lh := h\<rparr>)"
  unfolding tx_step_def by (rule exI [of _ "log_lh s"], simp) (rule exI [of _ h], simp)

lemma tx_step_refl [simp]: "tx_step s s"
  by (simp add: tx_stepI)

lemma tx_step_trans [trans]:
  assumes "tx_step s t" "tx_step t u"
  shows "tx_step s u"
proof -
  obtain h where 1: "bio_step (s\<lparr>log_lh := h\<rparr>) t" using assms(1) by (auto simp: tx_step_def)
  obtain g where 2: "bio_step (t\<lparr>log_lh := g\<rparr>) u" using assms(2) by (auto simp: tx_step_def)
  have "bio_step (s\<lparr>log_lh := g\<rparr>) (t\<lparr>log_lh := g\<rparr>)" using bio_step_lh [OF 1, of g] by simp
  from bio_step_trans [OF this 2] show ?thesis unfolding tx_step_def by blast
qed

lemma tx_step_same:
  assumes "tx_step s t"
  shows "disk t = disk s" "written t = written s" "log_start t = log_start s" "log_dev t = log_dev s" "log_size t = log_size s"
    "log_outstanding t = log_outstanding s" "log_committing t = log_committing s" "slocks t (InodeLock k) = slocks s (InodeLock k)"
    "pmem t = pmem s" "p_pagetable (procs t q) = p_pagetable (procs s q)" "lk t = lk s" "p_pid (procs t q) = p_pid (procs s q)"
    "log_state.more t = log_state.more s" "runs_as p t = runs_as p s"
proof -
  obtain h where 1: "bio_step (s\<lparr>log_lh := h\<rparr>) t" using assms(1) by (auto simp: tx_step_def)
  show "disk t = disk s" "written t = written s" "slocks t (InodeLock k) = slocks s (InodeLock k)"
    "pmem t = pmem s" "p_pagetable (procs t q) = p_pagetable (procs s q)" "lk t = lk s" "p_pid (procs t q) = p_pid (procs s q)"
    using bio_step_same [OF 1] by simp_all
  show "log_start t = log_start s" "log_dev t = log_dev s" "log_size t = log_size s"
    "log_outstanding t = log_outstanding s" "log_committing t = log_committing s"
    using bio_step_log [OF 1] by simp_all
  show "log_state.more t = log_state.more s" using 1 by (auto simp: bio_step_def)
  show "runs_as p t = runs_as p s" using bio_step_same(8) [OF 1] by (simp add: runs_as_def)
qed

lemma tx_refs_upd:
  "b \<notin> H \<Longrightarrow> (tx_refs L H)(b := Suc (tx_refs L H b)) = tx_refs L (insert b H)"
  "b \<in> H \<Longrightarrow> (tx_refs L H)(b := tx_refs L H b - 1) = tx_refs L (H - {b})"
  "b \<notin> set L \<Longrightarrow> (tx_refs L H)(b := Suc (tx_refs L H b)) = tx_refs (L @ [b]) H"
  "(tx_owner pid H)(b := Some pid) = tx_owner pid (insert b H)"
  "(tx_owner pid H)(b := None) = tx_owner pid (H - {b})"
  by (auto simp: tx_refs_def tx_owner_def fun_eq_iff)

lemma tx_refs_card: "finite H \<Longrightarrow> card {b. tx_refs L H b \<noteq> 0} \<le> length L + card H"
proof -
  have "{b. tx_refs L H b \<noteq> 0} = set L \<union> H" by (auto simp: tx_refs_def)
  then show ?thesis using card_Un_le [of "set L" H] card_length [of L] by simp
qed

lemma txD:
  assumes "tx p pid s B H"
  shows "bst p pid s B (tx_refs (lhome s) H) (tx_owner pid H)" "finite H" "runs_as p s" "length (B b) = BSIZE"
    "length (lhome s) < LOGSIZE" "b \<notin> set (lhome s) \<Longrightarrow> b \<notin> H \<Longrightarrow> B b = disk s b" "int (length (lhome s)) = lh_n (log_lh s)"
proof -
  show b: "bst p pid s B (tx_refs (lhome s) H) (tx_owner pid H)" and "finite H"
    "b \<notin> set (lhome s) \<Longrightarrow> b \<notin> H \<Longrightarrow> B b = disk s b" using assms by (simp_all add: tx_def)
  show "runs_as p s" "length (B b) = BSIZE" using b bst_length [OF b] by (simp_all add: bst_def)
  have "nat (lh_n (log_lh s)) < LOGSIZE" "length (lh_block (log_lh s)) = LOGSIZE" "0 \<le> lh_n (log_lh s)"
    using assms by (simp_all add: tx_def nat_less_iff)
  then show "length (lhome s) < LOGSIZE" "int (length (lhome s)) = lh_n (log_lh s)" by (simp_all add: lhome_def)
qed

lemma tx_bread:
  fixes s :: "'z log_state_scheme"
  assumes T: "tx p pid s B H" and b: "b \<notin> H" and room: "length (lhome s) + card H < NBUF"
  obtains i t where "bread ROOTDEV b s = Ok i t" "tx_step s t" "tx p pid t B (insert b H)" "has_buf t b i" "lhome t = lhome s"
    "log_lh t = log_lh s" "b_data (bufs t i) = B b" "b \<notin> set (lhome s) \<Longrightarrow> B b = disk t b"
    "\<And>b' j. has_buf s b' j \<Longrightarrow> b' \<in> H \<Longrightarrow> has_buf t b' j"
proof -
  note t = txD [OF T]
  have R: "tx_refs (lhome s) H b < 2 ^ 32 - 1" by (simp add: tx_refs_def)
  have H: "tx_owner pid H b = None" using b by (simp add: tx_owner_def)
  have "card {b. tx_refs (lhome s) H b \<noteq> 0} < NBUF" using tx_refs_card [OF t(2), of "lhome s"] room by simp
  then obtain i u where 1: "bread ROOTDEV b s = Ok i u" "bio_step s u"
    "bst p pid u B ((tx_refs (lhome s) H)(b := Suc (tx_refs (lhome s) H b))) ((tx_owner pid H)(b := Some pid))" "has_buf u b i"
    "\<And>b' j. has_buf s b' j \<Longrightarrow> tx_refs (lhome s) H b' \<noteq> 0 \<Longrightarrow> has_buf u b' j"
    using bst_bread [OF t(1) H _ R] by blast
  have l: "lhome u = lhome s" using io_step_lhome [OF io_stepI(1) [OF 1(2)]] .
  have "bst p pid u B (tx_refs (lhome u) (insert b H)) (tx_owner pid (insert b H))"
    using 1(3) unfolding tx_refs_upd(1) [OF b] tx_refs_upd(4) l .
  moreover have "log_lh u = log_lh s" "log_start u = log_start s" "log_dev u = log_dev s" "log_size u = log_size s"
    "log_outstanding u = log_outstanding s" "log_committing u = log_committing s" "disk u = disk s"
    using bio_step_log [OF 1(2)] bio_step_same(3) [OF 1(2)] by simp_all
  ultimately have "tx p pid u B (insert b H)" using T l by (simp add: tx_def)
  then show thesis
    using 1 l bio_step_log [OF 1(2)] bst_data [OF 1(3,4)] t(6) b bio_step_same(3) [OF 1(2)] tx_stepI(1)
    by (intro that [of i u]) (simp_all add: tx_refs_def)
qed

lemma tx_set:
  fixes s :: "'z log_state_scheme"
  assumes T: "tx p pid s B H" and i: "has_buf s b i" "b \<in> H" and x: "length x = BSIZE"
    and t: "t = s\<lparr>bufs := (bufs s)(i := (bufs s i)\<lparr>b_data := x\<rparr>)\<rparr>"
  shows "tx p pid t (B(b := x)) H" "has_buf s b' j \<Longrightarrow> has_buf t b' j" "tx_step s t" "lhome t = lhome s" "log_lh t = log_lh s"
proof -
  have "tx_refs (lhome s) H b \<noteq> 0" using i(2) by (simp add: tx_refs_def)
  note e = bst_set [OF txD(1) [OF T] i(1) this x t]
  show l: "lhome t = lhome s" "log_lh t = log_lh s" by (simp_all add: t lhome_def)
  show "tx_step s t" "has_buf s b' j \<Longrightarrow> has_buf t b' j" using e(2,3) tx_stepI by auto
  show "tx p pid t (B(b := x)) H" using T e(1) l i(2) by (simp add: tx_def) (simp add: t)
qed

lemma tx_brelse:
  fixes s :: "'z log_state_scheme"
  assumes T: "tx p pid s B H" and i: "has_buf s b i" "b \<in> H" and c: "b \<notin> set (lhome s) \<Longrightarrow> B b = disk s b"
  obtains t where "brelse i s = Ok () t" "tx_step s t" "tx p pid t B (H - {b})" "lhome t = lhome s" "log_lh t = log_lh s"
    "\<And>b' j. has_buf s b' j \<Longrightarrow> has_buf t b' j"
proof -
  have "tx_owner pid H b = Some pid" "tx_refs (lhome s) H b = 1 \<Longrightarrow> B b = disk s b"
    using i(2) c by (auto simp: tx_owner_def tx_refs_def split: if_splits)
  then obtain u where 1: "brelse i s = Ok () u" "bio_step s u"
    "bst p pid u B ((tx_refs (lhome s) H)(b := tx_refs (lhome s) H b - 1)) ((tx_owner pid H)(b := None))"
    "\<And>b' j. has_buf s b' j \<Longrightarrow> has_buf u b' j"
    using bst_brelse [OF txD(1) [OF T] i(1)] by blast
  have l: "lhome u = lhome s" using io_step_lhome [OF io_stepI(1) [OF 1(2)]] .
  have "bst p pid u B (tx_refs (lhome u) (H - {b})) (tx_owner pid (H - {b}))"
    using 1(3) unfolding tx_refs_upd(2) [OF i(2)] tx_refs_upd(5) l .
  moreover have f: "log_lh u = log_lh s" "log_start u = log_start s" "log_dev u = log_dev s" "log_size u = log_size s"
    "log_outstanding u = log_outstanding s" "log_committing u = log_committing s" "disk u = disk s"
    using bio_step_log [OF 1(2)] bio_step_same(3) [OF 1(2)] by simp_all
  ultimately have "tx p pid u B (H - {b})" using T l c by (auto simp: tx_def)
  then show thesis using 1 l f tx_stepI(1) by (intro that [of u]) simp_all
qed

lemma tx_log_write:
  fixes s :: "'z log_state_scheme"
  assumes T: "tx p pid s B H" and i: "has_buf s b i" "b \<in> H" and nl: "\<not> in_log (log_start s) b"
    and room: "int (length (lhome s)) < log_size s - 1"
  obtains t where "log_write i s = Ok () t" "tx_step s t" "tx p pid t B H"
    "lhome t = (if b \<in> set (lhome s) then lhome s else lhome s @ [b])"
    "\<And>b' j. has_buf s b' j \<Longrightarrow> has_buf t b' j"
proof -
  note d = txD [OF T]
  have no: "b = b_blockno (bufs s i)"
    using cached_iff [of s ROOTDEV b i] i(1) d(1) by (simp add: has_buf_def bst_def bio_inv_def holds_blk_def)
  have pre: "0 \<le> lh_n (log_lh s)" "lh_n (log_lh s) < LOGSIZE" "lh_n (log_lh s) < log_size s - 1"
    "length (lh_block (log_lh s)) = LOGSIZE" "log_outstanding s \<ge> 1"
    using T room d(7) by (simp_all add: tx_def)
  note lw = log_write_run [OF d(3) pre no]
  show thesis
  proof (cases "b \<in> set (lhome s)")
    case True
    then show thesis using lw T by (intro that [of s]) simp_all
  next
    case False
    let ?u = "s\<lparr>bufs := (bufs s)(i := (bufs s i)\<lparr>b_refcnt := b_refcnt (bufs s i) + 1\<rparr>)\<rparr>"
    let ?t = "?u\<lparr>log_lh := logged_lh b (log_lh s)\<rparr>"
    have "tx_refs (lhome s) H b \<noteq> 0" "tx_refs (lhome s) H b < 2 ^ 32 - 1" using i(2) by (simp_all add: tx_refs_def)
    then obtain v where v: "bpin i s = Ok () v" "bio_step s v" "bio_inv v" "cached v = cached s" "lblk v ROOTDEV = lblk s ROOTDEV"
      "brefs v ROOTDEV = (brefs s ROOTDEV)(b := Suc (brefs s ROOTDEV b))" "bowner v ROOTDEV = bowner s ROOTDEV"
      "\<And>j. b_valid (bufs v j) = b_valid (bufs s j)"
      using bpin_ok [of p s b i] d(1) i(1) by (auto simp: bst_def has_buf_def)
    have vu: "v = ?u" using v(1) pin_run(1) [OF d(3), of i] by simp
    have "bst p pid v B ((tx_refs (lhome s) H)(b := Suc (tx_refs (lhome s) H b))) (tx_owner pid H)"
      using d(1) v(3-7) bio_step_same(1,2) [OF v(2)] by (simp add: bst_def)
    then have b1: "bst p pid ?t B (tx_refs (lhome s @ [b]) H) (tx_owner pid H)"
      unfolding tx_refs_upd(3) [OF False] bst_lh vu [symmetric] .
    have n: "nat (lh_n (log_lh s)) < length (lh_block (log_lh s))" using pre by simp
    have l: "lhome ?t = lhome s @ [b]"
      using pre(1) n by (simp add: lhome_def logged_lh_def nat_add_distrib take_Suc_conv_app_nth)
    have "lh_n (log_lh s) + 1 < LOGSIZE" using pre(3) T by (simp add: tx_def)
    then have "tx p pid ?t B H"
      using T b1 l nl False n by (auto simp: tx_def logged_lh_def)
    moreover have "tx_step s ?t"
      by (rule tx_step_trans [OF tx_stepI(1) [OF v(2)]]) (simp add: vu tx_stepI)
    moreover have "has_buf s b' j \<Longrightarrow> has_buf ?t b' j" for b' j
    proof -
      have "cached ?t = cached v" by (intro ext) (simp only: cached_def vu, simp)
      then show "has_buf s b' j \<Longrightarrow> has_buf ?t b' j" using v(4,8) by (simp add: has_buf_def vu)
    qed
    ultimately show thesis using lw False l by (intro that [of ?t]) simp_all
  qed
qed

section \<open>Transactions\<close>

lemma wakeup_locked:
  assumes "runs_as p s" "\<And>i. l \<noteq> ProcLock i" "t = s\<lparr>lk := acquired l (lk s)\<rparr>"
  shows "wakeup c t = Ok () (t\<lparr>procs := wake_all c (Some p) (procs t)\<rparr>)"
  using runs_as_acquired [OF assms(1), of l] assms by (simp add: wakeup_run)

lemma tx_ready:
  assumes "tx p pid s B {}"
  shows "log_ready p pid s B"
proof -
  have "tx_refs (lhome s) {} = (\<lambda>b. if b \<in> set (lhome s) then 1 else 0)" "tx_owner pid {} = (\<lambda>_. None)"
    by (auto simp: tx_refs_def tx_owner_def)
  then show ?thesis using assms by (simp add: tx_def log_ready_def)
qed

lemma log_ready_cong:
  assumes "log_ready p pid s B" "t = s\<lparr>log_outstanding := n, log_committing := c\<rparr>"
  shows "log_ready p pid t B"
proof -
  have "bst p pid t B R H = bst p pid s B R H" for R H
    by (rule bst_cong) (simp_all add: assms(2) runs_as_def)
  moreover have "lhome t = lhome s" by (simp add: assms(2) lhome_def)
  ultimately show ?thesis using assms(1) by (simp add: log_ready_def) (simp add: assms(2))
qed

text \<open>Between transactions: no operation is in progress and the cache agrees with the disk.\<close>

definition log_idle :: "nat \<Rightarrow> int \<Rightarrow> 'z log_state_scheme \<Rightarrow> bool" where
  "log_idle p pid s \<longleftrightarrow> bst p pid s (disk s) (\<lambda>_. 0) (\<lambda>_. None) \<and> lh_n (log_lh s) = 0 \<and> log_dev s = ROOTDEV \<and>
     length (lh_block (log_lh s)) = LOGSIZE \<and> hb_n (disk s (log_start s)) = 0 \<and> log_outstanding s = 0 \<and> log_committing s = 0 \<and>
     log_size s \<le> LOGSIZE"

lemma lhome_empty [simp]: "lh_n (log_lh s) = 0 \<Longrightarrow> lhome s = []"
  by (simp add: lhome_def)

lemma begin_op_idle:
  fixes s :: "'z log_state_scheme"
  assumes I: "log_idle p pid s"
  shows "begin_op s = Ok () (s\<lparr>log_outstanding := 1\<rparr>)" "tx p pid (s\<lparr>log_outstanding := 1\<rparr>) (disk s) {}"
proof -
  have r: "runs_as p s" using I by (simp add: log_idle_def bst_def)
  show "begin_op s = Ok () (s\<lparr>log_outstanding := 1\<rparr>)"
    using I acquire_run [OF runs_as_locks(2) [OF r], of LogLock] runs_as_acquired(3) [OF r, of LogLock]
    by (simp add: begin_op_def begin_op_loop_def bind_run block_run on_lk_def log_idle_def)
  have "bst p pid (s\<lparr>log_outstanding := 1\<rparr>) B R H = bst p pid s B R H" for B R H
    by (rule bst_cong) (simp_all add: runs_as_def)
  moreover have "lhome (s\<lparr>log_outstanding := 1\<rparr>) = []" using I by (simp add: lhome_def log_idle_def)
  moreover have "tx_refs [] {} = (\<lambda>_. 0)" "tx_owner pid {} = (\<lambda>_. None)" by (auto simp: tx_refs_def tx_owner_def)
  ultimately show "tx p pid (s\<lparr>log_outstanding := 1\<rparr>) (disk s) {}" using I by (simp add: tx_def log_idle_def)
qed

lemma commit_any:
  fixes s :: "'z log_state_scheme"
  assumes L: "log_ready p pid s B"
  shows "\<exists>t. commit s = Ok () t \<and> lh_n (log_lh t) = 0 \<and> bst p pid t (disk t) (\<lambda>_. 0) (\<lambda>_. None) \<and>
    io_step (s\<lparr>log_lh := (log_lh s)\<lparr>lh_n := 0\<rparr>\<rparr>) t \<and> hb_n (disk t (log_start s)) = 0 \<and>
    (\<forall>b. \<not> in_log (log_start s) b \<longrightarrow> disk t b = B b)"
proof (cases "lh_n (log_lh s) > 0")
  case False
  then have n: "lh_n (log_lh s) = 0" using L by (simp add: log_ready_def)
  then have b: "bst p pid s B (\<lambda>_. 0) (\<lambda>_. None)" "lhome s = []" using L by (simp_all add: log_ready_def)
  have e: "(log_lh s)\<lparr>lh_n := 0\<rparr> = log_lh s" using n by (cases "log_lh s") simp
  have "io_step (s\<lparr>log_lh := (log_lh s)\<lparr>lh_n := 0\<rparr>\<rparr>) s" unfolding e by (simp add: io_stepI)
  moreover have "B = disk s" by (rule bst_clean [OF b(1)])
  ultimately show ?thesis
    using b n L by (intro exI [of _ s]) (simp add: commit_def bind_run only_if_def log_ready_def io_stepI)
next
  case True
  obtain t where t: "commit s = Ok () t" "lh_n (log_lh t) = 0" "bst p pid t (disk t) (\<lambda>_. 0) (\<lambda>_. None)"
    "io_step (s\<lparr>log_lh := (log_lh s)\<lparr>lh_n := 0\<rparr>\<rparr>) t" "disk t = replay (commit_writes (log_start s) (lhome s) B) (disk s)"
    using commit_ok [OF L True refl refl] by blast
  have "length (B (log_start s)) = BSIZE" using L bst_length by (auto simp: log_ready_def)
  then have "length (mk_head (lhome s) (B (log_start s))) = BSIZE"
    using mk_head_get(1) log_ready_length(2) [OF L] by simp
  then have "hb_n (disk t (log_start s)) = 0"
    using mk_head_get(2) [of "mk_head (lhome s) (B (log_start s))" "[]"] by (simp add: t(5) commit_writes_def)
  moreover have "disk t b = B b" if "\<not> in_log (log_start s) b" for b
    unfolding t(5) by (rule commit_effect) (use that L log_ready_length(2) [OF L] in \<open>simp_all add: log_ready_def\<close>)
  ultimately show ?thesis using t by blast
qed

text \<open>
  C14: The last \<open>end_op\<close> makes a transaction durable: it returns with the log idle and every block
  outside of the log on the disk with the contents the transaction gave it. While other operations
  are outstanding, \<open>end_op\<close> writes nothing.
\<close>

theorem end_op_durable:
  fixes s :: "'z log_state_scheme"
  assumes T: "tx p pid s B {}"
  shows "(log_outstanding s = 1 \<longrightarrow> (\<exists>t. end_op s = Ok () t \<and> log_idle p pid t \<and> log_start t = log_start s \<and>
      (\<forall>b. \<not> in_log (log_start s) b \<longrightarrow> disk t b = B b))) \<and>
    (log_outstanding s > 1 \<longrightarrow> (\<exists>t. end_op s = Ok () t \<and> disk t = disk s \<and> written t = written s \<and>
      log_outstanding t = log_outstanding s - 1 \<and> log_committing t = 0 \<and> log_lh t = log_lh s))"
proof (intro conjI impI)
  have r: "runs_as p s" and c: "log_committing s = 0" using txD(3) [OF T] T by (simp_all add: tx_def)
  note al = acquire_run [OF runs_as_locks(2) [OF r], of LogLock] and rl = runs_as_acquired(3) [OF r, of LogLock]
  {
    assume o: "log_outstanding s > 1"
    let ?s1 = "s\<lparr>lk := acquired LogLock (lk s), log_outstanding := log_outstanding s - 1\<rparr>"
    have "wakeup ChanLog ?s1 = Ok () (?s1\<lparr>procs := wake_all ChanLog (Some p) (procs s)\<rparr>)"
      using runs_as_acquired [OF r, of LogLock] by (simp add: wakeup_run)
    then show "\<exists>t. end_op s = Ok () t \<and> disk t = disk s \<and> written t = written s \<and>
      log_outstanding t = log_outstanding s - 1 \<and> log_committing t = 0 \<and> log_lh t = log_lh s"
      using o c al rl by (simp add: end_op_def bind_run block_run on_lk_def panic_if_def only_if_def)
  }
  assume o: "log_outstanding s = 1"
  define s1 where "s1 = s\<lparr>log_outstanding := 0, log_committing := 1\<rparr>"
  have L: "log_ready p pid s1 B" by (rule log_ready_cong [OF tx_ready [OF T] s1_def])
  obtain t where t: "commit s1 = Ok () t" "lh_n (log_lh t) = 0" "bst p pid t (disk t) (\<lambda>_. 0) (\<lambda>_. None)"
    "io_step (s1\<lparr>log_lh := (log_lh s1)\<lparr>lh_n := 0\<rparr>\<rparr>) t" "hb_n (disk t (log_start s1)) = 0"
    "\<forall>b. \<not> in_log (log_start s1) b \<longrightarrow> disk t b = B b"
    using commit_any [OF L] by blast
  note f = io_step_log [OF t(4)]
  have rt: "runs_as p t" using t(3) by (simp add: bst_def)
  define v where "v = t\<lparr>log_committing := 0, procs := wake_all ChanLog (Some p) (procs t)\<rparr>"
  let ?t1 = "t\<lparr>lk := acquired LogLock (lk t), log_committing := 0\<rparr>"
  have w: "wakeup ChanLog ?t1 = Ok () (?t1\<lparr>procs := wake_all ChanLog (Some p) (procs t)\<rparr>)"
    using runs_as_acquired [OF rt, of LogLock] by (simp add: wakeup_run)
  have "end_op s = Ok () v"
    using o c al rl t(1) w acquire_run [OF runs_as_locks(2) [OF rt], of LogLock] runs_as_acquired(3) [OF rt, of LogLock]
    by (simp add: end_op_def bind_run block_run on_lk_def panic_if_def only_if_def s1_def v_def)
  moreover have "bst p pid v (disk t) (\<lambda>_. 0) (\<lambda>_. None)"
    using t(3) by (subst bst_cong [of _ t]) (simp_all add: v_def runs_as_def wake_all_def wake_one_def)
  then have "log_idle p pid v"
    using t(2,5) f T by (simp add: log_idle_def v_def s1_def tx_def)
  ultimately show "\<exists>t. end_op s = Ok () t \<and> log_idle p pid t \<and> log_start t = log_start s \<and>
      (\<forall>b. \<not> in_log (log_start s) b \<longrightarrow> disk t b = B b)"
    using t(6) f by (auto simp: v_def s1_def)
qed

lemma example_idle: "log_idle 0 (p_pid (procs (example_log fresh_bufs 0 []) 0)) (example_log fresh_bufs 0 [])"
  using example_booted by (simp add: booted_def log_idle_def) (simp add: example_log_def bio_state.defs)

theorem end_op_durable_witness:
  "\<exists>t. end_op ((example_log fresh_bufs 0 [])\<lparr>log_outstanding := 1\<rparr>) = Ok () t \<and> log_outstanding t = 0"
  using end_op_durable [OF begin_op_idle(2) [OF example_idle]] by (auto simp: log_idle_def)

section \<open>The limits of the log\<close>

lemma tx_outstanding:
  assumes "tx p pid s B H" "n \<ge> 1"
  shows "tx p pid (s\<lparr>log_outstanding := n\<rparr>) B H"
proof -
  have "bst p pid (s\<lparr>log_outstanding := n\<rparr>) B R H = bst p pid s B R H" for R H
    by (rule bst_cong) (simp_all add: runs_as_def)
  moreover have "lhome (s\<lparr>log_outstanding := n\<rparr>) = lhome s" by (simp add: lhome_def)
  ultimately show ?thesis using assms by (simp add: tx_def)
qed

text \<open>A system call that changes block \<open>b\<close>: it reads the block, logs it and releases it.\<close>

definition log_block :: "u32 \<Rightarrow> ('z log_state_scheme, unit) kern" where
  "log_block b = bind (bread ROOTDEV b) (\<lambda>i. block [log_write i, brelse i])"

lemma log_block_run:
  fixes s :: "'z log_state_scheme"
  assumes T: "tx p pid s B {}" and b: "b \<notin> set (lhome s)" "\<not> in_log (log_start s) b"
    and room: "int (length (lhome s)) < log_size s - 1"
  obtains t where "log_block b s = Ok () t" "tx_step s t" "tx p pid t B {}" "lhome t = lhome s @ [b]"
proof -
  have n: "length (lhome s) + card {} < NBUF" using txD(5) [OF T] by simp
  obtain i t where t: "bread ROOTDEV b s = Ok i t" "tx_step s t" "tx p pid t B {b}" "has_buf t b i" "lhome t = lhome s"
    by (rule tx_bread [OF T _ n, of b]) simp_all
  have k: "\<not> in_log (log_start t) b" "int (length (lhome t)) < log_size t - 1"
    using b room t(5) tx_step_same [OF t(2)] by simp_all
  obtain u where u: "log_write i t = Ok () u" "tx_step t u" "tx p pid u B {b}" "lhome u = lhome s @ [b]" "has_buf u b i"
    by (rule tx_log_write [OF t(3,4) _ k]) (use b t(4,5) in simp_all)
  obtain v where "brelse i u = Ok () v" "tx_step u v" "tx p pid v B {}" "lhome v = lhome u"
    by (rule tx_brelse [OF u(3,5)]) (use u(4) in simp_all)
  then show thesis
    using t(1) u tx_step_trans [OF tx_step_trans [OF t(2) u(2)]]
    by (intro that [of v]) (simp_all add: log_block_def bind_run block_run)
qed

lemma log_blocks_run:
  fixes s :: "'z log_state_scheme"
  assumes "tx p pid s B {}" "distinct (lhome s @ bs)" "\<forall>b \<in> set bs. \<not> in_log (log_start s) b"
    "int (length (lhome s) + length bs) \<le> log_size s - 1"
  shows "\<exists>t. block (map log_block bs) s = Ok () t \<and> tx_step s t \<and> tx p pid t B {} \<and> lhome t = lhome s @ bs"
  using assms
proof (induction bs arbitrary: s)
  case Nil
  then show ?case by simp
next
  case (Cons b bs)
  then obtain t where t: "log_block b s = Ok () t" "tx_step s t" "tx p pid t B {}" "lhome t = lhome s @ [b]"
    using log_block_run [of p pid s B b] by auto
  have "\<exists>u. block (map log_block bs) t = Ok () u \<and> tx_step t u \<and> tx p pid u B {} \<and> lhome u = lhome t @ bs"
    using Cons.prems t tx_step_same [OF t(2)] by (intro Cons.IH) auto
  then show ?case using t tx_step_trans [OF t(2)] by (auto simp: bind_run)
qed

lemma begin_op_joins:
  assumes "runs_as p s" "lh_n (log_lh s) = 0" "0 \<le> log_outstanding s" "log_outstanding s \<le> 2" "log_committing s = 0"
  shows "begin_op s = Ok () (s\<lparr>log_outstanding := log_outstanding s + 1\<rparr>)"
  using assms acquire_run [OF runs_as_locks(2) [OF assms(1)], of LogLock] runs_as_acquired(3) [OF assms(1), of LogLock]
  by (simp add: begin_op_def begin_op_loop_def bind_run block_run on_lk_def)

lemma begin_op_waits:
  fixes s :: "'z log_state_scheme"
  assumes r: "runs_as p s" and "lh_n (log_lh s) \<ge> 0" "log_outstanding s \<ge> 3" "log_committing s = 0"
  shows "\<exists>t. begin_op s = Sleeps (Some ChanLog) t \<and> p_state (procs t p) = SLEEPING"
proof -
  show ?thesis
    using assms acquire_run [OF runs_as_locks(2) [OF r], of LogLock] sleep_inside [OF r, of LogLock ChanLog]
    by (simp add: begin_op_def begin_op_loop_def bind_run block_run on_lk_def)
qed

lemma log_block_panics:
  fixes s :: "'z log_state_scheme"
  assumes T: "tx p pid s B {}" and n: "log_size s - 1 \<le> int (length (lhome s))"
  shows "log_block b s = Panic ''too big a transaction''"
proof -
  have m: "length (lhome s) + card {} < NBUF" using txD(5) [OF T] by simp
  obtain i t where t: "bread ROOTDEV b s = Ok i t" "tx_step s t" "tx p pid t B {b}" "lhome t = lhome s"
    by (rule tx_bread [OF T _ m, of b]) simp_all
  have "log_size t - 1 \<le> lh_n (log_lh t)" "runs_as p t"
    using n txD(3,7) [OF t(3)] t(4) tx_step_same [OF t(2)] by simp_all
  then have "log_write i t = Panic ''too big a transaction''"
    using acquire_run [OF runs_as_locks(2), of p t LogLock] by (simp add: log_write_def bind_run on_lk_def panic_if_def)
  then show ?thesis using t(1) by (simp add: log_block_def bind_run block_run)
qed

text \<open>
  C23: The reservation of \<open>begin_op\<close> and the limit of \<open>log_write\<close> differ by one block. On an idle log
  of \<^verbatim>\<open>LOGSIZE\<close> blocks, three operations begin, and a fourth has to wait, since the three have
  reserved \<^verbatim>\<open>MAXOPBLOCKS\<close> blocks each, the whole log. But when they then change that many different
  blocks, all of them outside the log, the last change panics: all but one are logged, and
  \<open>log_write\<close> takes that for too big a transaction.
\<close>

theorem begin_op_overcommits:
  fixes s :: "'z log_state_scheme"
  assumes I: "log_idle p pid s" and z: "log_size s = LOGSIZE"
    and bs: "length bs = 3 * MAXOPBLOCKS" "distinct bs" "\<forall>b \<in> set bs. \<not> in_log (log_start s) b"
  shows "\<exists>t u. block [begin_op, begin_op, begin_op] s = Ok () t \<and> log_outstanding t = 3 \<and>
    (\<exists>v. begin_op t = Sleeps (Some ChanLog) v) \<and>
    block (map log_block (butlast bs)) t = Ok () u \<and> lhome u = butlast bs \<and>
    log_block (last bs) u = Panic ''too big a transaction''"
proof -
  let ?t = "s\<lparr>log_outstanding := 3\<rparr>"
  have r: "runs_as p (s\<lparr>log_outstanding := n\<rparr>)" for n using I by (simp add: log_idle_def bst_def runs_as_def)
  have T: "tx p pid ?t (disk s) {}" using tx_outstanding [OF begin_op_idle(2) [OF I], of 3] by simp
  have "begin_op s = Ok () (s\<lparr>log_outstanding := 1\<rparr>)" by (rule begin_op_idle [OF I])
  moreover have "begin_op (s\<lparr>log_outstanding := n\<rparr>) = Ok () (s\<lparr>log_outstanding := n + 1\<rparr>)" if "0 \<le> n" "n \<le> 2" for n
    using begin_op_joins [OF r] I that by (simp add: log_idle_def)
  ultimately have b: "block [begin_op, begin_op, begin_op] s = Ok () ?t" by (simp add: bind_run)
  have w: "\<exists>v. begin_op ?t = Sleeps (Some ChanLog) v" using begin_op_waits [OF r] I by (auto simp: log_idle_def)
  have l: "lhome ?t = []" using I by (simp add: log_idle_def lhome_def)
  obtain u where u: "block (map log_block (butlast bs)) ?t = Ok () u" "tx_step ?t u" "tx p pid u (disk s) {}" "lhome u = butlast bs"
    using log_blocks_run [OF T, of "butlast bs"] bs l z by (auto simp: distinct_butlast dest: in_set_butlastD)
  have "log_block (last bs) u = Panic ''too big a transaction''"
    using bs(1) z u(4) tx_step_same [OF u(2)] by (intro log_block_panics [OF u(3)]) simp
  then show ?thesis using b w u by (intro exI [of _ ?t] exI [of _ u]) simp
qed

theorem begin_op_overcommits_witness:
  "\<exists>t u. block [begin_op, begin_op, begin_op] (example_log fresh_bufs 0 []) = Ok () t \<and>
    block (map log_block (map of_nat [100..<129])) t = Ok () u \<and>
    log_block 129 u = Panic ''too big a transaction''"
proof -
  let ?s = "example_log fresh_bufs 0 []" and ?bs = "map of_nat [100..<130] :: u32 list"
  have "log_size ?s = LOGSIZE" "length ?bs = 3 * MAXOPBLOCKS" "log_start ?s = 2"
    by simp_all (simp add: example_log_def bio_state.defs)
  moreover have "distinct ?bs" by (simp add: upt_conv_Cons)
  moreover have "\<forall>b \<in> set ?bs. \<not> in_log (log_start ?s) b" by (simp add: upt_conv_Cons in_log_iff)
  ultimately have "\<exists>t u. block [begin_op, begin_op, begin_op] ?s = Ok () t \<and>
    block (map log_block (butlast ?bs)) t = Ok () u \<and> log_block (last ?bs) u = Panic ''too big a transaction''"
    using begin_op_overcommits [OF example_idle, of ?bs] by blast
  then show ?thesis by (simp add: map_butlast [symmetric] last_map)
qed

end
