(* ===== verification/Xv6_Fs.thy ===== *)
theory Xv6_Fs
  imports Xv6_Log Xv6_String
begin

unbundle bit_operations_syntax

text \<open>
  The file system: \<^verbatim>\<open>kernel/fs.c\<close> with the on-disk formats of \<^verbatim>\<open>kernel/fs.h\<close> and the in-memory
  inodes of \<^verbatim>\<open>kernel/file.h\<close>. An inode pointer is an index of the inode table. Strings and the
  variables \<^verbatim>\<open>de\<close> and \<^verbatim>\<open>name\<close> of the kernel stack are byte lists; a string has no terminator.
\<close>

section \<open>On-disk and in-memory structures\<close>

abbreviation (input) ROOTINO :: u32 where "ROOTINO \<equiv> 1"
abbreviation (input) FSMAGIC :: u32 where "FSMAGIC \<equiv> 0x10203040"
abbreviation (input) NDIRECT :: nat where "NDIRECT \<equiv> 12"
abbreviation (input) NINDIRECT :: nat where "NINDIRECT \<equiv> 256"
abbreviation (input) MAXFILE :: nat where "MAXFILE \<equiv> 268"
abbreviation (input) IPB :: nat where "IPB \<equiv> 16"
abbreviation (input) BPB :: nat where "BPB \<equiv> 8192"
abbreviation (input) DIRSIZ :: nat where "DIRSIZ \<equiv> 14"
abbreviation (input) T_DIR :: u16 where "T_DIR \<equiv> 1"
abbreviation (input) T_FILE :: u16 where "T_FILE \<equiv> 2"
abbreviation (input) T_DEVICE :: u16 where "T_DEVICE \<equiv> 3"

text \<open>\<^verbatim>\<open>sizeof(struct dinode)\<close> and \<^verbatim>\<open>sizeof(struct dirent)\<close>.\<close>

abbreviation (input) DINODE :: nat where "DINODE \<equiv> 64"
abbreviation (input) DIRENT :: nat where "DIRENT \<equiv> 16"

record dinode =
  di_type :: u16
  di_major :: u16
  di_minor :: u16
  di_nlink :: u16
  di_size :: u32
  di_addrs :: "u32 list"

definition get_dinode :: "u8 list \<Rightarrow> nat \<Rightarrow> dinode" where
  "get_dinode d k =
     \<lparr>di_type = get16 d (DINODE * k), di_major = get16 d (DINODE * k + 2), di_minor = get16 d (DINODE * k + 4),
      di_nlink = get16 d (DINODE * k + 6), di_size = get32 d (DINODE * k + 8),
      di_addrs = map (\<lambda>i. get32 d (DINODE * k + 12 + 4 * i)) [0..<NDIRECT + 1]\<rparr>"

primrec put_words :: "u8 list \<Rightarrow> nat \<Rightarrow> u32 list \<Rightarrow> u8 list" where
  "put_words d i [] = d"
| "put_words d i (w # ws) = put_words (put32 d i w) (i + 4) ws"

definition put_dinode :: "u8 list \<Rightarrow> nat \<Rightarrow> dinode \<Rightarrow> u8 list" where
  "put_dinode d k di =
     put_words (put32 (put16 (put16 (put16 (put16 d
       (DINODE * k) (di_type di)) (DINODE * k + 2) (di_major di)) (DINODE * k + 4) (di_minor di))
       (DINODE * k + 6) (di_nlink di)) (DINODE * k + 8) (di_size di))
     (DINODE * k + 12) (di_addrs di)"

record dirent =
  de_inum :: u16
  de_name :: "u8 list"

definition get_dirent :: "u8 list \<Rightarrow> dirent" where
  "get_dirent d = \<lparr>de_inum = get16 d 0, de_name = slice d 2 DIRSIZ\<rparr>"

definition put_dirent :: "dirent \<Rightarrow> u8 list" where
  "put_dirent de = le_bytes 2 (de_inum de) @ de_name de"

record inode =
  i_dev :: u32
  i_inum :: u32
  i_ref :: int
  i_valid :: int
  i_type :: u16
  i_major :: u16
  i_minor :: u16
  i_nlink :: u16
  i_size :: u32
  i_addrs :: "u32 list"

record fs_state = log_state +
  sb :: superblock
  itable :: "nat \<Rightarrow> inode"

definition IBLOCK :: "u32 \<Rightarrow> superblock \<Rightarrow> u32" where
  "IBLOCK i sp = i div of_nat IPB + sb_inodestart sp"

definition BBLOCK :: "u32 \<Rightarrow> superblock \<Rightarrow> u32" where
  "BBLOCK b sp = b div of_nat BPB + sb_bmapstart sp"

definition set_inode :: "nat \<Rightarrow> (inode \<Rightarrow> inode) \<Rightarrow> ('z fs_state_scheme, unit) kern" where
  "set_inode i f = modify (\<lambda>s. s\<lparr>itable := (itable s)(i := f (itable s i))\<rparr>)"

definition get_inode :: "nat \<Rightarrow> (inode \<Rightarrow> 'a) \<Rightarrow> ('z fs_state_scheme, 'a) kern" where
  "get_inode i f = gets (\<lambda>s. f (itable s i))"

definition set_data :: "nat \<Rightarrow> (u8 list \<Rightarrow> u8 list) \<Rightarrow> ('z bio_state_scheme, unit) kern" where
  "set_data bp f = set_buf bp (\<lambda>b. b\<lparr>b_data := f (b_data b)\<rparr>)"

section \<open>Blocks\<close>

definition get_superblock :: "u8 list \<Rightarrow> superblock" where
  "get_superblock d =
     \<lparr>sb_magic = get32 d 0, sb_size = get32 d 4, sb_nblocks = get32 d 8, sb_ninodes = get32 d 12,
      sb_nlog = get32 d 16, sb_logstart = get32 d 20, sb_inodestart = get32 d 24, sb_bmapstart = get32 d 28\<rparr>"

definition readsb :: "u32 \<Rightarrow> ('z fs_state_scheme, unit) kern" where
  "readsb dev =
     bind (bread dev 1) (\<lambda>bp.
     bind (get_buf bp b_data) (\<lambda>d. block [
       modify (\<lambda>s. s\<lparr>sb := get_superblock d\<rparr>),
       brelse bp]))"

definition fsinit :: "u32 \<Rightarrow> ('z fs_state_scheme, unit) kern" where
  "fsinit dev =
     bind (readsb dev) (\<lambda>_.
     bind (gets sb) (\<lambda>b. block [
       panic_if (sb_magic b \<noteq> FSMAGIC) ''invalid file system'',
       initlog dev b]))"

definition bzero :: "u32 \<Rightarrow> u32 \<Rightarrow> ('z fs_state_scheme, unit) kern" where
  "bzero dev bno =
     bind (bread dev bno) (\<lambda>bp. block [
       set_data bp (\<lambda>d. replicate BSIZE 0),
       log_write bp,
       brelse bp])"

text \<open>The bit of block \<open>bi\<close> in a bitmap block, \<^verbatim>\<open>data[bi/8] & (1 << (bi % 8))\<close>.\<close>

definition bm_mask :: "nat \<Rightarrow> u8" where
  "bm_mask bi = push_bit (bi mod 8) 1"

definition bm_free :: "u8 list \<Rightarrow> nat \<Rightarrow> bool" where
  "bm_free d bi \<longleftrightarrow> (d ! (bi div 8)) AND bm_mask bi = 0"

definition bm_set :: "nat \<Rightarrow> u8 list \<Rightarrow> u8 list" where
  "bm_set bi d = d[bi div 8 := (d ! (bi div 8)) OR bm_mask bi]"

definition bm_clear :: "nat \<Rightarrow> u8 list \<Rightarrow> u8 list" where
  "bm_clear bi d = d[bi div 8 := (d ! (bi div 8)) AND NOT (bm_mask bi)]"

text \<open>
  The loop of \<open>balloc\<close> over the bitmap blocks, from block number \<open>b\<close>. The counter of the source is an
  \<^verbatim>\<open>int\<close>, compared as unsigned with \<^verbatim>\<open>sb.size\<close>; it does not overflow on a file system of fewer than
  \<open>2^31\<close> blocks (of 1024 bytes, two terabytes).
\<close>

function balloc_from :: "u32 \<Rightarrow> nat \<Rightarrow> nat \<Rightarrow> ('z fs_state_scheme, u32) kern" where
  "balloc_from dev sz b =
     (if b < sz then
        bind (gets sb) (\<lambda>sp.
        bind (bread dev (BBLOCK (of_nat b) sp)) (\<lambda>bp.
        bind (get_buf bp b_data) (\<lambda>d.
          case find (bm_free d) [0..<min BPB (sz - b)] of
            Some bi \<Rightarrow>
              bind (block [
                set_data bp (bm_set bi),
                log_write bp,
                brelse bp,
                bzero dev (of_nat (b + bi))]) (\<lambda>_. ret (of_nat (b + bi)))
          | None \<Rightarrow> bind (brelse bp) (\<lambda>_. balloc_from dev sz (b + BPB)))))
      else bind (kprintln ''balloc: out of blocks'' []) (\<lambda>_. ret 0))"
  by pat_completeness auto
termination
  by (relation "measure (\<lambda>(dev, sz, b). sz - b)") auto

declare balloc_from.simps [simp del]

definition balloc :: "u32 \<Rightarrow> ('z fs_state_scheme, u32) kern" where
  "balloc dev = bind (gets sb) (\<lambda>sp. balloc_from dev (unat (sb_size sp)) 0)"

definition bfree :: "u32 \<Rightarrow> u32 \<Rightarrow> ('z fs_state_scheme, unit) kern" where
  "bfree dev b =
     bind (gets sb) (\<lambda>sp.
     bind (bread dev (BBLOCK b sp)) (\<lambda>bp.
     bind (ret (unat b mod BPB)) (\<lambda>bi.
     bind (get_buf bp b_data) (\<lambda>d. block [
       panic_if (bm_free d bi) ''freeing free block'',
       set_data bp (bm_clear bi),
       log_write bp,
       brelse bp]))))"

section \<open>Inodes\<close>

definition iinit :: "('z fs_state_scheme, unit) kern" where
  "iinit = block [
     on_lk (initlock ItableLock ''itable''),
     block (map (\<lambda>i. initsleeplock (InodeLock i) ''inode'') [0..<NINODE])]"

text \<open>The scan of the inode table in \<open>iget\<close>: the entry of the inode, and the first empty one.\<close>

primrec iget_scan :: "nat list \<Rightarrow> u32 \<Rightarrow> u32 \<Rightarrow> nat option \<Rightarrow> (nat \<Rightarrow> inode) \<Rightarrow> nat option \<times> nat option" where
  "iget_scan [] dev inum emp t = (None, emp)"
| "iget_scan (i # is) dev inum emp t =
     (if i_ref (t i) > 0 \<and> i_dev (t i) = dev \<and> i_inum (t i) = inum then (Some i, emp)
      else iget_scan is dev inum (if emp = None \<and> i_ref (t i) = 0 then Some i else emp) t)"

definition iget :: "u32 \<Rightarrow> u32 \<Rightarrow> ('z fs_state_scheme, nat) kern" where
  "iget dev inum =
     bind (on_lk (acquire ItableLock)) (\<lambda>_.
     bind (gets (\<lambda>s. iget_scan [0..<NINODE] dev inum None (itable s))) (\<lambda>(found, emp).
       case found of
         Some i \<Rightarrow> bind (block [
           set_inode i (\<lambda>ip. ip\<lparr>i_ref := i_ref ip + 1\<rparr>),
           on_lk (release ItableLock)]) (\<lambda>_. ret i)
       | None \<Rightarrow> (case emp of
           None \<Rightarrow> panic ''iget: no inodes''
         | Some i \<Rightarrow> bind (block [
             set_inode i (\<lambda>ip. ip\<lparr>i_dev := dev, i_inum := inum, i_ref := 1, i_valid := 0\<rparr>),
             on_lk (release ItableLock)]) (\<lambda>_. ret i))))"

function ialloc_from :: "u32 \<Rightarrow> u16 \<Rightarrow> nat \<Rightarrow> nat \<Rightarrow> ('z fs_state_scheme, nat option) kern" where
  "ialloc_from dev type n inum =
     (if inum < n then
        bind (gets sb) (\<lambda>sp.
        bind (bread dev (IBLOCK (of_nat inum) sp)) (\<lambda>bp.
        bind (get_buf bp b_data) (\<lambda>d.
          if di_type (get_dinode d (inum mod IPB)) = 0 then
            bind (block [
              set_data bp (\<lambda>d. splice d (DINODE * (inum mod IPB)) (replicate DINODE 0)),
              set_data bp (\<lambda>d. put16 d (DINODE * (inum mod IPB)) type),
              log_write bp,
              brelse bp]) (\<lambda>_. bind (iget dev (of_nat inum)) (\<lambda>i. ret (Some i)))
          else bind (brelse bp) (\<lambda>_. ialloc_from dev type n (inum + 1)))))
      else bind (kprintln ''ialloc: no inodes'' []) (\<lambda>_. ret None))"
  by pat_completeness auto
termination
  by (relation "measure (\<lambda>(dev, type, n, inum). n - inum)") auto

declare ialloc_from.simps [simp del]

definition ialloc :: "u32 \<Rightarrow> u16 \<Rightarrow> ('z fs_state_scheme, nat option) kern" where
  "ialloc dev type = bind (gets sb) (\<lambda>sp. ialloc_from dev type (unat (sb_ninodes sp)) 1)"

definition dinode_of :: "inode \<Rightarrow> dinode" where
  "dinode_of ip = \<lparr>di_type = i_type ip, di_major = i_major ip, di_minor = i_minor ip, di_nlink = i_nlink ip,
     di_size = i_size ip, di_addrs = i_addrs ip\<rparr>"

definition load_dinode :: "dinode \<Rightarrow> inode \<Rightarrow> inode" where
  "load_dinode di ip = ip\<lparr>i_type := di_type di, i_major := di_major di, i_minor := di_minor di, i_nlink := di_nlink di,
     i_size := di_size di, i_addrs := di_addrs di\<rparr>"

definition iupdate :: "nat \<Rightarrow> ('z fs_state_scheme, unit) kern" where
  "iupdate i =
     bind (get_inode i id) (\<lambda>ip.
     bind (gets sb) (\<lambda>sp.
     bind (bread (i_dev ip) (IBLOCK (i_inum ip) sp)) (\<lambda>bp. block [
       set_data bp (\<lambda>d. put_dinode d (unat (i_inum ip) mod IPB) (dinode_of ip)),
       log_write bp,
       brelse bp])))"

definition idup :: "nat \<Rightarrow> ('z fs_state_scheme, nat) kern" where
  "idup i = bind (with_lock ItableLock (set_inode i (\<lambda>ip. ip\<lparr>i_ref := i_ref ip + 1\<rparr>))) (\<lambda>_. ret i)"

text \<open>\<open>ilock\<close> after the sleep lock is taken.\<close>

definition ilock_read :: "nat \<Rightarrow> ('z fs_state_scheme, unit) kern" where
  "ilock_read i =
     bind (get_inode i id) (\<lambda>ip. only_if (i_valid ip = 0) (
       bind (gets sb) (\<lambda>sp.
       bind (bread (i_dev ip) (IBLOCK (i_inum ip) sp)) (\<lambda>bp.
       bind (get_buf bp b_data) (\<lambda>d. block [
         set_inode i (load_dinode (get_dinode d (unat (i_inum ip) mod IPB))),
         brelse bp,
         set_inode i (\<lambda>ip. ip\<lparr>i_valid := 1\<rparr>),
         bind (get_inode i i_type) (\<lambda>t. panic_if (t = 0) ''ilock: no type'')])))))"

definition ilock :: "nat option \<Rightarrow> ('z fs_state_scheme, unit) kern" where
  "ilock ip = (case ip of None \<Rightarrow> panic ''ilock''
     | Some i \<Rightarrow> bind (get_inode i i_ref) (\<lambda>r. block [
         panic_if (r < 1) ''ilock'',
         acquiresleep (InodeLock i),
         ilock_read i]))"

definition iunlock :: "nat option \<Rightarrow> ('z fs_state_scheme, unit) kern" where
  "iunlock ip = (case ip of None \<Rightarrow> panic ''iunlock''
     | Some i \<Rightarrow>
         bind (holdingsleep (InodeLock i)) (\<lambda>h.
         bind (get_inode i i_ref) (\<lambda>r. block [
           panic_if (\<not> h \<or> r < 1) ''iunlock'',
           releasesleep (InodeLock i)])))"

section \<open>Inode content\<close>

text \<open>Word \<open>j\<close> of an indirect block.\<close>

definition bmap :: "nat \<Rightarrow> u32 \<Rightarrow> ('z fs_state_scheme, u32) kern" where
  "bmap i bn =
     bind (get_inode i id) (\<lambda>ip.
     if unat bn < NDIRECT then
       (if i_addrs ip ! unat bn = 0 then
          bind (balloc (i_dev ip)) (\<lambda>addr.
            if addr = 0 then ret 0
            else bind (set_inode i (\<lambda>ip. ip\<lparr>i_addrs := (i_addrs ip)[unat bn := addr]\<rparr>)) (\<lambda>_. ret addr))
        else ret (i_addrs ip ! unat bn))
     else if unat bn - NDIRECT < NINDIRECT then
       bind (if i_addrs ip ! NDIRECT = 0 then
               bind (balloc (i_dev ip)) (\<lambda>addr.
                 if addr = 0 then ret 0
                 else bind (set_inode i (\<lambda>ip. ip\<lparr>i_addrs := (i_addrs ip)[NDIRECT := addr]\<rparr>)) (\<lambda>_. ret addr))
             else ret (i_addrs ip ! NDIRECT)) (\<lambda>ind.
         if ind = 0 then ret 0
         else
           bind (bread (i_dev ip) ind) (\<lambda>bp.
           bind (get_buf bp b_data) (\<lambda>d.
           bind (if get32 d (4 * (unat bn - NDIRECT)) = 0 then
                   bind (balloc (i_dev ip)) (\<lambda>addr.
                   bind (only_if (addr \<noteq> 0) (block [
                     set_data bp (\<lambda>d. put32 d (4 * (unat bn - NDIRECT)) addr),
                     log_write bp])) (\<lambda>_. ret addr))
                 else ret (get32 d (4 * (unat bn - NDIRECT)))) (\<lambda>addr.
           bind (brelse bp) (\<lambda>_. ret addr)))))
     else panic ''bmap: out of range'')"

definition itrunc :: "nat \<Rightarrow> ('z fs_state_scheme, unit) kern" where
  "itrunc i = block [
     block (map (\<lambda>k.
       bind (get_inode i id) (\<lambda>ip. only_if (i_addrs ip ! k \<noteq> 0) (block [
         bfree (i_dev ip) (i_addrs ip ! k),
         set_inode i (\<lambda>ip. ip\<lparr>i_addrs := (i_addrs ip)[k := 0]\<rparr>)]))) [0..<NDIRECT]),
     bind (get_inode i id) (\<lambda>ip. only_if (i_addrs ip ! NDIRECT \<noteq> 0) (
       bind (bread (i_dev ip) (i_addrs ip ! NDIRECT)) (\<lambda>bp. block [
         block (map (\<lambda>j.
           bind (get_buf bp b_data) (\<lambda>d.
             only_if (get32 d (4 * j) \<noteq> 0) (bfree (i_dev ip) (get32 d (4 * j))))) [0..<NINDIRECT]),
         brelse bp,
         bfree (i_dev ip) (i_addrs ip ! NDIRECT),
         set_inode i (\<lambda>ip. ip\<lparr>i_addrs := (i_addrs ip)[NDIRECT := 0]\<rparr>)]))),
     set_inode i (\<lambda>ip. ip\<lparr>i_size := 0\<rparr>),
     iupdate i]"

definition iput :: "nat \<Rightarrow> ('z fs_state_scheme, unit) kern" where
  "iput i = block [
     on_lk (acquire ItableLock),
     bind (get_inode i id) (\<lambda>ip.
       only_if (i_ref ip = 1 \<and> i_valid ip \<noteq> 0 \<and> i_nlink ip = 0) (block [
         acquiresleep (InodeLock i),
         on_lk (release ItableLock),
         itrunc i,
         set_inode i (\<lambda>ip. ip\<lparr>i_type := 0\<rparr>),
         iupdate i,
         set_inode i (\<lambda>ip. ip\<lparr>i_valid := 0\<rparr>),
         releasesleep (InodeLock i),
         on_lk (acquire ItableLock)])),
     set_inode i (\<lambda>ip. ip\<lparr>i_ref := i_ref ip - 1\<rparr>),
     on_lk (release ItableLock)]"

definition iunlockput :: "nat \<Rightarrow> ('z fs_state_scheme, unit) kern" where
  "iunlockput i = block [iunlock (Some i), iput i]"

record kstat =
  st_dev :: u32
  st_ino :: u32
  st_type :: u16
  st_nlink :: u16
  st_size :: u64

definition stati :: "nat \<Rightarrow> ('z fs_state_scheme, kstat) kern" where
  "stati i = get_inode i (\<lambda>ip.
     \<lparr>st_dev = i_dev ip, st_ino = i_inum ip, st_type = i_type ip, st_nlink = i_nlink ip, st_size = ucast (i_size ip)\<rparr>)"

text \<open>
  Where \<open>readi\<close> copies to and \<open>writei\<close> copies from: a user address, a kernel address, or a variable
  of the caller. \<open>readi\<close> returns the bytes it has copied beside its result.
\<close>

datatype dest = UserDst u64 | KernDst u64 | LocalDst

datatype source = UserSrc u64 | KernSrc u64 | LocalSrc "u8 list"

definition copy_to :: "dest \<Rightarrow> u8 list \<Rightarrow> ('z proc_state_scheme, int) kern" where
  "copy_to dst bs = (case dst of
     UserDst a \<Rightarrow> either_copyout True a bs
   | KernDst a \<Rightarrow> either_copyout False a bs
   | LocalDst \<Rightarrow> bind myproc (\<lambda>_. ret 0))"

definition copy_from :: "source \<Rightarrow> nat \<Rightarrow> ('z proc_state_scheme, int \<times> u8 list) kern" where
  "copy_from src n = (case src of
     UserSrc a \<Rightarrow> either_copyin True a n
   | KernSrc a \<Rightarrow> either_copyin False a n
   | LocalSrc bs \<Rightarrow> bind myproc (\<lambda>_. ret (0, take n bs)))"

primrec dest_add :: "dest \<Rightarrow> u32 \<Rightarrow> dest" where
  "dest_add (UserDst a) m = UserDst (a + ucast m)"
| "dest_add (KernDst a) m = KernDst (a + ucast m)"
| "dest_add LocalDst m = LocalDst"

primrec source_add :: "source \<Rightarrow> u32 \<Rightarrow> source" where
  "source_add (UserSrc a) m = UserSrc (a + ucast m)"
| "source_add (KernSrc a) m = KernSrc (a + ucast m)"
| "source_add (LocalSrc bs) m = LocalSrc (drop (unat m) bs)"

text \<open>\<^verbatim>\<open>min(n - tot, BSIZE - off%BSIZE)\<close>\<close>

definition rw_part :: "u32 \<Rightarrow> u32 \<Rightarrow> u32 \<Rightarrow> u32" where
  "rw_part n tot off = min (n - tot) (1024 - off mod 1024)"

lemma rw_part_bounds:
  assumes "tot < n"
  shows "0 < unat (rw_part n tot off)" "unat (rw_part n tot off) \<le> unat (n - tot)"
    "unat (rw_part n tot off) \<le> 1024 - unat off mod 1024"
proof -
  have d: "unat (n - tot) > 0" using assms by (simp add: unat_sub word_le_nat_alt word_less_nat_alt)
  have m: "unat (off mod 1024) = unat off mod 1024" by (simp add: unat_mod)
  have "unat (1024 - off mod 1024 :: u32) = 1024 - unat off mod 1024"
    by (subst unat_sub) (simp_all add: m word_le_nat_alt)
  then have u: "unat (rw_part n tot off) = min (unat (n - tot)) (1024 - unat off mod 1024)"
    by (simp add: rw_part_def min_def word_le_nat_alt)
  then show "0 < unat (rw_part n tot off)" "unat (rw_part n tot off) \<le> unat (n - tot)"
    "unat (rw_part n tot off) \<le> 1024 - unat off mod 1024" using d by simp_all
qed

lemma rw_part_decreases: "tot < n \<Longrightarrow> unat (n - (tot + rw_part n tot off)) < unat (n - tot)"
  using rw_part_bounds(1,2) [of tot n off] unat_sub [of "rw_part n tot off" "n - tot"]
  by (simp add: word_le_nat_alt diff_diff_eq [symmetric])

function readi_loop :: "nat \<Rightarrow> dest \<Rightarrow> u32 \<Rightarrow> u32 \<Rightarrow> u32 \<Rightarrow> ('z fs_state_scheme, u32 \<times> u8 list) kern" where
  "readi_loop i dst off n tot =
     (if tot < n then
        bind (bmap i (off div 1024)) (\<lambda>addr.
          if addr = 0 then ret (tot, [])
          else
            bind (get_inode i i_dev) (\<lambda>dev.
            bind (bread dev addr) (\<lambda>bp.
            bind (get_buf bp b_data) (\<lambda>d.
              let m = rw_part n tot off; bs = slice d (unat (off mod 1024)) (unat m) in
              bind (copy_to dst bs) (\<lambda>r.
                if r = - 1 then bind (brelse bp) (\<lambda>_. ret (- 1, []))
                else
                  bind (brelse bp) (\<lambda>_.
                  bind (readi_loop i (dest_add dst m) (off + m) n (tot + m)) (\<lambda>(tot, rest).
                    ret (tot, bs @ rest))))))))
      else ret (tot, []))"
  by pat_completeness auto
termination
  by (relation "measure (\<lambda>(i, dst, off, n, tot). unat (n - tot))") (simp_all add: rw_part_decreases)

declare readi_loop.simps [simp del]

definition readi :: "nat \<Rightarrow> dest \<Rightarrow> u32 \<Rightarrow> u32 \<Rightarrow> ('z fs_state_scheme, int \<times> u8 list) kern" where
  "readi i dst off n =
     bind (get_inode i i_size) (\<lambda>sz.
       if off > sz \<or> off + n < off then ret (0, [])
       else
         bind (readi_loop i dst off (if off + n > sz then sz - off else n) 0) (\<lambda>(tot, bs).
           ret (sint tot, bs)))"

function writei_loop :: "nat \<Rightarrow> source \<Rightarrow> u32 \<Rightarrow> u32 \<Rightarrow> u32 \<Rightarrow> ('z fs_state_scheme, u32 \<times> u32) kern" where
  "writei_loop i src off n tot =
     (if tot < n then
        bind (bmap i (off div 1024)) (\<lambda>addr.
          if addr = 0 then ret (tot, off)
          else
            bind (get_inode i i_dev) (\<lambda>dev.
            bind (bread dev addr) (\<lambda>bp.
              let m = rw_part n tot off in
              bind (copy_from src (unat m)) (\<lambda>(r, bs).
              bind (set_data bp (\<lambda>d. splice d (unat (off mod 1024)) bs)) (\<lambda>_.
                if r = - 1 then bind (brelse bp) (\<lambda>_. ret (tot, off))
                else
                  bind (log_write bp) (\<lambda>_.
                  bind (brelse bp) (\<lambda>_.
                    writei_loop i (source_add src m) (off + m) n (tot + m))))))))
      else ret (tot, off))"
  by pat_completeness auto
termination
  by (relation "measure (\<lambda>(i, src, off, n, tot). unat (n - tot))") (simp_all add: rw_part_decreases)

declare writei_loop.simps [simp del]

definition writei :: "nat \<Rightarrow> source \<Rightarrow> u32 \<Rightarrow> u32 \<Rightarrow> ('z fs_state_scheme, int) kern" where
  "writei i src off n =
     bind (get_inode i i_size) (\<lambda>sz.
       if off > sz \<or> off + n < off then ret (- 1)
       else if unat (off + n) > MAXFILE * BSIZE then ret (- 1)
       else
         bind (writei_loop i src off n 0) (\<lambda>(tot, off).
         bind (get_inode i i_size) (\<lambda>sz.
         bind (only_if (off > sz) (set_inode i (\<lambda>ip. ip\<lparr>i_size := off\<rparr>))) (\<lambda>_.
         bind (iupdate i) (\<lambda>_. ret (sint tot))))))"

section \<open>Directories\<close>

text \<open>\<^verbatim>\<open>strncmp(s, t, DIRSIZ)\<close> on names that are held in byte arrays.\<close>

fun namecmp_loop :: "nat \<Rightarrow> u8 list \<Rightarrow> u8 list \<Rightarrow> int" where
  "namecmp_loop 0 ps qs = 0"
| "namecmp_loop (Suc n) (p # ps) (q # qs) =
     (if p \<noteq> 0 \<and> p = q then namecmp_loop n ps qs else uint p - uint q)"
| "namecmp_loop (Suc n) ps qs = 0"

definition namecmp :: "u8 list \<Rightarrow> u8 list \<Rightarrow> int" where
  "namecmp s t = namecmp_loop DIRSIZ s t"

text \<open>
  The loop of \<open>dirlookup\<close>, over the size of the directory: the offset and the inode number of
  the entry.
\<close>

function dirlookup_loop :: "nat \<Rightarrow> u8 list \<Rightarrow> nat \<Rightarrow> nat \<Rightarrow> ('z fs_state_scheme, (u32 \<times> u32) option) kern" where
  "dirlookup_loop dp name sz off =
     (if off < sz then
        bind (readi dp LocalDst (of_nat off) (of_nat DIRENT)) (\<lambda>(r, d).
        bind (panic_if (r \<noteq> int DIRENT) ''dirlookup read'') (\<lambda>_.
          if de_inum (get_dirent d) = 0 then dirlookup_loop dp name sz (off + DIRENT)
          else if namecmp name (de_name (get_dirent d)) = 0
          then ret (Some (of_nat off, ucast (de_inum (get_dirent d))))
          else dirlookup_loop dp name sz (off + DIRENT)))
      else ret None)"
  by pat_completeness auto
termination
  by (relation "measure (\<lambda>(dp, name, sz, off). sz - off)") auto

declare dirlookup_loop.simps [simp del]

text \<open>The inode and the offset that \<^verbatim>\<open>poff\<close> receives.\<close>

definition dirlookup :: "nat \<Rightarrow> u8 list \<Rightarrow> ('z fs_state_scheme, (nat \<times> u32) option) kern" where
  "dirlookup dp name =
     bind (get_inode dp id) (\<lambda>ip.
     bind (panic_if (i_type ip \<noteq> T_DIR) ''dirlookup not DIR'') (\<lambda>_.
     bind (dirlookup_loop dp name (unat (i_size ip)) 0) (\<lambda>e.
       case e of
         None \<Rightarrow> ret None
       | Some (off, inum) \<Rightarrow> bind (iget (i_dev ip) inum) (\<lambda>i. ret (Some (i, off))))))"

text \<open>The search of \<open>dirlink\<close> for an empty entry: the offset where it ends and the entry read last.\<close>

function dirlink_slot :: "nat \<Rightarrow> nat \<Rightarrow> nat \<Rightarrow> ('z fs_state_scheme, nat) kern" where
  "dirlink_slot dp sz off =
     (if off < sz then
        bind (readi dp LocalDst (of_nat off) (of_nat DIRENT)) (\<lambda>(r, d).
        bind (panic_if (r \<noteq> int DIRENT) ''dirlink read'') (\<lambda>_.
          if de_inum (get_dirent d) = 0 then ret off else dirlink_slot dp sz (off + DIRENT)))
      else ret off)"
  by pat_completeness auto
termination
  by (relation "measure (\<lambda>(dp, sz, off). sz - off)") auto

declare dirlink_slot.simps [simp del]

text \<open>\<^verbatim>\<open>strncpy(de.name, name, DIRSIZ)\<close>: the name up to its terminator, padded with zeros.\<close>

definition name_copy :: "u8 list \<Rightarrow> u8 list" where
  "name_copy name = (let cs = take DIRSIZ (takeWhile (\<lambda>c. c \<noteq> 0) name) in cs @ replicate (DIRSIZ - length cs) 0)"

definition dirlink :: "nat \<Rightarrow> u8 list \<Rightarrow> u32 \<Rightarrow> ('z fs_state_scheme, int) kern" where
  "dirlink dp name inum =
     bind (dirlookup dp name) (\<lambda>e.
       case e of
         Some (i, off) \<Rightarrow> bind (iput i) (\<lambda>_. ret (- 1))
       | None \<Rightarrow>
           bind (get_inode dp i_size) (\<lambda>sz.
           bind (dirlink_slot dp (unat sz) 0) (\<lambda>off.
           bind (writei dp (LocalSrc (put_dirent \<lparr>de_inum = ucast inum, de_name = name_copy name\<rparr>))
             (of_nat off) (of_nat DIRENT)) (\<lambda>r.
             if r \<noteq> int DIRENT then ret (- 1) else ret 0))))"

section \<open>Paths\<close>

abbreviation (input) slash :: u8 where "slash \<equiv> 47"

text \<open>
  A path is a string, \<open>name\<close> an array of \<^verbatim>\<open>DIRSIZ\<close> bytes. The result is the rest of the path and
  the array.
\<close>

definition skipelem :: "u8 list \<Rightarrow> u8 list \<Rightarrow> (u8 list \<times> u8 list) option" where
  "skipelem path name =
     (let path = dropWhile (\<lambda>c. c = slash) path in
      if path = [] then None
      else
        let s = takeWhile (\<lambda>c. c \<noteq> slash) path; rest = dropWhile (\<lambda>c. c \<noteq> slash) path in
        Some (dropWhile (\<lambda>c. c = slash) rest,
          if length s \<ge> DIRSIZ then take DIRSIZ s else s @ 0 # drop (Suc (length s)) name))"

lemma skipelem_shorter: "skipelem path name = Some (rest, nm) \<Longrightarrow> length rest < length path"
proof -
  assume a: "skipelem path name = Some (rest, nm)"
  define p where "p = dropWhile (\<lambda>c. c = slash) path"
  have p: "p \<noteq> []" "rest = dropWhile (\<lambda>c. c = slash) (dropWhile (\<lambda>c. c \<noteq> slash) p)"
    using a by (auto simp: skipelem_def Let_def p_def [symmetric] split: if_splits)
  have h: "hd p \<noteq> slash" using p(1) hd_dropWhile [of "\<lambda>c. c = slash" path] by (auto simp: p_def)
  have "length rest \<le> length (dropWhile (\<lambda>c. c \<noteq> slash) p)" unfolding p(2) by (rule length_dropWhile_le)
  also have "\<dots> < length p" using p(1) h by (cases p) (auto simp: length_dropWhile_le less_Suc_eq_le)
  also have "\<dots> \<le> length path" unfolding p_def by (rule length_dropWhile_le)
  finally show ?thesis .
qed

function namex_loop :: "nat \<Rightarrow> u8 list \<Rightarrow> bool \<Rightarrow> u8 list \<Rightarrow> ('z fs_state_scheme, (nat \<times> u8 list) option) kern" where
  "namex_loop i path parent name =
     (case skipelem path name of
        None \<Rightarrow>
          if parent then bind (iput i) (\<lambda>_. ret None) else ret (Some (i, name))
      | Some (path', name') \<Rightarrow>
          bind (ilock (Some i)) (\<lambda>_.
          bind (get_inode i i_type) (\<lambda>t.
            if t \<noteq> T_DIR then bind (iunlockput i) (\<lambda>_. ret None)
            else if parent \<and> path' = [] then bind (iunlock (Some i)) (\<lambda>_. ret (Some (i, name')))
            else
              bind (dirlookup i name') (\<lambda>e.
                case e of
                  None \<Rightarrow> bind (iunlockput i) (\<lambda>_. ret None)
                | Some (next, off) \<Rightarrow>
                    bind (iunlockput i) (\<lambda>_. namex_loop next path' parent name')))))"
  by pat_completeness auto
termination
  by (relation "measure (\<lambda>(i, path, parent, name). length path)") (auto dest: skipelem_shorter)

declare namex_loop.simps [simp del]

definition namex :: "u8 list \<Rightarrow> bool \<Rightarrow> u8 list \<Rightarrow> ('z fs_state_scheme, (nat \<times> u8 list) option) kern" where
  "namex path parent name =
     bind (if path \<noteq> [] \<and> hd path = slash then iget ROOTDEV ROOTINO
           else bind curproc (\<lambda>p. bind (get_proc p p_cwd) (\<lambda>cwd.
             case cwd of None \<Rightarrow> undefined_behaviour | Some d \<Rightarrow> idup d))) (\<lambda>i.
     namex_loop i path parent name)"

text \<open>The array \<^verbatim>\<open>name\<close> of \<open>namei\<close> is not initialised; its bytes are the first argument.\<close>

definition namei_with :: "u8 list \<Rightarrow> u8 list \<Rightarrow> ('z fs_state_scheme, nat option) kern" where
  "namei_with junk path = bind (namex path False junk) (\<lambda>r. ret (map_option fst r))"

definition namei :: "u8 list \<Rightarrow> ('z fs_state_scheme, nat option) kern" where
  "namei path = namei_with (replicate DIRSIZ 0) path"

definition nameiparent :: "u8 list \<Rightarrow> u8 list \<Rightarrow> ('z fs_state_scheme, (nat \<times> u8 list) option) kern" where
  "nameiparent path name = namex path True name"

section \<open>Path elements\<close>

text \<open>
  The elements of a path: the pieces between slashes that are not empty. The name of an element
  in a directory is its first \<open>DIRSIZ\<close> bytes.
\<close>

primrec split_path :: "u8 list \<Rightarrow> u8 list list" where
  "split_path [] = [[]]"
| "split_path (c # cs) = (if c = slash then [] # split_path cs else (c # hd (split_path cs)) # tl (split_path cs))"

definition path_elems :: "u8 list \<Rightarrow> u8 list list" where
  "path_elems path = map (take DIRSIZ) (filter (\<lambda>e. e \<noteq> []) (split_path path))"

definition elem_name :: "u8 list \<Rightarrow> u8 list" where
  "elem_name e = (if length e = DIRSIZ then e else e @ [0])"

definition cname :: "u8 list \<Rightarrow> u8 list" where
  "cname name = take DIRSIZ (takeWhile (\<lambda>c. c \<noteq> 0) name)"

text \<open>Looking up the elements one after the other.\<close>

primrec walk_path :: "u8 list list \<Rightarrow> nat \<Rightarrow> ('z fs_state_scheme, nat option) kern" where
  "walk_path [] i = ret (Some i)"
| "walk_path (e # es) i =
     bind (ilock (Some i)) (\<lambda>_.
     bind (get_inode i i_type) (\<lambda>t.
       if t \<noteq> T_DIR then bind (iunlockput i) (\<lambda>_. ret None)
       else
         bind (dirlookup i (elem_name e)) (\<lambda>r. case r of
           None \<Rightarrow> bind (iunlockput i) (\<lambda>_. ret None)
         | Some (next, off) \<Rightarrow> bind (iunlockput i) (\<lambda>_. walk_path es next))))"

text \<open>The directory that holds the last element, and that element.\<close>

primrec walk_parent :: "u8 list list \<Rightarrow> nat \<Rightarrow> ('z fs_state_scheme, (nat \<times> u8 list) option) kern" where
  "walk_parent [] i = bind (iput i) (\<lambda>_. ret None)"
| "walk_parent (e # es) i =
     bind (ilock (Some i)) (\<lambda>_.
     bind (get_inode i i_type) (\<lambda>t.
       if t \<noteq> T_DIR then bind (iunlockput i) (\<lambda>_. ret None)
       else if es = [] then bind (iunlock (Some i)) (\<lambda>_. ret (Some (i, e)))
       else
         bind (dirlookup i (elem_name e)) (\<lambda>r. case r of
           None \<Rightarrow> bind (iunlockput i) (\<lambda>_. ret None)
         | Some (next, off) \<Rightarrow> bind (iunlockput i) (\<lambda>_. walk_parent es next))))"

lemma split_path_not_Nil [simp]: "split_path p \<noteq> []"
  by (induction p) simp_all

lemma split_path_elem:
  "split_path p = takeWhile (\<lambda>c. c \<noteq> slash) p #
    (case dropWhile (\<lambda>c. c \<noteq> slash) p of [] \<Rightarrow> [] | _ # r \<Rightarrow> split_path r)"
  by (induction p) auto

lemma path_elems_slashes: "path_elems (dropWhile (\<lambda>c. c = slash) p) = path_elems p"
  by (induction p) (simp_all add: path_elems_def)

lemma path_elems_slash: "path_elems (slash # r) = path_elems r"
  by (simp add: path_elems_def)

lemma path_elems_unfold:
  assumes "p \<noteq> []" "hd p \<noteq> slash"
  shows "path_elems p = take DIRSIZ (takeWhile (\<lambda>c. c \<noteq> slash) p) # path_elems (dropWhile (\<lambda>c. c \<noteq> slash) p)"
proof -
  have t: "takeWhile (\<lambda>c. c \<noteq> slash) p \<noteq> []" using assms by (cases p) auto
  show ?thesis
  proof (cases "dropWhile (\<lambda>c. c \<noteq> slash) p")
    case Nil
    with t show ?thesis by (simp only: path_elems_def split_path_elem [of p] Nil) simp
  next
    case (Cons c r)
    then have "c = slash" using hd_dropWhile [of "\<lambda>c. c \<noteq> slash" p] by simp
    with t Cons show ?thesis by (simp only: path_elems_def split_path_elem [of p] Cons) simp
  qed
qed

lemma path_elems_empty [simp]: "path_elems [] = []"
  by (simp add: path_elems_def)

lemma path_elems_Nil: "dropWhile (\<lambda>c. c = slash) p = [] \<Longrightarrow> path_elems p = []"
  by (metis path_elems_slashes path_elems_empty)

text \<open>\<open>skipelem\<close> takes the first element off a path.\<close>

lemma skipelem_elems:
  "case skipelem path name of
     None \<Rightarrow> path_elems path = []
   | Some (rest, nm) \<Rightarrow> \<exists>e. path_elems path = e # path_elems rest \<and> (rest = [] \<longleftrightarrow> path_elems rest = []) \<and>
       set rest \<subseteq> set path \<and> set e \<subseteq> set path \<and> length e \<le> DIRSIZ \<and>
       nm = (if length e = DIRSIZ then e else e @ 0 # drop (Suc (length e)) name)"
proof -
  define p where "p = dropWhile (\<lambda>c. c = slash) path"
  define s where "s = takeWhile (\<lambda>c. c \<noteq> slash) p"
  define r where "r = dropWhile (\<lambda>c. c \<noteq> slash) p"
  define rest where "rest = dropWhile (\<lambda>c. c = slash) r"
  show ?thesis
  proof (cases "p = []")
    case True
    then show ?thesis by (simp add: skipelem_def Let_def p_def [symmetric] path_elems_Nil)
  next
    case False
    have "hd p \<noteq> slash" using False hd_dropWhile [of "\<lambda>c. c = slash" path] by (simp add: p_def)
    then have e: "path_elems path = take DIRSIZ s # path_elems rest"
      using path_elems_unfold [OF False] path_elems_slashes [of path] path_elems_slashes [of r]
      by (simp add: p_def s_def r_def rest_def)
    have r: "rest = [] \<longleftrightarrow> path_elems rest = []"
    proof (cases "rest = []")
      case ne: False
      then have "hd rest \<noteq> slash" using hd_dropWhile [of "\<lambda>c. c = slash" r] unfolding rest_def by blast
      with path_elems_unfold [OF ne] ne show ?thesis by simp
    qed simp
    have sub: "set rest \<subseteq> set path" "set (take DIRSIZ s) \<subseteq> set path"
      by (auto simp: p_def s_def r_def rest_def dest!: set_dropWhileD set_takeWhileD in_set_takeD)
    have sk: "skipelem path name = Some (rest, if length s \<ge> DIRSIZ then take DIRSIZ s else s @ 0 # drop (Suc (length s)) name)"
      using False by (simp add: skipelem_def Let_def p_def s_def r_def rest_def)
    show ?thesis
      unfolding sk option.case prod.case
      by (intro exI [of _ "take DIRSIZ s"] conjI e r sub) (simp_all add: min_def)
  qed
qed

lemma namecmp_loop_tail: "namecmp_loop n (s @ 0 # j) x = namecmp_loop n (s @ [0]) x"
proof (induction s arbitrary: n x)
  case Nil
  then show ?case by (cases n; cases x) simp_all
next
  case (Cons c s)
  then show ?case by (cases n; cases x) simp_all
qed


lemma namecmp_elem:
  assumes "length e \<le> DIRSIZ" "nm = (if length e = DIRSIZ then e else e @ 0 # j)"
  shows "namecmp nm x = namecmp (elem_name e) x"
  using assms by (simp add: namecmp_def elem_name_def namecmp_loop_tail [of DIRSIZ e j x])

text \<open>\<open>dirlookup\<close> depends on a name only as far as \<open>namecmp\<close> looks at it.\<close>

lemma dirlookup_loop_cong:
  assumes "\<And>x. namecmp nm x = namecmp nm' x"
  shows "dirlookup_loop dp nm sz off = dirlookup_loop dp nm' sz off"
proof (induction "sz - off" arbitrary: off rule: less_induct)
  case less
  show ?case
  proof (cases "off < sz")
    case True
    then have "sz - (off + DIRENT) < sz - off" by simp
    from less [OF this] show ?thesis by (simp add: dirlookup_loop.simps [of dp _ sz off] assms cong: if_cong)
  qed (simp add: dirlookup_loop.simps)
qed

lemma dirlookup_cong: "(\<And>x. namecmp nm x = namecmp nm' x) \<Longrightarrow> dirlookup dp nm = dirlookup dp nm'"
  by (simp add: dirlookup_def dirlookup_loop_cong [of nm nm' dp])

lemma bind_ret_map: "bind (ret x) g = g x"
  by (rule ext) (simp add: bind_def ret_def)

lemma namex_loop_walks:
  "bind (namex_loop i path False name) (\<lambda>r. ret (map_option fst r)) = (walk_path (path_elems path) i :: ('z fs_state_scheme, nat option) kern)"
proof (induction "length path" arbitrary: i path name rule: less_induct)
  case less
  note sk = skipelem_elems [of path name]
  show ?case
  proof (cases "skipelem path name")
    case None
    with sk show ?thesis by (intro ext) (simp add: namex_loop.simps [of i path] bind_run)
  next
    case (Some q)
    obtain rest nm where q: "q = (rest, nm)" by (cases q)
    obtain e where e: "path_elems path = e # path_elems rest" "length e \<le> DIRSIZ"
      "nm = (if length e = DIRSIZ then e else e @ 0 # drop (Suc (length e)) name)"
      using sk unfolding Some q by auto
    have d: "dirlookup i nm = dirlookup i (elem_name e)" for i
      by (rule dirlookup_cong) (rule namecmp_elem [OF e(2,3)])
    have IH: "bind (namex_loop n rest False nm) (\<lambda>r. ret (map_option fst r)) =
        (walk_path (path_elems rest) n :: ('z fs_state_scheme, nat option) kern)" for n
      by (rule less) (use skipelem_shorter [of path name rest nm] Some q in simp)
    let ?k = "\<lambda>m. bind m (\<lambda>r. ret (map_option fst r))"
    show ?thesis
      by (simp only: namex_loop.simps [of i path] Some q e(1) d option.case prod.case walk_path.simps IH bind_assoc bind_ret_map
          if_distrib [where f = ?k] option.case_distrib [where h = ?k] prod.case_distrib [where h = ?k] option.map HOL.simp_thms if_False cong: if_cong option.case_cong)
  qed
qed


lemma cname_elem:
  assumes "length e \<le> DIRSIZ" "0 \<notin> set e" "nm = (if length e = DIRSIZ then e else e @ 0 # j)"
  shows "cname nm = e"
proof -
  have a: "takeWhile (\<lambda>c. c \<noteq> 0) e = e" using assms(2) by (intro takeWhile_eq_all_conv [THEN iffD2]) auto
  have b: "takeWhile (\<lambda>c. c \<noteq> 0) (e @ 0 # j) = e" using assms(2) by (subst takeWhile_append2) auto
  show ?thesis
    by (cases "length e = DIRSIZ") (simp_all only: cname_def assms(1,3) if_True if_False refl a b take_all order_refl)
qed

lemma namex_loop_parent:
  "0 \<notin> set path \<Longrightarrow> bind (namex_loop i path True name) (\<lambda>r. ret (map_option (map_prod id cname) r)) =
    (walk_parent (path_elems path) i :: ('z fs_state_scheme, (nat \<times> u8 list) option) kern)"
proof (induction "length path" arbitrary: i path name rule: less_induct)
  case less
  note sk = skipelem_elems [of path name]
  show ?case
  proof (cases "skipelem path name")
    case None
    with sk show ?thesis
      by (intro ext) (simp add: namex_loop.simps [of i path] bind_run split: outcome.split)
  next
    case (Some q)
    obtain rest nm where q: "q = (rest, nm)" by (cases q)
    obtain e where e: "path_elems path = e # path_elems rest" "rest = [] \<longleftrightarrow> path_elems rest = []" "set rest \<subseteq> set path"
      "set e \<subseteq> set path" "length e \<le> DIRSIZ" "nm = (if length e = DIRSIZ then e else e @ 0 # drop (Suc (length e)) name)"
      using sk unfolding Some q by auto
    have d: "dirlookup i nm = dirlookup i (elem_name e)" for i
      by (rule dirlookup_cong) (rule namecmp_elem [OF e(5,6)])
    have c: "cname nm = e" using e(4) less.prems by (intro cname_elem [OF e(5) _ e(6)]) auto
    have IH: "bind (namex_loop n rest True nm) (\<lambda>r. ret (map_option (map_prod id cname) r)) =
        (walk_parent (path_elems rest) n :: ('z fs_state_scheme, (nat \<times> u8 list) option) kern)" for n
      by (rule less) (use skipelem_shorter [of path name rest nm] Some q e(3) less.prems in auto)
    let ?k = "\<lambda>m. bind m (\<lambda>r. ret (map_option (map_prod id cname) r))"
    show ?thesis
      by (simp only: namex_loop.simps [of i path] Some q e(1,2) d c option.case prod.case walk_parent.simps IH bind_assoc bind_ret_map
          if_distrib [where f = ?k] option.case_distrib [where h = ?k] prod.case_distrib [where h = ?k] option.map map_prod_simp
          id_apply HOL.simp_thms if_False cong: if_cong option.case_cong)
  qed
qed

definition path_start :: "u8 list \<Rightarrow> ('z fs_state_scheme, nat) kern" where
  "path_start path =
     (if path \<noteq> [] \<and> hd path = slash then iget ROOTDEV ROOTINO
      else bind curproc (\<lambda>p. bind (get_proc p p_cwd) (\<lambda>cwd. case cwd of None \<Rightarrow> undefined_behaviour | Some d \<Rightarrow> idup d)))"

text \<open>
  C26: A path means its elements. \<open>namei\<close> looks up the elements of the path one after the other,
  from the root for an absolute path and otherwise from the current directory, and \<open>nameiparent\<close>
  stops at the directory of the last element and returns its name; repeated and trailing slashes,
  the bytes of an element beyond \<open>DIRSIZ\<close> and what the uninitialised array \<^verbatim>\<open>name\<close> holds make no
  difference.
\<close>

theorem namei_walks_elements:
  assumes "0 \<notin> set path"
  shows "namei_with junk path = bind (path_start path) (walk_path (path_elems path)) \<and>
    bind (nameiparent path junk) (\<lambda>r. ret (map_option (map_prod id cname) r)) =
      bind (path_start path) (walk_parent (path_elems path))"
  by (simp only: namei_with_def nameiparent_def namex_def path_start_def [symmetric] bind_assoc namex_loop_walks
      namex_loop_parent [OF assms] simp_thms)

theorem namei_walks_elements_witness:
  "namei_with (replicate DIRSIZ 7) (bytes ''//usr///a'') = (namei (bytes ''/usr/a/'') :: (fs_state, nat option) kern)"
proof -
  have z: "0 \<notin> set (bytes ''//usr///a'')" "0 \<notin> set (bytes ''/usr/a/'')" by (simp_all add: bytes_def)
  have "path_elems (bytes ''//usr///a'') = path_elems (bytes ''/usr/a/'')" by (simp add: bytes_def path_elems_def)
  moreover have "(path_start (bytes ''//usr///a'') :: (fs_state, nat) kern) = path_start (bytes ''/usr/a/'')"
    by (simp add: path_start_def bytes_def)
  ultimately show ?thesis
    unfolding namei_def by (simp only: namei_walks_elements [OF z(1)] namei_walks_elements [OF z(2)])
qed

end
