(* ===== verification/Xv6_File.thy ===== *)
theory Xv6_File
  imports Xv6_Fs Xv6_Ring
begin

unbundle bit_operations_syntax

text \<open>
  Open files and pipes: \<^verbatim>\<open>kernel/file.c\<close>, \<^verbatim>\<open>kernel/pipe.c\<close>. A file pointer is an index of the file
  table; a pipe is named by the page that \<open>kalloc\<close> gave it, and \<open>pipes\<close> holds the structure at
  that address.
\<close>

section \<open>State\<close>

datatype filetype = FD_NONE | FD_PIPE | FD_INODE | FD_DEVICE

record kfile =
  f_type :: filetype
  f_ref :: int
  f_readable :: bool
  f_writable :: bool
  f_pipe :: u64
  f_ip :: "nat option"
  f_off :: u32
  f_major :: u16

record pipe =
  pi_data :: "u8 list"
  pi_nread :: u32
  pi_nwrite :: u32
  pi_readopen :: int
  pi_writeopen :: int

record file_state = fs_state +
  ftable :: "nat \<Rightarrow> kfile"
  pipes :: "u64 \<Rightarrow> pipe"

abbreviation (input) PIPESIZE :: "'a::numeral" where "PIPESIZE \<equiv> 512"

definition set_file :: "nat \<Rightarrow> (kfile \<Rightarrow> kfile) \<Rightarrow> ('z file_state_scheme, unit) kern" where
  "set_file f g = modify (\<lambda>s. s\<lparr>ftable := (ftable s)(f := g (ftable s f))\<rparr>)"

definition get_file :: "nat \<Rightarrow> (kfile \<Rightarrow> 'a) \<Rightarrow> ('z file_state_scheme, 'a) kern" where
  "get_file f g = gets (\<lambda>s. g (ftable s f))"

definition set_pipe :: "u64 \<Rightarrow> (pipe \<Rightarrow> pipe) \<Rightarrow> ('z file_state_scheme, unit) kern" where
  "set_pipe pi g = modify (\<lambda>s. s\<lparr>pipes := (pipes s)(pi := g (pipes s pi))\<rparr>)"

definition get_pipe :: "u64 \<Rightarrow> (pipe \<Rightarrow> 'a) \<Rightarrow> ('z file_state_scheme, 'a) kern" where
  "get_pipe pi g = gets (\<lambda>s. g (pipes s pi))"

section \<open>Pipes\<close>

text \<open>\<^verbatim>\<open>pi->data[pi->nwrite++ % PIPESIZE] = ch\<close> and the two halves of \<^verbatim>\<open>ch = pi->data[pi->nread++ % PIPESIZE]\<close>.\<close>

definition pipe_put :: "u8 \<Rightarrow> pipe \<Rightarrow> pipe" where
  "pipe_put ch p = p\<lparr>pi_data := (pi_data p)[unat (pi_nwrite p) mod PIPESIZE := ch], pi_nwrite := pi_nwrite p + 1\<rparr>"

definition pipe_front :: "pipe \<Rightarrow> u8" where
  "pipe_front p = pi_data p ! (unat (pi_nread p) mod PIPESIZE)"

definition pipe_advance :: "pipe \<Rightarrow> pipe" where
  "pipe_advance p = p\<lparr>pi_nread := pi_nread p + 1\<rparr>"

definition pipeclose :: "u64 \<Rightarrow> bool \<Rightarrow> ('z file_state_scheme, unit) kern" where
  "pipeclose pi writable = block [
     on_lk (acquire (PipeLock pi)),
     (if writable then block [
        set_pipe pi (\<lambda>p. p\<lparr>pi_writeopen := 0\<rparr>),
        wakeup (ChanPipeRead pi)]
      else block [
        set_pipe pi (\<lambda>p. p\<lparr>pi_readopen := 0\<rparr>),
        wakeup (ChanPipeWrite pi)]),
     bind (get_pipe pi id) (\<lambda>p.
       if pi_readopen p = 0 \<and> pi_writeopen p = 0 then block [
         on_lk (release (PipeLock pi)),
         kfree pi]
       else on_lk (release (PipeLock pi)))]"

text \<open>
  The loop of \<open>pipewrite\<close> with the lock held and \<open>k\<close> bytes to go; \<open>pipewrite_return\<close> goes on after
  a sleep.
\<close>

definition pipewrite_done :: "u64 \<Rightarrow> int \<Rightarrow> ('z file_state_scheme, int) kern" where
  "pipewrite_done pi i =
     bind (block [wakeup (ChanPipeRead pi), on_lk (release (PipeLock pi))]) (\<lambda>_. ret i)"

primrec pipewrite_loop :: "nat \<Rightarrow> u64 \<Rightarrow> nat \<Rightarrow> u64 \<Rightarrow> int \<Rightarrow> ('z file_state_scheme, int) kern" where
  "pipewrite_loop 0 pi pr addr i = pipewrite_done pi i"
| "pipewrite_loop (Suc k) pi pr addr i =
     bind (get_pipe pi id) (\<lambda>p.
     bind (if pi_readopen p = 0 then ret True else bind (killed pr) (\<lambda>kd. ret (kd \<noteq> 0))) (\<lambda>stop.
       if stop then bind (on_lk (release (PipeLock pi))) (\<lambda>_. ret (- 1))
       else if pi_nwrite p = pi_nread p + PIPESIZE then
         bind (block [wakeup (ChanPipeRead pi), sleep (ChanPipeWrite pi) (PipeLock pi)]) (\<lambda>_. ret (- 1))
       else
         bind (get_proc pr p_pagetable) (\<lambda>pt.
         bind (copyin pt (addr + of_int i) 1) (\<lambda>(r, ch).
           if r = - 1 then pipewrite_done pi i
           else
             bind (set_pipe pi (pipe_put (hd ch))) (\<lambda>_.
             pipewrite_loop k pi pr addr (i + 1))))))"

definition pipewrite :: "u64 \<Rightarrow> u64 \<Rightarrow> int \<Rightarrow> ('z file_state_scheme, int) kern" where
  "pipewrite pi addr n =
     bind curproc (\<lambda>pr.
     bind (on_lk (acquire (PipeLock pi))) (\<lambda>_. pipewrite_loop (nat n) pi pr addr 0))"

definition pipewrite_return :: "bool \<Rightarrow> nat \<Rightarrow> nat \<Rightarrow> u64 \<Rightarrow> u64 \<Rightarrow> int \<Rightarrow> ('z file_state_scheme, int) kern" where
  "pipewrite_return ie pr k pi addr i =
     bind (sleep_return ie pr (PipeLock pi)) (\<lambda>_. pipewrite_loop k pi pr addr i)"

definition piperead_done :: "u64 \<Rightarrow> int \<Rightarrow> ('z file_state_scheme, int) kern" where
  "piperead_done pi i =
     bind (block [wakeup (ChanPipeWrite pi), on_lk (release (PipeLock pi))]) (\<lambda>_. ret i)"

primrec piperead_copy :: "nat \<Rightarrow> u64 \<Rightarrow> nat \<Rightarrow> u64 \<Rightarrow> int \<Rightarrow> ('z file_state_scheme, int) kern" where
  "piperead_copy 0 pi pr addr i = piperead_done pi i"
| "piperead_copy (Suc k) pi pr addr i =
     bind (get_pipe pi id) (\<lambda>p.
       if pi_nread p = pi_nwrite p then piperead_done pi i
       else
         bind (set_pipe pi pipe_advance) (\<lambda>_.
         bind (get_proc pr p_pagetable) (\<lambda>pt.
         bind (copyout pt (addr + of_int i) [pipe_front p]) (\<lambda>r.
           if r = - 1 then piperead_done pi i
           else piperead_copy k pi pr addr (i + 1)))))"

text \<open>The first loop of \<open>piperead\<close> waits for data; \<open>piperead_return\<close> goes on after a sleep.\<close>

definition piperead_wait :: "u64 \<Rightarrow> nat \<Rightarrow> u64 \<Rightarrow> int \<Rightarrow> ('z file_state_scheme, int) kern" where
  "piperead_wait pi pr addr n =
     bind (get_pipe pi id) (\<lambda>p.
       if pi_nread p = pi_nwrite p \<and> pi_writeopen p \<noteq> 0 then
         bind (killed pr) (\<lambda>kd.
           if kd \<noteq> 0 then bind (on_lk (release (PipeLock pi))) (\<lambda>_. ret (- 1))
           else bind (sleep (ChanPipeRead pi) (PipeLock pi)) (\<lambda>_. ret (- 1)))
       else piperead_copy (nat n) pi pr addr 0)"

definition piperead :: "u64 \<Rightarrow> u64 \<Rightarrow> int \<Rightarrow> ('z file_state_scheme, int) kern" where
  "piperead pi addr n =
     bind curproc (\<lambda>pr.
     bind (on_lk (acquire (PipeLock pi))) (\<lambda>_. piperead_wait pi pr addr n))"

definition piperead_return :: "bool \<Rightarrow> nat \<Rightarrow> u64 \<Rightarrow> u64 \<Rightarrow> int \<Rightarrow> ('z file_state_scheme, int) kern" where
  "piperead_return ie pr pi addr n =
     bind (sleep_return ie pr (PipeLock pi)) (\<lambda>_. piperead_wait pi pr addr n)"

section \<open>The file table\<close>

definition fileinit :: "('z file_state_scheme, unit) kern" where
  "fileinit = on_lk (initlock FtableLock ''ftable'')"

definition filealloc :: "('z file_state_scheme, nat option) kern" where
  "filealloc =
     with_lock FtableLock (
       bind (gets (\<lambda>s. find (\<lambda>f. f_ref (ftable s f) = 0) [0..<NFILE])) (\<lambda>r. case r of
         None \<Rightarrow> ret None
       | Some f \<Rightarrow> bind (set_file f (\<lambda>x. x\<lparr>f_ref := 1\<rparr>)) (\<lambda>_. ret (Some f))))"

definition filedup :: "nat \<Rightarrow> ('z file_state_scheme, nat) kern" where
  "filedup f =
     with_lock FtableLock (
       bind (get_file f f_ref) (\<lambda>r.
       bind (panic_if (r < 1) ''filedup'') (\<lambda>_.
       bind (set_file f (\<lambda>x. x\<lparr>f_ref := f_ref x + 1\<rparr>)) (\<lambda>_. ret f))))"

definition fileclose :: "nat \<Rightarrow> ('z file_state_scheme, unit) kern" where
  "fileclose f =
     bind (on_lk (acquire FtableLock)) (\<lambda>_.
     bind (get_file f f_ref) (\<lambda>r.
     bind (panic_if (r < 1) ''fileclose'') (\<lambda>_.
     bind (set_file f (\<lambda>x. x\<lparr>f_ref := f_ref x - 1\<rparr>)) (\<lambda>_.
     bind (get_file f id) (\<lambda>ff.
       if f_ref ff > 0 then on_lk (release FtableLock)
       else block [
         set_file f (\<lambda>x. x\<lparr>f_ref := 0, f_type := FD_NONE\<rparr>),
         on_lk (release FtableLock),
         (if f_type ff = FD_PIPE then pipeclose (f_pipe ff) (f_writable ff)
          else if f_type ff = FD_INODE \<or> f_type ff = FD_DEVICE then block [
            begin_op,
            (case f_ip ff of None \<Rightarrow> undefined_behaviour | Some i \<Rightarrow> iput i),
            end_op]
          else ret ())])))))"

text \<open>\<^verbatim>\<open>struct stat\<close> in memory; its four bytes of padding are whatever the stack held, zero here.\<close>

definition put_stat :: "kstat \<Rightarrow> u8 list" where
  "put_stat st = le_bytes 4 (st_dev st) @ le_bytes 4 (st_ino st) @ le_bytes 2 (st_type st) @ le_bytes 2 (st_nlink st) @
     replicate 4 0 @ le_bytes 8 (st_size st)"

definition filestat :: "nat \<Rightarrow> u64 \<Rightarrow> ('z file_state_scheme, int) kern" where
  "filestat f addr =
     bind curproc (\<lambda>p.
     bind (get_file f id) (\<lambda>x.
       if f_type x = FD_INODE \<or> f_type x = FD_DEVICE then
         (case f_ip x of None \<Rightarrow> panic ''ilock'' | Some i \<Rightarrow>
           bind (ilock (Some i)) (\<lambda>_.
           bind (stati i) (\<lambda>st.
           bind (iunlock (Some i)) (\<lambda>_.
           bind (get_proc p p_pagetable) (\<lambda>pt.
           bind (copyout pt addr (put_stat st)) (\<lambda>r.
             ret (if r < 0 then - 1 else 0)))))))
       else ret (- 1)))"

text \<open>\<^verbatim>\<open>devsw[major].read(1, addr, n)\<close> and \<^verbatim>\<open>devsw[major].write(1, addr, n)\<close>.\<close>

definition dev_call :: "dev_fun \<Rightarrow> u64 \<Rightarrow> int \<Rightarrow> ('z cons_state_scheme, int) kern" where
  "dev_call fn addr n = (case fn of ConsoleRead \<Rightarrow> consoleread True addr n | ConsoleWrite \<Rightarrow> consolewrite True addr n)"

definition dev_index :: "u16 \<Rightarrow> nat option" where
  "dev_index major = (if sint major < 0 \<or> sint major \<ge> NDEV then None else Some (unat major))"

definition fileread :: "nat \<Rightarrow> u64 \<Rightarrow> int \<Rightarrow> ('z file_state_scheme, int) kern" where
  "fileread f addr n =
     bind (get_file f id) (\<lambda>x.
       if \<not> f_readable x then ret (- 1)
       else case f_type x of
         FD_PIPE \<Rightarrow> piperead (f_pipe x) addr n
       | FD_DEVICE \<Rightarrow>
           bind (gets devsws) (\<lambda>dv.
             case Option.bind (dev_index (f_major x)) (\<lambda>k. dev_read (dv k)) of
               None \<Rightarrow> ret (- 1)
             | Some fn \<Rightarrow> dev_call fn addr n)
       | FD_INODE \<Rightarrow>
           (case f_ip x of None \<Rightarrow> panic ''ilock'' | Some i \<Rightarrow>
             bind (ilock (Some i)) (\<lambda>_.
             bind (readi i (UserDst addr) (f_off x) (of_int n)) (\<lambda>(r, bs).
             bind (only_if (r > 0) (set_file f (\<lambda>x. x\<lparr>f_off := f_off x + of_int r\<rparr>))) (\<lambda>_.
             bind (iunlock (Some i)) (\<lambda>_. ret r)))))
       | FD_NONE \<Rightarrow> panic ''fileread'')"

text \<open>The loop of \<open>filewrite\<close> on an inode: at most three blocks in a transaction.\<close>

abbreviation (input) FILEMAX :: int where "FILEMAX \<equiv> 3072"

function filewrite_loop :: "nat \<Rightarrow> nat \<Rightarrow> u64 \<Rightarrow> int \<Rightarrow> int \<Rightarrow> ('z file_state_scheme, int) kern" where
  "filewrite_loop f ip addr n i =
     (if i < n then
        let n1 = min (n - i) FILEMAX in
        bind begin_op (\<lambda>_.
        bind (ilock (Some ip)) (\<lambda>_.
        bind (get_file f f_off) (\<lambda>off.
        bind (writei ip (UserSrc (addr + of_int i)) off (of_int n1)) (\<lambda>r.
        bind (only_if (r > 0) (set_file f (\<lambda>x. x\<lparr>f_off := f_off x + of_int r\<rparr>))) (\<lambda>_.
        bind (iunlock (Some ip)) (\<lambda>_.
        bind end_op (\<lambda>_.
          if r \<noteq> n1 then ret i else filewrite_loop f ip addr n (i + n1))))))))
      else ret i)"
  by pat_completeness auto
termination
  by (relation "measure (\<lambda>(f, ip, addr, n, i). nat (n - i))") auto

declare filewrite_loop.simps [simp del]

definition filewrite :: "nat \<Rightarrow> u64 \<Rightarrow> int \<Rightarrow> ('z file_state_scheme, int) kern" where
  "filewrite f addr n =
     bind (get_file f id) (\<lambda>x.
       if \<not> f_writable x then ret (- 1)
       else case f_type x of
         FD_PIPE \<Rightarrow> pipewrite (f_pipe x) addr n
       | FD_DEVICE \<Rightarrow>
           bind (gets devsws) (\<lambda>dv.
             case Option.bind (dev_index (f_major x)) (\<lambda>k. dev_write (dv k)) of
               None \<Rightarrow> ret (- 1)
             | Some fn \<Rightarrow> dev_call fn addr n)
       | FD_INODE \<Rightarrow>
           (case f_ip x of None \<Rightarrow> panic ''ilock'' | Some i \<Rightarrow>
             bind (filewrite_loop f i addr n 0) (\<lambda>k. ret (if k = n then n else - 1)))
       | FD_NONE \<Rightarrow> panic ''filewrite'')"

text \<open>
  \<open>pipealloc\<close> gives the two files, or nothing when it fails. The data of a new pipe are the bytes
  that \<open>kalloc\<close> fills a page with.
\<close>

definition pipealloc_bad :: "nat option \<Rightarrow> nat option \<Rightarrow> ('z file_state_scheme, (nat \<times> nat) option) kern" where
  "pipealloc_bad f0 f1 =
     bind (block [
       (case f0 of None \<Rightarrow> ret () | Some f \<Rightarrow> fileclose f),
       (case f1 of None \<Rightarrow> ret () | Some f \<Rightarrow> fileclose f)]) (\<lambda>_. ret None)"

definition pipealloc :: "('z file_state_scheme, (nat \<times> nat) option) kern" where
  "pipealloc =
     bind filealloc (\<lambda>r0. case r0 of None \<Rightarrow> pipealloc_bad None None | Some f0 \<Rightarrow>
     bind filealloc (\<lambda>r1. case r1 of None \<Rightarrow> pipealloc_bad r0 None | Some f1 \<Rightarrow>
     bind kalloc (\<lambda>pi. if pi = 0 then pipealloc_bad r0 r1 else
     bind (block [
       set_pipe pi (\<lambda>p. p\<lparr>pi_data := replicate PIPESIZE 5, pi_readopen := 1, pi_writeopen := 1, pi_nwrite := 0, pi_nread := 0\<rparr>),
       on_lk (initlock (PipeLock pi) ''pipe''),
       set_file f0 (\<lambda>f. f\<lparr>f_type := FD_PIPE, f_readable := True, f_writable := False, f_pipe := pi\<rparr>),
       set_file f1 (\<lambda>f. f\<lparr>f_type := FD_PIPE, f_readable := False, f_writable := True, f_pipe := pi\<rparr>)])
     (\<lambda>_. ret (Some (f0, f1))))))"

section \<open>Pipes are queues\<close>

text \<open>The bytes in a pipe, oldest first, and the well-formedness of its counters.\<close>

definition pipe_bytes :: "pipe \<Rightarrow> u8 list" where
  "pipe_bytes p = ring_bytes PIPESIZE (pi_data p) (pi_nread p) (pi_nwrite p)"

definition pipe_wf :: "pipe \<Rightarrow> bool" where
  "pipe_wf p \<longleftrightarrow> length (pi_data p) = PIPESIZE \<and> unat (pi_nwrite p - pi_nread p) \<le> PIPESIZE"

interpretation pipe_ring: counter_ring PIPESIZE "0 :: u32"
  by unfold_locales simp_all

interpretation pipe_queue: bounded_queue pipe_wf pipe_bytes PIPESIZE
  "\<lambda>p. pi_nwrite p = pi_nread p + PIPESIZE" "\<lambda>p. pi_nread p = pi_nwrite p" pipe_put pipe_front pipe_advance
proof unfold_locales
  fix p :: pipe and x
  show "pi_nwrite p = pi_nread p + PIPESIZE \<longleftrightarrow> length (pipe_bytes p) = PIPESIZE"
    using pipe_ring.full_iff [of "pi_nwrite p" "pi_nread p"] by (simp add: pipe_bytes_def)
  show "pi_nread p = pi_nwrite p \<longleftrightarrow> pipe_bytes p = []"
    by (simp add: pipe_bytes_def ring_bytes_empty)
  assume w: "pipe_wf p"
  then show "length (pipe_bytes p) \<le> PIPESIZE" by (simp add: pipe_bytes_def pipe_wf_def)
  {
    assume "pi_nwrite p \<noteq> pi_nread p + PIPESIZE"
    then have "unat (pi_nwrite p - pi_nread p) < PIPESIZE"
      using w pipe_ring.full_iff [of "pi_nwrite p" "pi_nread p"] by (simp add: pipe_wf_def)
    with pipe_ring.put_bytes [of "pi_nwrite p" "pi_nread p" "pi_data p"] w
    show "pipe_wf (pipe_put x p) \<and> pipe_bytes (pipe_put x p) = pipe_bytes p @ [x]"
      by (simp add: pipe_wf_def pipe_bytes_def pipe_put_def)
  next
    assume "pi_nread p \<noteq> pi_nwrite p"
    with pipe_ring.get_bytes(1) [of "pi_nread p" "pi_nwrite p" "pi_data p"]
      pipe_ring.get_bytes(2) [of "pi_nread p" "pi_nwrite p"] w
    show "pipe_wf (pipe_advance p) \<and> pipe_bytes p = pipe_front p # pipe_bytes (pipe_advance p)"
      by (auto simp: pipe_wf_def pipe_bytes_def pipe_advance_def pipe_front_def)
  }
qed

lemma pipe_put_open [simp]: "pi_readopen (pipe_put x p) = pi_readopen p" "pi_writeopen (pipe_put x p) = pi_writeopen p"
  by (simp_all add: pipe_put_def)

lemma pipe_advance_open [simp]: "pi_readopen (pipe_advance p) = pi_readopen p" "pi_writeopen (pipe_advance p) = pi_writeopen p"
  by (simp_all add: pipe_advance_def)

lemma set_pipe_run [kern_simps, simp]: "set_pipe pi g s = Ok () (s\<lparr>pipes := (pipes s)(pi := g (pipes s pi))\<rparr>)"
  by (simp add: set_pipe_def)

lemma get_pipe_run [kern_simps, simp]: "get_pipe pi g s = Ok (g (pipes s pi)) s"
  by (simp add: get_pipe_def)

lemma copyin_byte:
  assumes "pt_wf (pmem s) root" "user_bytes (pmem s) root va [x]"
  shows "copyin root va 1 s = Ok (0, [x]) s"
proof -
  obtain r bs where c: "copyin root va 1 s = Ok (r, bs) s"
      "r = 0 \<and> length bs = 1 \<and> user_bytes (pmem s) root va bs \<or> r = - 1 \<and> uvirt (pmem s) root va = None"
    using copyin_ok [OF assms(1), of va 1] by auto
  moreover have "\<exists>y. uvirt (pmem s) root va = Some y \<and> pmem s y = x" using assms(2) by (simp add: user_bytes_def)
  ultimately show ?thesis by (cases bs) (auto simp: user_bytes_def)
qed

text \<open>In \<open>pipewrite\<close> and \<open>piperead\<close> the pipe's lock is held: \<open>in_pipe pi s\<close> is \<open>s\<close> inside it.\<close>

definition in_pipe :: "u64 \<Rightarrow> 'z kbase_scheme \<Rightarrow> 'z kbase_scheme" where
  "in_pipe pi s = s\<lparr>lk := acquired (PipeLock pi) (lk s)\<rparr>"

definition pipe_sleeps :: "u64 \<Rightarrow> nat \<Rightarrow> chan \<Rightarrow> 'z file_state_scheme \<Rightarrow> 'z file_state_scheme" where
  "pipe_sleeps pi p c s = s\<lparr>lk := handover p (PipeLock pi) (acquired (PipeLock pi) (lk s)),
     procs := (procs s)(p := (procs s p)\<lparr>p_chan := Some c, p_state := SLEEPING\<rparr>)\<rparr>"

lemma sleep_in_pipe:
  assumes "runs_as p s"
  shows "sleep c (PipeLock pi) (in_pipe pi s) = Sleeps (Some c) (pipe_sleeps pi p c s)"
  using sleep_inside [OF assms, of "PipeLock pi" c] by (simp add: in_pipe_def pipe_sleeps_def)

lemma user_bytes_Cons:
  assumes "user_bytes m root va (x # xs)"
  shows "user_bytes m root va [x]" "user_bytes m root (va + 1) xs"
  using assms unfolding user_bytes_def
  by (auto simp: All_less_Suc2 add.assoc)
lemma wakeup_in_pipe:
  assumes "runs_as p s"
  shows "wakeup c (in_pipe pi s) = Ok () (in_pipe pi (s\<lparr>procs := wake_all c (Some p) (procs s)\<rparr>))"
  using runs_as_acquired [OF assms, of "PipeLock pi"] by (simp add: in_pipe_def wakeup_run)

lemma release_in_pipe:
  assumes "runs_as p s"
  shows "on_lk (release (PipeLock pi)) (in_pipe pi s) = Ok () s"
  using runs_as_acquired [OF assms, of "PipeLock pi"] by (simp add: in_pipe_def on_lk_def)

lemma killed_in_pipe:
  assumes "runs_as p s"
  shows "killed q (in_pipe pi s) = Ok (p_killed (procs s q)) (in_pipe pi s)"
  using runs_as_acquired [OF assms, of "PipeLock pi"] by (simp add: in_pipe_def killed_run)

lemma runs_as_frame [simp]:
  "runs_as p (s\<lparr>pipes := q\<rparr>) = runs_as p s" "runs_as p (s\<lparr>procs := ps\<rparr>) = runs_as p s"
  by (simp_all add: runs_as_def)

lemma in_pipe_sel [simp]:
  "pipes (in_pipe pi s) = pipes s" "procs (in_pipe pi s) = procs s" "pmem (in_pipe pi s) = pmem s"
  "(in_pipe pi s)\<lparr>pipes := q\<rparr> = in_pipe pi (s\<lparr>pipes := q\<rparr>)"
  by (simp_all add: in_pipe_def)

lemmas in_pipe_runs = wakeup_in_pipe release_in_pipe killed_in_pipe sleep_in_pipe

text \<open>The loop of \<open>pipewrite\<close>: it returns when the bytes fit, otherwise it fills the pipe and sleeps.\<close>

lemma pipewrite_loop_ok:
  assumes "runs_as p s" "pipe_wf (pipes s pi)" "pi_readopen (pipes s pi) \<noteq> 0" "p_killed (procs s p) = 0"
    "pt_wf (pmem s) (p_pagetable (procs s p))" "user_bytes (pmem s) (p_pagetable (procs s p)) (addr + of_int i) xs"
    and free: "free = PIPESIZE - length (pipe_bytes (pipes s pi))"
  shows "pipewrite_loop (length xs) pi p addr i (in_pipe pi s) =
    (let t = s\<lparr>pipes := (pipes s)(pi := fold pipe_put (take free xs) (pipes s pi)),
       procs := wake_all (ChanPipeRead pi) (Some p) (procs s)\<rparr>
     in if length xs \<le> free then Ok (i + int (length xs)) t else Sleeps (Some (ChanPipeWrite pi)) (pipe_sleeps pi p (ChanPipeWrite pi) t))"
  using assms
proof (induction xs arbitrary: s i free)
  case Nil
  then show ?case by (simp add: pipewrite_done_def bind_run in_pipe_runs)
next
  case (Cons x xs)
  note k = killed_in_pipe [OF Cons.prems(1)]
  show ?case
  proof (cases "pi_nwrite (pipes s pi) = pi_nread (pipes s pi) + PIPESIZE")
    case True
    then have "free = 0" using pipe_queue.full [OF Cons.prems(2)] Cons.prems(7) by simp
    with True Cons.prems k show ?thesis
      by (simp add: bind_run block_run in_pipe_runs)
  next
    case False
    let ?p = "pipe_put x (pipes s pi)"
    let ?s = "s\<lparr>pipes := (pipes s)(pi := ?p)\<rparr>"
    have q: "pipe_wf ?p" "pipe_bytes ?p = pipe_bytes (pipes s pi) @ [x]"
      using pipe_queue.put [OF Cons.prems(2) False] by simp_all
    have r: "free = Suc (free - 1)"
      using pipe_queue.full [OF Cons.prems(2)] pipe_queue.cap [OF Cons.prems(2)] False Cons.prems(7) by linarith
    have c: "copyin (p_pagetable (procs s p)) (addr + of_int i) 1 (in_pipe pi s) = Ok (0, [x]) (in_pipe pi s)"
      using user_bytes_Cons(1) [OF Cons.prems(6)] Cons.prems(5) by (intro copyin_byte) simp_all
    have "addr + of_int i + 1 = addr + of_int (i + 1)" by simp
    with Cons.IH [of ?s "i + 1" "free - 1"] Cons.prems q user_bytes_Cons(2) [OF Cons.prems(6)]
    have "pipewrite_loop (length xs) pi p addr (i + 1) (in_pipe pi ?s) =
      (let t = ?s\<lparr>pipes := (pipes ?s)(pi := fold pipe_put (take (free - 1) xs) (pipes ?s pi)),
         procs := wake_all (ChanPipeRead pi) (Some p) (procs ?s)\<rparr>
       in if length xs \<le> free - 1 then Ok (i + 1 + int (length xs)) t
          else Sleeps (Some (ChanPipeWrite pi)) (pipe_sleeps pi p (ChanPipeWrite pi) t))"
      by (simp add: fun_upd_def)
    moreover have "take free (x # xs) = x # take (free - 1) xs" by (subst r) simp
    moreover have "length (x # xs) \<le> free \<longleftrightarrow> length xs \<le> free - 1" by (subst r) simp
    ultimately show ?thesis
      using False Cons.prems k c by (simp add: bind_run Let_def fun_upd_def add.assoc split del: if_split cong: if_cong)
  qed
qed


lemma copyout_byte:
  assumes "user_ok (pmem s) root" "uvirt (pmem s) root va = Some x"
  shows "copyout root va [b] s = Ok 0 (s\<lparr>pmem := (pmem s)(x := b)\<rparr>)"
proof -
  obtain r m where c: "copyout root va [b] s = Ok r (s\<lparr>pmem := m\<rparr>)" "r = 0 \<and> m x = b"
      "\<forall>y. y \<noteq> x \<longrightarrow> m y = pmem s y"
    using copyout_ok [OF assms(1), of "[b]" va] assms(2) by auto
  then have "m = (pmem s)(x := b)" by auto
  with c show ?thesis by simp
qed

lemma in_pipe_pmem [simp]: "(in_pipe pi s)\<lparr>pmem := m\<rparr> = in_pipe pi (s\<lparr>pmem := m\<rparr>)" "runs_as p (s\<lparr>pmem := m\<rparr>) = runs_as p s"
  by (simp_all add: in_pipe_def runs_as_def)

lemma piperead_copy_ok:
  assumes "runs_as p s" "pipe_wf (pipes s pi)" "root = p_pagetable (procs s p)" "user_ok (pmem s) root"
    "\<forall>j < k. uvirt (pmem s) root (addr + of_int i + of_nat j) \<noteq> None"
    and n: "n = min k (length (pipe_bytes (pipes s pi)))"
  shows "\<exists>m. piperead_copy k pi p addr i (in_pipe pi s) =
      Ok (i + int n) (s\<lparr>pipes := (pipes s)(pi := (pipe_advance ^^ n) (pipes s pi)), pmem := m,
        procs := wake_all (ChanPipeWrite pi) (Some p) (procs s)\<rparr>) \<and>
    user_ok m root \<and> user_bytes m root (addr + of_int i) (take n (pipe_bytes (pipes s pi))) \<and>
    (\<forall>y. (\<forall>j < n. uvirt (pmem s) root (addr + of_int i + of_nat j) \<noteq> Some y) \<longrightarrow> m y = pmem s y)"
  using assms
proof (induction k arbitrary: s i n)
  case 0
  then show ?case
    by (intro exI [of _ "pmem s"]) (simp add: piperead_done_def bind_run block_run in_pipe_runs user_bytes_def)
next
  case (Suc k)
  show ?case
  proof (cases "pi_nread (pipes s pi) = pi_nwrite (pipes s pi)")
    case True
    then have "pipe_bytes (pipes s pi) = []" using pipe_queue.empty [OF Suc.prems(2)] by simp
    with True Suc.prems show ?thesis
      by (intro exI [of _ "pmem s"]) (simp add: piperead_done_def bind_run block_run in_pipe_runs user_bytes_def)
  next
    case False
    let ?p = "pipe_advance (pipes s pi)" and ?b = "pipe_front (pipes s pi)"
    note g = pipe_queue.get [OF Suc.prems(2) False]
    obtain x where x: "uvirt (pmem s) root (addr + of_int i) = Some x" using Suc.prems(5) by force
    let ?m = "(pmem s)(x := ?b)"
    let ?s = "s\<lparr>pipes := (pipes s)(pi := ?p), pmem := ?m\<rparr>"
    note c = copyout_byte [of "in_pipe pi (s\<lparr>pipes := (pipes s)(pi := ?p)\<rparr>)", simplified, OF Suc.prems(4) x, of ?b]
    have fr: "user_ok ?m root" "\<And>va. uvirt ?m root va = uvirt (pmem s) root va"
      by (rule user_ok_frame [OF Suc.prems(4)], use x in auto)+
    have a: "addr + of_int (i + 1) + of_nat j = addr + of_int i + of_nat (Suc j)" for j by simp
    let ?n = "n - 1"
    have n0: "0 < n" using g Suc.prems(6) by auto
    have n: "n = Suc ?n" "?n = min k (length (pipe_bytes ?p))" using g Suc.prems(6) by auto
    have u: "\<forall>j<k. uvirt (pmem ?s) root (addr + of_int (i + 1) + of_nat j) \<noteq> None"
      unfolding a using Suc.prems(5) by (simp add: fr(2) del: of_nat_Suc)
    have IH: "\<exists>m. piperead_copy k pi p addr (i + 1) (in_pipe pi ?s) =
        Ok (i + 1 + int ?n) (?s\<lparr>pipes := (pipes ?s)(pi := (pipe_advance ^^ ?n) (pipes ?s pi)), pmem := m,
          procs := wake_all (ChanPipeWrite pi) (Some p) (procs ?s)\<rparr>) \<and>
      user_ok m root \<and> user_bytes m root (addr + of_int (i + 1)) (take ?n (pipe_bytes (pipes ?s pi))) \<and>
      (\<forall>y. (\<forall>j < ?n. uvirt (pmem ?s) root (addr + of_int (i + 1) + of_nat j) \<noteq> Some y) \<longrightarrow> m y = pmem ?s y)"
      by (rule Suc.IH) (use Suc.prems(1,3) g fr(1) u n(2) in \<open>simp_all add: fun_upd_def\<close>)
    then obtain m where m: "piperead_copy k pi p addr (i + 1) (in_pipe pi ?s) =
        Ok (i + 1 + int ?n) (?s\<lparr>pipes := (pipes ?s)(pi := (pipe_advance ^^ ?n) (pipes ?s pi)), pmem := m,
          procs := wake_all (ChanPipeWrite pi) (Some p) (procs ?s)\<rparr>)"
      "user_ok m root" "user_bytes m root (addr + of_int (i + 1)) (take ?n (pipe_bytes (pipes ?s pi)))"
      "\<forall>y. (\<forall>j < ?n. uvirt (pmem ?s) root (addr + of_int (i + 1) + of_nat j) \<noteq> Some y) \<longrightarrow> m y = pmem ?s y"
      by (elim exE conjE) (rule that)
    have len: "?n < 2 ^ 64 - 1" using pipe_queue.cap [OF Suc.prems(2)] Suc.prems(6) by simp
    have far: "uvirt ?m root (addr + of_int (i + 1) + of_nat j) \<noteq> Some x" if "j < ?n" for j
    proof
      assume "uvirt ?m root (addr + of_int (i + 1) + of_nat j) = Some x"
      then have "addr + of_int i + of_nat (Suc j) = addr + of_int i"
        using x Suc.prems(4) unfolding user_ok_def fr(2) a by blast
      then have "unat (of_nat (Suc j) :: u64) = 0" by (simp del: of_nat_Suc)
      then have "Suc j mod 2 ^ 64 = 0" by (simp add: unat_of_nat del: of_nat_Suc)
      with that len show False by simp
    qed
    have mx: "m x = ?b" using m(4) far by simp
    have my: "m y = pmem s y" if "\<forall>j < n. uvirt (pmem s) root (addr + of_int i + of_nat j) \<noteq> Some y" for y
    proof -
      have "\<forall>j < ?n. uvirt (pmem s) root (addr + of_int i + of_nat (Suc j)) \<noteq> Some y"
        using that less_diff_conv by (simp del: of_nat_Suc)
      moreover have "y \<noteq> x" using that x n0 by force
      ultimately
      show ?thesis using m(4) unfolding a fr(2) by (simp add: fr(2) del: of_nat_Suc)
    qed
    have um: "uvirt m root va = uvirt (pmem s) root va" for va
      by (rule user_ok_frame(2) [OF Suc.prems(4)]) (use my in blast)
    have b: "user_bytes m root (addr + of_int i) [?b]" using x mx by (simp add: user_bytes_def um)
    have tk: "take n (pipe_bytes (pipes s pi)) = ?b # take ?n (pipe_bytes ?p)"
      using g by (subst n(1)) simp
    have ub: "user_bytes m root (addr + of_int i) (take n (pipe_bytes (pipes s pi)))"
      unfolding tk using user_bytes_append [OF b] m(3) by (simp add: add.assoc)
    have adv: "(pipe_advance ^^ n) (pipes s pi) = (pipe_advance ^^ ?n) ?p"
      by (subst n(1)) (simp add: funpow_swap1)
    have "piperead_copy (Suc k) pi p addr i (in_pipe pi s) =
      Ok (i + int n) (s\<lparr>pipes := (pipes s)(pi := (pipe_advance ^^ n) (pipes s pi)), pmem := m,
        procs := wake_all (ChanPipeWrite pi) (Some p) (procs s)\<rparr>)"
      using False c m(1) Suc.prems(3) n(1) adv by (simp add: bind_run)
    with m(2) ub my show ?thesis by blast
  qed
qed


section \<open>Properties of pipes\<close>

text \<open>
  C24: A pipe takes bytes in order, with counters that wrap around at 32 bits. \<open>pipewrite\<close> to a
  pipe whose read end is open appends the user's bytes behind those in the pipe and wakes the
  readers. When they fit it returns their number; otherwise it fills the pipe and sleeps until
  a reader makes room.
\<close>

theorem pipewrite_appends:
  assumes "runs_as p s" "pipe_wf (pipes s pi)" "pi_readopen (pipes s pi) \<noteq> 0" "p_killed (procs s p) = 0"
    "pt_wf (pmem s) (p_pagetable (procs s p))" "user_bytes (pmem s) (p_pagetable (procs s p)) addr xs"
  shows "if length (pipe_bytes (pipes s pi)) + length xs \<le> PIPESIZE
    then \<exists>q. pipewrite pi addr (int (length xs)) s =
        Ok (int (length xs)) (s\<lparr>pipes := (pipes s)(pi := q), procs := wake_all (ChanPipeRead pi) (Some p) (procs s)\<rparr>) \<and>
      pipe_wf q \<and> pipe_bytes q = pipe_bytes (pipes s pi) @ xs
    else \<exists>t. pipewrite pi addr (int (length xs)) s = Sleeps (Some (ChanPipeWrite pi)) t \<and>
      pipe_wf (pipes t pi) \<and> pipe_bytes (pipes t pi) = take PIPESIZE (pipe_bytes (pipes s pi) @ xs) \<and>
      (\<forall>q. q \<noteq> pi \<longrightarrow> pipes t q = pipes s q) \<and> p_state (procs t p) = SLEEPING \<and>
      (\<forall>i. i \<noteq> p \<longrightarrow> procs t i = wake_all (ChanPipeRead pi) (Some p) (procs s) i)"
proof -
  let ?q = "pipes s pi"
  define free where "free = PIPESIZE - length (pipe_bytes ?q)"
  have cap: "length (pipe_bytes ?q) \<le> PIPESIZE" by (rule pipe_queue.cap [OF assms(2)])
  have fit: "length (pipe_bytes ?q) + length xs \<le> PIPESIZE \<longleftrightarrow> length xs \<le> free" using cap by (simp add: free_def) linarith
  let ?q' = "fold pipe_put (take free xs) ?q"
  have q: "pipe_wf ?q'" "pipe_bytes ?q' = pipe_bytes ?q @ take free xs"
    using pipe_queue.puts [OF assms(2), of "take free xs"] cap by (simp_all add: free_def)
  have "user_bytes (pmem s) (p_pagetable (procs s p)) (addr + of_int 0) xs" using assms(6) by simp
  from pipewrite_loop_ok [OF assms(1-5) this free_def, unfolded add_0] runs_as_acquired(1) [OF assms(1), of "PipeLock pi"] runs_as_locks [OF assms(1)]
  have "pipewrite pi addr (int (length xs)) s =
    (let t = s\<lparr>pipes := (pipes s)(pi := ?q'), procs := wake_all (ChanPipeRead pi) (Some p) (procs s)\<rparr>
     in if length xs \<le> free then Ok (int (length xs)) t else Sleeps (Some (ChanPipeWrite pi)) (pipe_sleeps pi p (ChanPipeWrite pi) t))"
    by (simp add: pipewrite_def bind_run curproc_as in_pipe_def)
  then show ?thesis unfolding fit using q cap by (auto simp: Let_def pipe_sleeps_def free_def)
qed

text \<open>
  C25: A pipe gives bytes out in the order they came. \<open>piperead\<close> copies as many of the oldest
  bytes as are there, up to the number asked for, to the user's buffer, removes them from the
  pipe, changes no other memory and wakes the writers; on an empty pipe it sleeps while the write
  end is open and returns 0 (end of file) when it is closed.
\<close>

theorem piperead_takes:
  assumes "runs_as p s" "pipe_wf (pipes s pi)" "p_killed (procs s p) = 0" "root = p_pagetable (procs s p)"
    "user_ok (pmem s) root" "\<forall>j < n. uvirt (pmem s) root (addr + of_nat j) \<noteq> None"
    and k: "k = min n (length (pipe_bytes (pipes s pi)))"
  shows "if pipe_bytes (pipes s pi) = [] \<and> pi_writeopen (pipes s pi) \<noteq> 0
    then \<exists>t. piperead pi addr (int n) s = Sleeps (Some (ChanPipeRead pi)) t \<and> pipes t = pipes s \<and> pmem t = pmem s \<and>
      p_state (procs t p) = SLEEPING
    else \<exists>q m. piperead pi addr (int n) s = Ok (int k) (s\<lparr>pipes := (pipes s)(pi := q), pmem := m,
        procs := wake_all (ChanPipeWrite pi) (Some p) (procs s)\<rparr>) \<and>
      pipe_wf q \<and> pipe_bytes (pipes s pi) = take k (pipe_bytes (pipes s pi)) @ pipe_bytes q \<and>
      user_bytes m root addr (take k (pipe_bytes (pipes s pi))) \<and>
      (\<forall>y. (\<forall>j < k. uvirt (pmem s) root (addr + of_nat j) \<noteq> Some y) \<longrightarrow> m y = pmem s y)"
proof -
  let ?q = "pipes s pi"
  have e: "pi_nread ?q = pi_nwrite ?q \<longleftrightarrow> pipe_bytes ?q = []" by (rule pipe_queue.empty [OF assms(2)])
  have run: "piperead pi addr (int n) s = piperead_wait pi p addr (int n) (in_pipe pi s)"
    using runs_as_acquired(1) [OF assms(1), of "PipeLock pi"] runs_as_locks [OF assms(1)]
    by (simp add: piperead_def bind_run curproc_as in_pipe_def)
  show ?thesis
  proof (cases "pipe_bytes ?q = [] \<and> pi_writeopen ?q \<noteq> 0")
    case True
    then show ?thesis
      using run e assms(3) killed_in_pipe [OF assms(1)] sleep_in_pipe [OF assms(1)]
      by (simp add: piperead_wait_def bind_run pipe_sleeps_def)
  next
    case False
    have u: "\<forall>j < n. uvirt (pmem s) root (addr + of_int 0 + of_nat j) \<noteq> None" using assms(6) by simp
    have q: "pipe_wf ((pipe_advance ^^ k) ?q)" "pipe_bytes ((pipe_advance ^^ k) ?q) = drop k (pipe_bytes ?q)"
      using pipe_queue.advances [OF assms(2), of k] k by simp_all
    have w: "piperead pi addr (int n) s = piperead_copy n pi p addr 0 (in_pipe pi s)"
      using run False e by (auto simp: piperead_wait_def bind_run)
    from piperead_copy_ok [OF assms(1,2,4,5) u k] obtain m where
      "piperead pi addr (int n) s = Ok (int k) (s\<lparr>pipes := (pipes s)(pi := (pipe_advance ^^ k) ?q), pmem := m,
        procs := wake_all (ChanPipeWrite pi) (Some p) (procs s)\<rparr>)"
      "user_bytes m root addr (take k (pipe_bytes ?q))"
      "\<forall>y. (\<forall>j < k. uvirt (pmem s) root (addr + of_nat j) \<noteq> Some y) \<longrightarrow> m y = pmem s y"
      unfolding w by auto
    then show ?thesis
      using q False by (intro if_not_P [THEN iffD2] exI [of _ "(pipe_advance ^^ k) ?q"] exI [of _ m]) simp_all
  qed
qed


text \<open>
  A process with one page of user memory and a pipe whose counters are about to wrap around.
\<close>

definition wrapping_pipe :: pipe where
  "wrapping_pipe = \<lparr>pi_data = replicate PIPESIZE 0, pi_nread = - 1, pi_nwrite = - 1, pi_readopen = 1, pi_writeopen = 1\<rparr>"

definition pipe_example :: "mem \<Rightarrow> pipe \<Rightarrow> file_state" where
  "pipe_example m q = fs_state.extend
     (log_state.extend (example_log fresh_bufs 0 []) \<lparr>sb = example_sb, itable = (\<lambda>_. undefined)\<rparr>)
     \<lparr>ftable = (\<lambda>_. undefined), pipes = (\<lambda>_. q)\<rparr>
     \<lparr>pmem := m, procs := (\<lambda>_. idle_proc\<lparr>p_state := RUNNING, p_pagetable := 0x87FFD000\<rparr>)\<rparr>"

lemma pipe_example_sel [simp]:
  "runs_as 0 (pipe_example m q)" "pipes (pipe_example m q) = (\<lambda>_. q)" "pmem (pipe_example m q) = m"
  "p_killed (procs (pipe_example m q) i) = 0" "p_pagetable (procs (pipe_example m q) i) = 0x87FFD000"
  using example_log_sel(4) [of fresh_bufs 0 "[]"]
  by (simp_all add: pipe_example_def fs_state.defs log_state.defs runs_as_def idle_proc_def)

lemma wrapping_pipe_wf [simp]: "pipe_wf wrapping_pipe" "pipe_bytes wrapping_pipe = []" "pi_readopen wrapping_pipe \<noteq> 0"
  by (simp_all add: wrapping_pipe_def pipe_wf_def pipe_bytes_def ring_bytes_empty)

theorem pipewrite_appends_witness:
  "\<exists>s t xs. pipewrite 0x80200000 16 2 (s :: file_state) = Ok 2 t \<and> length xs = 2 \<and>
     pipe_bytes (pipes s 0x80200000) = [] \<and> pipe_bytes (pipes t 0x80200000) = xs \<and> pi_nwrite (pipes s 0x80200000) = - 1"
proof -
  obtain k :: kmem_state where k: "user_ok (pmem k) 0x87FFD000"
      "\<forall>va. uvirt (pmem k) 0x87FFD000 va = (if unat va < 4096 then Some (0x80100000 + va) else None)"
    using one_user_page by blast
  let ?m = "pmem k" and ?s = "pipe_example (pmem k) wrapping_pipe"
  let ?xs = "[?m (0x80100000 + 16), ?m (0x80100000 + 17)]"
  have "user_bytes ?m 0x87FFD000 16 ?xs" using k(2) by (simp add: user_bytes_def All_less_Suc)
  then have "user_bytes (pmem ?s) (p_pagetable (procs ?s 0)) 16 ?xs" "pt_wf (pmem ?s) (p_pagetable (procs ?s 0))"
    using k(1) by (simp_all add: user_ok_def)
  with pipewrite_appends [of 0 ?s "0x80200000" 16 ?xs] obtain q ps where
    "pipewrite 0x80200000 16 2 ?s = Ok 2 (?s\<lparr>pipes := (pipes ?s)(0x80200000 := q), procs := ps\<rparr>)" "pipe_bytes q = ?xs"
    by auto
  moreover have "pi_nwrite (pipes ?s 0x80200000) = - 1" by (simp add: wrapping_pipe_def)
  ultimately show ?thesis
    by (intro exI [of _ ?s] exI [of _ "?s\<lparr>pipes := (pipes ?s)(0x80200000 := q), procs := ps\<rparr>"] exI [of _ ?xs]) simp
qed

theorem piperead_takes_witness:
  "\<exists>(s :: file_state) t. piperead 0x80200000 16 4 s = Ok 1 t \<and> user_bytes (pmem t) 0x87FFD000 16 [5] \<and>
     pipe_bytes (pipes t 0x80200000) = []"
proof -
  obtain k :: kmem_state where k: "user_ok (pmem k) 0x87FFD000"
      "\<forall>va. uvirt (pmem k) 0x87FFD000 va = (if unat va < 4096 then Some (0x80100000 + va) else None)"
    using one_user_page by blast
  let ?q = "pipe_put 5 wrapping_pipe"
  let ?s = "pipe_example (pmem k) ?q"
  have q: "pipe_wf ?q" "pipe_bytes ?q = [5]"
    using pipe_queue.put [OF wrapping_pipe_wf(1), of 5] pipe_queue.full [OF wrapping_pipe_wf(1)] by simp_all
  have "unat (16 + of_nat j :: u64) < 4096" if "j < 4" for j
    using that by (simp add: unat_word_ariths unat_of_nat)
  with piperead_takes [of 0 ?s "0x80200000" "0x87FFD000" 4 16 1] q k obtain q' m ps where
    "piperead 0x80200000 16 4 ?s = Ok 1 (?s\<lparr>pipes := (pipes ?s)(0x80200000 := q'), pmem := m, procs := ps\<rparr>)"
    "user_bytes m 0x87FFD000 16 [5]" "pipe_bytes q' = []" by auto
  then show ?thesis
    by (intro exI [of _ ?s] exI [of _ "?s\<lparr>pipes := (pipes ?s)(0x80200000 := q'), pmem := m, procs := ps\<rparr>"]) simp
qed

end
