(* ===== verification/Xv6_Exec.thy ===== *)
theory Xv6_Exec
  imports Xv6_File
begin

unbundle bit_operations_syntax

text \<open>
  Making and replacing processes: \<open>userinit\<close>, \<open>fork\<close> and \<open>exit\<close> of \<^verbatim>\<open>kernel/proc.c\<close>, which need the
  file system, and \<^verbatim>\<open>kernel/exec.c\<close> with the formats of \<^verbatim>\<open>kernel/elf.h\<close>.
\<close>

section \<open>Process names and trap frames\<close>

text \<open>
  \<^verbatim>\<open>safestrcpy(s, t, n)\<close> on arrays in kernel structures: \<open>t\<close> is a string, \<open>s\<close> the array. The loop
  stops after the terminator or at \<open>n - 1\<close> bytes, and one more zero follows.
\<close>

definition strcpy_array :: "nat \<Rightarrow> u8 list \<Rightarrow> u8 list \<Rightarrow> u8 list" where
  "strcpy_array n t s = (let c = take (n - 1) (takeWhile (\<lambda>x. x \<noteq> 0) t @ [0]) @ [0] in c @ drop (length c) s)"

definition get_tf :: "nat \<Rightarrow> (trapframe \<Rightarrow> 'a) \<Rightarrow> ('z proc_state_scheme, 'a) kern" where
  "get_tf p f = gets (\<lambda>s. f (tframes s (p_trapframe (procs s p))))"

definition set_tf :: "nat \<Rightarrow> (trapframe \<Rightarrow> trapframe) \<Rightarrow> ('z proc_state_scheme, unit) kern" where
  "set_tf p f = modify (\<lambda>s. let a = p_trapframe (procs s p) in s\<lparr>tframes := (tframes s)(a := f (tframes s a))\<rparr>)"

definition initcode :: "u8 list" where
  "initcode = [
     0x17, 0x05, 0x00, 0x00, 0x13, 0x05, 0x45, 0x02,
     0x97, 0x05, 0x00, 0x00, 0x93, 0x85, 0x35, 0x02,
     0x93, 0x08, 0x70, 0x00, 0x73, 0x00, 0x00, 0x00,
     0x93, 0x08, 0x20, 0x00, 0x73, 0x00, 0x00, 0x00,
     0xef, 0xf0, 0x9f, 0xff, 0x2f, 0x69, 0x6e, 0x69,
     0x74, 0x00, 0x00, 0x24, 0x00, 0x00, 0x00, 0x00,
     0x00, 0x00, 0x00, 0x00]"

definition userinit :: "('z file_state_scheme, unit) kern" where
  "userinit =
     bind allocproc (\<lambda>r. case r of None \<Rightarrow> undefined_behaviour | Some p \<Rightarrow>
     bind (modify (\<lambda>s. s\<lparr>initproc := Some p\<rparr>)) (\<lambda>_.
     bind (get_proc p p_pagetable) (\<lambda>pt.
     bind (uvmfirst pt initcode) (\<lambda>_.
     bind (set_proc p (\<lambda>q. q\<lparr>p_sz := PGSIZE\<rparr>)) (\<lambda>_.
     bind (set_tf p (\<lambda>t. t\<lparr>tf_epc := 0, tf_sp := PGSIZE\<rparr>)) (\<lambda>_.
     bind (set_proc p (\<lambda>q. q\<lparr>p_name := strcpy_array 16 (bytes ''initcode'') (p_name q)\<rparr>)) (\<lambda>_.
     bind (namei (bytes ''/'')) (\<lambda>cwd. block [
       set_proc p (\<lambda>q. q\<lparr>p_cwd := cwd\<rparr>),
       set_proc p (\<lambda>q. q\<lparr>p_state := RUNNABLE\<rparr>),
       on_lk (release (ProcLock p))]))))))))"

section \<open>Fork and exit\<close>

definition fork_file :: "nat \<Rightarrow> nat \<Rightarrow> nat \<Rightarrow> ('z file_state_scheme, unit) kern" where
  "fork_file p np i =
     bind (get_proc p (\<lambda>q. p_ofile q ! i)) (\<lambda>f. case f of
       None \<Rightarrow> ret ()
     | Some f \<Rightarrow> bind (filedup f) (\<lambda>g. set_proc np (\<lambda>q. q\<lparr>p_ofile := (p_ofile q)[i := Some g]\<rparr>)))"

definition fork :: "('z file_state_scheme, int) kern" where
  "fork =
     bind curproc (\<lambda>p.
     bind allocproc (\<lambda>r. case r of None \<Rightarrow> ret (- 1) | Some np \<Rightarrow>
     bind (get_proc p id) (\<lambda>pp.
     bind (get_proc np p_pagetable) (\<lambda>npt.
     bind (uvmcopy (p_pagetable pp) npt (p_sz pp)) (\<lambda>c.
       if c < 0 then
         bind (block [freeproc np, on_lk (release (ProcLock np))]) (\<lambda>_. ret (- 1))
       else
         bind (set_proc np (\<lambda>q. q\<lparr>p_sz := p_sz pp\<rparr>)) (\<lambda>_.
         bind (get_tf p id) (\<lambda>tf.
         bind (set_tf np (\<lambda>_. tf)) (\<lambda>_.
         bind (set_tf np (\<lambda>t. t\<lparr>tf_a0 := 0\<rparr>)) (\<lambda>_.
         bind (block (map (fork_file p np) [0..<NOFILE])) (\<lambda>_.
         bind (get_proc p p_cwd) (\<lambda>cwd. case cwd of None \<Rightarrow> undefined_behaviour | Some d \<Rightarrow>
         bind (idup d) (\<lambda>d.
         bind (set_proc np (\<lambda>q. q\<lparr>p_cwd := Some d\<rparr>)) (\<lambda>_.
         bind (get_proc p p_name) (\<lambda>nm.
         bind (set_proc np (\<lambda>q. q\<lparr>p_name := strcpy_array 16 nm (p_name q)\<rparr>)) (\<lambda>_.
         bind (get_proc np p_pid) (\<lambda>pid.
         bind (block [
           on_lk (release (ProcLock np)),
           on_lk (acquire WaitLock),
           set_proc np (\<lambda>q. q\<lparr>p_parent := Some p\<rparr>),
           on_lk (release WaitLock),
           on_lk (acquire (ProcLock np)),
           set_proc np (\<lambda>q. q\<lparr>p_state := RUNNABLE\<rparr>),
           on_lk (release (ProcLock np))]) (\<lambda>_. ret pid)))))))))))))))))"

definition exit_file :: "nat \<Rightarrow> nat \<Rightarrow> ('z file_state_scheme, unit) kern" where
  "exit_file p fd =
     bind (get_proc p (\<lambda>q. p_ofile q ! fd)) (\<lambda>f. case f of
       None \<Rightarrow> ret ()
     | Some f \<Rightarrow> block [
         fileclose f,
         set_proc p (\<lambda>q. q\<lparr>p_ofile := (p_ofile q)[fd := None]\<rparr>)])"

definition exit :: "int \<Rightarrow> ('z file_state_scheme, unit) kern" where
  "exit status =
     bind curproc (\<lambda>p.
     bind (gets initproc) (\<lambda>ip. block [
       panic_if (ip = Some p) ''init exiting'',
       block (map (exit_file p) [0..<NOFILE]),
       begin_op,
       bind (get_proc p p_cwd) (\<lambda>cwd. case cwd of None \<Rightarrow> undefined_behaviour | Some d \<Rightarrow> iput d),
       end_op,
       set_proc p (\<lambda>q. q\<lparr>p_cwd := None\<rparr>),
       on_lk (acquire WaitLock),
       reparent p,
       bind (get_proc p p_parent) (\<lambda>pp. case pp of None \<Rightarrow> ret () | Some k \<Rightarrow> wakeup (ChanProc k)),
       exit_zombie p status]))"

section \<open>ELF files\<close>

definition get64 :: "u8 list \<Rightarrow> nat \<Rightarrow> u64" where
  "get64 d i = le_word (slice d i 8)"

abbreviation (input) ELF_MAGIC :: u32 where "ELF_MAGIC \<equiv> 0x464C457F"
abbreviation (input) ELF_PROG_LOAD :: u32 where "ELF_PROG_LOAD \<equiv> 1"
abbreviation (input) ELFHDR :: nat where "ELFHDR \<equiv> 64"
abbreviation (input) PROGHDR :: nat where "PROGHDR \<equiv> 56"

record elfhdr =
  e_magic :: u32
  e_entry :: u64
  e_phoff :: u64
  e_phnum :: u16

definition get_elfhdr :: "u8 list \<Rightarrow> elfhdr" where
  "get_elfhdr d = \<lparr>e_magic = get32 d 0, e_entry = get64 d 24, e_phoff = get64 d 32, e_phnum = get16 d 56\<rparr>"

record proghdr =
  ph_type :: u32
  ph_flags :: u32
  ph_off :: u64
  ph_vaddr :: u64
  ph_paddr :: u64
  ph_filesz :: u64
  ph_memsz :: u64
  ph_align :: u64

definition get_proghdr :: "u8 list \<Rightarrow> proghdr" where
  "get_proghdr d = \<lparr>ph_type = get32 d 0, ph_flags = get32 d 4, ph_off = get64 d 8, ph_vaddr = get64 d 16,
     ph_paddr = get64 d 24, ph_filesz = get64 d 32, ph_memsz = get64 d 40, ph_align = get64 d 48\<rparr>"

definition flags2perm :: "u32 \<Rightarrow> u64" where
  "flags2perm flags = (if flags AND 1 \<noteq> 0 then PTE_X else 0) OR (if flags AND 2 \<noteq> 0 then PTE_W else 0)"

text \<open>
  The loop of \<open>loadseg\<close>; \<open>i\<close> stays below \<open>sz\<close>, and its wrap-around for segments within a page of
  4 GB, which memory cannot hold, is not modelled.
\<close>

function loadseg_loop :: "u64 \<Rightarrow> u64 \<Rightarrow> nat \<Rightarrow> u32 \<Rightarrow> nat \<Rightarrow> nat \<Rightarrow> ('z fs_state_scheme, int) kern" where
  "loadseg_loop pagetable va ip offset sz i =
     (if i < sz then
        bind (walkaddr pagetable (va + of_nat i)) (\<lambda>pa.
        bind (panic_if (pa = 0) ''loadseg: address should exist'') (\<lambda>_.
        let n = min (sz - i) PGSIZE in
        bind (readi ip (KernDst pa) (offset + of_nat i) (of_nat n)) (\<lambda>(r, bs).
          if r \<noteq> int n then ret (- 1)
          else loadseg_loop pagetable va ip offset sz (i + PGSIZE))))
      else ret 0)"
  by pat_completeness auto
termination
  by (relation "measure (\<lambda>(pagetable, va, ip, offset, sz, i). sz - i)") auto

declare loadseg_loop.simps [simp del]

definition loadseg :: "u64 \<Rightarrow> u64 \<Rightarrow> nat \<Rightarrow> u32 \<Rightarrow> u32 \<Rightarrow> ('z fs_state_scheme, int) kern" where
  "loadseg pagetable va ip offset sz = loadseg_loop pagetable va ip offset (unat sz) 0"

section \<open>Exec\<close>

text \<open>
  The loop of \<open>exec\<close> over the program headers: whether it got to the end, and \<^verbatim>\<open>sz\<close>.
\<close>

primrec exec_load :: "nat \<Rightarrow> nat \<Rightarrow> u64 \<Rightarrow> u32 \<Rightarrow> u64 \<Rightarrow> ('z fs_state_scheme, bool \<times> u64) kern" where
  "exec_load 0 ip pagetable off sz = ret (True, sz)"
| "exec_load (Suc k) ip pagetable off sz =
     bind (readi ip LocalDst off (of_nat PROGHDR)) (\<lambda>(r, d).
     let ph = get_proghdr d; next = exec_load k ip pagetable (off + of_nat PROGHDR) in
       if r \<noteq> int PROGHDR then ret (False, sz)
       else if ph_type ph \<noteq> ELF_PROG_LOAD then next sz
       else if ph_memsz ph < ph_filesz ph then ret (False, sz)
       else if ph_vaddr ph + ph_memsz ph < ph_vaddr ph then ret (False, sz)
       else if ph_vaddr ph mod PGSIZE \<noteq> 0 then ret (False, sz)
       else
         bind (uvmalloc pagetable sz (ph_vaddr ph + ph_memsz ph) (flags2perm (ph_flags ph))) (\<lambda>sz1.
           if sz1 = 0 then ret (False, sz)
           else
             bind (loadseg pagetable (ph_vaddr ph) ip (ucast (ph_off ph)) (ucast (ph_filesz ph))) (\<lambda>l.
               if l < 0 then ret (False, sz1) else next sz1)))"

text \<open>
  Pushing the argument strings: \<open>argv\<close> are the addresses of the strings in the kernel, \<open>us\<close> the
  entries of \<^verbatim>\<open>ustack\<close> so far. The result is the stack pointer and \<^verbatim>\<open>ustack\<close>.
\<close>

definition align_sp :: "u64 \<Rightarrow> u64" where
  "align_sp sp = sp - sp mod 16"

fun exec_push :: "u64 list \<Rightarrow> u64 \<Rightarrow> u64 \<Rightarrow> u64 \<Rightarrow> u64 list \<Rightarrow> ('z kmem_state_scheme, (u64 \<times> u64 list) option) kern" where
  "exec_push [] pagetable stackbase sp us = ret (Some (sp, us))"
| "exec_push (a # argv) pagetable stackbase sp us =
     (if length us \<ge> MAXARG then ret None
      else
        bind (gets (\<lambda>s. strlen a (pmem s))) (\<lambda>l. case l of None \<Rightarrow> panic ''loops forever'' | Some len \<Rightarrow>
        let sp' = align_sp (sp - of_nat (len + 1)) in
        if sp' < stackbase then ret None
        else
          bind (gets (\<lambda>s. mread (pmem s) a (len + 1))) (\<lambda>str.
          bind (copyout pagetable sp' str) (\<lambda>r.
            if r < 0 then ret None
            else exec_push argv pagetable stackbase sp' (us @ [sp'])))))"

text \<open>The label \<^verbatim>\<open>bad\<close>; \<^verbatim>\<open>pagetable\<close> and \<^verbatim>\<open>ip\<close> are zero while not set.\<close>

definition exec_bad :: "u64 \<Rightarrow> u64 \<Rightarrow> nat option \<Rightarrow> ('z fs_state_scheme, int) kern" where
  "exec_bad pagetable sz ip =
     bind (block [
       only_if (pagetable \<noteq> 0) (proc_freepagetable pagetable sz),
       (case ip of None \<Rightarrow> ret () | Some i \<Rightarrow> block [iunlockput i, end_op])]) (\<lambda>_. ret (- 1))"

definition last_elem :: "u8 list \<Rightarrow> u8 list" where
  "last_elem path = rev (takeWhile (\<lambda>c. c \<noteq> slash) (rev path))"

text \<open>\<open>exec\<close> after the program is loaded: the stack, the arguments and the switch to the new image.\<close>

definition exec_image :: "nat \<Rightarrow> u8 list \<Rightarrow> u64 list \<Rightarrow> elfhdr \<Rightarrow> u64 \<Rightarrow> u64 \<Rightarrow> ('z fs_state_scheme, int) kern" where
  "exec_image p path argv elf pagetable sz0 =
     bind (get_proc p p_sz) (\<lambda>oldsz.
     let sz = PGROUNDUP sz0 in
     bind (uvmalloc pagetable sz (sz + 2 * PGSIZE) PTE_W) (\<lambda>sz1.
       if sz1 = 0 then exec_bad pagetable sz None
       else
         bind (uvmclear pagetable (sz1 - 2 * PGSIZE)) (\<lambda>_.
         bind (exec_push argv pagetable (sz1 - PGSIZE) sz1 []) (\<lambda>r. case r of
           None \<Rightarrow> exec_bad pagetable sz1 None
         | Some (sp1, us) \<Rightarrow>
             if length us \<ge> MAXARG then undefined_behaviour
             else
               let ustack = us @ [0]; sp = align_sp (sp1 - of_nat (8 * length ustack)) in
               if sp < sz1 - PGSIZE then exec_bad pagetable sz1 None
               else
                 bind (copyout pagetable sp (concat (map (le_bytes 8) ustack))) (\<lambda>c.
                   if c < 0 then exec_bad pagetable sz1 None
                   else
                     bind (get_proc p p_pagetable) (\<lambda>oldpagetable.
                     bind (block [
                       set_tf p (\<lambda>t. t\<lparr>tf_a1 := sp\<rparr>),
                       set_proc p (\<lambda>q. q\<lparr>p_name := strcpy_array 16 (last_elem path) (p_name q)\<rparr>),
                       set_proc p (\<lambda>q. q\<lparr>p_pagetable := pagetable\<rparr>),
                       set_proc p (\<lambda>q. q\<lparr>p_sz := sz1\<rparr>),
                       set_tf p (\<lambda>t. t\<lparr>tf_epc := e_entry elf\<rparr>),
                       set_tf p (\<lambda>t. t\<lparr>tf_sp := sp\<rparr>),
                       proc_freepagetable oldpagetable oldsz]) (\<lambda>_. ret (int (length us)))))))))"

definition exec :: "u8 list \<Rightarrow> u64 list \<Rightarrow> ('z fs_state_scheme, int) kern" where
  "exec path argv =
     bind curproc (\<lambda>p.
     bind begin_op (\<lambda>_.
     bind (namei path) (\<lambda>r. case r of None \<Rightarrow> bind end_op (\<lambda>_. ret (- 1)) | Some ip \<Rightarrow>
     bind (ilock (Some ip)) (\<lambda>_.
     bind (readi ip LocalDst 0 (of_nat ELFHDR)) (\<lambda>(n, d).
     let elf = get_elfhdr d in
       if n \<noteq> int ELFHDR then exec_bad 0 0 (Some ip)
       else if e_magic elf \<noteq> ELF_MAGIC then exec_bad 0 0 (Some ip)
       else
         bind (proc_pagetable p) (\<lambda>pagetable.
           if pagetable = 0 then exec_bad 0 0 (Some ip)
           else
             bind (exec_load (unat (e_phnum elf)) ip pagetable (ucast (e_phoff elf)) 0) (\<lambda>(ok, sz).
               if \<not> ok then exec_bad pagetable sz (Some ip)
               else
                 bind (iunlockput ip) (\<lambda>_.
                 bind end_op (\<lambda>_.
                 bind curproc (\<lambda>p. exec_image p path argv elf pagetable sz))))))))))"

end
