(* ===== verification/Xv6_Syscall.thy ===== *)
theory Xv6_Syscall
  imports Xv6_Exec
begin

unbundle bit_operations_syntax

text \<open>
  The system calls: \<^verbatim>\<open>kernel/syscall.c\<close>, \<^verbatim>\<open>kernel/sysfile.c\<close>, \<^verbatim>\<open>kernel/sysproc.c\<close>. A system call
  returns the \<^verbatim>\<open>uint64\<close> that goes to register \<^verbatim>\<open>a0\<close>; paths are the strings that \<open>argstr\<close> stores.
\<close>

section \<open>State and arguments\<close>

record sys_state = file_state +
  ticks :: u32
  forkret_first :: int

text \<open>\<^verbatim>\<open>char name[DIRSIZ]\<close> on the stack.\<close>

abbreviation (input) name_buf :: "u8 list" where "name_buf \<equiv> replicate DIRSIZ 0"

definition fetchaddr :: "u64 \<Rightarrow> ('z proc_state_scheme, int \<times> u64) kern" where
  "fetchaddr addr =
     bind curproc (\<lambda>p.
     bind (get_proc p id) (\<lambda>q.
       if addr \<ge> p_sz q \<or> addr + 8 > p_sz q then ret (- 1, 0)
       else
         bind (copyin (p_pagetable q) addr 8) (\<lambda>(r, bs).
           if r \<noteq> 0 then ret (- 1, le_word bs) else ret (0, le_word bs))))"

text \<open>The result, and the string in the buffer.\<close>

definition fetchstr :: "u64 \<Rightarrow> nat \<Rightarrow> ('z proc_state_scheme, int \<times> u8 list) kern" where
  "fetchstr addr mx =
     bind curproc (\<lambda>p.
     bind (get_proc p p_pagetable) (\<lambda>pt.
     bind (copyinstr pt addr mx) (\<lambda>(r, bs).
       if r < 0 then ret (- 1, bs)
       else ret (int (length (takeWhile (\<lambda>c. c \<noteq> 0) bs)), bs))))"

definition argraw :: "nat \<Rightarrow> ('z proc_state_scheme, u64) kern" where
  "argraw n =
     bind curproc (\<lambda>p.
       if n = 0 then get_tf p tf_a0
       else if n = 1 then get_tf p tf_a1
       else if n = 2 then get_tf p tf_a2
       else if n = 3 then get_tf p tf_a3
       else if n = 4 then get_tf p tf_a4
       else if n = 5 then get_tf p tf_a5
       else panic ''argraw'')"

definition argint :: "nat \<Rightarrow> ('z proc_state_scheme, int) kern" where
  "argint n = bind (argraw n) (\<lambda>x. ret (sint (ucast x :: u32)))"

definition argaddr :: "nat \<Rightarrow> ('z proc_state_scheme, u64) kern" where
  "argaddr n = argraw n"

text \<open>The result and the string, without its terminator.\<close>

definition argstr :: "nat \<Rightarrow> nat \<Rightarrow> ('z proc_state_scheme, int \<times> u8 list) kern" where
  "argstr n mx =
     bind (argaddr n) (\<lambda>addr.
     bind (fetchstr addr mx) (\<lambda>(r, bs). ret (r, takeWhile (\<lambda>c. c \<noteq> 0) bs)))"

text \<open>The descriptor and the file, or nothing.\<close>

definition argfd :: "nat \<Rightarrow> ('z proc_state_scheme, (nat \<times> nat) option) kern" where
  "argfd n =
     bind (argint n) (\<lambda>fd.
       if fd < 0 \<or> fd \<ge> NOFILE then ret None
       else
         bind curproc (\<lambda>p.
         bind (get_proc p (\<lambda>q. p_ofile q ! nat fd)) (\<lambda>f. ret (map_option (Pair (nat fd)) f))))"

definition fdalloc :: "nat \<Rightarrow> ('z proc_state_scheme, int) kern" where
  "fdalloc f =
     bind curproc (\<lambda>p.
     bind (get_proc p p_ofile) (\<lambda>os. case find (\<lambda>fd. os ! fd = None) [0..<NOFILE] of
       None \<Rightarrow> ret (- 1)
     | Some fd \<Rightarrow> bind (set_proc p (\<lambda>q. q\<lparr>p_ofile := (p_ofile q)[fd := Some f]\<rparr>)) (\<lambda>_. ret (int fd))))"

section \<open>Files\<close>

definition sys_dup :: "('z file_state_scheme, u64) kern" where
  "sys_dup =
     bind (argfd 0) (\<lambda>r. case r of None \<Rightarrow> ret (- 1) | Some (_, f) \<Rightarrow>
     bind (fdalloc f) (\<lambda>fd. if fd < 0 then ret (- 1)
       else bind (filedup f) (\<lambda>_. ret (of_int fd))))"

definition sys_read :: "('z file_state_scheme, u64) kern" where
  "sys_read =
     bind (argaddr 1) (\<lambda>p.
     bind (argint 2) (\<lambda>n.
     bind (argfd 0) (\<lambda>r. case r of None \<Rightarrow> ret (- 1) | Some (_, f) \<Rightarrow>
     bind (fileread f p n) (\<lambda>k. ret (of_int k)))))"

definition sys_write :: "('z file_state_scheme, u64) kern" where
  "sys_write =
     bind (argaddr 1) (\<lambda>p.
     bind (argint 2) (\<lambda>n.
     bind (argfd 0) (\<lambda>r. case r of None \<Rightarrow> ret (- 1) | Some (_, f) \<Rightarrow>
     bind (filewrite f p n) (\<lambda>k. ret (of_int k)))))"

definition sys_close :: "('z file_state_scheme, u64) kern" where
  "sys_close =
     bind (argfd 0) (\<lambda>r. case r of None \<Rightarrow> ret (- 1) | Some (fd, f) \<Rightarrow>
     bind curproc (\<lambda>p.
     bind (block [
       set_proc p (\<lambda>q. q\<lparr>p_ofile := (p_ofile q)[fd := None]\<rparr>),
       fileclose f]) (\<lambda>_. ret 0)))"

definition sys_fstat :: "('z file_state_scheme, u64) kern" where
  "sys_fstat =
     bind (argaddr 1) (\<lambda>st.
     bind (argfd 0) (\<lambda>r. case r of None \<Rightarrow> ret (- 1) | Some (_, f) \<Rightarrow>
     bind (filestat f st) (\<lambda>k. ret (of_int k))))"

text \<open>The label \<^verbatim>\<open>bad\<close> of \<open>sys_link\<close>.\<close>

definition link_bad :: "nat \<Rightarrow> ('z fs_state_scheme, u64) kern" where
  "link_bad ip =
     bind (block [
       ilock (Some ip),
       set_inode ip (\<lambda>i. i\<lparr>i_nlink := i_nlink i - 1\<rparr>),
       iupdate ip,
       iunlockput ip,
       end_op]) (\<lambda>_. ret (- 1))"

definition sys_link :: "('z fs_state_scheme, u64) kern" where
  "sys_link =
     bind (argstr 0 MAXPATH) (\<lambda>(a, old). if a < 0 then ret (- 1) else
     bind (argstr 1 MAXPATH) (\<lambda>(b, new). if b < 0 then ret (- 1) else
     bind begin_op (\<lambda>_.
     bind (namei old) (\<lambda>r. case r of None \<Rightarrow> bind end_op (\<lambda>_. ret (- 1)) | Some ip \<Rightarrow>
     bind (ilock (Some ip)) (\<lambda>_.
     bind (get_inode ip i_type) (\<lambda>t.
       if t = T_DIR then bind (block [iunlockput ip, end_op]) (\<lambda>_. ret (- 1))
       else
         bind (block [
           set_inode ip (\<lambda>i. i\<lparr>i_nlink := i_nlink i + 1\<rparr>),
           iupdate ip,
           iunlock (Some ip)]) (\<lambda>_.
         bind (nameiparent new name_buf) (\<lambda>d. case d of None \<Rightarrow> link_bad ip | Some (dp, name) \<Rightarrow>
         bind (ilock (Some dp)) (\<lambda>_.
         bind (get_inode ip id) (\<lambda>i.
         bind (get_inode dp i_dev) (\<lambda>dev.
         bind (if dev \<noteq> i_dev i then ret (- 1) else dirlink dp name (i_inum i)) (\<lambda>l.
           if l < 0 then bind (iunlockput dp) (\<lambda>_. link_bad ip)
           else bind (block [iunlockput dp, iput ip, end_op]) (\<lambda>_. ret 0)))))))))))))"

function isdirempty_from :: "nat \<Rightarrow> nat \<Rightarrow> nat \<Rightarrow> ('z fs_state_scheme, bool) kern" where
  "isdirempty_from dp sz off =
     (if off < sz then
        bind (readi dp LocalDst (of_nat off) (of_nat DIRENT)) (\<lambda>(r, d).
        bind (panic_if (r \<noteq> int DIRENT) ''isdirempty: readi'') (\<lambda>_.
          if de_inum (get_dirent d) \<noteq> 0 then ret False else isdirempty_from dp sz (off + DIRENT)))
      else ret True)"
  by pat_completeness auto
termination
  by (relation "measure (\<lambda>(dp, sz, off). sz - off)") auto

declare isdirempty_from.simps [simp del]

definition isdirempty :: "nat \<Rightarrow> ('z fs_state_scheme, bool) kern" where
  "isdirempty dp = bind (get_inode dp i_size) (\<lambda>sz. isdirempty_from dp (unat sz) (2 * DIRENT))"

definition unlink_bad :: "nat \<Rightarrow> ('z fs_state_scheme, u64) kern" where
  "unlink_bad dp = bind (block [iunlockput dp, end_op]) (\<lambda>_. ret (- 1))"

definition sys_unlink :: "('z fs_state_scheme, u64) kern" where
  "sys_unlink =
     bind (argstr 0 MAXPATH) (\<lambda>(a, path). if a < 0 then ret (- 1) else
     bind begin_op (\<lambda>_.
     bind (nameiparent path name_buf) (\<lambda>d. case d of None \<Rightarrow> bind end_op (\<lambda>_. ret (- 1)) | Some (dp, name) \<Rightarrow>
     bind (ilock (Some dp)) (\<lambda>_.
       if namecmp name (bytes ''.'' @ [0]) = 0 \<or> namecmp name (bytes ''..'' @ [0]) = 0 then unlink_bad dp
       else
         bind (dirlookup dp name) (\<lambda>e. case e of None \<Rightarrow> unlink_bad dp | Some (ip, off) \<Rightarrow>
         bind (ilock (Some ip)) (\<lambda>_.
         bind (get_inode ip id) (\<lambda>i.
         bind (panic_if (sint (i_nlink i) < 1) ''unlink: nlink < 1'') (\<lambda>_.
         bind (if i_type i = T_DIR then isdirempty ip else ret True) (\<lambda>emp.
           if \<not> emp then bind (iunlockput ip) (\<lambda>_. unlink_bad dp)
           else
             bind (writei dp (LocalSrc (replicate DIRENT 0)) off (of_nat DIRENT)) (\<lambda>w.
             bind (block [
               panic_if (w \<noteq> int DIRENT) ''unlink: writei'',
               only_if (i_type i = T_DIR) (block [
                 set_inode dp (\<lambda>j. j\<lparr>i_nlink := i_nlink j - 1\<rparr>),
                 iupdate dp]),
               iunlockput dp,
               set_inode ip (\<lambda>j. j\<lparr>i_nlink := i_nlink j - 1\<rparr>),
               iupdate ip,
               iunlockput ip,
               end_op]) (\<lambda>_. ret 0)))))))))))"

text \<open>The label \<^verbatim>\<open>fail\<close> of \<open>create\<close>.\<close>

definition create_fail :: "nat \<Rightarrow> nat \<Rightarrow> ('z fs_state_scheme, nat option) kern" where
  "create_fail ip dp =
     bind (block [
       set_inode ip (\<lambda>i. i\<lparr>i_nlink := 0\<rparr>),
       iupdate ip,
       iunlockput ip,
       iunlockput dp]) (\<lambda>_. ret None)"

definition create :: "u8 list \<Rightarrow> u16 \<Rightarrow> u16 \<Rightarrow> u16 \<Rightarrow> ('z fs_state_scheme, nat option) kern" where
  "create path type major minor =
     bind (nameiparent path name_buf) (\<lambda>d. case d of None \<Rightarrow> ret None | Some (dp, name) \<Rightarrow>
     bind (ilock (Some dp)) (\<lambda>_.
     bind (dirlookup dp name) (\<lambda>e. case e of
       Some (ip, _) \<Rightarrow>
         bind (iunlockput dp) (\<lambda>_.
         bind (ilock (Some ip)) (\<lambda>_.
         bind (get_inode ip i_type) (\<lambda>t.
           if type = T_FILE \<and> (t = T_FILE \<or> t = T_DEVICE) then ret (Some ip)
           else bind (iunlockput ip) (\<lambda>_. ret None))))
     | None \<Rightarrow>
         bind (get_inode dp i_dev) (\<lambda>dev.
         bind (ialloc dev type) (\<lambda>a. case a of None \<Rightarrow> bind (iunlockput dp) (\<lambda>_. ret None) | Some ip \<Rightarrow>
         bind (block [
           ilock (Some ip),
           set_inode ip (\<lambda>i. i\<lparr>i_major := major, i_minor := minor, i_nlink := 1\<rparr>),
           iupdate ip]) (\<lambda>_.
         bind (get_inode ip i_inum) (\<lambda>inum.
         bind (get_inode dp i_inum) (\<lambda>pinum.
         bind (if type = T_DIR then
                 bind (dirlink ip (bytes ''.'') inum) (\<lambda>l.
                   if l < 0 then ret False
                   else bind (dirlink ip (bytes ''..'') pinum) (\<lambda>m. ret (\<not> m < 0)))
               else ret True) (\<lambda>dots.
           if \<not> dots then create_fail ip dp
           else
             bind (dirlink dp name inum) (\<lambda>l.
               if l < 0 then create_fail ip dp
               else
                 bind (block [
                   only_if (type = T_DIR) (block [
                     set_inode dp (\<lambda>j. j\<lparr>i_nlink := i_nlink j + 1\<rparr>),
                     iupdate dp]),
                   iunlockput dp]) (\<lambda>_. ret (Some ip))))))))))))"

abbreviation (input) O_RDONLY :: u32 where "O_RDONLY \<equiv> 0x000"
abbreviation (input) O_WRONLY :: u32 where "O_WRONLY \<equiv> 0x001"
abbreviation (input) O_RDWR :: u32 where "O_RDWR \<equiv> 0x002"
abbreviation (input) O_CREATE :: u32 where "O_CREATE \<equiv> 0x200"
abbreviation (input) O_TRUNC :: u32 where "O_TRUNC \<equiv> 0x400"

text \<open>The failures of \<open>sys_open\<close> that hold the inode.\<close>

definition open_bad :: "nat \<Rightarrow> ('z fs_state_scheme, u64) kern" where
  "open_bad ip = bind (block [iunlockput ip, end_op]) (\<lambda>_. ret (- 1))"

text \<open>\<open>sys_open\<close> once the inode is found and locked.\<close>

definition open_inode :: "nat \<Rightarrow> u32 \<Rightarrow> ('z file_state_scheme, u64) kern" where
  "open_inode ip omode =
     bind (get_inode ip id) (\<lambda>i.
       if i_type i = T_DEVICE \<and> (sint (i_major i) < 0 \<or> sint (i_major i) \<ge> NDEV) then open_bad ip
       else
         bind filealloc (\<lambda>r. case r of None \<Rightarrow> open_bad ip | Some f \<Rightarrow>
         bind (fdalloc f) (\<lambda>fd.
           if fd < 0 then bind (fileclose f) (\<lambda>_. open_bad ip)
           else
             bind (block [
               (if i_type i = T_DEVICE then set_file f (\<lambda>x. x\<lparr>f_type := FD_DEVICE, f_major := i_major i\<rparr>)
                else set_file f (\<lambda>x. x\<lparr>f_type := FD_INODE, f_off := 0\<rparr>)),
               set_file f (\<lambda>x. x\<lparr>f_ip := Some ip, f_readable := (omode AND O_WRONLY = 0),
                 f_writable := (omode AND O_WRONLY \<noteq> 0 \<or> omode AND O_RDWR \<noteq> 0)\<rparr>),
               only_if (omode AND O_TRUNC \<noteq> 0 \<and> i_type i = T_FILE) (itrunc ip),
               iunlock (Some ip),
               end_op]) (\<lambda>_. ret (of_int fd)))))"

definition sys_open :: "('z file_state_scheme, u64) kern" where
  "sys_open =
     bind (argint 1) (\<lambda>om.
     bind (argstr 0 MAXPATH) (\<lambda>(n, path). if n < 0 then ret (- 1) else
     let omode = of_int om in
     bind begin_op (\<lambda>_.
       if omode AND O_CREATE \<noteq> 0 then
         bind (create path T_FILE 0 0) (\<lambda>r. case r of
           None \<Rightarrow> bind end_op (\<lambda>_. ret (- 1))
         | Some ip \<Rightarrow> open_inode ip omode)
       else
         bind (namei path) (\<lambda>r. case r of None \<Rightarrow> bind end_op (\<lambda>_. ret (- 1)) | Some ip \<Rightarrow>
         bind (ilock (Some ip)) (\<lambda>_.
         bind (get_inode ip i_type) (\<lambda>t.
           if t = T_DIR \<and> omode \<noteq> O_RDONLY then open_bad ip else open_inode ip omode))))))"

definition sys_mkdir :: "('z fs_state_scheme, u64) kern" where
  "sys_mkdir =
     bind begin_op (\<lambda>_.
     bind (argstr 0 MAXPATH) (\<lambda>(n, path).
     bind (if n < 0 then ret None else create path T_DIR 0 0) (\<lambda>r. case r of
       None \<Rightarrow> bind end_op (\<lambda>_. ret (- 1))
     | Some ip \<Rightarrow> bind (block [iunlockput ip, end_op]) (\<lambda>_. ret 0))))"

definition sys_mknod :: "('z fs_state_scheme, u64) kern" where
  "sys_mknod =
     bind begin_op (\<lambda>_.
     bind (argint 1) (\<lambda>major.
     bind (argint 2) (\<lambda>minor.
     bind (argstr 0 MAXPATH) (\<lambda>(n, path).
     bind (if n < 0 then ret None else create path T_DEVICE (of_int major) (of_int minor)) (\<lambda>r. case r of
       None \<Rightarrow> bind end_op (\<lambda>_. ret (- 1))
     | Some ip \<Rightarrow> bind (block [iunlockput ip, end_op]) (\<lambda>_. ret 0))))))"

definition sys_chdir :: "('z fs_state_scheme, u64) kern" where
  "sys_chdir =
     bind curproc (\<lambda>p.
     bind begin_op (\<lambda>_.
     bind (argstr 0 MAXPATH) (\<lambda>(n, path).
     bind (if n < 0 then ret None else namei path) (\<lambda>r. case r of
       None \<Rightarrow> bind end_op (\<lambda>_. ret (- 1))
     | Some ip \<Rightarrow>
         bind (ilock (Some ip)) (\<lambda>_.
         bind (get_inode ip i_type) (\<lambda>t.
           if t \<noteq> T_DIR then bind (block [iunlockput ip, end_op]) (\<lambda>_. ret (- 1))
           else
             bind (block [
               iunlock (Some ip),
               bind (get_proc p p_cwd) (\<lambda>c. case c of None \<Rightarrow> undefined_behaviour | Some d \<Rightarrow> iput d),
               end_op,
               set_proc p (\<lambda>q. q\<lparr>p_cwd := Some ip\<rparr>)]) (\<lambda>_. ret 0)))))))"

text \<open>
  The argument loop of \<open>sys_exec\<close>: whether it ended well, and the pages of the strings copied so
  far. \<open>k\<close> counts the free entries of \<^verbatim>\<open>argv\<close>.
\<close>

primrec exec_args :: "nat \<Rightarrow> u64 \<Rightarrow> u64 list \<Rightarrow> ('z proc_state_scheme, bool \<times> u64 list) kern" where
  "exec_args 0 uargv argv = ret (False, argv)"
| "exec_args (Suc k) uargv argv =
     bind (fetchaddr (uargv + of_nat (8 * length argv))) (\<lambda>(r, uarg).
       if r < 0 then ret (False, argv)
       else if uarg = 0 then ret (True, argv)
       else
         bind kalloc (\<lambda>page.
           if page = 0 then ret (False, argv)
           else
             bind (fetchstr uarg PGSIZE) (\<lambda>(l, bs).
             bind (on_mem (\<lambda>m. mwrite m page bs)) (\<lambda>_.
               if l < 0 then ret (False, argv @ [page]) else exec_args k uargv (argv @ [page])))))"

definition sys_exec :: "('z fs_state_scheme, u64) kern" where
  "sys_exec =
     bind (argaddr 1) (\<lambda>uargv.
     bind (argstr 0 MAXPATH) (\<lambda>(n, path). if n < 0 then ret (- 1) else
     bind (exec_args MAXARG uargv []) (\<lambda>(ok, argv).
     bind (if ok then exec path argv else ret (- 1)) (\<lambda>r.
     bind (block (map kfree argv)) (\<lambda>_. ret (of_int r))))))"

definition sys_pipe :: "('z file_state_scheme, u64) kern" where
  "sys_pipe =
     bind curproc (\<lambda>p.
     bind (argaddr 0) (\<lambda>fdarray.
     bind pipealloc (\<lambda>r. case r of None \<Rightarrow> ret (- 1) | Some (f0, f1) \<Rightarrow>
     let clear = (\<lambda>fd. set_proc p (\<lambda>q. q\<lparr>p_ofile := (p_ofile q)[nat fd := None]\<rparr>)) in
     bind (fdalloc f0) (\<lambda>fd0.
       if fd0 < 0 then bind (block [fileclose f0, fileclose f1]) (\<lambda>_. ret (- 1))
       else
         bind (fdalloc f1) (\<lambda>fd1.
           if fd1 < 0 then bind (block [clear fd0, fileclose f0, fileclose f1]) (\<lambda>_. ret (- 1))
           else
             bind (get_proc p p_pagetable) (\<lambda>pt.
             bind (copyout pt fdarray (le_bytes 4 (of_int fd0 :: u32))) (\<lambda>a.
             bind (if a < 0 then ret a else copyout pt (fdarray + 4) (le_bytes 4 (of_int fd1 :: u32))) (\<lambda>b.
               if b < 0 then
                 bind (block [clear fd0, clear fd1, fileclose f0, fileclose f1]) (\<lambda>_. ret (- 1))
               else ret 0))))))))"

section \<open>Processes\<close>

definition sys_exit :: "('z file_state_scheme, u64) kern" where
  "sys_exit = bind (argint 0) (\<lambda>n. bind (exit n) (\<lambda>_. ret 0))"

definition sys_getpid :: "('z proc_state_scheme, u64) kern" where
  "sys_getpid = bind curproc (\<lambda>p. get_proc p (\<lambda>q. of_int (p_pid q)))"

definition sys_fork :: "('z file_state_scheme, u64) kern" where
  "sys_fork = bind fork (\<lambda>r. ret (of_int r))"

definition sys_wait :: "('z proc_state_scheme, u64) kern" where
  "sys_wait = bind (argaddr 0) (\<lambda>p. bind (wait p) (\<lambda>r. ret (of_int r)))"

definition sys_sbrk :: "('z proc_state_scheme, u64) kern" where
  "sys_sbrk =
     bind (argint 0) (\<lambda>n.
     bind curproc (\<lambda>p.
     bind (get_proc p p_sz) (\<lambda>addr.
     bind (growproc n) (\<lambda>r. if r < 0 then ret (- 1) else ret addr))))"

text \<open>The loop of \<open>sys_sleep\<close>; the comparison of \<^verbatim>\<open>ticks - ticks0\<close> with \<^verbatim>\<open>n\<close> is unsigned.\<close>

definition sys_sleep_loop :: "u32 \<Rightarrow> int \<Rightarrow> ('z sys_state_scheme, u64) kern" where
  "sys_sleep_loop ticks0 n =
     bind (gets ticks) (\<lambda>t.
       if t - ticks0 < of_int n then
         bind curproc (\<lambda>p.
         bind (killed p) (\<lambda>k.
           if k \<noteq> 0 then bind (on_lk (release TicksLock)) (\<lambda>_. ret (- 1))
           else bind (sleep ChanTicks TicksLock) (\<lambda>_. ret (- 1))))
       else bind (on_lk (release TicksLock)) (\<lambda>_. ret 0))"

definition sys_sleep :: "('z sys_state_scheme, u64) kern" where
  "sys_sleep =
     bind (argint 0) (\<lambda>n.
     bind (on_lk (acquire TicksLock)) (\<lambda>_.
     bind (gets ticks) (\<lambda>ticks0. sys_sleep_loop ticks0 n)))"

definition sys_sleep_return :: "bool \<Rightarrow> nat \<Rightarrow> u32 \<Rightarrow> int \<Rightarrow> ('z sys_state_scheme, u64) kern" where
  "sys_sleep_return ie p ticks0 n = bind (sleep_return ie p TicksLock) (\<lambda>_. sys_sleep_loop ticks0 n)"

definition sys_kill :: "('z proc_state_scheme, u64) kern" where
  "sys_kill = bind (argint 0) (\<lambda>pid. bind (kill pid) (\<lambda>r. ret (of_int r)))"

definition sys_uptime :: "('z sys_state_scheme, u64) kern" where
  "sys_uptime = with_lock TicksLock (gets (\<lambda>s. ucast (ticks s)))"

section \<open>Dispatch\<close>

definition syscalls :: "int \<Rightarrow> ('z sys_state_scheme, u64) kern option" where
  "syscalls num =
     (if num = 1 then Some sys_fork
      else if num = 2 then Some sys_exit
      else if num = 3 then Some sys_wait
      else if num = 4 then Some sys_pipe
      else if num = 5 then Some sys_read
      else if num = 6 then Some sys_kill
      else if num = 7 then Some sys_exec
      else if num = 8 then Some sys_fstat
      else if num = 9 then Some sys_chdir
      else if num = 10 then Some sys_dup
      else if num = 11 then Some sys_getpid
      else if num = 12 then Some sys_sbrk
      else if num = 13 then Some sys_sleep
      else if num = 14 then Some sys_uptime
      else if num = 15 then Some sys_open
      else if num = 16 then Some sys_write
      else if num = 17 then Some sys_mknod
      else if num = 18 then Some sys_unlink
      else if num = 19 then Some sys_link
      else if num = 20 then Some sys_mkdir
      else if num = 21 then Some sys_close
      else None)"

definition syscall :: "('z sys_state_scheme, unit) kern" where
  "syscall =
     bind curproc (\<lambda>p.
     bind (get_tf p (\<lambda>t. sint (ucast (tf_a7 t) :: u32))) (\<lambda>num. case syscalls num of
       Some f \<Rightarrow> bind f (\<lambda>r. set_tf p (\<lambda>t. t\<lparr>tf_a0 := r\<rparr>))
     | None \<Rightarrow>
         bind (get_proc p id) (\<lambda>q. block [
           kprintln ''%d %s: unknown sys call %d''
             [ArgInt (of_int (p_pid q)), ArgStr (Some (takeWhile (\<lambda>c. c \<noteq> 0) (p_name q))), ArgInt (of_int num)],
           set_tf p (\<lambda>t. t\<lparr>tf_a0 := - 1\<rparr>)])))"

end
