(* ===== verification/Xv6_Virtio.thy ===== *)
theory Xv6_Virtio
  imports Xv6_Syscall
begin

unbundle bit_operations_syntax

text \<open>
  The disk driver: \<^verbatim>\<open>kernel/virtio.h\<close> and \<^verbatim>\<open>kernel/virtio_disk.c\<close>. The descriptor table and the
  two rings are kept as typed arrays beside the addresses of their pages, and the physical
  addresses that the driver puts in descriptors are named by what they point to.

  What reading a memory-mapped register returns is the parameter \<open>io_dev\<close>, a function of the
  accesses so far (\<open>io_trace\<close>), which the interrupt controller of \<^verbatim>\<open>Xv6_Trap\<close> shares.
\<close>

section \<open>State\<close>

datatype mmio32 = MRead32 u64 | MWrite32 u64 u32

abbreviation (input) NUM :: "'a::numeral" where "NUM \<equiv> 8"

datatype desc_addr = NullAddr | OpAddr nat | DataAddr nat | StatusAddr nat

record virtq_desc =
  d_addr :: desc_addr
  d_len :: u32
  d_flags :: u16
  d_next :: u16

record virtq_avail =
  av_flags :: u16
  av_idx :: u16
  av_ring :: "nat \<Rightarrow> u16"

record virtq_used_elem =
  u_id :: u32
  u_len :: u32

record virtq_used =
  us_flags :: u16
  us_idx :: u16
  us_ring :: "nat \<Rightarrow> virtq_used_elem"

record virtio_blk_req =
  r_type :: u32
  r_reserved :: u32
  r_sector :: u64

record disk_info =
  in_b :: "nat option"
  in_status :: u8

record vdisk =
  vd_desc_pa :: u64
  vd_avail_pa :: u64
  vd_used_pa :: u64
  vd_desc :: "nat \<Rightarrow> virtq_desc"
  vd_avail :: virtq_avail
  vd_used :: virtq_used
  vd_free :: "nat \<Rightarrow> bool"
  vd_used_idx :: u16
  vd_info :: "nat \<Rightarrow> disk_info"
  vd_ops :: "nat \<Rightarrow> virtio_blk_req"

record virtio_state = sys_state +
  vdisk :: vdisk
  io_dev :: "mmio32 list \<Rightarrow> u64 \<Rightarrow> u32"
  io_trace :: "mmio32 list"

definition set_vdisk :: "(vdisk \<Rightarrow> vdisk) \<Rightarrow> ('z virtio_state_scheme, unit) kern" where
  "set_vdisk f = modify (\<lambda>s. s\<lparr>vdisk := f (vdisk s)\<rparr>)"

definition set_desc :: "nat \<Rightarrow> (virtq_desc \<Rightarrow> virtq_desc) \<Rightarrow> ('z virtio_state_scheme, unit) kern" where
  "set_desc i f = set_vdisk (\<lambda>d. d\<lparr>vd_desc := (vd_desc d)(i := f (vd_desc d i))\<rparr>)"

definition set_info :: "nat \<Rightarrow> (disk_info \<Rightarrow> disk_info) \<Rightarrow> ('z virtio_state_scheme, unit) kern" where
  "set_info i f = set_vdisk (\<lambda>d. d\<lparr>vd_info := (vd_info d)(i := f (vd_info d i))\<rparr>)"

definition get_vdisk :: "(vdisk \<Rightarrow> 'a) \<Rightarrow> ('z virtio_state_scheme, 'a) kern" where
  "get_vdisk f = gets (\<lambda>s. f (vdisk s))"

definition io_read :: "u64 \<Rightarrow> ('z virtio_state_scheme, u32) kern" where
  "io_read a =
     bind (gets (\<lambda>s. io_dev s (io_trace s) a)) (\<lambda>v.
     bind (modify (\<lambda>s. s\<lparr>io_trace := io_trace s @ [MRead32 a]\<rparr>)) (\<lambda>_. ret v))"

definition io_write :: "u64 \<Rightarrow> u32 \<Rightarrow> ('z virtio_state_scheme, unit) kern" where
  "io_write a v = modify (\<lambda>s. s\<lparr>io_trace := io_trace s @ [MWrite32 a v]\<rparr>)"

abbreviation (input) VIRTIO_MMIO_MAGIC_VALUE :: u64 where "VIRTIO_MMIO_MAGIC_VALUE \<equiv> 0x000"
abbreviation (input) VIRTIO_MMIO_VERSION :: u64 where "VIRTIO_MMIO_VERSION \<equiv> 0x004"
abbreviation (input) VIRTIO_MMIO_DEVICE_ID :: u64 where "VIRTIO_MMIO_DEVICE_ID \<equiv> 0x008"
abbreviation (input) VIRTIO_MMIO_VENDOR_ID :: u64 where "VIRTIO_MMIO_VENDOR_ID \<equiv> 0x00c"
abbreviation (input) VIRTIO_MMIO_DEVICE_FEATURES :: u64 where "VIRTIO_MMIO_DEVICE_FEATURES \<equiv> 0x010"
abbreviation (input) VIRTIO_MMIO_DRIVER_FEATURES :: u64 where "VIRTIO_MMIO_DRIVER_FEATURES \<equiv> 0x020"
abbreviation (input) VIRTIO_MMIO_QUEUE_SEL :: u64 where "VIRTIO_MMIO_QUEUE_SEL \<equiv> 0x030"
abbreviation (input) VIRTIO_MMIO_QUEUE_NUM_MAX :: u64 where "VIRTIO_MMIO_QUEUE_NUM_MAX \<equiv> 0x034"
abbreviation (input) VIRTIO_MMIO_QUEUE_NUM :: u64 where "VIRTIO_MMIO_QUEUE_NUM \<equiv> 0x038"
abbreviation (input) VIRTIO_MMIO_QUEUE_READY :: u64 where "VIRTIO_MMIO_QUEUE_READY \<equiv> 0x044"
abbreviation (input) VIRTIO_MMIO_QUEUE_NOTIFY :: u64 where "VIRTIO_MMIO_QUEUE_NOTIFY \<equiv> 0x050"
abbreviation (input) VIRTIO_MMIO_INTERRUPT_STATUS :: u64 where "VIRTIO_MMIO_INTERRUPT_STATUS \<equiv> 0x060"
abbreviation (input) VIRTIO_MMIO_INTERRUPT_ACK :: u64 where "VIRTIO_MMIO_INTERRUPT_ACK \<equiv> 0x064"
abbreviation (input) VIRTIO_MMIO_STATUS :: u64 where "VIRTIO_MMIO_STATUS \<equiv> 0x070"
abbreviation (input) VIRTIO_MMIO_QUEUE_DESC_LOW :: u64 where "VIRTIO_MMIO_QUEUE_DESC_LOW \<equiv> 0x080"
abbreviation (input) VIRTIO_MMIO_QUEUE_DESC_HIGH :: u64 where "VIRTIO_MMIO_QUEUE_DESC_HIGH \<equiv> 0x084"
abbreviation (input) VIRTIO_MMIO_DRIVER_DESC_LOW :: u64 where "VIRTIO_MMIO_DRIVER_DESC_LOW \<equiv> 0x090"
abbreviation (input) VIRTIO_MMIO_DRIVER_DESC_HIGH :: u64 where "VIRTIO_MMIO_DRIVER_DESC_HIGH \<equiv> 0x094"
abbreviation (input) VIRTIO_MMIO_DEVICE_DESC_LOW :: u64 where "VIRTIO_MMIO_DEVICE_DESC_LOW \<equiv> 0x0a0"
abbreviation (input) VIRTIO_MMIO_DEVICE_DESC_HIGH :: u64 where "VIRTIO_MMIO_DEVICE_DESC_HIGH \<equiv> 0x0a4"
abbreviation (input) VIRTIO_CONFIG_S_ACKNOWLEDGE :: u32 where "VIRTIO_CONFIG_S_ACKNOWLEDGE \<equiv> 1"
abbreviation (input) VIRTIO_CONFIG_S_DRIVER :: u32 where "VIRTIO_CONFIG_S_DRIVER \<equiv> 2"
abbreviation (input) VIRTIO_CONFIG_S_DRIVER_OK :: u32 where "VIRTIO_CONFIG_S_DRIVER_OK \<equiv> 4"
abbreviation (input) VIRTIO_CONFIG_S_FEATURES_OK :: u32 where "VIRTIO_CONFIG_S_FEATURES_OK \<equiv> 8"
abbreviation (input) VIRTIO_BLK_F_RO :: nat where "VIRTIO_BLK_F_RO \<equiv> 5"
abbreviation (input) VIRTIO_BLK_F_SCSI :: nat where "VIRTIO_BLK_F_SCSI \<equiv> 7"
abbreviation (input) VIRTIO_BLK_F_CONFIG_WCE :: nat where "VIRTIO_BLK_F_CONFIG_WCE \<equiv> 11"
abbreviation (input) VIRTIO_BLK_F_MQ :: nat where "VIRTIO_BLK_F_MQ \<equiv> 12"
abbreviation (input) VIRTIO_F_ANY_LAYOUT :: nat where "VIRTIO_F_ANY_LAYOUT \<equiv> 27"
abbreviation (input) VIRTIO_RING_F_INDIRECT_DESC :: nat where "VIRTIO_RING_F_INDIRECT_DESC \<equiv> 28"
abbreviation (input) VIRTIO_RING_F_EVENT_IDX :: nat where "VIRTIO_RING_F_EVENT_IDX \<equiv> 29"
abbreviation (input) VRING_DESC_F_NEXT :: u16 where "VRING_DESC_F_NEXT \<equiv> 1"
abbreviation (input) VRING_DESC_F_WRITE :: u16 where "VRING_DESC_F_WRITE \<equiv> 2"
abbreviation (input) VIRTIO_BLK_T_IN :: u32 where "VIRTIO_BLK_T_IN \<equiv> 0"
abbreviation (input) VIRTIO_BLK_T_OUT :: u32 where "VIRTIO_BLK_T_OUT \<equiv> 1"

section \<open>Initialisation\<close>

definition R_read :: "u64 \<Rightarrow> ('z virtio_state_scheme, u32) kern" where
  "R_read r = io_read (VIRTIO0 + r)"

definition R_write :: "u64 \<Rightarrow> u32 \<Rightarrow> ('z virtio_state_scheme, unit) kern" where
  "R_write r v = io_write (VIRTIO0 + r) v"

definition virtio_features :: "u32 \<Rightarrow> u32" where
  "virtio_features features =
     fold (\<lambda>b f. f AND NOT (push_bit b 1))
       [VIRTIO_BLK_F_RO, VIRTIO_BLK_F_SCSI, VIRTIO_BLK_F_CONFIG_WCE, VIRTIO_BLK_F_MQ,
        VIRTIO_F_ANY_LAYOUT, VIRTIO_RING_F_EVENT_IDX, VIRTIO_RING_F_INDIRECT_DESC] features"

text \<open>Whether all registers identify a disk; it stops reading at the first that does not.\<close>

primrec virtio_found :: "(u64 \<times> u32) list \<Rightarrow> ('z virtio_state_scheme, bool) kern" where
  "virtio_found [] = ret True"
| "virtio_found (x # xs) = bind (R_read (fst x)) (\<lambda>v. if v \<noteq> snd x then ret False else virtio_found xs)"

definition zero_desc :: virtq_desc where
  "zero_desc = \<lparr>d_addr = NullAddr, d_len = 0, d_flags = 0, d_next = 0\<rparr>"

text \<open>The part of \<open>virtio_disk_init\<close> that allocates the queue and gives it to the device.\<close>

definition virtio_queue_init :: "('z virtio_state_scheme, unit) kern" where
  "virtio_queue_init =
     bind kalloc (\<lambda>desc.
     bind kalloc (\<lambda>avail.
     bind kalloc (\<lambda>used. block [
       set_vdisk (\<lambda>d. d\<lparr>vd_desc_pa := desc, vd_avail_pa := avail, vd_used_pa := used\<rparr>),
       panic_if (desc = 0 \<or> avail = 0 \<or> used = 0) ''virtio disk kalloc'',
       on_mem (memset desc 0 PGSIZE),
       on_mem (memset avail 0 PGSIZE),
       on_mem (memset used 0 PGSIZE),
       set_vdisk (\<lambda>d. d\<lparr>vd_desc := (\<lambda>_. zero_desc), vd_avail := \<lparr>av_flags = 0, av_idx = 0, av_ring = (\<lambda>_. 0)\<rparr>,
         vd_used := \<lparr>us_flags = 0, us_idx = 0, us_ring = (\<lambda>_. \<lparr>u_id = 0, u_len = 0\<rparr>)\<rparr>\<rparr>),
       R_write VIRTIO_MMIO_QUEUE_NUM NUM,
       R_write VIRTIO_MMIO_QUEUE_DESC_LOW (ucast desc),
       R_write VIRTIO_MMIO_QUEUE_DESC_HIGH (ucast (drop_bit 32 desc)),
       R_write VIRTIO_MMIO_DRIVER_DESC_LOW (ucast avail),
       R_write VIRTIO_MMIO_DRIVER_DESC_HIGH (ucast (drop_bit 32 avail)),
       R_write VIRTIO_MMIO_DEVICE_DESC_LOW (ucast used),
       R_write VIRTIO_MMIO_DEVICE_DESC_HIGH (ucast (drop_bit 32 used)),
       R_write VIRTIO_MMIO_QUEUE_READY 1])))"

definition virtio_disk_init :: "('z virtio_state_scheme, unit) kern" where
  "virtio_disk_init = block [
     on_lk (initlock VdiskLock ''virtio_disk''),
     bind (virtio_found [(VIRTIO_MMIO_MAGIC_VALUE, 0x74726976), (VIRTIO_MMIO_VERSION, 2),
         (VIRTIO_MMIO_DEVICE_ID, 2), (VIRTIO_MMIO_VENDOR_ID, 0x554d4551)])
       (\<lambda>ok. panic_if (\<not> ok) ''could not find virtio disk''),
     R_write VIRTIO_MMIO_STATUS 0,
     R_write VIRTIO_MMIO_STATUS VIRTIO_CONFIG_S_ACKNOWLEDGE,
     R_write VIRTIO_MMIO_STATUS (VIRTIO_CONFIG_S_ACKNOWLEDGE OR VIRTIO_CONFIG_S_DRIVER),
     bind (R_read VIRTIO_MMIO_DEVICE_FEATURES) (\<lambda>f. R_write VIRTIO_MMIO_DRIVER_FEATURES (virtio_features f)),
     R_write VIRTIO_MMIO_STATUS (VIRTIO_CONFIG_S_ACKNOWLEDGE OR VIRTIO_CONFIG_S_DRIVER OR VIRTIO_CONFIG_S_FEATURES_OK),
     bind (R_read VIRTIO_MMIO_STATUS) (\<lambda>status. block [
       panic_if (status AND VIRTIO_CONFIG_S_FEATURES_OK = 0) ''virtio disk FEATURES_OK unset'',
       R_write VIRTIO_MMIO_QUEUE_SEL 0,
       bind (R_read VIRTIO_MMIO_QUEUE_READY) (\<lambda>r. panic_if (r \<noteq> 0) ''virtio disk should not be ready''),
       bind (R_read VIRTIO_MMIO_QUEUE_NUM_MAX) (\<lambda>mx. block [
         panic_if (mx = 0) ''virtio disk has no queue 0'',
         panic_if (mx < NUM) ''virtio disk max queue too short'']),
       virtio_queue_init,
       set_vdisk (\<lambda>d. d\<lparr>vd_free := (\<lambda>i. i < NUM \<or> vd_free d i)\<rparr>),
       R_write VIRTIO_MMIO_STATUS (status OR VIRTIO_CONFIG_S_DRIVER_OK)])]"

section \<open>Descriptors\<close>

definition alloc_desc :: "('z virtio_state_scheme, nat option) kern" where
  "alloc_desc =
     bind (get_vdisk (\<lambda>d. find (vd_free d) [0..<NUM])) (\<lambda>r. case r of
       None \<Rightarrow> ret None
     | Some i \<Rightarrow> bind (set_vdisk (\<lambda>d. d\<lparr>vd_free := (vd_free d)(i := False)\<rparr>)) (\<lambda>_. ret (Some i)))"

definition free_desc :: "nat \<Rightarrow> ('z virtio_state_scheme, unit) kern" where
  "free_desc i = block [
     panic_if (i \<ge> NUM) ''free_desc 1'',
     bind (get_vdisk (\<lambda>d. vd_free d i)) (\<lambda>f. panic_if f ''free_desc 2''),
     set_desc i (\<lambda>_. zero_desc),
     set_vdisk (\<lambda>d. d\<lparr>vd_free := (vd_free d)(i := True)\<rparr>),
     wakeup ChanDisk]"

text \<open>
  \<open>free_desc\<close> panics on a descriptor that is free already, so that a chain has at most \<open>NUM\<close>
  members; more rounds than that are never begun.
\<close>

primrec free_chain_loop :: "nat \<Rightarrow> nat \<Rightarrow> ('z virtio_state_scheme, unit) kern" where
  "free_chain_loop 0 i = panic ''free_chain''"
| "free_chain_loop (Suc k) i =
     bind (get_vdisk (\<lambda>d. vd_desc d i)) (\<lambda>d.
     bind (free_desc i) (\<lambda>_.
       only_if (d_flags d AND VRING_DESC_F_NEXT \<noteq> 0) (free_chain_loop k (unat (d_next d)))))"

definition free_chain :: "nat \<Rightarrow> ('z virtio_state_scheme, unit) kern" where
  "free_chain i = free_chain_loop (Suc NUM) i"

text \<open>The descriptors allocated so far are in \<open>idx\<close>.\<close>

primrec alloc_more :: "nat \<Rightarrow> nat list \<Rightarrow> ('z virtio_state_scheme, nat list option) kern" where
  "alloc_more 0 idx = ret (Some idx)"
| "alloc_more (Suc k) idx =
     bind alloc_desc (\<lambda>r. case r of
       None \<Rightarrow> bind (block (map free_desc idx)) (\<lambda>_. ret None)
     | Some i \<Rightarrow> alloc_more k (idx @ [i]))"

definition alloc3_desc :: "('z virtio_state_scheme, nat list option) kern" where
  "alloc3_desc = alloc_more 3 []"

section \<open>Transfers\<close>

text \<open>
  \<open>virtio_disk_rw\<close> in the pieces between its two \<^verbatim>\<open>sleep\<close>s: \<open>disk_submit\<close> formats the descriptors and
  notifies the device, \<open>disk_wait\<close> is the loop that waits for \<open>virtio_disk_intr\<close> and what follows it,
  \<open>disk_alloc\<close> the loop that waits for descriptors.
\<close>

definition disk_wait :: "nat \<Rightarrow> nat \<Rightarrow> ('z virtio_state_scheme, unit) kern" where
  "disk_wait b i =
     bind (get_buf b b_disk) (\<lambda>d.
       if d = 1 then sleep (ChanBuf b) VdiskLock
       else block [
         set_info i (\<lambda>x. x\<lparr>in_b := None\<rparr>),
         free_chain i,
         on_lk (release VdiskLock)])"

definition disk_wait_return :: "bool \<Rightarrow> nat \<Rightarrow> nat \<Rightarrow> nat \<Rightarrow> ('z virtio_state_scheme, unit) kern" where
  "disk_wait_return ie p b i = bind (sleep_return ie p VdiskLock) (\<lambda>_. disk_wait b i)"

definition disk_submit :: "nat \<Rightarrow> bool \<Rightarrow> u64 \<Rightarrow> nat \<Rightarrow> nat \<Rightarrow> nat \<Rightarrow> ('z virtio_state_scheme, unit) kern" where
  "disk_submit b wr sector i0 i1 i2 = block [
     set_vdisk (\<lambda>d. d\<lparr>vd_ops := (vd_ops d)(i0 :=
       \<lparr>r_type = (if wr then VIRTIO_BLK_T_OUT else VIRTIO_BLK_T_IN), r_reserved = 0, r_sector = sector\<rparr>)\<rparr>),
     set_desc i0 (\<lambda>_. \<lparr>d_addr = OpAddr i0, d_len = 16, d_flags = VRING_DESC_F_NEXT, d_next = of_nat i1\<rparr>),
     set_desc i1 (\<lambda>_. \<lparr>d_addr = DataAddr b, d_len = BSIZE,
       d_flags = (if wr then 0 else VRING_DESC_F_WRITE) OR VRING_DESC_F_NEXT, d_next = of_nat i2\<rparr>),
     set_info i0 (\<lambda>x. x\<lparr>in_status := 0xff\<rparr>),
     set_desc i2 (\<lambda>_. \<lparr>d_addr = StatusAddr i0, d_len = 1, d_flags = VRING_DESC_F_WRITE, d_next = 0\<rparr>),
     set_buf b (\<lambda>x. x\<lparr>b_disk := 1\<rparr>),
     set_info i0 (\<lambda>x. x\<lparr>in_b := Some b\<rparr>),
     set_vdisk (\<lambda>d. let a = vd_avail d in
       d\<lparr>vd_avail := a\<lparr>av_ring := (av_ring a)(unat (av_idx a) mod NUM := of_nat i0)\<rparr>\<rparr>),
     set_vdisk (\<lambda>d. let a = vd_avail d in d\<lparr>vd_avail := a\<lparr>av_idx := av_idx a + 1\<rparr>\<rparr>),
     R_write VIRTIO_MMIO_QUEUE_NOTIFY 0,
     disk_wait b i0]"

definition disk_alloc :: "nat \<Rightarrow> bool \<Rightarrow> u64 \<Rightarrow> ('z virtio_state_scheme, unit) kern" where
  "disk_alloc b wr sector =
     bind alloc3_desc (\<lambda>r. case r of
       None \<Rightarrow> sleep ChanDisk VdiskLock
     | Some idx \<Rightarrow> disk_submit b wr sector (idx ! 0) (idx ! 1) (idx ! 2))"

definition disk_alloc_return :: "bool \<Rightarrow> nat \<Rightarrow> nat \<Rightarrow> bool \<Rightarrow> u64 \<Rightarrow> ('z virtio_state_scheme, unit) kern" where
  "disk_alloc_return ie p b wr sector = bind (sleep_return ie p VdiskLock) (\<lambda>_. disk_alloc b wr sector)"

text \<open>The sector number is computed with 32 bits.\<close>

definition virtio_disk_rw :: "nat \<Rightarrow> bool \<Rightarrow> ('z virtio_state_scheme, unit) kern" where
  "virtio_disk_rw b wr =
     bind (get_buf b b_blockno) (\<lambda>n.
     bind (on_lk (acquire VdiskLock)) (\<lambda>_. disk_alloc b wr (ucast (n * (BSIZE div 512)))))"

definition disk_intr_step :: "('z virtio_state_scheme, bool) kern" where
  "disk_intr_step =
     bind (get_vdisk id) (\<lambda>d.
       if vd_used_idx d = us_idx (vd_used d) then ret False
       else
         let i = unat (u_id (us_ring (vd_used d) (unat (vd_used_idx d) mod NUM))) in
         if i \<ge> NUM then undefined_behaviour
         else
           bind (panic_if (in_status (vd_info d i) \<noteq> 0) ''virtio_disk_intr status'') (\<lambda>_.
             case in_b (vd_info d i) of
               None \<Rightarrow> undefined_behaviour
             | Some b \<Rightarrow>
                 bind (block [
                   set_buf b (\<lambda>x. x\<lparr>b_disk := 0\<rparr>),
                   wakeup (ChanBuf b),
                   set_vdisk (\<lambda>d. d\<lparr>vd_used_idx := vd_used_idx d + 1\<rparr>)]) (\<lambda>_. ret True)))"

definition virtio_disk_intr :: "('z virtio_state_scheme, unit) kern" where
  "virtio_disk_intr = block [
     on_lk (acquire VdiskLock),
     bind (R_read VIRTIO_MMIO_INTERRUPT_STATUS) (\<lambda>v. R_write VIRTIO_MMIO_INTERRUPT_ACK (v AND 3)),
     loop_while disk_intr_step,
     on_lk (release VdiskLock)]"

end
