(* ===== verification/Xv6_Trap.thy ===== *)
theory Xv6_Trap
  imports Xv6_Virtio
begin

unbundle bit_operations_syntax

text \<open>
  Traps, interrupts and the start of the kernel: \<^verbatim>\<open>kernel/trap.c\<close>, \<^verbatim>\<open>kernel/plic.c\<close>, \<open>forkret\<close>
  of \<^verbatim>\<open>kernel/proc.c\<close>, \<^verbatim>\<open>kernel/main.c\<close> and \<^verbatim>\<open>kernel/start.c\<close>. Control registers are kept per
  hart; the addresses that the linker gives to assembly code are constants of the state.
  A function that returns to user space has as its result the address it jumps to in the
  trampoline page and the argument it passes there.
\<close>

section \<open>State\<close>

record trap_state = virtio_state +
  stvec :: "nat \<Rightarrow> u64"
  sepc :: "nat \<Rightarrow> u64"
  scause :: "nat \<Rightarrow> u64"
  stval :: "nat \<Rightarrow> u64"
  sip :: "nat \<Rightarrow> u64"
  started :: int
  kernelvec_addr :: u64
  uservec_addr :: u64
  userret_addr :: u64
  usertrap_addr :: u64

definition cpuid_k :: "('z kbase_scheme, nat) kern" where
  "cpuid_k = gets (\<lambda>s. cpuid (lk s))"

definition r_sstatus :: "('z kbase_scheme, u64) kern" where
  "r_sstatus = gets (\<lambda>s. sstatus (lk s) (hart (lk s)))"

definition w_sstatus :: "u64 \<Rightarrow> ('z kbase_scheme, unit) kern" where
  "w_sstatus x = on_lk (modify (\<lambda>L. L\<lparr>sstatus := (sstatus L)(hart L := x)\<rparr>))"

definition r_satp :: "('z vm_state_scheme, u64) kern" where
  "r_satp = gets (\<lambda>s. satp s (hart (lk s)))"

definition r_tp :: "('z kbase_scheme, u64) kern" where
  "r_tp = gets (\<lambda>s. of_nat (hart (lk s)))"

definition w_stvec :: "u64 \<Rightarrow> ('z trap_state_scheme, unit) kern" where
  "w_stvec x = modify (\<lambda>s. s\<lparr>stvec := (stvec s)(hart (lk s) := x)\<rparr>)"

definition r_sepc :: "('z trap_state_scheme, u64) kern" where
  "r_sepc = gets (\<lambda>s. sepc s (hart (lk s)))"

definition w_sepc :: "u64 \<Rightarrow> ('z trap_state_scheme, unit) kern" where
  "w_sepc x = modify (\<lambda>s. s\<lparr>sepc := (sepc s)(hart (lk s) := x)\<rparr>)"

definition r_scause :: "('z trap_state_scheme, u64) kern" where
  "r_scause = gets (\<lambda>s. scause s (hart (lk s)))"

definition r_stval :: "('z trap_state_scheme, u64) kern" where
  "r_stval = gets (\<lambda>s. stval s (hart (lk s)))"

definition r_sip :: "('z trap_state_scheme, u64) kern" where
  "r_sip = gets (\<lambda>s. sip s (hart (lk s)))"

definition w_sip :: "u64 \<Rightarrow> ('z trap_state_scheme, unit) kern" where
  "w_sip x = modify (\<lambda>s. s\<lparr>sip := (sip s)(hart (lk s) := x)\<rparr>)"

section \<open>The interrupt controller\<close>

abbreviation (input) UART0_IRQ :: "'a::numeral" where "UART0_IRQ \<equiv> 10"
abbreviation (input) VIRTIO0_IRQ :: "'a::one" where "VIRTIO0_IRQ \<equiv> 1"

definition PLIC_SENABLE :: "nat \<Rightarrow> u64" where "PLIC_SENABLE h = PLIC + 0x2080 + of_nat h * 0x100"
definition PLIC_SPRIORITY :: "nat \<Rightarrow> u64" where "PLIC_SPRIORITY h = PLIC + 0x201000 + of_nat h * 0x2000"
definition PLIC_SCLAIM :: "nat \<Rightarrow> u64" where "PLIC_SCLAIM h = PLIC + 0x201004 + of_nat h * 0x2000"

definition plicinit :: "('z virtio_state_scheme, unit) kern" where
  "plicinit = block [io_write (PLIC + UART0_IRQ * 4) 1, io_write (PLIC + VIRTIO0_IRQ * 4) 1]"

definition plicinithart :: "('z virtio_state_scheme, unit) kern" where
  "plicinithart =
     bind cpuid_k (\<lambda>h. block [
       io_write (PLIC_SENABLE h) (push_bit UART0_IRQ 1 OR push_bit VIRTIO0_IRQ 1),
       io_write (PLIC_SPRIORITY h) 0])"

definition plic_claim :: "('z virtio_state_scheme, int) kern" where
  "plic_claim = bind cpuid_k (\<lambda>h. bind (io_read (PLIC_SCLAIM h)) (\<lambda>v. ret (sint v)))"

definition plic_complete :: "int \<Rightarrow> ('z virtio_state_scheme, unit) kern" where
  "plic_complete irq = bind cpuid_k (\<lambda>h. io_write (PLIC_SCLAIM h) (of_int irq))"

section \<open>Traps\<close>

definition trapinit :: "('z kbase_scheme, unit) kern" where
  "trapinit = on_lk (initlock TicksLock ''time'')"

definition trapinithart :: "('z trap_state_scheme, unit) kern" where
  "trapinithart = bind (gets kernelvec_addr) w_stvec"

definition clockintr :: "('z sys_state_scheme, unit) kern" where
  "clockintr = block [
     on_lk (acquire TicksLock),
     modify (\<lambda>s. s\<lparr>ticks := ticks s + 1\<rparr>),
     wakeup ChanTicks,
     on_lk (release TicksLock)]"

definition devintr :: "('z trap_state_scheme, int) kern" where
  "devintr =
     bind r_scause (\<lambda>sc.
       if sc AND 0x8000000000000000 \<noteq> 0 \<and> sc AND 0xff = 9 then
         bind plic_claim (\<lambda>irq.
         bind (block [
           (if irq = UART0_IRQ then uartintr
            else if irq = VIRTIO0_IRQ then virtio_disk_intr
            else only_if (irq \<noteq> 0) (kprintln ''unexpected interrupt irq=%d'' [ArgInt (of_int irq)])),
           only_if (irq \<noteq> 0) (plic_complete irq)]) (\<lambda>_. ret 1))
       else if sc = 0x8000000000000001 then
         bind cpuid_k (\<lambda>h.
         bind (block [
           only_if (h = 0) clockintr,
           bind r_sip (\<lambda>x. w_sip (x AND NOT 2))]) (\<lambda>_. ret 2))
       else ret 0)"

definition usertrapret :: "('z trap_state_scheme, u64 \<times> u64) kern" where
  "usertrapret =
     bind curproc (\<lambda>p.
     bind (on_lk (modify intr_off)) (\<lambda>_.
     bind (gets id) (\<lambda>s.
     bind (w_stvec (TRAMPOLINE + (uservec_addr s - trampoline s))) (\<lambda>_.
     bind r_satp (\<lambda>ksatp.
     bind r_tp (\<lambda>tp.
     bind (get_proc p p_kstack) (\<lambda>ks.
     bind (set_tf p (\<lambda>t. t\<lparr>tf_kernel_satp := ksatp, tf_kernel_sp := ks + PGSIZE,
       tf_kernel_trap := usertrap_addr s, tf_kernel_hartid := tp\<rparr>)) (\<lambda>_.
     bind r_sstatus (\<lambda>x.
     bind (w_sstatus ((x AND NOT SSTATUS_SPP) OR SSTATUS_SPIE)) (\<lambda>_.
     bind (get_tf p tf_epc) (\<lambda>epc.
     bind (w_sepc epc) (\<lambda>_.
     bind (get_proc p p_pagetable) (\<lambda>pt.
       ret (TRAMPOLINE + (userret_addr s - trampoline s), MAKE_SATP pt))))))))))))))"

text \<open>\<open>usertrap\<close> once the cause has been handled; the resumed half follows a \<^verbatim>\<open>yield\<close>.\<close>

definition usertrap_finish :: "nat \<Rightarrow> int \<Rightarrow> ('z trap_state_scheme, u64 \<times> u64) kern" where
  "usertrap_finish p which_dev =
     bind (killed p) (\<lambda>k.
     bind (only_if (k \<noteq> 0) (exit (- 1))) (\<lambda>_.
     bind (only_if (which_dev = 2) yield) (\<lambda>_. usertrapret)))"

definition usertrap_return :: "bool \<Rightarrow> nat \<Rightarrow> ('z trap_state_scheme, u64 \<times> u64) kern" where
  "usertrap_return ie p = bind (yield_return ie p) (\<lambda>_. usertrapret)"

definition usertrap :: "('z trap_state_scheme, u64 \<times> u64) kern" where
  "usertrap =
     bind r_sstatus (\<lambda>st.
     bind (panic_if (st AND SSTATUS_SPP \<noteq> 0) ''usertrap: not from user mode'') (\<lambda>_.
     bind (gets kernelvec_addr) (\<lambda>kv.
     bind (w_stvec kv) (\<lambda>_.
     bind curproc (\<lambda>p.
     bind r_sepc (\<lambda>pc.
     bind (set_tf p (\<lambda>t. t\<lparr>tf_epc := pc\<rparr>)) (\<lambda>_.
     bind r_scause (\<lambda>sc.
       if sc = 8 then
         bind (killed p) (\<lambda>k.
         bind (block [
           only_if (k \<noteq> 0) (exit (- 1)),
           set_tf p (\<lambda>t. t\<lparr>tf_epc := tf_epc t + 4\<rparr>),
           on_lk (modify intr_on),
           syscall]) (\<lambda>_. usertrap_finish p 0))
       else
         bind devintr (\<lambda>which_dev.
           if which_dev \<noteq> 0 then usertrap_finish p which_dev
           else
             bind (get_proc p p_pid) (\<lambda>pid.
             bind r_stval (\<lambda>sv.
             bind (block [
               kprintln ''usertrap(): unexpected scause %p pid=%d'' [ArgPtr sc, ArgInt (of_int pid)],
               kprintln ''            sepc=%p stval=%p'' [ArgPtr pc, ArgPtr sv],
               setkilled p]) (\<lambda>_. usertrap_finish p 0))))))))))))"

text \<open>The end of \<open>kerneltrap\<close>, also when it is switched to again after a \<^verbatim>\<open>yield\<close>.\<close>

definition kerneltrap_finish :: "u64 \<Rightarrow> u64 \<Rightarrow> ('z trap_state_scheme, unit) kern" where
  "kerneltrap_finish pc st = block [w_sepc pc, w_sstatus st]"

definition kerneltrap_return :: "bool \<Rightarrow> nat \<Rightarrow> u64 \<Rightarrow> u64 \<Rightarrow> ('z trap_state_scheme, unit) kern" where
  "kerneltrap_return ie p pc st = bind (yield_return ie p) (\<lambda>_. kerneltrap_finish pc st)"

definition kerneltrap :: "('z trap_state_scheme, unit) kern" where
  "kerneltrap =
     bind r_sepc (\<lambda>pc.
     bind r_sstatus (\<lambda>st.
     bind r_scause (\<lambda>sc.
     bind (panic_if (st AND SSTATUS_SPP = 0) ''kerneltrap: not from supervisor mode'') (\<lambda>_.
     bind (gets (\<lambda>s. intr_get (lk s))) (\<lambda>i.
     bind (panic_if i ''kerneltrap: interrupts enabled'') (\<lambda>_.
     bind devintr (\<lambda>which_dev.
     bind (only_if (which_dev = 0) (
       bind r_sepc (\<lambda>pc'.
       bind r_stval (\<lambda>sv. block [
         kprintln ''scause %p'' [ArgPtr sc],
         kprintln ''sepc=%p stval=%p'' [ArgPtr pc', ArgPtr sv],
         panic ''kerneltrap''])))) (\<lambda>_.
     bind (only_if (which_dev = 2) (
       bind myproc (\<lambda>m. case m of
         None \<Rightarrow> ret ()
       | Some _ \<Rightarrow>
           bind curproc (\<lambda>p.
           bind (get_proc p p_state) (\<lambda>q. only_if (q = RUNNING) yield))))) (\<lambda>_.
     kerneltrap_finish pc st)))))))))"

text \<open>The first run of a process.\<close>

definition forkret :: "('z trap_state_scheme, u64 \<times> u64) kern" where
  "forkret =
     bind curproc (\<lambda>p.
     bind (on_lk (release (ProcLock p))) (\<lambda>_.
     bind (gets forkret_first) (\<lambda>f.
     bind (only_if (f \<noteq> 0) (block [
       modify (\<lambda>s. s\<lparr>forkret_first := 0\<rparr>),
       fsinit ROOTDEV])) (\<lambda>_. usertrapret))))"

section \<open>Starting the kernel\<close>

text \<open>\<open>main\<close> up to the loop of \<open>scheduler\<close>.\<close>

definition main :: "('z trap_state_scheme, unit) kern" where
  "main =
     bind cpuid_k (\<lambda>h.
     bind (if h = 0 then block [
       consoleinit,
       printfinit,
       kprintln '''' [],
       kprintln ''xv6 kernel is booting'' [],
       kprintln '''' [],
       kinit,
       kvminit,
       kvminithart,
       procinit,
       trapinit,
       trapinithart,
       plicinit,
       plicinithart,
       binit,
       iinit,
       fileinit,
       virtio_disk_init,
       userinit,
       modify (\<lambda>s. s\<lparr>started := 1\<rparr>)]
     else block [
       loop_while (gets (\<lambda>s. started s = 0)),
       bind cpuid_k (\<lambda>c. kprintln ''hart %d starting'' [ArgInt (of_nat c)]),
       kvminithart,
       trapinithart,
       plicinithart]) (\<lambda>_. scheduler_init))"

text \<open>
  Machine mode: the control registers of one hart, the timer registers of the CLINT and
  \<^verbatim>\<open>timer_scratch\<close>. \<^verbatim>\<open>mret\<close> continues at \<open>mepc\<close> in the mode that \<open>mstatus\<close> holds.
\<close>

record machine =
  mhartid :: u64
  mstatus :: u64
  mepc :: u64
  m_satp :: u64
  medeleg :: u64
  mideleg :: u64
  m_sie :: u64
  pmpaddr0 :: u64
  pmpcfg0 :: u64
  mscratch :: u64
  mtvec :: u64
  mie :: u64
  m_tp :: u64
  clint :: "u64 \<Rightarrow> u64"
  timer_scratch :: "nat \<Rightarrow> u64 list"

abbreviation (input) CLINT :: u64 where "CLINT \<equiv> 0x2000000"
abbreviation (input) CLINT_MTIME :: u64 where "CLINT_MTIME \<equiv> CLINT + 0xBFF8"
definition CLINT_MTIMECMP :: "u64 \<Rightarrow> u64" where "CLINT_MTIMECMP h = CLINT + 0x4000 + 8 * h"

abbreviation (input) MSTATUS_MPP_MASK :: u64 where "MSTATUS_MPP_MASK \<equiv> 0x1800"
abbreviation (input) MSTATUS_MPP_S :: u64 where "MSTATUS_MPP_S \<equiv> 0x800"
abbreviation (input) MSTATUS_MIE :: u64 where "MSTATUS_MIE \<equiv> 8"
abbreviation (input) MIE_MTIE :: u64 where "MIE_MTIE \<equiv> 0x80"
abbreviation (input) SIE_SEIE :: u64 where "SIE_SEIE \<equiv> 0x200"
abbreviation (input) SIE_STIE :: u64 where "SIE_STIE \<equiv> 0x20"
abbreviation (input) SIE_SSIE :: u64 where "SIE_SSIE \<equiv> 2"

text \<open>\<open>scratch\<close> is the address of \<^verbatim>\<open>timer_scratch\<close>, whose rows take 40 bytes, \<open>vec\<close> that of \<^verbatim>\<open>timervec\<close>.\<close>

definition timerinit :: "u64 \<Rightarrow> u64 \<Rightarrow> machine \<Rightarrow> machine" where
  "timerinit scratch vec m =
     (let id = scast (ucast (mhartid m) :: u32); h = unat id; interval = 1000000;
        m = m\<lparr>clint := (clint m)(CLINT_MTIMECMP id := clint m CLINT_MTIME + interval)\<rparr>;
        m = m\<lparr>timer_scratch := (timer_scratch m)(h := (timer_scratch m h)[3 := CLINT_MTIMECMP id, 4 := interval])\<rparr>;
        m = m\<lparr>mscratch := scratch + 40 * id\<rparr>;
        m = m\<lparr>mtvec := vec\<rparr>;
        m = m\<lparr>mstatus := mstatus m OR MSTATUS_MIE\<rparr>
      in m\<lparr>mie := mie m OR MIE_MTIE\<rparr>)"

definition start :: "u64 \<Rightarrow> u64 \<Rightarrow> u64 \<Rightarrow> machine \<Rightarrow> machine" where
  "start main_addr scratch vec m =
     (let x = mstatus m;
        x = x AND NOT MSTATUS_MPP_MASK;
        x = x OR MSTATUS_MPP_S;
        m = m\<lparr>mstatus := x\<rparr>;
        m = m\<lparr>mepc := main_addr\<rparr>;
        m = m\<lparr>m_satp := 0\<rparr>;
        m = m\<lparr>medeleg := 0xffff\<rparr>;
        m = m\<lparr>mideleg := 0xffff\<rparr>;
        m = m\<lparr>m_sie := m_sie m OR SIE_SEIE OR SIE_STIE OR SIE_SSIE\<rparr>;
        m = m\<lparr>pmpaddr0 := 0x3fffffffffffff\<rparr>;
        m = m\<lparr>pmpcfg0 := 0xf\<rparr>;
        m = timerinit scratch vec m
      in m\<lparr>m_tp := scast (ucast (mhartid m) :: u32)\<rparr>)"

end
