(* ===== verification/Xv6_Content.thy ===== *)
theory Xv6_Content
  imports Xv6_Fs
begin

text \<open>
  What the file system stores: the formats of \<^verbatim>\<open>kernel/fs.h\<close> are read back as they were written,
  the bitmap is a set of free blocks, and the bytes of a file are the concatenation of the
  blocks that its inode lists. Everything runs inside a transaction, \<open>tx p pid s B H\<close>: process \<open>p\<close>
  runs, \<open>B\<close> is the contents of all blocks as the cache represents them and \<open>H\<close> the blocks locked.
\<close>

section \<open>One block in a transaction\<close>

lemma tx_step_fs:
  fixes s t :: "'z fs_state_scheme"
  assumes "tx_step s t"
  shows "sb t = sb s" "itable t = itable s" "fs_state.more t = fs_state.more s"
  using tx_step_same(13) [OF assms] by (cases s; cases t; simp)+

lemma set_inode_run [kern_simps, simp]: "set_inode i f s = Ok () (s\<lparr>itable := (itable s)(i := f (itable s i))\<rparr>)"
  by (simp add: set_inode_def)

lemma get_inode_run [kern_simps, simp]: "get_inode i f s = Ok (f (itable s i)) s"
  by (simp add: get_inode_def)

text \<open>Looking at a block.\<close>

lemma tx_peek:
  fixes s :: "'z log_state_scheme"
  assumes T: "tx p pid s B H" and b: "b \<notin> H" and n: "length (lhome s) + card H < NBUF"
  obtains i u t where "bread ROOTDEV b s = Ok i u" "b_data (bufs u i) = B b" "brelse i u = Ok () t"
    "tx p pid t B H" "tx_step s t" "lhome t = lhome s" "tx_step s u" "tx p pid u B (insert b H)"
proof -
  obtain i u where r: "bread ROOTDEV b s = Ok i u" "tx_step s u" "tx p pid u B (insert b H)" "has_buf u b i" "lhome u = lhome s"
    "b_data (bufs u i) = B b" "b \<notin> set (lhome s) \<Longrightarrow> B b = disk u b"
    using tx_bread [OF T b n] by metis
  obtain t where "brelse i u = Ok () t" "tx_step u t" "tx p pid t B (insert b H - {b})" "lhome t = lhome u"
    using tx_brelse [OF r(3,4)] r(5,7) by (metis insertI1)
  with r b show thesis by (intro that [of i u t]) (auto intro: tx_step_trans)
qed

text \<open>Changing a block: read, modify, log, release.\<close>

lemma tx_update:
  fixes s :: "'z log_state_scheme"
  assumes T: "tx p pid s B H" and b: "b \<notin> H" "\<not> in_log (log_start s) b" and n: "length (lhome s) + card H < NBUF"
    and lg: "int (length (lhome s)) < log_size s - 1" and f: "length (f (B b)) = BSIZE"
  obtains i u v w t where "bread ROOTDEV b s = Ok i u" "b_data (bufs u i) = B b" "set_data i f u = Ok () v"
    "log_write i v = Ok () w" "brelse i w = Ok () t" "tx p pid t (B(b := f (B b))) H" "tx_step s t" "tx_step s u"
    "lhome t = (if b \<in> set (lhome s) then lhome s else lhome s @ [b])" "tx p pid u B (insert b H)"
proof -
  obtain i u where r: "bread ROOTDEV b s = Ok i u" "tx_step s u" "tx p pid u B (insert b H)" "has_buf u b i" "lhome u = lhome s"
    "b_data (bufs u i) = B b"
    using tx_bread [OF T b(1) n] by metis
  let ?v = "u\<lparr>bufs := (bufs u)(i := (bufs u i)\<lparr>b_data := f (B b)\<rparr>)\<rparr>"
  have s: "set_data i f u = Ok () ?v" using r(6) by (simp add: set_data_def set_buf_def)
  note v = tx_set [OF r(3,4) insertI1 f refl]
  have l: "log_start ?v = log_start s" "log_size ?v = log_size s" using tx_step_same [OF r(2)] by simp_all
  obtain w where w: "log_write i ?v = Ok () w" "tx_step ?v w" "tx p pid w (B(b := f (B b))) (insert b H)"
    "lhome w = (if b \<in> set (lhome s) then lhome s else lhome s @ [b])" "has_buf w b i"
    using tx_log_write [OF v(1) v(2) [OF r(4)] insertI1] b(2) lg l r(5) v(4) v(2) [OF r(4)] by (metis (no_types, lifting))
  then have "b \<in> set (lhome w)" by simp
  then obtain t where "brelse i w = Ok () t" "tx_step w t" "tx p pid t (B(b := f (B b))) (insert b H - {b})" "lhome t = lhome w"
    using tx_brelse [OF w(3,5) insertI1] by metis
  with r(1,2,3,6) s w(1,2,4) v(3) b(1) show thesis
    by (intro that [of i u ?v w t]) (auto intro: tx_step_trans)
qed

section \<open>The formats of inodes and directory entries\<close>

lemma put_words_length [simp]: "i + 4 * length ws \<le> length d \<Longrightarrow> length (put_words d i ws) = length d"
  by (induction ws arbitrary: d i) simp_all

lemma put_words_other:
  "i + 4 * length ws \<le> length d \<Longrightarrow> j + 4 \<le> i \<or> i + 4 * length ws \<le> j \<Longrightarrow> get32 (put_words d i ws) j = get32 d j"
  "i + 4 * length ws \<le> length d \<Longrightarrow> j + 2 \<le> i \<or> i + 4 * length ws \<le> j \<Longrightarrow> get16 (put_words d i ws) j = get16 d j"
  by (induction ws arbitrary: d i) (auto simp: get_put_other)

lemma put_words_same: "i + 4 * length ws \<le> length d \<Longrightarrow> k < length ws \<Longrightarrow> get32 (put_words d i ws) (i + 4 * k) = ws ! k"
proof (induction ws arbitrary: d i k)
  case (Cons w ws)
  show ?case
  proof (cases k)
    case 0
    with Cons.prems show ?thesis by (simp add: put_words_other)
  next
    case (Suc m)
    with Cons.prems Cons.IH [of "i + 4" "put32 d i w" m] show ?thesis by (simp add: algebra_simps)
  qed
qed simp

lemma put_dinode_length [simp]:
  "length d = BSIZE \<Longrightarrow> k < IPB \<Longrightarrow> length (di_addrs di) = NDIRECT + 1 \<Longrightarrow> length (put_dinode d k di) = BSIZE"
  by (simp add: put_dinode_def)

lemma put_words_all:
  "i + 4 * n \<le> length d \<Longrightarrow> length ws = n \<Longrightarrow> map (\<lambda>k. get32 (put_words d i ws) (i + 4 * k)) [0..<n] = ws"
  by (rule nth_equalityI) (simp_all add: put_words_same)

lemma get_put_dinode:
  assumes "length d = BSIZE" "k < IPB" "length (di_addrs di) = NDIRECT + 1"
  shows "get_dinode (put_dinode d k di) k = di"
  using assms
  by (cases di) (simp add: get_dinode_def put_dinode_def put_words_other put_words_all get_put_other del: upt_rec_numeral upt_Suc)

lemma get_put_dinode_other:
  assumes "length d = BSIZE" "k < IPB" "j < IPB" "j \<noteq> k" "length (di_addrs di) = NDIRECT + 1"
  shows "get_dinode (put_dinode d k di) j = get_dinode d j"
proof -
  consider "DINODE * j + DINODE \<le> DINODE * k" | "DINODE * k + DINODE \<le> DINODE * j"
    using assms(4) by (metis add.commute mult_Suc_right mult_le_mono2 not_less_eq_eq linorder_neqE_nat Suc_leI)
  then show ?thesis
    using assms by cases (simp_all add: get_dinode_def put_dinode_def put_words_other get_put_other del: upt_rec_numeral upt_Suc)
qed

lemma get_put_dirent: "length (de_name de) = DIRSIZ \<Longrightarrow> get_dirent (put_dirent de) = de"
  by (cases de) (simp add: get_dirent_def put_dirent_def get16_def Xv6_Prelude.slice_def le_word_bytes)

section \<open>The blocks and the bytes of a file\<close>

definition fblock :: "(u32 \<Rightarrow> u8 list) \<Rightarrow> inode \<Rightarrow> nat \<Rightarrow> u32" where
  "fblock B ip k = (if k < NDIRECT then i_addrs ip ! k else get32 (B (i_addrs ip ! NDIRECT)) (4 * (k - NDIRECT)))"

definition has_block :: "(u32 \<Rightarrow> u8 list) \<Rightarrow> inode \<Rightarrow> nat \<Rightarrow> bool" where
  "has_block B ip k \<longleftrightarrow> k < MAXFILE \<and> fblock B ip k \<noteq> 0 \<and> (NDIRECT \<le> k \<longrightarrow> i_addrs ip ! NDIRECT \<noteq> 0)"

definition file_bytes :: "(u32 \<Rightarrow> u8 list) \<Rightarrow> inode \<Rightarrow> nat \<Rightarrow> nat \<Rightarrow> u8 list" where
  "file_bytes B ip off n = map (\<lambda>j. B (fblock B ip (j div BSIZE)) ! (j mod BSIZE)) [off..<off + n]"

lemma length_file_bytes [simp]: "length (file_bytes B ip off n) = n"
  by (simp add: file_bytes_def)

lemma file_bytes_append: "file_bytes B ip off (m + n) = file_bytes B ip off m @ file_bytes B ip (off + m) n"
  by (simp add: file_bytes_def add.assoc [symmetric] upt_add_eq_append [of off "off + m"])

lemma file_bytes_block:
  assumes "m \<le> BSIZE - off mod BSIZE" "length (B (fblock B ip (off div BSIZE))) = BSIZE"
  shows "file_bytes B ip off m = slice (B (fblock B ip (off div BSIZE))) (off mod BSIZE) m"
proof (rule nth_equalityI)
  fix j
  assume "j < length (file_bytes B ip off m)"
  then have "(off + j) div BSIZE = off div BSIZE" "(off + j) mod BSIZE = off mod BSIZE + j" "j < m"
    using assms(1) div_add1_eq [of off j BSIZE] mod_add_eq [of off BSIZE j] by (simp_all add: div_nat_eqI mod_less)
  with assms show "file_bytes B ip off m ! j = slice (B (fblock B ip (off div BSIZE))) (off mod BSIZE) m ! j"
    by (simp add: file_bytes_def Xv6_Prelude.slice_def)
qed (use assms in simp)

lemma bmap_mapped:
  fixes s :: "'z fs_state_scheme"
  assumes T: "tx p pid s B {}" and ip: "i_dev (itable s i) = ROOTDEV" and b: "has_block B (itable s i) (unat bn)"
  obtains t where "bmap i bn s = Ok (fblock B (itable s i) (unat bn)) t" "tx p pid t B {}" "tx_step s t" "lhome t = lhome s"
proof (cases "unat bn < NDIRECT")
  case True
  then show thesis using that [of s] T b by (simp add: bmap_def has_block_def fblock_def bind_run)
next
  case False
  let ?ind = "i_addrs (itable s i) ! NDIRECT"
  have n: "length (lhome s) + card ({} :: u32 set) < NBUF" using txD(5) [OF T] by simp
  have e: "?ind \<notin> {}" by simp
  obtain k u t where "bread ROOTDEV ?ind s = Ok k u" "b_data (bufs u k) = B ?ind" "brelse k u = Ok () t"
    "tx p pid t B {}" "tx_step s t" "lhome t = lhome s"
    using tx_peek [OF T e n] by metis
  then show thesis
    using False b ip by (intro that [of t]) (simp_all add: bmap_def has_block_def fblock_def bind_run get_buf_def less_diff_conv2)
qed

text \<open>\<open>readi\<close> into a variable of the kernel.\<close>

lemma tx_myproc: "tx p pid s B H \<Longrightarrow> myproc s = Ok (Some p) s"
  using txD(3) [of p pid s B H] runs_as_locks [of p s] by (simp add: myproc_run runs_as_def)

lemma rw_part_step:
  assumes "tot < n" "unat off + unat (n - tot) < 2 ^ 32"
  shows "unat (n - (tot + rw_part n tot off)) = unat (n - tot) - unat (rw_part n tot off)"
    "unat (off + rw_part n tot off) = unat off + unat (rw_part n tot off)" "tot + rw_part n tot off \<le> n"
proof -
  let ?m = "rw_part n tot off"
  note m = rw_part_bounds [OF assms(1), of off]
  show "unat (n - (tot + ?m)) = unat (n - tot) - unat ?m" using m(2) by (simp add: diff_diff_eq [symmetric] unat_sub word_le_nat_alt)
  show "unat (off + ?m) = unat off + unat ?m" using m(2) assms(2) by (simp add: unat_word_ariths)
  have n: "unat tot + unat (n - tot) = unat n" using assms(1) by (simp add: unat_sub word_le_nat_alt word_less_nat_alt)
  have "unat n < 2 ^ 32" by simp
  with n m(2) have "unat tot + unat ?m < 2 ^ 32" by linarith
  then have "unat (tot + ?m) = unat tot + unat ?m" by (simp add: unat_word_ariths)
  with n m(2) show "tot + ?m \<le> n" by (simp add: word_le_nat_alt)
qed

lemma readi_loop_local:
  fixes s :: "'z fs_state_scheme"
  assumes "tx p pid s B {}" "i_dev (itable s i) = ROOTDEV" "tot \<le> n" "unat off + unat (n - tot) < 2 ^ 32"
    "\<And>j. unat off \<le> j \<Longrightarrow> j < unat off + unat (n - tot) \<Longrightarrow> has_block B (itable s i) (j div BSIZE)"
  shows "\<exists>t. readi_loop i LocalDst off n tot s = Ok (n, file_bytes B (itable s i) (unat off) (unat (n - tot))) t \<and>
    tx p pid t B {} \<and> tx_step s t \<and> lhome t = lhome s"
  using assms
proof (induction "unat (n - tot)" arbitrary: off tot s rule: less_induct)
  case less
  let ?ip = "itable s i"
  show ?case
  proof (cases "tot < n")
    case False
    then have "tot = n" using less.prems(3) by simp
    then show ?thesis using less.prems(1) by (subst readi_loop.simps) (auto simp: file_bytes_def)
  next
    case True
    let ?m = "rw_part n tot off" and ?a = "fblock B ?ip (unat (off div 1024))"
    note m = rw_part_bounds [OF True, of off]
    have o: "unat (off div 1024) = unat off div BSIZE" "unat (off mod 1024) = unat off mod BSIZE" by (simp_all add: unat_div unat_mod)
    have h: "has_block B ?ip (unat (off div 1024))" using less.prems(5) [of "unat off"] m unfolding o by simp
    obtain u where u: "bmap i (off div 1024) s = Ok ?a u" "tx p pid u B {}" "tx_step s u" "lhome u = lhome s"
      using bmap_mapped [OF less.prems(1,2) h] by metis
    have e: "?a \<notin> {}" and n: "length (lhome u) + card ({} :: u32 set) < NBUF" using txD(5) [OF u(2)] by simp_all
    obtain k v w where v: "bread ROOTDEV ?a u = Ok k v" "b_data (bufs v k) = B ?a" "brelse k v = Ok () w"
      "tx p pid w B {}" "tx_step u w" "lhome w = lhome u" "tx p pid v B {?a}"
      using tx_peek [OF u(2) e n] by metis
    have w: "tx_step s w" "itable w = itable s" "itable u = itable s"
      using tx_step_trans [OF u(3) v(5)] tx_step_fs(2) u(3) by auto
    note d = rw_part_step [OF True less.prems(4)]
    have "\<exists>t. readi_loop i LocalDst (off + ?m) n (tot + ?m) w =
        Ok (n, file_bytes B ?ip (unat (off + ?m)) (unat (n - (tot + ?m)))) t \<and> tx p pid t B {} \<and> tx_step w t \<and> lhome t = lhome w"
      using less.hyps [of "tot + ?m" w "off + ?m"] v(4) less.prems(2,4,5) w(2) d m by simp
    then obtain t where t: "readi_loop i LocalDst (off + ?m) n (tot + ?m) w =
        Ok (n, file_bytes B ?ip (unat off + unat ?m) (unat (n - tot) - unat ?m)) t"
      "tx p pid t B {}" "tx_step w t" "lhome t = lhome w" unfolding d by blast
    have "file_bytes B ?ip (unat off) (unat (n - tot)) =
      slice (B ?a) (unat (off mod 1024)) (unat ?m) @ file_bytes B ?ip (unat off + unat ?m) (unat (n - tot) - unat ?m)"
      using file_bytes_append [of B ?ip "unat off" "unat ?m" "unat (n - tot) - unat ?m"] file_bytes_block [of "unat ?m" "unat off" B ?ip]
        m(2,3) txD(4) [OF less.prems(1)] by (simp add: o)
    moreover have "?a \<noteq> 0" using h by (simp add: has_block_def)
    ultimately have "readi_loop i LocalDst off n tot s = Ok (n, file_bytes B ?ip (unat off) (unat (n - tot))) t"
      using True u(1) v(1-3) t(1) less.prems(2) w(3) tx_myproc [OF v(7)]
      by (subst readi_loop.simps) (simp add: bind_run get_buf_def copy_to_def Let_def)
    then show ?thesis using t(2-4) tx_step_trans [OF w(1) t(3)] v(6) u(4) by auto
  qed
qed

text \<open>How many bytes \<open>readi\<close> returns.\<close>

definition read_len :: "u32 \<Rightarrow> u32 \<Rightarrow> u32 \<Rightarrow> nat" where
  "read_len sz off n = (if unat off + unat n < 2 ^ 32 then min (unat n) (unat sz - unat off) else 0)"

definition file_mapped :: "(u32 \<Rightarrow> u8 list) \<Rightarrow> inode \<Rightarrow> nat \<Rightarrow> bool" where
  "file_mapped B ip sz \<longleftrightarrow> (\<forall>j < sz. has_block B ip (j div BSIZE))"

lemma file_mapped_bound:
  assumes "file_mapped B ip sz"
  shows "sz \<le> MAXFILE * BSIZE"
proof (rule ccontr)
  assume "\<not> ?thesis"
  then show False using assms [unfolded file_mapped_def, rule_format, of "MAXFILE * BSIZE"] by (simp add: has_block_def)
qed

lemma add_wraps: "(a :: u32) + b < a \<longleftrightarrow> 2 ^ 32 \<le> unat a + unat b"
proof -
  have b: "unat b < 2 ^ 32" by simp
  have e: "unat (a + b) = (if unat a + unat b < 2 ^ 32 then unat a + unat b else unat a + unat b - 2 ^ 32)"
    by (simp add: unat_plus_if')
  show ?thesis unfolding word_less_nat_alt e using b by (simp only: split: if_split) linarith
qed

lemma readi_local:
  fixes s :: "'z fs_state_scheme"
  assumes T: "tx p pid s B {}" and ip: "i_dev (itable s i) = ROOTDEV" "file_mapped B (itable s i) (unat (i_size (itable s i)))"
    and k: "k = read_len (i_size (itable s i)) off n"
  obtains t where "readi i LocalDst off n s = Ok (int k, file_bytes B (itable s i) (unat off) k) t"
    "tx p pid t B {}" "tx_step s t" "lhome t = lhome s"
proof (cases "off > i_size (itable s i) \<or> off + n < off")
  case True
  with add_wraps [of off n] have "k = 0" unfolding k read_len_def by (auto simp: word_less_nat_alt)
  with True T show thesis by (intro that [of s]) (simp_all add: readi_def bind_run file_bytes_def)
next
  case False
  let ?sz = "i_size (itable s i)"
  let ?n = "if off + n > ?sz then ?sz - off else n"
  have o: "unat off + unat n < 2 ^ 32" "unat off \<le> unat ?sz"
    using False add_wraps [of off n] by (auto simp: word_less_nat_alt)
  have n: "unat ?n = k" using o False by (auto simp: k read_len_def word_less_nat_alt unat_word_ariths unat_sub word_le_nat_alt)
  have b: "unat off + k \<le> unat ?sz" "unat ?sz \<le> MAXFILE * BSIZE" using o file_mapped_bound [OF ip(2)] by (simp_all add: k read_len_def)
  have h: "\<And>j. unat off \<le> j \<Longrightarrow> j < unat off + unat (?n - 0) \<Longrightarrow> has_block B (itable s i) (j div BSIZE)"
    using ip(2) b(1) n by (simp add: file_mapped_def)
  have "unat off + unat (?n - 0) < 2 ^ 32" using b n by simp
  from readi_loop_local [OF T ip(1) word_zero_le this h] n obtain t where
    t: "readi_loop i LocalDst off ?n 0 s = Ok (?n, file_bytes B (itable s i) (unat off) k) t"
      "tx p pid t B {}" "tx_step s t" "lhome t = lhome s" unfolding diff_zero n by blast
  have "?n = of_nat k" unfolding n [symmetric] by (simp only: of_nat_unat ucast_id)
  then have "sint ?n = int k" using sint_of_nat_small [of k] b by simp
  with t False show thesis by (intro that [of t]) (simp_all add: readi_def bind_run)
qed

section \<open>Writing to the blocks of a file\<close>

text \<open>
  The first \<open>N\<close> blocks of a file are allocated, no two are the same, and none of them is the
  indirect block or a block of the log.
\<close>

definition file_ok :: "u32 \<Rightarrow> (u32 \<Rightarrow> u8 list) \<Rightarrow> inode \<Rightarrow> nat \<Rightarrow> bool" where
  "file_ok l B ip N \<longleftrightarrow> inj_on (fblock B ip) {..<N} \<and>
     (\<forall>k < N. has_block B ip k \<and> \<not> in_log l (fblock B ip k) \<and> (NDIRECT < N \<longrightarrow> fblock B ip k \<noteq> i_addrs ip ! NDIRECT))"

definition fbyte :: "(u32 \<Rightarrow> u8 list) \<Rightarrow> inode \<Rightarrow> nat \<Rightarrow> u8" where
  "fbyte B ip j = B (fblock B ip (j div BSIZE)) ! (j mod BSIZE)"

text \<open>The bytes \<open>bs\<close> written at offset \<open>off\<close>.\<close>

definition written_file :: "(u32 \<Rightarrow> u8 list) \<Rightarrow> inode \<Rightarrow> nat \<Rightarrow> nat \<Rightarrow> u8 list \<Rightarrow> (u32 \<Rightarrow> u8 list) \<Rightarrow> bool" where
  "written_file B ip N off bs B' \<longleftrightarrow> (\<forall>k < N. fblock B' ip k = fblock B ip k) \<and>
     (\<forall>j < N * BSIZE. fbyte B' ip j = (if off \<le> j \<and> j < off + length bs then bs ! (j - off) else fbyte B ip j)) \<and>
     (\<forall>b. b \<notin> fblock B ip ` {..<N} \<longrightarrow> B' b = B b)"

lemma written_file_Nil: "written_file B ip N off [] B"
  by (auto simp: written_file_def)

lemma written_file_append:
  assumes "written_file B ip N off as C" "written_file C ip N (off + length as) bs D"
  shows "written_file B ip N off (as @ bs) D"
proof -
  have i: "fblock C ip ` {..<N} = fblock B ip ` {..<N}" using assms(1) by (auto simp: written_file_def image_def)
  have "fbyte D ip j = (if off \<le> j \<and> j < off + length (as @ bs) then (as @ bs) ! (j - off) else fbyte B ip j)" if "j < N * BSIZE" for j
    using assms that by (auto simp: written_file_def nth_append)
  moreover have "\<forall>k < N. fblock D ip k = fblock B ip k" "\<forall>b. b \<notin> fblock B ip ` {..<N} \<longrightarrow> D b = B b"
    using assms i by (auto simp: written_file_def)
  ultimately show ?thesis by (simp add: written_file_def)
qed

lemma file_ok_written:
  assumes "file_ok l B ip N" "written_file B ip N off bs B'"
  shows "file_ok l B' ip N"
proof -
  have "\<forall>k < N. fblock B' ip k = fblock B ip k" using assms(2) by (simp add: written_file_def)
  then show ?thesis using assms(1) by (simp add: file_ok_def has_block_def inj_on_def)
qed

lemma written_block:
  assumes F: "file_ok l B ip N" and k: "off div BSIZE < N" and m: "length as \<le> BSIZE - off mod BSIZE"
    and len: "\<And>b. length (B b) = BSIZE" and b: "b = fblock B ip (off div BSIZE)"
  shows "written_file B ip N off as (B(b := splice (B b) (off mod BSIZE) as))"
proof -
  let ?B = "B(b := splice (B b) (off mod BSIZE) as)"
  have f: "fblock ?B ip j = fblock B ip j" if "j < N" for j
    using F k that b by (auto simp: file_ok_def fblock_def)
  moreover have "fbyte ?B ip j = (if off \<le> j \<and> j < off + length as then as ! (j - off) else fbyte B ip j)" if j: "j < N * BSIZE" for j
  proof (cases "j div BSIZE = off div BSIZE")
    case True
    then have o: "off \<le> j \<and> j < off + length as \<longleftrightarrow> off mod BSIZE \<le> j mod BSIZE \<and> j mod BSIZE < off mod BSIZE + length as"
      "off \<le> j \<Longrightarrow> j - off = j mod BSIZE - off mod BSIZE"
      using div_mult_mod_eq [of j BSIZE] div_mult_mod_eq [of off BSIZE] by (simp_all, linarith+)
    have "fbyte ?B ip j = splice (B b) (off mod BSIZE) as ! (j mod BSIZE)"
      using True f [of "j div BSIZE"] k b by (simp add: fbyte_def)
    also have "\<dots> = (if off mod BSIZE \<le> j mod BSIZE \<and> j mod BSIZE < off mod BSIZE + length as
        then as ! (j mod BSIZE - off mod BSIZE) else B b ! (j mod BSIZE))"
      using m len [of b] by (subst nth_splice) auto
    finally show ?thesis using o True b by (auto simp: fbyte_def)
  next
    case False
    have jN: "j div BSIZE < N" using j by (simp add: less_mult_imp_div_less)
    then have "fblock B ip (j div BSIZE) \<noteq> b" using F False k b by (auto simp: file_ok_def inj_on_def)
    moreover have "\<not> (off \<le> j \<and> j < off + length as)"
    proof
      assume "off \<le> j \<and> j < off + length as"
      moreover have "off mod BSIZE < BSIZE" by simp
      ultimately have "BSIZE * (off div BSIZE) \<le> j" "j < BSIZE * (off div BSIZE) + BSIZE"
        using m div_mult_mod_eq [of off BSIZE] by linarith+
      then have "j div BSIZE = off div BSIZE" by (intro div_nat_eqI) simp_all
      with False show False by simp
    qed
    ultimately show ?thesis using f [OF jN] by (auto simp: fbyte_def)
  qed
  ultimately show ?thesis using k b by (auto simp: written_file_def)
qed

text \<open>How many blocks a range of bytes touches.\<close>

definition span :: "nat \<Rightarrow> nat \<Rightarrow> nat" where
  "span off n = (if n = 0 then 0 else (off + n - 1) div BSIZE - off div BSIZE + 1)"

lemma span_step:
  assumes "0 < m" "m \<le> n" "m = min n (BSIZE - off mod BSIZE)"
  shows "Suc (span (off + m) (n - m)) \<le> span off n"
proof (cases "m = n")
  case True
  then show ?thesis using assms(1) by (simp add: span_def)
next
  case False
  then have m: "m = BSIZE - off mod BSIZE" using assms(2,3) by linarith
  have "off mod BSIZE < BSIZE" by simp
  then have e: "off + m = BSIZE * (off div BSIZE) + BSIZE" using m mult_div_mod_eq [of BSIZE off] by linarith
  then have d: "(off + m) div BSIZE = off div BSIZE + 1" by simp
  have "(off + m) div BSIZE \<le> (off + n - 1) div BSIZE" using False assms(2) by (intro div_le_mono) linarith
  then show ?thesis using False assms(2) d by (simp add: span_def) linarith
qed

lemma unat_rw_part: "unat (rw_part n tot off) = min (unat (n - tot)) (BSIZE - unat off mod BSIZE)"
proof -
  have "unat (1024 - off mod 1024 :: u32) = 1024 - unat off mod 1024"
    by (subst unat_sub) (simp_all add: unat_mod word_le_nat_alt)
  then show ?thesis by (simp add: rw_part_def min_def word_le_nat_alt)
qed

lemma writei_loop_local:
  fixes s :: "'z fs_state_scheme"
  assumes "tx p pid s B {}" "i_dev (itable s i) = ROOTDEV" "tot \<le> n" "length bs = unat (n - tot)"
    "unat off + unat (n - tot) < 2 ^ 32" "unat off + unat (n - tot) \<le> N * BSIZE" "file_ok (log_start s) B (itable s i) N"
    "int (length (lhome s) + span (unat off) (unat (n - tot))) \<le> log_size s - 1"
  shows "\<exists>t B'. writei_loop i (LocalSrc bs) off n tot s = Ok (n, off + (n - tot)) t \<and> tx p pid t B' {} \<and> tx_step s t \<and>
    written_file B (itable s i) N (unat off) bs B' \<and> length (lhome t) \<le> length (lhome s) + span (unat off) (unat (n - tot))"
  using assms
proof (induction "unat (n - tot)" arbitrary: off tot s B bs rule: less_induct)
  case less
  let ?ip = "itable s i"
  note prems = less.prems
  show ?case
  proof (cases "tot < n")
    case False
    then have "tot = n" using prems(3) by simp
    then show ?thesis using prems(1,4)
      by (intro exI [of _ s] exI [of _ B]) (subst writei_loop.simps, simp add: written_file_Nil)
  next
    case True
    let ?m = "rw_part n tot off" and ?a = "fblock B ?ip (unat (off div 1024))"
    let ?as = "take (unat ?m) bs" and ?f = "\<lambda>d. splice d (unat (off mod 1024)) (take (unat ?m) bs)"
    note m = rw_part_bounds [OF True, of off] and d = rw_part_step [OF True prems(5)]
    have o: "unat (off div 1024) = unat off div BSIZE" "unat (off mod 1024) = unat off mod BSIZE" by (simp_all add: unat_div unat_mod)
    have k: "unat off div BSIZE < N" using m(1,2) prems(6) by (intro less_mult_imp_div_less) linarith
    have h: "has_block B ?ip (unat (off div 1024))" "\<not> in_log (log_start s) ?a" using prems(7) k unfolding o by (auto simp: file_ok_def)
    have len: "\<And>b. length (B b) = BSIZE" using txD(4) [OF prems(1)] .
    have la: "length ?as = unat ?m" using m(2) prems(4) by simp
    note sp = span_step [OF m(1,2) unat_rw_part]
    obtain u where u: "bmap i (off div 1024) s = Ok ?a u" "tx p pid u B {}" "tx_step s u" "lhome u = lhome s"
      using bmap_mapped [OF prems(1,2) h(1)] by metis
    have su: "log_start u = log_start s" "log_size u = log_size s" "itable u = itable s"
      using tx_step_same(3,5) [OF u(3)] tx_step_fs(2) [OF u(3)] by simp_all
    have e: "?a \<notin> {}" "\<not> in_log (log_start u) ?a" "length (lhome u) + card ({} :: u32 set) < NBUF"
      "int (length (lhome u)) < log_size u - 1" "length (?f (B ?a)) = BSIZE"
      using txD(5) [OF u(2)] h(2) su u(4) prems(8) sp len la m(3) o by simp_all
    obtain j v w x y where v: "bread ROOTDEV ?a u = Ok j v" "set_data j ?f v = Ok () w" "log_write j w = Ok () x"
      "brelse j x = Ok () y" "tx p pid y (B(?a := ?f (B ?a))) {}" "tx_step u y"
      "lhome y = (if ?a \<in> set (lhome u) then lhome u else lhome u @ [?a])" "tx p pid v B {?a}"
      using tx_update [OF u(2) e(1-4), of ?f] e(5) by metis
    let ?B = "B(?a := ?f (B ?a))"
    have su': "tx_step s y" "log_start y = log_start s" "log_size y = log_size s" "itable y = itable s"
      using tx_step_trans [OF u(3) v(6)] tx_step_same(3,5) tx_step_fs(2) by auto
    have wr: "written_file B ?ip N (unat off) ?as ?B"
      using written_block [OF prems(7) k _ len, of ?as] la m(3) by (simp add: o)
    have len_y: "length (lhome y) \<le> Suc (length (lhome s))" using v(7) u(4) by simp
    have "\<exists>t B'. writei_loop i (LocalSrc (drop (unat ?m) bs)) (off + ?m) n (tot + ?m) y = Ok (n, off + ?m + (n - (tot + ?m))) t \<and>
        tx p pid t B' {} \<and> tx_step y t \<and> written_file ?B ?ip N (unat (off + ?m)) (drop (unat ?m) bs) B' \<and>
        length (lhome t) \<le> length (lhome y) + span (unat (off + ?m)) (unat (n - (tot + ?m)))"
      using less.hyps [of "tot + ?m" y ?B "drop (unat ?m) bs" "off + ?m"] v(5) prems(2,4,5,6,8) su' d m sp len_y
        file_ok_written [OF prems(7) wr] by simp
    then obtain t B' where t: "writei_loop i (LocalSrc (drop (unat ?m) bs)) (off + ?m) n (tot + ?m) y = Ok (n, off + (n - tot)) t"
      "tx p pid t B' {}" "tx_step y t" "written_file ?B ?ip N (unat off + unat ?m) (drop (unat ?m) bs) B'"
      "length (lhome t) \<le> length (lhome y) + span (unat off + unat ?m) (unat (n - tot) - unat ?m)"
      unfolding d by (auto simp: algebra_simps)
    have "?a \<noteq> 0" using h by (simp add: has_block_def)
    then have "writei_loop i (LocalSrc bs) off n tot s = Ok (n, off + (n - tot)) t"
      using True u(1) v(1-4) t(1) prems(2) su(3) tx_myproc [OF v(8)]
      by (subst writei_loop.simps) (simp add: bind_run copy_from_def Let_def)
    moreover have "written_file B ?ip N (unat off) bs B'" using written_file_append [OF wr, of "drop (unat ?m) bs" B'] t(4) la by simp
    ultimately show ?thesis using t(2,3,5) tx_step_trans [OF su'(1) t(3)] len_y sp by (intro exI [of _ t] exI [of _ B']) simp
  qed
qed

lemma tx_itable [simp]: "tx p pid (s\<lparr>itable := f\<rparr>) B H = tx p pid s B H"
proof -
  have "bst p pid (s\<lparr>itable := f\<rparr>) B R Q = bst p pid s B R Q" for R Q
    by (rule bst_cong) (simp_all add: runs_as_def)
  then show ?thesis by (simp add: tx_def lhome_def)
qed

lemma iupdate_tx:
  fixes s :: "'z fs_state_scheme"
  assumes T: "tx p pid s B {}" and d: "i_dev (itable s i) = ROOTDEV" "length (i_addrs (itable s i)) = NDIRECT + 1"
    and b: "b = IBLOCK (i_inum (itable s i)) (sb s)" "\<not> in_log (log_start s) b"
    and lg: "int (length (lhome s)) < log_size s - 1"
  obtains t where "iupdate i s = Ok () t" "tx_step s t"
    "tx p pid t (B(b := put_dinode (B b) (unat (i_inum (itable s i)) mod IPB) (dinode_of (itable s i)))) {}"
proof -
  let ?f = "\<lambda>x. put_dinode x (unat (i_inum (itable s i)) mod IPB) (dinode_of (itable s i))"
  have e: "b \<notin> {}" "length (lhome s) + card ({} :: u32 set) < NBUF" "length (?f (B b)) = BSIZE"
    using txD(4) [OF T, of b] txD(5) [OF T] d(2) by (simp_all add: dinode_of_def)
  obtain j u v w t where "bread ROOTDEV b s = Ok j u" "set_data j ?f u = Ok () v" "log_write j v = Ok () w"
    "brelse j w = Ok () t" "tx p pid t (B(b := ?f (B b))) {}" "tx_step s t"
    using tx_update [OF T e(1) b(2) e(2) lg, of ?f] e(3) by metis
  with d(1) b(1) show thesis by (intro that [of t]) (simp_all add: iupdate_def bind_run)
qed

lemma fblock_size [simp]: "fblock B (ip\<lparr>i_size := n\<rparr>) = fblock B ip" "has_block B (ip\<lparr>i_size := n\<rparr>) = has_block B ip"
  "fbyte B (ip\<lparr>i_size := n\<rparr>) = fbyte B ip" "file_bytes B (ip\<lparr>i_size := n\<rparr>) = file_bytes B ip"
  by (simp_all add: fun_eq_iff fblock_def has_block_def fbyte_def file_bytes_def)

lemma file_bytes_fbyte: "file_bytes B ip off n = map (fbyte B ip) [off..<off + n]"
  by (simp add: file_bytes_def fbyte_def)

text \<open>A block that holds no part of the file.\<close>

definition not_of_file :: "(u32 \<Rightarrow> u8 list) \<Rightarrow> inode \<Rightarrow> nat \<Rightarrow> u32 \<Rightarrow> bool" where
  "not_of_file B ip N b \<longleftrightarrow> b \<notin> fblock B ip ` {..<N} \<and> (NDIRECT < N \<longrightarrow> b \<noteq> i_addrs ip ! NDIRECT)"

lemma not_of_file_fbyte:
  assumes "not_of_file B ip N b"
  shows "k < N \<Longrightarrow> fblock (B(b := x)) ip k = fblock B ip k"
    "j < N * BSIZE \<Longrightarrow> fbyte (B(b := x)) ip j = fbyte B ip j"
proof -
  show f: "fblock (B(b := x)) ip k = fblock B ip k" if "k < N" for k
    using assms that by (auto simp: not_of_file_def fblock_def)
  assume "j < N * BSIZE"
  then have "j div BSIZE < N" by (simp add: less_mult_imp_div_less)
  with f [of "j div BSIZE"] assms show "fbyte (B(b := x)) ip j = fbyte B ip j" by (auto simp: fbyte_def not_of_file_def)
qed

lemma written_bytes:
  assumes "\<And>j. j < N * BSIZE \<Longrightarrow> fbyte C ip j = (if off \<le> j \<and> j < off + length bs then bs ! (j - off) else fbyte B ip j)"
    "off \<le> sz" "sz \<le> N * BSIZE" "off + length bs \<le> N * BSIZE"
  shows "file_bytes C ip 0 (max sz (off + length bs)) =
    take off (file_bytes B ip 0 sz) @ bs @ drop (off + length bs) (file_bytes B ip 0 sz)"
  using assms(2-4) by (intro nth_equalityI) (auto simp: file_bytes_fbyte assms(1) nth_append)

lemma file_ok_bound:
  assumes "file_ok l B ip N"
  shows "N \<le> MAXFILE"
proof (rule ccontr)
  assume "\<not> ?thesis"
  then have "has_block B ip MAXFILE" using assms by (simp add: file_ok_def)
  then show False by (simp add: has_block_def)
qed

text \<open>\<open>writei\<close> of a variable of the kernel to blocks that the file has.\<close>

lemma writei_local:
  fixes s :: "'z fs_state_scheme"
  assumes T: "tx p pid s B {}" and ip: "ip = itable s i" "i_dev ip = ROOTDEV" "length (i_addrs ip) = NDIRECT + 1"
    and F: "file_ok (log_start s) B ip N" "unat off \<le> unat (i_size ip)" "unat (i_size ip) \<le> N * BSIZE" "unat off + length bs \<le> N * BSIZE"
    and ib: "ib = IBLOCK (i_inum ip) (sb s)" "\<not> in_log (log_start s) ib" "not_of_file B ip N ib"
    and lg: "int (length (lhome s) + span (unat off) (length bs) + 1) \<le> log_size s - 1"
    and ip': "ip' = ip\<lparr>i_size := max (i_size ip) (off + of_nat (length bs))\<rparr>"
  obtains t C where "writei i (LocalSrc bs) off (of_nat (length bs)) s = Ok (int (length bs)) t" "tx p pid t C {}"
    "itable t = (itable s)(i := ip')" "get_dinode (C ib) (unat (i_inum ip) mod IPB) = dinode_of ip'"
    "sb t = sb s" "disk t = disk s" "\<And>k. k < N \<Longrightarrow> fblock C ip k = fblock B ip k"
    "\<And>j. j < N * BSIZE \<Longrightarrow> fbyte C ip j = (if unat off \<le> j \<and> j < unat off + length bs then bs ! (j - unat off) else fbyte B ip j)"
proof -
  let ?n = "of_nat (length bs) :: u32"
  have N: "N * BSIZE \<le> MAXFILE * BSIZE" using file_ok_bound [OF F(1)] by (rule mult_le_mono1)
  then have n: "unat ?n = length bs" using F(4) by (simp add: unat_of_nat)
  have o: "unat (off + ?n) = unat off + length bs" using N F(4) n by (simp add: unat_word_ariths)
  have "\<exists>t C. writei_loop i (LocalSrc bs) off ?n 0 s = Ok (?n, off + (?n - 0)) t \<and> tx p pid t C {} \<and> tx_step s t \<and>
      written_file B (itable s i) N (unat off) bs C \<and> length (lhome t) \<le> length (lhome s) + span (unat off) (unat (?n - 0))"
    using T ip F N n lg by (intro writei_loop_local) simp_all
  then obtain u C where u: "writei_loop i (LocalSrc bs) off ?n 0 s = Ok (?n, off + ?n) u" "tx p pid u C {}" "tx_step s u"
      "written_file B ip N (unat off) bs C" "length (lhome u) \<le> length (lhome s) + span (unat off) (length bs)"
    using ip(1) by (auto simp: n)
  note us = tx_step_same(3,5) [OF u(3)] tx_step_fs(1,2) [OF u(3)]
  let ?u = "u\<lparr>itable := (itable s)(i := ip')\<rparr>"
  have e: "bind (get_inode i i_size) (\<lambda>sz. only_if (off + ?n > sz) (set_inode i (\<lambda>ip. ip\<lparr>i_size := off + ?n\<rparr>))) u = Ok () ?u"
    using us ip(1) by (auto simp: bind_run only_if_def ip' max_def not_less fun_upd_idem order.strict_iff_order)
  have i': "itable ?u i = ip'" "log_start ?u = log_start s" "log_size ?u = log_size s" "lhome ?u = lhome u" "sb ?u = sb s" using us by (simp_all add: lhome_def)
  have inum: "i_dev ip' = ROOTDEV" "i_inum ip' = i_inum ip" "length (i_addrs ip') = NDIRECT + 1" "i_addrs ip' = i_addrs ip" using ip by (simp_all add: ip')
  obtain t where t: "iupdate i ?u = Ok () t" "tx_step ?u t"
      "tx p pid t (C(ib := put_dinode (C ib) (unat (i_inum ip) mod IPB) (dinode_of ip'))) {}"
    using iupdate_tx [of p pid ?u C i ib] u(2,5) i' inum ib lg by auto
  let ?D = "C(ib := put_dinode (C ib) (unat (i_inum ip) mod IPB) (dinode_of ip'))"
  have C: "\<And>k. k < N \<Longrightarrow> fblock C ip k = fblock B ip k" "\<And>j. j < N * BSIZE \<Longrightarrow> fbyte C ip j =
      (if unat off \<le> j \<and> j < unat off + length bs then bs ! (j - unat off) else fbyte B ip j)"
    using u(4) by (simp_all add: written_file_def)
  have "not_of_file C ip N ib" using ib(3) C(1) by (auto simp: not_of_file_def)
  note D = not_of_file_fbyte [OF this]
  have w: "writei i (LocalSrc bs) off ?n s = Ok (int (length bs)) t"
  proof -
    have "sint ?n = int (length bs)" using N F(4) by (intro sint_of_nat_small) simp
    moreover have "\<not> off > i_size ip" "\<not> off + ?n < off" "\<not> unat (off + ?n) > MAXFILE * BSIZE"
      using F(2,4) N o by (simp_all add: word_less_nat_alt)
    ultimately show ?thesis using u(1) e t(1) ip(1) by (simp add: writei_def bind_run) 
  qed
  have st: "sb t = sb s" "disk t = disk s"
    using tx_step_fs(1) [OF t(2)] tx_step_same(1) [OF t(2)] us tx_step_same(1) [OF u(3)] by simp_all
  show thesis
    using w t(3) tx_step_fs(2) [OF t(2)] st C D inum txD(4) [OF u(2), of ib]
    by (intro that [of t ?D]) (simp_all add: get_put_dinode dinode_of_def)
qed


text \<open>
  C32: What is written to a file is what is read from it. In a transaction with room in the log,
  \<open>writei\<close> to blocks that the file has, at an offset within the file, returns the number of bytes
  given; afterwards the contents of the file are the old bytes before the offset, the bytes given,
  and the old bytes after them, the size is the larger of the old size and the end of the write, the inode's
  block holds the inode as the table has it, \<open>readi\<close> returns the bytes just written, and nothing
  of it has reached the disk before the commit.
\<close>

theorem writei_then_readi:
  fixes s :: "'z fs_state_scheme"
  assumes T: "tx p pid s B {}" and ip: "ip = itable s i" "i_dev ip = ROOTDEV" "length (i_addrs ip) = NDIRECT + 1"
    and F: "file_ok (log_start s) B ip N" "off \<le> i_size ip" "unat (i_size ip) \<le> N * BSIZE" "unat off + length bs \<le> N * BSIZE"
    and ib: "ib = IBLOCK (i_inum ip) (sb s)" "\<not> in_log (log_start s) ib" "not_of_file B ip N ib"
    and lg: "int (length (lhome s) + span (unat off) (length bs) + 1) \<le> log_size s - 1"
  shows "\<exists>t u C ip'. writei i (LocalSrc bs) off (of_nat (length bs)) s = Ok (int (length bs)) t \<and>
    ip' = itable t i \<and> unat (i_size ip') = max (unat (i_size ip)) (unat off + length bs) \<and>
    file_bytes C ip' 0 (unat (i_size ip')) = take (unat off) (file_bytes B ip 0 (unat (i_size ip))) @ bs @
      drop (unat off + length bs) (file_bytes B ip 0 (unat (i_size ip))) \<and>
    get_dinode (C ib) (unat (i_inum ip) mod IPB) = dinode_of ip' \<and> disk t = disk s \<and>
    readi i LocalDst off (of_nat (length bs)) t = Ok (int (length bs), bs) u \<and> tx p pid u C {}"
proof -
  let ?ip = "ip\<lparr>i_size := max (i_size ip) (off + of_nat (length bs))\<rparr>" and ?n = "of_nat (length bs) :: u32"
  have N: "N * BSIZE \<le> MAXFILE * BSIZE" using file_ok_bound [OF F(1)] by (rule mult_le_mono1)
  then have n: "unat ?n = length bs" using F(4) by (simp add: unat_of_nat)
  have sz: "unat (i_size ?ip) = max (unat (i_size ip)) (unat off + length bs)"
    using N F(4) n by (auto simp: unat_word_ariths max_def word_le_nat_alt)
  have o: "unat off \<le> unat (i_size ip)" using F(2) by (simp add: word_le_nat_alt)
  obtain t C where t: "writei i (LocalSrc bs) off ?n s = Ok (int (length bs)) t" "tx p pid t C {}"
    "itable t = (itable s)(i := ?ip)" "get_dinode (C ib) (unat (i_inum ip) mod IPB) = dinode_of ?ip" "disk t = disk s"
    "\<And>k. k < N \<Longrightarrow> fblock C ip k = fblock B ip k"
    "\<And>j. j < N * BSIZE \<Longrightarrow> fbyte C ip j = (if unat off \<le> j \<and> j < unat off + length bs then bs ! (j - unat off) else fbyte B ip j)"
    using writei_local [OF T ip F(1) o F(3,4) ib lg refl] by metis
  have fb: "file_bytes C ip 0 (unat (i_size ?ip)) = take (unat off) (file_bytes B ip 0 (unat (i_size ip))) @ bs @
      drop (unat off + length bs) (file_bytes B ip 0 (unat (i_size ip)))"
    unfolding sz by (rule written_bytes [OF t(7) o F(3,4)])
  have "file_mapped C ?ip (unat (i_size ?ip))"
  proof -
    have "has_block C ip k" if "k < N" for k
      using F(1) that t(6) by (auto simp: file_ok_def has_block_def)
    then show ?thesis unfolding sz file_mapped_def using F(3,4) by (auto intro!: less_mult_imp_div_less)
  qed
  then obtain u where u: "readi i LocalDst off ?n t = Ok (int (length bs), file_bytes C ip (unat off) (length bs)) u" "tx p pid u C {}"
    using readi_local [OF t(2), of i "length bs" off ?n] t(3) ip(2) sz n N F(4) by (auto simp: read_len_def)
  have "file_bytes C ip (unat off) (length bs) = bs"
    using F(4) by (intro nth_equalityI) (simp_all add: file_bytes_fbyte t(7))
  with t u fb sz show ?thesis by (intro exI [of _ t] exI [of _ u] exI [of _ C] exI [of _ ?ip]) simp
qed

lemma tx_extend: "tx p pid (log_state.extend s x) B H = tx p pid (s :: log_state) B H"
proof -
  have "bst p pid (log_state.extend s x) B R Q = bst p pid s B R Q" for R Q
    by (rule bst_cong) (simp_all add: runs_as_def log_state.defs)
  then show ?thesis by (simp add: tx_def lhome_def log_state.defs)
qed

text \<open>A file of two blocks, 100 and 101, with a transaction open.\<close>

definition example_inode :: inode where
  "example_inode = \<lparr>i_dev = ROOTDEV, i_inum = 5, i_ref = 1, i_valid = 1, i_type = 2, i_major = 0, i_minor = 0, i_nlink = 1,
     i_size = 1030, i_addrs = [100, 101] @ replicate 11 0\<rparr>"

definition example_fs :: fs_state where
  "example_fs = log_state.extend ((example_log fresh_bufs 0 [])\<lparr>log_outstanding := 1\<rparr>) \<lparr>sb = example_sb, itable = (\<lambda>_. example_inode)\<rparr>"

lemma example_fs_tx: "tx 0 (p_pid (procs (example_log fresh_bufs 0 []) 0)) example_fs zeros {}"
  using begin_op_idle(2) [OF example_idle] by (simp add: example_fs_def tx_extend)

lemma example_fs_sel [simp]: "itable example_fs = (\<lambda>_. example_inode)" "sb example_fs = example_sb" "log_start example_fs = 2"
  "log_size example_fs = 30" "lhome example_fs = []"
  by (simp_all add: example_fs_def log_state.defs lhome_def) (simp_all add: example_log_def bio_state.defs)

lemma example_file: "file_ok 2 zeros example_inode 2" "fblock zeros example_inode ` {..<2} = {100, 101}"
proof -
  have s: "{..<2} = {0, 1 :: nat}" by auto
  show "fblock zeros example_inode ` {..<2} = {100, 101}" unfolding s by (simp add: fblock_def example_inode_def)
  have "has_block zeros example_inode k \<and> \<not> in_log 2 (fblock zeros example_inode k)" if "k < 2" for k
    using that by (auto simp: less_2_cases_iff has_block_def fblock_def example_inode_def in_log_iff)
  moreover have "inj_on (fblock zeros example_inode) {..<2}" unfolding s by (simp add: fblock_def example_inode_def)
  ultimately show "file_ok 2 zeros example_inode 2" by (simp add: file_ok_def)
qed

theorem writei_then_readi_witness:
  "\<exists>t u. writei 3 (LocalSrc [1, 2, 3, 4, 5, 6, 7, 8, 9, 10]) 1020 10 example_fs = Ok 10 t \<and>
     readi 3 LocalDst 1020 10 t = Ok (10, [1, 2, 3, 4, 5, 6, 7, 8, 9, 10]) u"
proof -
  let ?bs = "[1, 2, 3, 4, 5, 6, 7, 8, 9, 10] :: u8 list"
  have F: "file_ok (log_start example_fs) zeros example_inode 2" "1020 \<le> i_size example_inode" "unat (i_size example_inode) \<le> 2 * BSIZE"
    "unat (1020 :: u32) + length ?bs \<le> 2 * BSIZE"
    using example_file(1) by (simp_all add: example_inode_def word_le_nat_alt)
  have ib: "32 = IBLOCK (i_inum example_inode) (sb example_fs)" "\<not> in_log (log_start example_fs) 32" "not_of_file zeros example_inode 2 32"
    using example_file(2) by (simp_all add: IBLOCK_def example_sb_def in_log_iff not_of_file_def) (simp add: example_inode_def)
  have lg: "int (length (lhome example_fs) + span (unat (1020 :: u32)) (length ?bs) + 1) \<le> log_size example_fs - 1" by (simp add: span_def)
  have "i_dev example_inode = ROOTDEV" "length (i_addrs example_inode) = NDIRECT + 1" "example_inode = itable example_fs 3"
    by (simp_all add: example_inode_def)
  from writei_then_readi [OF example_fs_tx this(3,1,2) F ib lg] show ?thesis by auto
qed

end
