(* ===== verification/Xv6_Bitmap.thy ===== *)
theory Xv6_Bitmap
  imports Xv6_Content
begin

text \<open>
  The allocation of disk blocks: \<open>balloc\<close> and \<open>bfree\<close> of \<^verbatim>\<open>kernel/fs.c\<close> as operations on the set
  of free blocks that the bitmap on the disk stands for.
\<close>

unbundle bit_operations_syntax

section \<open>The free bitmap\<close>

lemma bm_free_bit: "bm_free d bi \<longleftrightarrow> \<not> bit (d ! (bi div 8)) (bi mod 8)"
proof -
  have "bm_mask bi = 2 ^ (bi mod 8)" by (simp add: bm_mask_def)
  then show ?thesis by (simp add: bm_free_def and_exp_eq_0_iff_not_bit)
qed

lemma bm_mask_at: "m < 8 \<Longrightarrow> bit (bm_mask bi) m \<longleftrightarrow> m = bi mod 8"
  by (auto simp: bm_mask_def bit_simps)

lemma bm_set_free:
  assumes "length d = BSIZE" "bi < BPB"
  shows "bm_free (bm_set bi d) bj \<longleftrightarrow> bj \<noteq> bi \<and> bm_free d bj"
proof (cases "bj div 8 = bi div 8")
  case True
  have "bj = bi \<longleftrightarrow> bj mod 8 = bi mod 8" using True by (metis div_mult_mod_eq)
  moreover have "bi div 8 < length d" using assms by simp
  ultimately show ?thesis using True by (auto simp: bm_free_bit bm_set_def bit_or_iff bm_mask_at)
qed (auto simp: bm_free_bit bm_set_def)

lemma bm_clear_free:
  assumes "length d = BSIZE" "bi < BPB"
  shows "bm_free (bm_clear bi d) bj \<longleftrightarrow> bj = bi \<or> bm_free d bj"
proof (cases "bj div 8 = bi div 8")
  case True
  have "bj = bi \<longleftrightarrow> bj mod 8 = bi mod 8" using True by (metis div_mult_mod_eq)
  moreover have "bi div 8 < length d" using assms by simp
  ultimately show ?thesis using True by (auto simp: bm_free_bit bm_clear_def bit_and_iff bit_not_iff bm_mask_at)
qed (auto simp: bm_free_bit bm_clear_def)

text \<open>The blocks that the bitmap says are free.\<close>

definition is_free :: "superblock \<Rightarrow> (u32 \<Rightarrow> u8 list) \<Rightarrow> nat \<Rightarrow> bool" where
  "is_free sp B a \<longleftrightarrow> a < unat (sb_size sp) \<and> bm_free (B (BBLOCK (of_nat a) sp)) (a mod BPB)"

text \<open>No block of the log and no bitmap block is free, and the bitmap is not in the log.\<close>

definition bitmap_ok :: "u32 \<Rightarrow> superblock \<Rightarrow> (u32 \<Rightarrow> u8 list) \<Rightarrow> bool" where
  "bitmap_ok l sp B \<longleftrightarrow> (\<forall>a c. is_free sp B a \<longrightarrow> c < unat (sb_size sp) \<longrightarrow>
     \<not> in_log l (of_nat a) \<and> \<not> in_log l (BBLOCK (of_nat c) sp) \<and> of_nat a \<noteq> BBLOCK (of_nat c) sp)"

lemma size_u32: "a < unat (w :: u32) \<Longrightarrow> unat (of_nat a :: u32) = a"
  using unat_u32_less [of w] by (simp add: unat_of_nat del: unat_u32_less)

lemma BBLOCK_eq:
  assumes "a < unat (w :: u32)" "c < unat (w :: u32)"
  shows "BBLOCK (of_nat a) sp = BBLOCK (of_nat c) sp \<longleftrightarrow> a div BPB = c div BPB"
proof -
  have "BBLOCK (of_nat a) sp = BBLOCK (of_nat c) sp \<longleftrightarrow> (of_nat a div of_nat BPB :: u32) = of_nat c div of_nat BPB"
    unfolding BBLOCK_def by (rule add_right_cancel)
  also have "\<dots> \<longleftrightarrow> a div BPB = c div BPB" using assms by (simp add: word_unat_eq_iff unat_div size_u32)
  finally show ?thesis .
qed

lemma bm_block_inj: "(a :: nat) div BPB = c div BPB \<Longrightarrow> a mod BPB = c mod BPB \<Longrightarrow> a = c"
  by (metis div_mult_mod_eq)

lemma is_free_upd:
  assumes l: "\<And>b. length (B b) = BSIZE" and a: "a < unat (sb_size sp)" and b: "b = BBLOCK (of_nat a) sp"
  shows "is_free sp (B(b := bm_set (a mod BPB) (B b))) c \<longleftrightarrow> c \<noteq> a \<and> is_free sp B c"
    "is_free sp (B(b := bm_clear (a mod BPB) (B b))) c \<longleftrightarrow> c = a \<or> is_free sp B c"
proof -
  have m: "a mod BPB < BPB" by simp
  have e: "c < unat (sb_size sp) \<Longrightarrow> BBLOCK (of_nat c) sp = b \<longleftrightarrow> c div BPB = a div BPB"
    using BBLOCK_eq [of c "sb_size sp" a sp] a b by simp
  show "is_free sp (B(b := bm_set (a mod BPB) (B b))) c \<longleftrightarrow> c \<noteq> a \<and> is_free sp B c"
    using e bm_block_inj [of c a] a bm_set_free [OF l m, where bj = "c mod BPB"] by (auto simp: is_free_def b)
  show "is_free sp (B(b := bm_clear (a mod BPB) (B b))) c \<longleftrightarrow> c = a \<or> is_free sp B c"
    using e bm_block_inj [of c a] a bm_clear_free [OF l m, where bj = "c mod BPB"] by (auto simp: is_free_def b)
qed

lemma bzero_tx:
  fixes s :: "'z fs_state_scheme"
  assumes T: "tx p pid s B {}" and b: "\<not> in_log (log_start s) b" and lg: "int (length (lhome s)) < log_size s - 1"
  obtains t where "bzero ROOTDEV b s = Ok () t" "tx p pid t (B(b := replicate BSIZE 0)) {}" "tx_step s t"
proof -
  have e: "b \<notin> {}" "length (lhome s) + card ({} :: u32 set) < NBUF" using txD(5) [OF T] by simp_all
  obtain j u v w t where "bread ROOTDEV b s = Ok j u" "set_data j (\<lambda>_. replicate BSIZE 0) u = Ok () v" "log_write j v = Ok () w"
    "brelse j w = Ok () t" "tx p pid t (B(b := replicate BSIZE 0)) {}" "tx_step s t"
    using tx_update [OF T e(1) b e(2) lg, of "\<lambda>_. replicate BSIZE 0"] by (metis length_replicate)
  then show thesis by (intro that [of t]) (simp_all add: bzero_def bind_run)
qed

lemma find_least:
  assumes "find P [0..<n] = Some i"
  shows "i < n" "P i" "\<forall>j < i. \<not> P j"
  using assms by (auto simp: find_Some_iff)

lemma bm_block:
  assumes "b mod BPB = 0" "i < BPB"
  shows "(b + i) mod BPB = i" "(b + i) div BPB = b div BPB"
  using assms by (auto simp: mod_add_left_eq [symmetric] div_add1_eq [of b i] )

text \<open>Taking bit \<open>bi\<close> of the bitmap block of \<open>b\<close>.\<close>

definition taken :: "superblock \<Rightarrow> nat \<Rightarrow> (u32 \<Rightarrow> u8 list) \<Rightarrow> u32 \<Rightarrow> u8 list" where
  "taken sp a B = (let b = BBLOCK (of_nat a) sp in B(b := bm_set (a mod BPB) (B b), of_nat a := replicate BSIZE 0))"

lemma balloc_from_ok:
  fixes s :: "'z fs_state_scheme"
  assumes "tx p pid s B {}" "sp = sb s" "sz = unat (sb_size sp)" "bitmap_ok (log_start s) sp B" "b mod BPB = 0"
    "\<And>a. is_free sp B a \<Longrightarrow> b \<le> a" "int (length (lhome s)) + 2 \<le> log_size s - 1"
  shows "if \<forall>a. \<not> is_free sp B a
    then \<exists>t. balloc_from ROOTDEV sz b s = bind (kprintln ''balloc: out of blocks'' []) (\<lambda>_. ret 0) t \<and> tx p pid t B {} \<and> tx_step s t
    else \<exists>t a. balloc_from ROOTDEV sz b s = Ok (of_nat a) t \<and> is_free sp B a \<and> (\<forall>c < a. \<not> is_free sp B c) \<and>
      tx p pid t (taken sp a B) {} \<and> tx_step s t"
  using assms
proof (induction "sz - b" arbitrary: b s rule: less_induct)
  case less
  note T = less.prems(1) and sp = less.prems(2) and sz = less.prems(3) and ok = less.prems(4)
    and low = less.prems(6) and lg = less.prems(7)
  let ?bb = "BBLOCK (of_nat b) sp" and ?n = "min BPB (sz - b)"
  show ?case
  proof (cases "b < sz")
    case False
    then have "\<forall>a. \<not> is_free sp B a" using low sz by (fastforce simp: is_free_def)
    with False T show ?thesis by (auto simp: balloc_from.simps [of ROOTDEV sz b] intro!: exI [of _ s])
  next
    case True
    have at: "BBLOCK (of_nat (b + i)) sp = ?bb" "(b + i) mod BPB = i" "is_free sp B (b + i) \<longleftrightarrow> bm_free (B ?bb) i" if "i < ?n" for i
    proof -
      have i: "i < BPB" "b + i < unat (sb_size sp)" using that sz by (simp_all add: less_diff_conv add.commute)
      note e = bm_block [OF less.prems(5) i(1)]
      show "BBLOCK (of_nat (b + i)) sp = ?bb" using BBLOCK_eq [OF i(2), of b sp] True sz e(2) by simp
      then show "is_free sp B (b + i) \<longleftrightarrow> bm_free (B ?bb) i" using i(2) e(1) by (simp add: is_free_def)
      show "(b + i) mod BPB = i" by (rule e(1))
    qed
    have n: "?bb \<notin> {}" "length (lhome s) + card ({} :: u32 set) < NBUF" using txD(5) [OF T] by simp_all
    show ?thesis
    proof (cases "find (bm_free (B ?bb)) [0..<?n]")
      case None
      then have none: "\<not> bm_free (B ?bb) i" if "i < ?n" for i using that by (simp add: find_None_iff del: upt_rec_numeral)
      have low': "b + BPB \<le> a" if "is_free sp B a" for a
      proof (rule ccontr)
        assume "\<not> b + BPB \<le> a"
        then have "a - b < ?n" using that True sz by (auto simp: is_free_def)
        then show False using at(3) [of "a - b"] none [of "a - b"] low [OF that] that by simp
      qed
      obtain k u t where t: "bread ROOTDEV ?bb s = Ok k u" "b_data (bufs u k) = B ?bb" "brelse k u = Ok () t" "tx p pid t B {}"
        "tx_step s t" "lhome t = lhome s" using tx_peek [OF T n] by metis
      have e: "balloc_from ROOTDEV sz b s = balloc_from ROOTDEV sz (b + BPB) t"
        using True t(1-3) None sp by (simp add: balloc_from.simps [of ROOTDEV sz b] bind_run get_buf_def del: upt_rec_numeral)
      have "sz - (b + BPB) < sz - b" using True by simp
      note IH = less.hyps [OF this, of t]
      show ?thesis unfolding e
        using IH t(4-6) sp sz ok less.prems(5) low' lg tx_step_same(3,5) [OF t(5)] tx_step_fs(1) [OF t(5)]
        by (auto intro: tx_step_trans split: if_splits)
    next
      case (Some bi)
      note f = find_least [OF Some]
      let ?a = "b + bi"
      have a: "is_free sp B ?a" "?a < sz" "?a mod BPB = bi" "BBLOCK (of_nat ?a) sp = ?bb" "b < unat (sb_size sp)"
        using at [OF f(1)] f True sz by auto
      have least: "\<forall>c < ?a. \<not> is_free sp B c"
      proof (intro allI impI notI)
        fix c assume c: "c < ?a" "is_free sp B c"
        then have "b \<le> c" "c - b < bi" using low [OF c(2)] by simp_all
        then show False using at(3) [of "c - b"] f c by simp
      qed
      have nl: "\<not> in_log (log_start s) ?bb" "\<not> in_log (log_start s) (of_nat ?a)" "of_nat ?a \<noteq> ?bb"
        using ok a(1,5) unfolding bitmap_ok_def by blast+
      have len: "length (bm_set bi (B ?bb)) = BSIZE" using txD(4) [OF T] by (simp add: bm_set_def)
      have l1: "int (length (lhome s)) < log_size s - 1" using lg by simp
      obtain j u v w y where y: "bread ROOTDEV ?bb s = Ok j u" "b_data (bufs u j) = B ?bb" "set_data j (bm_set bi) u = Ok () v" "log_write j v = Ok () w"
        "brelse j w = Ok () y" "tx p pid y (B(?bb := bm_set bi (B ?bb))) {}" "tx_step s y"
        "lhome y = (if ?bb \<in> set (lhome s) then lhome s else lhome s @ [?bb])"
        using tx_update [OF T n(1) nl(1) n(2) l1, of "bm_set bi"] len by metis
      note ys = tx_step_same(3,5) [OF y(7)]
      have "\<not> in_log (log_start y) (of_nat ?a)" "int (length (lhome y)) < log_size y - 1" using nl(2) ys y(8) lg by simp_all
      then obtain t where t: "bzero ROOTDEV (of_nat ?a) y = Ok () t" "tx_step y t"
        "tx p pid t ((B(?bb := bm_set bi (B ?bb)))(of_nat ?a := replicate BSIZE 0)) {}"
        using bzero_tx [OF y(6)] by metis
      have "balloc_from ROOTDEV sz b s = Ok (of_nat ?a) t"
        using True y(1-5) t(1) Some sp by (subst balloc_from.simps) (simp add: bind_run get_buf_def del: upt_rec_numeral)
      moreover have "tx p pid t (taken sp ?a B) {}" using t(3) a(3,4) by (simp add: taken_def Let_def)
      moreover have "\<not> (\<forall>a. \<not> is_free sp B a)" using a(1) by blast
      ultimately show ?thesis using a(1) least tx_step_trans [OF y(7) t(2)] unfolding if_not_P [OF \<open>\<not> (\<forall>a. \<not> is_free sp B a)\<close>] by blast
    qed
  qed
qed

lemma bfree_ok:
  fixes s :: "'z fs_state_scheme"
  assumes T: "tx p pid s B {}" and sp: "sp = sb s" and a: "a < unat (sb_size sp)" and b: "bb = BBLOCK (of_nat a) sp"
    and nl: "\<not> in_log (log_start s) bb" and lg: "int (length (lhome s)) < log_size s - 1"
  shows "if is_free sp B a then bfree ROOTDEV (of_nat a) s = Panic ''freeing free block''
    else \<exists>t. bfree ROOTDEV (of_nat a) s = Ok () t \<and> tx p pid t (B(bb := bm_clear (a mod BPB) (B bb))) {} \<and> tx_step s t"
proof -
  have e: "bb \<notin> {}" "length (lhome s) + card ({} :: u32 set) < NBUF" "length (bm_clear (a mod BPB) (B bb)) = BSIZE"
    using txD(4) [OF T] txD(5) [OF T] by (simp_all add: bm_clear_def)
  have u: "unat (of_nat a :: u32) = a" by (rule size_u32 [OF a])
  obtain j u v w t where "bread ROOTDEV bb s = Ok j u" "b_data (bufs u j) = B bb" "set_data j (bm_clear (a mod BPB)) u = Ok () v"
    "log_write j v = Ok () w" "brelse j w = Ok () t" "tx p pid t (B(bb := bm_clear (a mod BPB) (B bb))) {}" "tx_step s t"
    using tx_update [OF T e(1) nl e(2) lg, of "bm_clear (a mod BPB)"] e(3) by metis
  then show ?thesis
    using sp b u a by (cases "is_free sp B a") (simp_all add: bfree_def bind_run get_buf_def panic_if_def is_free_def)
qed

text \<open>
  C33: Disk blocks are allocated once. Inside a transaction with room for two blocks, where the bitmap
  marks the log and itself as used, \<open>balloc\<close> returns the least block that the bitmap marks free, of
  which it leaves only zeros, marks it used and no other, and changes no other block; when there is none it
  prints its message and returns 0, and nothing is changed. \<open>bfree\<close> of a used block makes that
  block free, and no other; of a free block it panics.
\<close>

theorem balloc_bfree_set:
  fixes s :: "'z fs_state_scheme"
  assumes T: "tx p pid s B {}" and sp: "sp = sb s" and ok: "bitmap_ok (log_start s) sp B"
    and lg: "int (length (lhome s)) + 2 \<le> log_size s - 1"
  shows "(if \<forall>a. \<not> is_free sp B a
      then \<exists>t. balloc ROOTDEV s = bind (kprintln ''balloc: out of blocks'' []) (\<lambda>_. ret 0) t \<and> tx p pid t B {}
      else \<exists>t a C. balloc ROOTDEV s = Ok (of_nat a) t \<and> is_free sp B a \<and> (\<forall>c < a. \<not> is_free sp B c) \<and> tx p pid t C {} \<and>
        (\<forall>c. is_free sp C c \<longleftrightarrow> c \<noteq> a \<and> is_free sp B c) \<and> C (of_nat a) = replicate BSIZE 0 \<and>
        (\<forall>b. b \<noteq> of_nat a \<and> b \<noteq> BBLOCK (of_nat a) sp \<longrightarrow> C b = B b)) \<and>
    (\<forall>a < unat (sb_size sp). \<not> in_log (log_start s) (BBLOCK (of_nat a) sp) \<longrightarrow>
      (if is_free sp B a then bfree ROOTDEV (of_nat a) s = Panic ''freeing free block''
       else \<exists>t C. bfree ROOTDEV (of_nat a) s = Ok () t \<and> tx p pid t C {} \<and> (\<forall>c. is_free sp C c \<longleftrightarrow> c = a \<or> is_free sp B c) \<and>
         (\<forall>b. b \<noteq> BBLOCK (of_nat a) sp \<longrightarrow> C b = B b)))"
proof -
  have len: "\<And>b. length (B b) = BSIZE" using txD(4) [OF T] .
  have tk: "is_free sp (taken sp a B) c \<longleftrightarrow> c \<noteq> a \<and> is_free sp B c" if "is_free sp B a" for a c
  proof -
    have a: "a < unat (sb_size sp)" using that by (simp add: is_free_def)
    have "BBLOCK (of_nat c) sp \<noteq> of_nat a" if "c < unat (sb_size sp)" for c
      using ok \<open>is_free sp B a\<close> that unfolding bitmap_ok_def by metis
    then have "is_free sp (taken sp a B) c \<longleftrightarrow> is_free sp (B(BBLOCK (of_nat a) sp := bm_set (a mod BPB) (B (BBLOCK (of_nat a) sp)))) c"
      by (auto simp: is_free_def taken_def Let_def)
    then show ?thesis using is_free_upd(1) [OF len a refl, where c = c] by simp
  qed
  have at: "taken sp a B (of_nat a) = replicate BSIZE 0" "b \<noteq> of_nat a \<and> b \<noteq> BBLOCK (of_nat a) sp \<Longrightarrow> taken sp a B b = B b" for a b
    by (simp_all add: taken_def Let_def)
  have "balloc ROOTDEV s = balloc_from ROOTDEV (unat (sb_size sp)) 0 s" by (simp add: balloc_def bind_run sp)
  with balloc_from_ok [OF T sp refl ok, of 0] lg
  have b: "if \<forall>a. \<not> is_free sp B a
    then \<exists>t. balloc ROOTDEV s = bind (kprintln ''balloc: out of blocks'' []) (\<lambda>_. ret 0) t \<and> tx p pid t B {} \<and> tx_step s t
    else \<exists>t a. balloc ROOTDEV s = Ok (of_nat a) t \<and> is_free sp B a \<and> (\<forall>c < a. \<not> is_free sp B c) \<and>
      tx p pid t (taken sp a B) {} \<and> tx_step s t" by simp
  have l1: "int (length (lhome s)) < log_size s - 1" using lg by simp
  note f = bfree_ok [OF T sp _ refl _ l1] and c = is_free_upd(2) [of B, OF len _ refl]
  show ?thesis
  proof (intro conjI allI impI, goal_cases)
    case 1
    then show ?case
    proof (cases "\<forall>a. \<not> is_free sp B a")
      case True
      then show ?thesis using b by auto
    next
      case False
      then obtain t a where "balloc ROOTDEV s = Ok (of_nat a) t" "is_free sp B a" "\<forall>c < a. \<not> is_free sp B c" "tx p pid t (taken sp a B) {}"
        using b unfolding if_not_P [OF False] by blast
      with tk at show ?thesis unfolding if_not_P [OF False] by blast
    qed
  next
    case (2 a)
    then show ?case
    proof (cases "is_free sp B a")
      case False
      with f [OF 2] obtain t where t: "bfree ROOTDEV (of_nat a) s = Ok () t"
        "tx p pid t (B(BBLOCK (of_nat a) sp := bm_clear (a mod BPB) (B (BBLOCK (of_nat a) sp)))) {}" by auto
      have "\<forall>c. is_free sp (B(BBLOCK (of_nat a) sp := bm_clear (a mod BPB) (B (BBLOCK (of_nat a) sp)))) c \<longleftrightarrow> c = a \<or> is_free sp B c"
        using c [OF 2(1)] by blast
      with t False show ?thesis unfolding if_not_P [OF False] by (metis fun_upd_other)
    qed (use f [OF 2] in simp)
  qed
qed

text \<open>The layout of \<^verbatim>\<open>mkfs\<close> with no file: blocks 0 to 45 are used.\<close>

definition used46 :: "u32 \<Rightarrow> u8 list" where
  "used46 = zeros(45 := replicate 5 0xff @ [0x3f] @ replicate 1018 0)"

lemma idle_on:
  assumes "\<And>b. length (d b) = BSIZE" "hb_n (d 2) = 0"
  shows "log_idle 0 (p_pid (procs (example_log fresh_bufs 0 []) 0)) ((example_log fresh_bufs 0 [])\<lparr>disk := d\<rparr>)"
proof -
  let ?s = "(example_log fresh_bufs 0 [])\<lparr>disk := d\<rparr>"
  have c: "cached ?s ROOTDEV = (\<lambda>_. None)" by (intro ext, unfold cached_None) (simp add: holds_blk_def)
  have r: "runs_as 0 ?s" using example_log_sel(4) [of fresh_bufs 0 "[]"] by (simp add: runs_as_def)
  have "bio_unique fresh_bufs" unfolding bio_unique_def by simp
  then have "bio_inv ?s"
    unfolding bio_inv_def using fresh_ring assms(1) by (auto simp: buf_ok_def simp del: upt_rec_numeral)
  then show ?thesis
    using r assms(2) by (simp add: log_idle_def bst_def lblk_def brefs_def bowner_def c fun_eq_iff) (simp add: example_log_def bio_state.defs)
qed

lemma used46_free: "is_free example_sb used46 a \<longleftrightarrow> 46 \<le> a \<and> a < 1000"
proof (cases "a < 1000")
  case True
  then have "unat (of_nat a :: u32) = a" by (simp add: unat_of_nat)
  then have "(of_nat a :: u32) div 8192 = 0" using True by (simp add: word_unat_eq_iff unat_div)
  then have b: "used46 (BBLOCK (of_nat a) example_sb) = replicate 5 0xff @ [0x3f] @ replicate 1018 0"
    by (simp add: BBLOCK_def example_sb_def used46_def)
  have f: "is_free example_sb used46 a \<longleftrightarrow> \<not> bit ((replicate 5 0xff @ [0x3f] @ replicate 1018 0 :: u8 list) ! (a div 8)) (a mod 8)"
    using True by (simp add: is_free_def b bm_free_bit) (simp add: example_sb_def)
  consider "a < 40" | "a \<in> {40, 41, 42, 43, 44, 45, 46, 47}" | "48 \<le> a" by force
  then show ?thesis
  proof cases
    case 1
    then have "a div 8 < 5" by simp
    moreover have e: "(0xff :: u8) = - 1" by simp
    have "bit (0xff :: u8) (a mod 8)" unfolding e by simp
    ultimately show ?thesis using 1 unfolding f by (simp add: nth_append)
  next
    case 2
    then show ?thesis unfolding f by (auto simp: nth_append)
  next
    case 3
    then have "6 \<le> a div 8" using div_le_mono [of 48 a 8] by simp
    then show ?thesis using 3 True unfolding f by (simp add: nth_append nth_Cons')
  qed
qed (simp add: is_free_def example_sb_def)

theorem balloc_bfree_set_witness:
  "\<exists>t. balloc ROOTDEV (log_state.extend ((example_log fresh_bufs 0 [])\<lparr>disk := used46, log_outstanding := 1\<rparr>)
      \<lparr>sb = example_sb, itable = (\<lambda>_. example_inode)\<rparr>) = Ok 46 t"
proof -
  let ?s = "log_state.extend ((example_log fresh_bufs 0 [])\<lparr>disk := used46, log_outstanding := 1\<rparr>)
      \<lparr>sb = example_sb, itable = (\<lambda>_. example_inode)\<rparr>"
  have "\<And>b. length (used46 b) = BSIZE" "hb_n (used46 2) = 0" by (simp_all add: used46_def)
  from begin_op_idle(2) [OF idle_on [of used46, OF this]] have T: "tx 0 (p_pid (procs (example_log fresh_bufs 0 []) 0)) ?s used46 {}"
    by (simp add: tx_extend)
  have sel: "example_sb = sb ?s" "log_start ?s = 2" "log_size ?s = 30" "lhome ?s = []"
    by (simp_all add: log_state.defs lhome_def) (simp_all add: example_log_def bio_state.defs)
  have "bitmap_ok (log_start ?s) example_sb used46"
    unfolding bitmap_ok_def used46_free sel(2)
  proof (intro allI impI)
    fix a c :: nat
    assume a: "46 \<le> a \<and> a < 1000" and c: "c < unat (sb_size example_sb)"
    have c: "BBLOCK (of_nat c) example_sb = 45" 
    proof -
      have "c < 1000" using c by (simp add: example_sb_def)
      then have "unat (of_nat c :: u32) = c" by (simp add: unat_of_nat)
      then have "(of_nat c :: u32) div 8192 = 0" using \<open>c < 1000\<close> by (simp add: word_unat_eq_iff unat_div)
      then show ?thesis by (simp add: BBLOCK_def example_sb_def)
    qed
    have u: "unat (of_nat a :: u32) = a" using a by (simp add: unat_of_nat)
    then have "unat ((of_nat a :: u32) - 2) = a - 2" using a by (simp add: unat_sub word_le_nat_alt)
    then show "\<not> in_log 2 (of_nat a) \<and> \<not> in_log 2 (BBLOCK (of_nat c) example_sb) \<and> of_nat a \<noteq> BBLOCK (of_nat c) example_sb"
      unfolding c using a u by (auto simp: in_log_iff)
  qed
  from balloc_bfree_set [OF T sel(1) this] sel(3,4) have
    "\<exists>t a. balloc ROOTDEV ?s = Ok (of_nat a) t \<and> is_free example_sb used46 a \<and> (\<forall>c < a. \<not> is_free example_sb used46 c)"
    using used46_free [of 46] by (auto split: if_splits)
  then obtain t a where t: "balloc ROOTDEV ?s = Ok (of_nat a) t" "46 \<le> a" "\<forall>c < a. \<not> (46 \<le> c \<and> c < 1000)" unfolding used46_free by blast
  have "a = 46" using t(2) t(3) [rule_format, of 46] by (cases "46 < a") simp_all
  with t(1) show ?thesis by auto
qed

end
