(* ===== verification/Xv6_Mkfs.thy ===== *)
theory Xv6_Mkfs
  imports Xv6_Bitmap
begin

unbundle bit_operations_syntax

text \<open>
  The program that builds the file system image, \<^verbatim>\<open>mkfs/mkfs.c\<close>.

  The image file is the list of its blocks; writing beyond its end extends it, and reading there ends
  the program, as a failed assertion and a failed \<open>open\<close> of a file to add do. The other calls of the
  build host (seeking and writing in the image, printing) are taken to succeed. The files to add are
  given by their names and contents.
\<close>

section \<open>Layout\<close>

abbreviation (input) NINODES :: nat where "NINODES \<equiv> 200"

definition nbitmap :: nat where "nbitmap = FSSIZE div (BSIZE * 8) + 1"
definition ninodeblocks :: nat where "ninodeblocks = NINODES div IPB + 1"
definition nlog :: nat where "nlog = LOGSIZE"
definition nmeta :: nat where "nmeta = 2 + nlog + ninodeblocks + nbitmap"

text \<open>The bytes that \<open>xint\<close> and \<open>xshort\<close> lay down, as the target reads them.\<close>

definition xshort :: "u16 \<Rightarrow> u16" where
  "xshort x = get16 [ucast x, ucast (drop_bit 8 x)] 0"

definition xint :: "u32 \<Rightarrow> u32" where
  "xint x = get32 [ucast x, ucast (drop_bit 8 x), ucast (drop_bit 16 x), ucast (drop_bit 24 x)] 0"

definition mk_sb :: superblock where
  "mk_sb = \<lparr>sb_magic = FSMAGIC, sb_size = xint (of_nat FSSIZE), sb_nblocks = xint (of_nat (FSSIZE - nmeta)),
     sb_ninodes = xint (of_nat NINODES), sb_nlog = xint (of_nat nlog), sb_logstart = xint 2,
     sb_inodestart = xint (of_nat (2 + nlog)), sb_bmapstart = xint (of_nat (2 + nlog + ninodeblocks))\<rparr>"

definition sb_bytes :: "superblock \<Rightarrow> u8 list" where
  "sb_bytes b = concat (map (le_bytes 4) [sb_magic b, sb_size b, sb_nblocks b, sb_ninodes b, sb_nlog b, sb_logstart b,
     sb_inodestart b, sb_bmapstart b])"

section \<open>Sectors and inodes\<close>

record mkfs_state =
  fsimg :: "u8 list list"
  freeinode :: u32
  freeblock :: u32

definition sector :: "u32 \<Rightarrow> nat" where
  "sector sec = unat (sec * of_nat BSIZE) div BSIZE"

definition wsect :: "u32 \<Rightarrow> u8 list \<Rightarrow> (mkfs_state, unit) kern" where
  "wsect sec buf = modify (\<lambda>s. s\<lparr>fsimg :=
     (if sector sec < length (fsimg s) then (fsimg s)[sector sec := buf]
      else fsimg s @ replicate (sector sec - length (fsimg s)) (replicate BSIZE 0) @ [buf])\<rparr>)"

definition rsect :: "u32 \<Rightarrow> (mkfs_state, u8 list) kern" where
  "rsect sec = bind (gets fsimg) (\<lambda>img. if sector sec < length img then ret (img ! sector sec) else panic ''read'')"

definition winode :: "u32 \<Rightarrow> dinode \<Rightarrow> (mkfs_state, unit) kern" where
  "winode inum ip =
     (let bn = IBLOCK inum mk_sb in
      bind (rsect bn) (\<lambda>buf. wsect bn (put_dinode buf (unat (inum mod of_nat IPB)) ip)))"

definition rinode :: "u32 \<Rightarrow> (mkfs_state, dinode) kern" where
  "rinode inum =
     (let bn = IBLOCK inum mk_sb in
      bind (rsect bn) (\<lambda>buf. ret (get_dinode buf (unat (inum mod of_nat IPB)))))"

definition mk_ialloc :: "u16 \<Rightarrow> (mkfs_state, u32) kern" where
  "mk_ialloc type =
     bind (gets freeinode) (\<lambda>inum.
     bind (modify (\<lambda>s. s\<lparr>freeinode := inum + 1\<rparr>)) (\<lambda>_.
     bind (winode inum \<lparr>di_type = xshort type, di_major = 0, di_minor = 0, di_nlink = xshort 1, di_size = xint 0,
        di_addrs = replicate (NDIRECT + 1) 0\<rparr>) (\<lambda>_. ret inum)))"

definition mk_balloc :: "nat \<Rightarrow> (mkfs_state, unit) kern" where
  "mk_balloc used = block [
     panic_if (\<not> used < BSIZE * 8) ''used < BSIZE*8'',
     wsect (sb_bmapstart mk_sb) (foldl (\<lambda>buf i. bm_set i buf) (replicate BSIZE 0) [0..<used])]"

section \<open>Appending to a file\<close>

definition next_block :: "(mkfs_state, u32) kern" where
  "next_block = bind (gets freeblock) (\<lambda>b. bind (modify (\<lambda>s. s\<lparr>freeblock := b + 1\<rparr>)) (\<lambda>_. ret b))"

text \<open>The block for block \<open>fbn\<close> of the file, allocated when there is none, and the inode with it.\<close>

definition mk_block :: "nat \<Rightarrow> dinode \<Rightarrow> (mkfs_state, u32 \<times> dinode) kern" where
  "mk_block fbn din =
     (if fbn < NDIRECT then
        bind (if xint (di_addrs din ! fbn) = 0 then
            bind next_block (\<lambda>b. ret (din\<lparr>di_addrs := (di_addrs din)[fbn := xint b]\<rparr>))
          else ret din) (\<lambda>din. ret (xint (di_addrs din ! fbn), din))
      else
        bind (if xint (di_addrs din ! NDIRECT) = 0 then
            bind next_block (\<lambda>b. ret (din\<lparr>di_addrs := (di_addrs din)[NDIRECT := xint b]\<rparr>))
          else ret din) (\<lambda>din.
        bind (rsect (xint (di_addrs din ! NDIRECT))) (\<lambda>indirect.
        bind (if get32 indirect (4 * (fbn - NDIRECT)) = 0 then
            bind next_block (\<lambda>b.
              let indirect = put32 indirect (4 * (fbn - NDIRECT)) (xint b) in
              bind (wsect (xint (di_addrs din ! NDIRECT)) indirect) (\<lambda>_. ret indirect))
          else ret indirect) (\<lambda>indirect.
          ret (xint (get32 indirect (4 * (fbn - NDIRECT))), din)))))"

lemma chunk_eq: "(off div 1024 + 1) * 1024 - off = 1024 - off mod (1024 :: u32)"
  using div_mult_mod_eq [of off 1024] by (simp add: algebra_simps)

lemma chunk_pos: "0 < unat ((off div 1024 + 1) * 1024 - off :: u32)"
proof -
  have "off mod 1024 \<noteq> 1024" using word_mod_less_divisor [of 1024 off] by auto
  then have "1024 - off mod 1024 \<noteq> 0" by (metis right_minus_eq)
  then show ?thesis unfolding chunk_eq by (simp only: unat_gt_0 not_False_eq_True)
qed

function iappend_loop :: "u8 list \<Rightarrow> dinode \<Rightarrow> u32 \<Rightarrow> (mkfs_state, dinode \<times> u32) kern" where
  "iappend_loop p din off =
     (if p = [] then ret (din, off)
      else
        (let fbn = off div of_nat BSIZE in
         bind (panic_if (\<not> unat fbn < MAXFILE) ''fbn < MAXFILE'') (\<lambda>_.
         bind (mk_block (unat fbn) din) (\<lambda>(x, din).
           let n1 = min (length p) (unat ((fbn + 1) * of_nat BSIZE - off)) in
           bind (rsect x) (\<lambda>buf.
           bind (wsect x (splice buf (unat (off - fbn * of_nat BSIZE)) (take n1 p))) (\<lambda>_.
             iappend_loop (drop n1 p) din (off + of_nat n1)))))))"
  by pat_completeness auto
termination
  by (relation "measure (\<lambda>(p, din, off). length p)") (use chunk_pos in auto)

declare iappend_loop.simps [simp del]

definition iappend :: "u32 \<Rightarrow> u8 list \<Rightarrow> (mkfs_state, unit) kern" where
  "iappend inum p =
     bind (rinode inum) (\<lambda>din.
     bind (iappend_loop p din (xint (di_size din))) (\<lambda>(din, off).
       winode inum (din\<lparr>di_size := xint off\<rparr>)))"

section \<open>Building the image\<close>

function chunks :: "u8 list \<Rightarrow> u8 list list" where
  "chunks bs = (if bs = [] then [] else take BSIZE bs # chunks (drop BSIZE bs))"
  by pat_completeness auto
termination
  by (relation "measure length") auto

declare chunks.simps [simp del]

definition shortname :: "u8 list \<Rightarrow> u8 list" where
  "shortname arg = (if take 5 arg = bytes ''user/'' then drop 5 arg else arg)"

definition padded :: "u8 list \<Rightarrow> u8 list" where
  "padded name = take DIRSIZ (name @ replicate DIRSIZ 0)"

definition add_entry :: "u32 \<Rightarrow> u32 \<Rightarrow> u8 list \<Rightarrow> (mkfs_state, unit) kern" where
  "add_entry dir inum name = iappend dir (put_dirent \<lparr>de_inum = xshort (ucast inum), de_name = padded name\<rparr>)"

text \<open>The body of the loop over the arguments; a file that cannot be opened has no contents.\<close>

definition add_file :: "u32 \<Rightarrow> u8 list \<times> u8 list option \<Rightarrow> (mkfs_state, unit) kern" where
  "add_file rootino = (\<lambda>(arg, contents).
     let name = shortname arg in
     bind (panic_if (of_char CHR ''/'' \<in> set name) ''index(shortname) == 0'') (\<lambda>_.
     case contents of
       None \<Rightarrow> panic ''open''
     | Some bs \<Rightarrow>
         let name = (if name \<noteq> [] \<and> name ! 0 = of_char CHR ''_'' then drop 1 name else name) in
         bind (mk_ialloc T_FILE) (\<lambda>inum.
         bind (add_entry rootino inum name) (\<lambda>_. block (map (iappend inum) (chunks bs))))))"

definition mk_main :: "(u8 list \<times> u8 list option) list \<Rightarrow> (mkfs_state, unit) kern" where
  "mk_main files =
     bind (modify (\<lambda>s. s\<lparr>freeblock := of_nat nmeta\<rparr>)) (\<lambda>_.
     bind (block (map (\<lambda>i. wsect (of_nat i) (replicate BSIZE 0)) [0..<FSSIZE])) (\<lambda>_.
     bind (wsect 1 (splice (replicate BSIZE 0) 0 (sb_bytes mk_sb))) (\<lambda>_.
     bind (mk_ialloc T_DIR) (\<lambda>rootino.
     bind (panic_if (rootino \<noteq> ROOTINO) ''rootino == ROOTINO'') (\<lambda>_.
     bind (add_entry rootino rootino (bytes ''.'')) (\<lambda>_.
     bind (add_entry rootino rootino (bytes ''..'')) (\<lambda>_.
     bind (block (map (add_file rootino) files)) (\<lambda>_.
     bind (rinode rootino) (\<lambda>din.
     bind (winode rootino (din\<lparr>di_size := xint ((xint (di_size din) div of_nat BSIZE + 1) * of_nat BSIZE)\<rparr>)) (\<lambda>_.
     bind (gets freeblock) (\<lambda>used. mk_balloc (unat used))))))))))))"

definition mkfs_start :: mkfs_state where
  "mkfs_start = \<lparr>fsimg = [], freeinode = 1, freeblock = 0\<rparr>"

end
