(* ===== verification/Xv6_Image.thy ===== *)
theory Xv6_Image
  imports Xv6_Mkfs
begin

unbundle bit_operations_syntax

text \<open>
  What the kernel finds on an image that \<^verbatim>\<open>mkfs\<close> built. \<open>file_at\<close> is the invariant of one file,
  with an owner for every block, \<open>fs_image\<close> that of the whole image while it is built; the operations
  of \<^verbatim>\<open>Xv6_Mkfs\<close> keep them, and return when there is room.
\<close>

section \<open>Reading and writing the image\<close>

lemma xint_id [simp]: "xint x = x"
proof -
  have "xint x = le_word (le_bytes 4 x)" by (simp add: xint_def get32_def Xv6_Prelude.slice_def le_bytes_def eval_nat_numeral)
  then show ?thesis by (simp add: le_word_bytes)
qed

lemma xshort_id [simp]: "xshort x = x"
proof -
  have "xshort x = le_word (le_bytes 2 x)" by (simp add: xshort_def get16_def Xv6_Prelude.slice_def le_bytes_def eval_nat_numeral)
  then show ?thesis by (simp add: le_word_bytes)
qed

lemma mk_sb_layout:
  "mk_sb = \<lparr>sb_magic = FSMAGIC, sb_size = 2000, sb_nblocks = 1954, sb_ninodes = 200, sb_nlog = 30, sb_logstart = 2,
     sb_inodestart = 32, sb_bmapstart = 45\<rparr>"
  by (simp add: mk_sb_def nmeta_def nlog_def ninodeblocks_def nbitmap_def)

lemma sector_small: "unat sec < 2 ^ 22 \<Longrightarrow> sector sec = unat sec"
  by (simp add: sector_def unat_word_ariths unat_of_nat)

definition img_disk :: "u8 list list \<Rightarrow> u32 \<Rightarrow> u8 list" where
  "img_disk img b = img ! unat b"

text \<open>The image has all its blocks.\<close>

definition whole :: "u8 list list \<Rightarrow> bool" where
  "whole img \<longleftrightarrow> length img = FSSIZE \<and> (\<forall>b < FSSIZE. length (img ! b) = BSIZE)"

lemma rsect_run: "whole (fsimg s) \<Longrightarrow> unat b < FSSIZE \<Longrightarrow> rsect b s = Ok (img_disk (fsimg s) b) s"
  by (simp add: rsect_def whole_def sector_small kern_simps img_disk_def)

lemma wsect_run: "whole (fsimg s) \<Longrightarrow> unat b < FSSIZE \<Longrightarrow> wsect b d s = Ok () (s\<lparr>fsimg := (fsimg s)[unat b := d]\<rparr>)"
  by (simp add: wsect_def whole_def sector_small kern_simps)

lemma whole_update: "whole img \<Longrightarrow> length d = BSIZE \<Longrightarrow> whole (img[b := d])"
  by (simp add: whole_def nth_update_any)

lemma img_disk_update: "whole img \<Longrightarrow> unat b < FSSIZE \<Longrightarrow> img_disk (img[unat b := d]) c = (if c = b then d else img_disk img c)"
  by (auto simp: img_disk_def whole_def nth_list_update word_unat_eq_iff)

lemma img_disk_length: "whole img \<Longrightarrow> unat b < FSSIZE \<Longrightarrow> length (img_disk img b) = BSIZE"
  by (simp add: img_disk_def whole_def)

section \<open>Inodes of the image\<close>

definition iblock :: "nat \<Rightarrow> nat" where
  "iblock j = 32 + j div IPB"

definition dinode_at :: "u8 list list \<Rightarrow> nat \<Rightarrow> dinode" where
  "dinode_at img j = get_dinode (img ! iblock j) (j mod IPB)"

lemma IBLOCK_iblock: "j < 208 \<Longrightarrow> unat (IBLOCK (of_nat j) mk_sb) = iblock j" "j < 208 \<Longrightarrow> iblock j < 45" "32 \<le> iblock j"
proof -
  show j: "j < 208 \<Longrightarrow> iblock j < 45" "32 \<le> iblock j" by (simp_all add: iblock_def)
  assume "j < 208"
  then have "unat (of_nat j div of_nat IPB :: u32) = j div IPB" by (simp add: unat_div unat_of_nat)
  then show "unat (IBLOCK (of_nat j) mk_sb) = iblock j"
    using \<open>j < 208\<close> by (simp add: IBLOCK_def mk_sb_layout iblock_def unat_word_ariths)
qed

lemma inum_mod: "j < 208 \<Longrightarrow> unat (of_nat j mod of_nat IPB :: u32) = j mod IPB"
  by (simp add: unat_mod unat_of_nat)

lemma rinode_run: "whole (fsimg s) \<Longrightarrow> j < 208 \<Longrightarrow> rinode (of_nat j) s = Ok (dinode_at (fsimg s) j) s"
  using IBLOCK_iblock [of j] by (simp add: rinode_def Let_def bind_run rsect_run inum_mod dinode_at_def img_disk_def del: of_nat_numeral)

lemma winode_run:
  "whole (fsimg s) \<Longrightarrow> j < 208 \<Longrightarrow>
   winode (of_nat j) di s = Ok () (s\<lparr>fsimg := (fsimg s)[iblock j := put_dinode (fsimg s ! iblock j) (j mod IPB) di]\<rparr>)"
  using IBLOCK_iblock [of j] by (simp add: winode_def Let_def bind_run rsect_run wsect_run inum_mod img_disk_def del: of_nat_numeral)

lemma dinode_at_winode:
  assumes "whole img" "j < 208" "i < 208" "length (di_addrs di) = NDIRECT + 1"
  shows "dinode_at (img[iblock j := put_dinode (img ! iblock j) (j mod IPB) di]) i = (if i = j then di else dinode_at img i)"
proof (cases "iblock i = iblock j")
  case True
  then have "i = j \<longleftrightarrow> i mod IPB = j mod IPB" unfolding iblock_def by (metis add_left_cancel div_mult_mod_eq)
  moreover have "length (img ! iblock j) = BSIZE" "iblock j < length img" using assms IBLOCK_iblock(2) [of j] by (simp_all add: whole_def)
  ultimately show ?thesis using True assms(4) by (simp add: dinode_at_def get_put_dinode get_put_dinode_other)
next
  case False
  then show ?thesis by (auto simp: dinode_at_def)
qed

lemma dinode_addrs_length [simp]: "length (di_addrs (dinode_at img j)) = NDIRECT + 1"
  by (simp add: dinode_at_def get_dinode_def)

section \<open>Files of the image\<close>

text \<open>The inode as the kernel has it in memory, and the file that it stands for there.\<close>

definition loaded :: "dinode \<Rightarrow> inode" where
  "loaded di = \<lparr>i_dev = ROOTDEV, i_inum = 0, i_ref = 1, i_valid = 1, i_type = di_type di, i_major = di_major di,
     i_minor = di_minor di, i_nlink = di_nlink di, i_size = di_size di, i_addrs = di_addrs di\<rparr>"

definition ptr :: "u8 list list \<Rightarrow> dinode \<Rightarrow> nat \<Rightarrow> u32" where
  "ptr img di k = fblock (img_disk img) (loaded di) k"

text \<open>
  Every allocated block has an owner: block \<open>k\<close> of a file, or, as number \<^verbatim>\<open>MAXFILE\<close>, its indirect
  block. \<open>file_at\<close> says that inode \<open>j\<close> has \<open>N\<close> blocks and an indirect block or not, all its own, and
  that they hold the bytes \<open>c\<close> and zeros after them.
\<close>

type_synonym owner = "u32 \<Rightarrow> (nat \<times> nat) option"

definition file_at :: "u8 list list \<Rightarrow> owner \<Rightarrow> nat \<Rightarrow> dinode \<Rightarrow> bool \<Rightarrow> nat \<Rightarrow> u8 list \<Rightarrow> bool" where
  "file_at img own j di ind N c \<longleftrightarrow>
     length (di_addrs di) = NDIRECT + 1 \<and> N \<le> MAXFILE \<and> length c \<le> N * BSIZE \<and>
     (\<forall>k < N. own (ptr img di k) = Some (j, k)) \<and>
     (\<forall>k < NDIRECT. N \<le> k \<longrightarrow> di_addrs di ! k = 0) \<and>
     (ind \<longrightarrow> NDIRECT \<le> N) \<and> (NDIRECT < N \<longrightarrow> ind) \<and>
     (if ind then own (di_addrs di ! NDIRECT) = Some (j, MAXFILE) \<and> (\<forall>k < MAXFILE. N \<le> k \<longrightarrow> ptr img di k = 0)
      else di_addrs di ! NDIRECT = 0) \<and>
     (\<forall>i < N * BSIZE. fbyte (img_disk img) (loaded di) i = (if i < length c then c ! i else 0))"

definition image_ok :: "u8 list list \<Rightarrow> nat \<Rightarrow> owner \<Rightarrow> bool" where
  "image_ok img fb own \<longleftrightarrow> whole img \<and> 46 \<le> fb \<and> fb \<le> FSSIZE \<and>
     (\<forall>b v. own b = Some v \<longrightarrow> 46 \<le> unat b \<and> unat b < fb) \<and>
     (\<forall>b. fb \<le> b \<and> b < FSSIZE \<longrightarrow> img ! b = replicate BSIZE 0)"

lemma loaded_addrs [simp]: "i_addrs (loaded di) = di_addrs di"
  by (simp add: loaded_def)

lemma ptr_direct: "k < NDIRECT \<Longrightarrow> ptr img di k = di_addrs di ! k"
  by (simp add: ptr_def fblock_def)

lemma ptr_indirect: "NDIRECT \<le> k \<Longrightarrow> ptr img di k = get32 (img_disk img (di_addrs di ! NDIRECT)) (4 * (k - NDIRECT))"
  by (simp add: ptr_def fblock_def)

lemma fbyte_ptr: "fbyte (img_disk img) (loaded di) i = img_disk img (ptr img di (i div BSIZE)) ! (i mod BSIZE)"
  by (simp add: fbyte_def ptr_def)

lemma file_at_frame:
  assumes F: "file_at img own j di ind N c"
    and same: "\<And>b m. own b = Some (j, m) \<Longrightarrow> own' b = Some (j, m) \<and> img_disk img' b = img_disk img b"
  shows "file_at img' own' j di ind N c"
proof -
  have p: "ptr img' di k = ptr img di k" if "k < N \<or> ind" for k
  proof (cases "k < NDIRECT")
    case False
    then have ind using that F by (auto simp: file_at_def)
    then have "own (di_addrs di ! NDIRECT) = Some (j, MAXFILE)" using F by (simp add: file_at_def)
    from same [OF this] show ?thesis using False by (simp add: ptr_indirect)
  qed (simp add: ptr_direct)
  have f: "fbyte (img_disk img') (loaded di) i = fbyte (img_disk img) (loaded di) i" if "i < N * BSIZE" for i
  proof -
    have k: "i div BSIZE < N" using that by (simp add: less_mult_imp_div_less)
    then have "own (ptr img di (i div BSIZE)) = Some (j, i div BSIZE)" using F by (simp add: file_at_def)
    from same [OF this] show ?thesis using p k by (simp add: fbyte_ptr)
  qed
  have "\<forall>k < N. own' (ptr img' di k) = Some (j, k)" using F same p by (simp add: file_at_def)
  moreover have "ind \<Longrightarrow> own' (di_addrs di ! NDIRECT) = Some (j, MAXFILE)" using F same by (simp add: file_at_def)
  ultimately show ?thesis using F p f by (auto simp: file_at_def)
qed

lemma fresh_block:
  assumes "image_ok img fb own" "fb < FSSIZE"
  shows "unat (of_nat fb :: u32) = fb" "own (of_nat fb) = None" "img_disk img (of_nat fb) = replicate BSIZE 0" "(of_nat fb :: u32) \<noteq> 0"
proof -
  show u: "unat (of_nat fb :: u32) = fb" using assms(2) by (simp add: unat_of_nat)
  show "own (of_nat fb) = None"
  proof (rule ccontr)
    assume "own (of_nat fb) \<noteq> None"
    then obtain v where "own (of_nat fb) = Some v" by auto
    then show False using assms(1) u unfolding image_ok_def by fastforce
  qed
  show "img_disk img (of_nat fb) = replicate BSIZE 0" using assms u by (simp add: image_ok_def img_disk_def)
  show "(of_nat fb :: u32) \<noteq> 0" using u assms(1) by (auto simp: image_ok_def)
qed

lemma get32_zeros: "i + 4 \<le> BSIZE \<Longrightarrow> get32 (replicate BSIZE 0) i = 0"
proof -
  assume "i + 4 \<le> BSIZE"
  then have "slice (replicate BSIZE 0) i 4 = replicate 4 (0 :: u8)" by (simp add: Xv6_Prelude.slice_def min_def)
  also have "\<dots> = [0, 0, 0, 0]" by (simp add: numeral_eq_Suc)
  finally show ?thesis by (simp add: get32_def)
qed

lemma image_ok_own:
  "image_ok img fb own \<Longrightarrow> fb < FSSIZE \<Longrightarrow> image_ok img (Suc fb) (own(of_nat fb \<mapsto> v))"
  unfolding image_ok_def by (auto simp: unat_of_nat split: if_splits intro: less_SucI)

lemma image_ok_write:
  assumes "image_ok img fb own" "own b = Some v" "length d = BSIZE"
  shows "image_ok (img[unat b := d]) fb own"
proof -
  have "unat b < fb" using assms by (simp add: image_ok_def)
  then have "(img[unat b := d]) ! c = img ! c" if "fb \<le> c" for c using that by simp
  moreover have "whole (img[unat b := d])" using assms by (simp add: image_ok_def whole_update)
  ultimately show ?thesis using assms(1) by (simp add: image_ok_def)
qed

lemma fbyte_split:
  assumes "i < Suc N * BSIZE"
  shows "i < N * BSIZE \<and> i div BSIZE < N \<or> N * BSIZE \<le> i \<and> i div BSIZE = N \<and> i mod BSIZE < BSIZE"
  using assms by (cases "i < N * BSIZE") (auto simp: less_mult_imp_div_less div_nat_eqI)

lemma add_direct:
  assumes F: "file_at img own j di ind N c" and ok: "image_ok img fb own" and N: "N < NDIRECT" and fb: "fb < FSSIZE"
  shows "file_at img (own(of_nat fb \<mapsto> (j, N))) j (di\<lparr>di_addrs := (di_addrs di)[N := of_nat fb]\<rparr>) ind (Suc N) c"
proof -
  let ?b = "of_nat fb :: u32"
  let ?di = "di\<lparr>di_addrs := (di_addrs di)[N := ?b]\<rparr>"
  note b = fresh_block [OF ok fb]
  have l: "length (di_addrs di) = NDIRECT + 1" and ind: "\<not> ind" using F N by (auto simp: file_at_def)
  have p: "ptr img ?di k = (if k = N then ?b else ptr img di k)" if "k < Suc N" for k
    using that N l by (simp add: ptr_direct)
  have o: "own (ptr img di k) = Some (j, k)" if "k < N" for k using F that by (simp add: file_at_def)
  have "fbyte (img_disk img) (loaded ?di) i = (if i < length c then c ! i else 0)" if i: "i < Suc N * BSIZE" for i
    using fbyte_split [OF i]
  proof
    assume "i < N * BSIZE \<and> i div BSIZE < N"
    then show ?thesis using F p by (simp add: file_at_def fbyte_ptr)
  next
    assume n: "N * BSIZE \<le> i \<and> i div BSIZE = N \<and> i mod BSIZE < BSIZE"
    then have "\<not> i < length c" using F by (simp add: file_at_def)
    then show ?thesis using n p [of N] b(3) by (simp add: fbyte_ptr)
  qed
  moreover have "(own(?b \<mapsto> (j, N))) (ptr img ?di k) = Some (j, k)" if "k < Suc N" for k
    using p [OF that] o [of k] that b(2) by (cases "k = N") (auto simp: less_Suc_eq)
  ultimately show ?thesis using F N ind l by (auto simp: file_at_def)
qed

lemma add_indirect:
  assumes F: "file_at img own j di False NDIRECT c" and ok: "image_ok img fb own" and fb: "fb < FSSIZE"
  shows "file_at img (own(of_nat fb \<mapsto> (j, MAXFILE))) j (di\<lparr>di_addrs := (di_addrs di)[NDIRECT := of_nat fb]\<rparr>) True NDIRECT c"
proof -
  let ?b = "of_nat fb :: u32"
  let ?di = "di\<lparr>di_addrs := (di_addrs di)[NDIRECT := ?b]\<rparr>"
  note b = fresh_block [OF ok fb]
  have l: "length (di_addrs di) = NDIRECT + 1" using F by (auto simp: file_at_def)
  have p: "ptr img ?di k = ptr img di k" if "k < NDIRECT" for k using that by (simp add: ptr_direct)
  have z: "ptr img ?di k = 0" if "NDIRECT \<le> k" "k < MAXFILE" for k
    using that l b(3) by (simp add: ptr_indirect get32_zeros)
  have "fbyte (img_disk img) (loaded ?di) i = (if i < length c then c ! i else 0)" if i: "i < NDIRECT * BSIZE" for i
  proof -
    have "i div BSIZE < NDIRECT" using i by (simp add: less_mult_imp_div_less)
    then show ?thesis using F p i by (simp add: file_at_def fbyte_ptr)
  qed
  moreover have "(own(?b \<mapsto> (j, MAXFILE))) (ptr img ?di k) = Some (j, k)" if "k < NDIRECT" for k
  proof -
    have "own (ptr img di k) = Some (j, k)" using F that by (simp add: file_at_def)
    then show ?thesis using p [OF that] b(2) by (auto simp: fun_upd_apply)
  qed
  ultimately show ?thesis using F l z by (auto simp: file_at_def)
qed

lemma owned_block:
  assumes "image_ok img fb own" "own b = Some v"
  shows "unat b < FSSIZE" "46 \<le> unat b" "b \<noteq> 0"
proof -
  show u: "unat b < FSSIZE" "46 \<le> unat b" using assms by (auto simp: image_ok_def dest!: spec [of _ b])
  then show "b \<noteq> 0" by auto
qed

lemma add_to_indirect:
  assumes F: "file_at img own j di True N c" and ok: "image_ok img fb own" and N: "N < MAXFILE" and fb: "fb < FSSIZE"
    and i: "i = di_addrs di ! NDIRECT" and img': "img' = img[unat i := put32 (img_disk img i) (4 * (N - NDIRECT)) (of_nat fb)]"
  shows "file_at img' (own(of_nat fb \<mapsto> (j, N))) j di True (Suc N) c" "image_ok img' (Suc fb) (own(of_nat fb \<mapsto> (j, N)))"
    "\<And>b. b \<noteq> i \<Longrightarrow> img_disk img' b = img_disk img b" "own i = Some (j, MAXFILE)"
proof -
  let ?b = "of_nat fb :: u32"
  note b = fresh_block [OF ok fb]
  have w: "whole img" using ok by (simp add: image_ok_def)
  have N12: "NDIRECT \<le> N" and zero: "\<And>k. k < MAXFILE \<Longrightarrow> N \<le> k \<Longrightarrow> ptr img di k = 0"
    and o: "\<And>k. k < N \<Longrightarrow> own (ptr img di k) = Some (j, k)" using F by (auto simp: file_at_def)
  show oi: "own i = Some (j, MAXFILE)" using F i by (simp add: file_at_def)
  have ib: "i \<noteq> ?b" using oi b(2) by auto
  have iu: "unat i < FSSIZE" using owned_block [OF ok oi] by simp
  then have il: "length (img_disk img i) = BSIZE" using w by (simp add: img_disk_length)
  show d: "img_disk img' b = img_disk img b" if "b \<noteq> i" for b
    using that by (simp add: img' img_disk_update [OF w iu])
  have di: "img_disk img' i = put32 (img_disk img i) (4 * (N - NDIRECT)) ?b" by (simp add: img' img_disk_update [OF w iu])
  have p: "ptr img' di k = (if k = N then ?b else ptr img di k)" if "k < MAXFILE" for k
  proof (cases "k < NDIRECT")
    case False
    then have "4 * (k - NDIRECT) + 4 \<le> BSIZE" "4 * (N - NDIRECT) + 4 \<le> BSIZE" using that N N12 by simp_all
    moreover have "k = N \<or> 4 * (k - NDIRECT) + 4 \<le> 4 * (N - NDIRECT) \<or> 4 * (N - NDIRECT) + 4 \<le> 4 * (k - NDIRECT)"
      using False N12 by arith
    ultimately show ?thesis using False il N12 by (auto simp: ptr_indirect i [symmetric] di get_put_other)
  qed (use N12 in \<open>simp add: ptr_direct\<close>)
  have "fbyte (img_disk img') (loaded di) x = (if x < length c then c ! x else 0)" if x: "x < Suc N * BSIZE" for x
    using fbyte_split [OF x]
  proof
    assume n: "x < N * BSIZE \<and> x div BSIZE < N"
    then have "ptr img di (x div BSIZE) \<noteq> i" using o [of "x div BSIZE"] oi N by auto
    then show ?thesis using F p [of "x div BSIZE"] n N d by (simp add: file_at_def fbyte_ptr)
  next
    assume n: "N * BSIZE \<le> x \<and> x div BSIZE = N \<and> x mod BSIZE < BSIZE"
    then have "\<not> x < length c" using F by (simp add: file_at_def)
    then show ?thesis using n p [of N] N b(3) d [of ?b] ib by (simp add: fbyte_ptr)
  qed
  moreover have "(own(?b \<mapsto> (j, N))) (ptr img' di k) = Some (j, k)" if "k < Suc N" for k
    using p [of k] o [of k] that b(2) N by (cases "k = N") (auto simp: less_Suc_eq)
  moreover have "ptr img' di k = 0" if "k < MAXFILE" "Suc N \<le> k" for k using p zero that by simp
  ultimately show "file_at img' (own(?b \<mapsto> (j, N))) j di True (Suc N) c"
    using F N N12 oi ib by (auto simp: file_at_def i [symmetric])
  have l: "length (put32 (img_disk img i) (4 * (N - NDIRECT)) ?b) = BSIZE" using il N by simp
  have "(own(?b \<mapsto> (j, N))) i = Some (j, MAXFILE)" using oi ib by simp
  from image_ok_write [OF image_ok_own [OF ok fb] this l] show "image_ok img' (Suc fb) (own(?b \<mapsto> (j, N)))"
    unfolding img' .
qed

text \<open>What a change for file \<open>j\<close> leaves alone.\<close>

definition grows :: "nat \<Rightarrow> owner \<Rightarrow> owner \<Rightarrow> u8 list list \<Rightarrow> u8 list list \<Rightarrow> bool" where
  "grows j own own' img img' \<longleftrightarrow> (\<forall>b v. own b = Some v \<longrightarrow> own' b = Some v) \<and>
     (\<forall>b. (\<forall>m. own' b \<noteq> Some (j, m)) \<longrightarrow> img_disk img' b = img_disk img b)"

lemma grows_refl: "grows j own own img img"
  by (simp add: grows_def)

lemma grows_trans: "grows j own own' img img' \<Longrightarrow> grows j own' own'' img' img'' \<Longrightarrow> grows j own own'' img img''"
  unfolding grows_def by metis

lemma grows_other:
  assumes "grows j own own' img img'" "file_at img own i di ind N c" "i \<noteq> j"
  shows "file_at img' own' i di ind N c"
proof (rule file_at_frame [OF assms(2)])
  fix b m assume "own b = Some (i, m)"
  then have "own' b = Some (i, m)" using assms(1) by (simp add: grows_def)
  moreover from this have "img_disk img' b = img_disk img b" using assms(1,3) by (simp add: grows_def)
  ultimately show "own' b = Some (i, m) \<and> img_disk img' b = img_disk img b" by simp
qed

lemma grows_fresh: "image_ok img fb own \<Longrightarrow> fb < FSSIZE \<Longrightarrow> grows j own (own(of_nat fb \<mapsto> (j, k))) img img"
  using fresh_block(2) [of img fb own] by (auto simp: grows_def)

lemma next_block_run: "next_block s = Ok (freeblock s) (s\<lparr>freeblock := freeblock s + 1\<rparr>)"
  by (simp add: next_block_def bind_run kern_simps)


text \<open>How many blocks a file of \<open>n\<close> bytes takes on the disk, with its indirect block.\<close>

definition blocks_for :: "nat \<Rightarrow> nat" where
  "blocks_for n = (n + (BSIZE - 1)) div BSIZE"

definition cost :: "nat \<Rightarrow> nat" where
  "cost N = (if NDIRECT < N then N + 1 else N)"

lemma mk_block_old:
  assumes F: "file_at (fsimg s) own j di ind N c" and ok: "image_ok (fsimg s) fb own" and n: "n < N"
  shows "mk_block n di s = Ok (ptr (fsimg s) di n, di) s"
proof -
  have w: "whole (fsimg s)" using ok by (simp add: image_ok_def)
  have p: "own (ptr (fsimg s) di n) = Some (j, n)" using F n by (simp add: file_at_def)
  show ?thesis
  proof (cases "n < NDIRECT")
    case True
    then show ?thesis using owned_block(3) [OF ok p] by (simp add: mk_block_def bind_run ptr_direct)
  next
    case False
    then have "own (di_addrs di ! NDIRECT) = Some (j, MAXFILE)" using F n by (auto simp: file_at_def)
    from owned_block [OF ok this] show ?thesis
      using False owned_block(3) [OF ok p] w by (simp add: mk_block_def bind_run ptr_indirect rsect_run)
  qed
qed

text \<open>The outcome of an allocation for block \<open>n\<close> of file \<open>j\<close>.\<close>

definition allocated :: "nat \<Rightarrow> nat \<Rightarrow> u8 list \<Rightarrow> owner \<Rightarrow> mkfs_state \<Rightarrow> dinode \<Rightarrow> owner \<Rightarrow> mkfs_state \<Rightarrow> dinode \<Rightarrow> bool" where
  "allocated j N c own s di own' s' di' \<longleftrightarrow>
     image_ok (fsimg s') (unat (freeblock s')) own' \<and> file_at (fsimg s') own' j di' (NDIRECT < N) N c \<and>
     grows j own own' (fsimg s) (fsimg s') \<and> freeinode s' = freeinode s \<and> di' = di\<lparr>di_addrs := di_addrs di'\<rparr>"

lemma unat_next: "unat (b :: u32) < FSSIZE \<Longrightarrow> unat (b + 1) = Suc (unat b)"
  by (simp add: unat_word_ariths)

lemma mk_block_direct:
  assumes F: "file_at (fsimg s) own j di (NDIRECT < N) N c" and ok: "image_ok (fsimg s) (unat (freeblock s)) own"
    and N: "N < NDIRECT" and fb: "unat (freeblock s) < FSSIZE"
  shows "\<exists>own' s' di'. mk_block N di s = Ok (ptr (fsimg s') di' N, di') s' \<and> allocated j (Suc N) c own s di own' s' di' \<and>
    unat (freeblock s') = Suc (unat (freeblock s))"
proof -
  let ?b = "freeblock s" and ?s = "s\<lparr>freeblock := freeblock s + 1\<rparr>"
  let ?di = "di\<lparr>di_addrs := (di_addrs di)[N := ?b]\<rparr>" and ?own = "own(?b \<mapsto> (j, N))"
  have l: "length (di_addrs di) = NDIRECT + 1" "di_addrs di ! N = 0" using F N by (simp_all add: file_at_def)
  have "mk_block N di s = Ok (?b, ?di) ?s" using N l by (simp add: mk_block_def bind_run next_block_run)
  moreover have "ptr (fsimg ?s) ?di N = ?b" using N l by (simp add: ptr_direct)
  moreover have "allocated j (Suc N) c own s di ?own ?s ?di"
    using add_direct [OF F ok N fb] image_ok_own [OF ok fb, of "(j, N)"] grows_fresh [OF ok fb, of j N] N
    by (simp add: allocated_def unat_next [OF fb])
  ultimately show ?thesis using unat_next [OF fb] by (intro exI [of _ ?own] exI [of _ ?s] exI [of _ ?di]) simp
qed

lemma mk_block_entry:
  assumes F: "file_at (fsimg s) own j di True N c" and ok: "image_ok (fsimg s) (unat (freeblock s)) own"
    and N: "N < MAXFILE" and fb: "unat (freeblock s) < FSSIZE"
  shows "\<exists>own' s'. mk_block N di s = Ok (ptr (fsimg s') di N, di) s' \<and> allocated j (Suc N) c own s di own' s' di \<and>
    unat (freeblock s') = Suc (unat (freeblock s))"
proof -
  let ?b = "freeblock s" and ?i = "di_addrs di ! NDIRECT" and ?own = "own(freeblock s \<mapsto> (j, N))"
  let ?d = "put32 (img_disk (fsimg s) ?i) (4 * (N - NDIRECT)) ?b"
  let ?s = "s\<lparr>freeblock := ?b + 1, fsimg := (fsimg s)[unat ?i := ?d]\<rparr>"
  have w: "whole (fsimg s)" using ok by (simp add: image_ok_def)
  have N12: "NDIRECT \<le> N" "ptr (fsimg s) di N = 0" using F N by (auto simp: file_at_def)
  have b: "of_nat (unat ?b) = ?b" by simp
  note a = add_to_indirect [OF F ok N fb refl refl, unfolded b]
  note o = owned_block [OF ok a(4)]
  have il: "length (img_disk (fsimg s) ?i) = BSIZE" using w o(1) by (rule img_disk_length)
  have "get32 (img_disk (fsimg s) ?i) (4 * (N - NDIRECT)) = 0" using N12 by (simp add: ptr_indirect)
  then have "mk_block N di s = Ok (get32 ?d (4 * (N - NDIRECT)), di) ?s"
    using N12 o w by (simp add: mk_block_def bind_run rsect_run wsect_run next_block_run Let_def)
  moreover have "get32 ?d (4 * (N - NDIRECT)) = ptr (fsimg ?s) di N"
    using N12 img_disk_update [OF w o(1)] by (simp add: ptr_indirect)
  moreover have "grows j own ?own (fsimg s) (fsimg ?s)"
  proof -
    have "own ?b = None" using fresh_block(2) [OF ok fb] by simp
    moreover have "b \<noteq> ?i" if "\<forall>m. own b \<noteq> Some (j, m)" for b using that a(4) by auto
    ultimately show ?thesis using a(3) by (auto simp: grows_def)
  qed
  ultimately show ?thesis using a(1,2) N12 unat_next [OF fb]
    by (intro exI [of _ ?own] exI [of _ ?s]) (simp add: allocated_def)
qed

lemma mk_block_first:
  assumes F: "file_at (fsimg s) own j di False NDIRECT c" and ok: "image_ok (fsimg s) (unat (freeblock s)) own"
    and fb: "unat (freeblock s) + 1 < FSSIZE"
  shows "\<exists>own' s' di'. mk_block NDIRECT di s = Ok (ptr (fsimg s') di' NDIRECT, di') s' \<and>
    allocated j (Suc NDIRECT) c own s di own' s' di' \<and> unat (freeblock s') = unat (freeblock s) + 2"
proof -
  let ?b = "freeblock s" and ?s = "s\<lparr>freeblock := freeblock s + 1\<rparr>"
  let ?di = "di\<lparr>di_addrs := (di_addrs di)[NDIRECT := ?b]\<rparr>" and ?own = "own(?b \<mapsto> (j, MAXFILE))"
  have fb': "unat ?b < FSSIZE" using fb by simp
  have l: "length (di_addrs di) = NDIRECT + 1" "di_addrs di ! NDIRECT = 0" using F by (simp_all add: file_at_def)
  have nz: "?b \<noteq> 0" using ok by (auto simp: image_ok_def)
  have eq: "mk_block NDIRECT di s = mk_block NDIRECT ?di ?s"
    using l nz by (simp add: mk_block_def bind_run next_block_run)
  have F1: "file_at (fsimg ?s) ?own j ?di True NDIRECT c" using add_indirect [OF F ok fb'] by simp
  have ok1: "image_ok (fsimg ?s) (unat (freeblock ?s)) ?own" using image_ok_own [OF ok fb'] unat_next [OF fb'] by simp
  have fb1: "unat (freeblock ?s) < FSSIZE" using fb unat_next [OF fb'] by simp
  obtain own' s' where r: "mk_block NDIRECT ?di ?s = Ok (ptr (fsimg s') ?di NDIRECT, ?di) s'"
      "allocated j (Suc NDIRECT) c ?own ?s ?di own' s' ?di" "unat (freeblock s') = Suc (unat (freeblock ?s))"
    using mk_block_entry [OF F1 ok1 _ fb1] by auto
  have "grows j own ?own (fsimg s) (fsimg ?s)" using grows_fresh [OF ok fb', of j MAXFILE] by simp
  then have "allocated j (Suc NDIRECT) c own s di own' s' ?di"
    using r(2) grows_trans unfolding allocated_def by auto
  then show ?thesis using r(1,3) eq unat_next [OF fb'] by (intro exI [of _ own'] exI [of _ s'] exI [of _ ?di]) simp
qed

text \<open>All cases together: block \<open>n\<close> is there or is the next one.\<close>

lemma mk_block_run:
  assumes F: "file_at (fsimg s) own j di (NDIRECT < N) N c" and ok: "image_ok (fsimg s) (unat (freeblock s)) own"
    and n: "n \<le> N" "n < MAXFILE" and M: "M = max N (Suc n)" and fb: "unat (freeblock s) + cost M \<le> FSSIZE + cost N"
  shows "\<exists>own' s' di'. mk_block n di s = Ok (ptr (fsimg s') di' n, di') s' \<and> allocated j M c own s di own' s' di' \<and>
    unat (freeblock s') + cost N = unat (freeblock s) + cost M"
proof -
  consider "n < N" | "n = N" "N < NDIRECT" | "n = N" "N = NDIRECT" | "n = N" "NDIRECT < N" using n by linarith
  then show ?thesis
  proof cases
    case 1
    then have "mk_block n di s = Ok (ptr (fsimg s) di n, di) s" "M = N" using mk_block_old [OF F ok] M by simp_all
    then show ?thesis using F ok grows_refl by (intro exI [of _ own] exI [of _ s] exI [of _ di]) (simp add: allocated_def)
  next
    case 2
    then show ?thesis using mk_block_direct [OF F ok] fb M by (auto simp: cost_def)
  next
    case 3
    then show ?thesis using mk_block_first [of s own j di c] F ok fb M by (auto simp: cost_def)
  next
    case 4
    then show ?thesis using mk_block_entry [of s own j di N c] F ok fb M n by (auto simp: cost_def)
  qed
qed

lemma in_span:
  fixes L i n :: nat
  assumes "n \<le> BSIZE - L mod BSIZE"
  shows "L \<le> i \<and> i < L + n \<longleftrightarrow> i div BSIZE = L div BSIZE \<and> L mod BSIZE \<le> i mod BSIZE \<and> i mod BSIZE < L mod BSIZE + n"
proof -
  have e: "L = BSIZE * (L div BSIZE) + L mod BSIZE" "i = BSIZE * (i div BSIZE) + i mod BSIZE" "L mod BSIZE < BSIZE" "i mod BSIZE < BSIZE"
    by simp_all
  consider "i div BSIZE + 1 \<le> L div BSIZE" | "L div BSIZE + 1 \<le> i div BSIZE" | "i div BSIZE = L div BSIZE" by linarith
  then show ?thesis
  proof cases
    case 1
    then have "BSIZE * (i div BSIZE) + BSIZE \<le> BSIZE * (L div BSIZE)" using mult_le_mono2 [of "i div BSIZE + 1" "L div BSIZE" BSIZE] by simp
    then show ?thesis using e 1 by linarith
  next
    case 2
    then have "BSIZE * (L div BSIZE) + BSIZE \<le> BSIZE * (i div BSIZE)" using mult_le_mono2 [of "L div BSIZE + 1" "i div BSIZE" BSIZE] by simp
    then show ?thesis using e 2 assms by linarith
  next
    case 3
    then show ?thesis using e by linarith
  qed
qed

lemma file_at_write:
  assumes F: "file_at img own j di ind N c" and ok: "image_ok img fb own" and k: "length c div BSIZE < N"
    and x: "x = ptr img di (length c div BSIZE)" and bs: "length bs \<le> BSIZE - length c mod BSIZE"
    and img': "img' = img[unat x := splice (img_disk img x) (length c mod BSIZE) bs]"
  shows "file_at img' own j di ind N (c @ bs)" "image_ok img' fb own" "grows j own own img img'" "own x = Some (j, length c div BSIZE)"
proof -
  let ?k = "length c div BSIZE" and ?r = "length c mod BSIZE"
  let ?d = "splice (img_disk img x) ?r bs"
  have w: "whole img" using ok by (simp add: image_ok_def)
  have o: "own (ptr img di n) = Some (j, n)" if "n < N" for n using F that by (simp add: file_at_def)
  show ox: "own x = Some (j, ?k)" using o [OF k] x by simp
  note xb = owned_block [OF ok ox]
  have xl: "length (img_disk img x) = BSIZE" using w xb(1) by (rule img_disk_length)
  have fit: "?r + length bs \<le> length (img_disk img x)" using bs xl by simp
  have d: "img_disk img' b = (if b = x then ?d else img_disk img b)" for b unfolding img' by (rule img_disk_update [OF w xb(1)])
  show "image_ok img' fb own" unfolding img' using fit xl by (intro image_ok_write [OF ok ox]) simp
  show "grows j own own img img'" using ox d by (auto simp: grows_def)
  have p: "ptr img' di n = ptr img di n" if "n < N \<or> ind" for n
  proof (cases "n < NDIRECT")
    case False
    then have "own (di_addrs di ! NDIRECT) = Some (j, MAXFILE)" using that F by (auto simp: file_at_def)
    moreover have "?k \<noteq> MAXFILE" using k F by (auto simp: file_at_def)
    ultimately have "di_addrs di ! NDIRECT \<noteq> x" using ox by auto
    then show ?thesis using False d by (simp add: ptr_indirect)
  qed (simp add: ptr_direct)
  have f: "fbyte (img_disk img') (loaded di) i = (if i < length (c @ bs) then (c @ bs) ! i else 0)" if i: "i < N * BSIZE" for i
  proof -
    have n: "i div BSIZE < N" using i by (simp add: less_mult_imp_div_less)
    have old: "fbyte (img_disk img) (loaded di) i = (if i < length c then c ! i else 0)" using F i by (simp add: file_at_def)
    note s = in_span [OF bs, of i]
    show ?thesis
    proof (cases "length c \<le> i \<and> i < length c + length bs")
      case True
      then have k': "i div BSIZE = ?k" and r: "?r \<le> i mod BSIZE" "i mod BSIZE < ?r + length bs" using s by simp_all
      have "i mod BSIZE - ?r = i - length c"
        using mult_div_mod_eq [of BSIZE i, unfolded k'] mult_div_mod_eq [of BSIZE "length c"] r True by linarith
      then show ?thesis using True k' r p [of ?k] k x d fit by (simp add: fbyte_ptr nth_splice nth_append)
    next
      case False
      then have "fbyte (img_disk img') (loaded di) i = fbyte (img_disk img) (loaded di) i"
        using p [of "i div BSIZE"] n o [OF n] ox s d fit by (auto simp: fbyte_ptr nth_splice)
      then show ?thesis using old False by (auto simp: nth_append)
    qed
  qed
  have "length (c @ bs) \<le> N * BSIZE"
  proof -
    have "BSIZE * ?k + BSIZE \<le> BSIZE * N" using mult_le_mono2 [of "?k + 1" N BSIZE] k by simp
    moreover have "?r < BSIZE" by simp
    ultimately show ?thesis using bs mult_div_mod_eq [of BSIZE "length c"] unfolding length_append mult.commute [of N BSIZE] by linarith
  qed
  then show "file_at img' own j di ind N (c @ bs)" using F p f by (auto simp: file_at_def)
qed

lemma blocks_for_bounds: "L div BSIZE \<le> blocks_for L" "blocks_for L \<le> Suc (L div BSIZE)"
  by (simp_all add: blocks_for_def div_le_mono)

lemma blocks_for_chunk:
  assumes "0 < n" "n \<le> BSIZE - L mod BSIZE"
  shows "blocks_for (L + n) = Suc (L div BSIZE)"
proof -
  have e: "L = BSIZE * (L div BSIZE) + L mod BSIZE" "L mod BSIZE < BSIZE" by simp_all
  have "BSIZE * Suc (L div BSIZE) \<le> L + n + (BSIZE - 1)" "L + n + (BSIZE - 1) < BSIZE * Suc (Suc (L div BSIZE))"
    unfolding mult_Suc_right using e assms by linarith+
  then show ?thesis unfolding blocks_for_def by (rule div_nat_eqI)
qed

lemma blocks_for_mono: "m \<le> n \<Longrightarrow> blocks_for m \<le> blocks_for n"
  by (simp add: blocks_for_def div_le_mono)

lemma cost_mono: "m \<le> n \<Longrightarrow> cost m \<le> cost n"
  by (simp add: cost_def)


text \<open>The arithmetic of one round of the loop of \<open>iappend\<close>.\<close>

lemma chunk_values:
  assumes "L < MAXFILE * BSIZE" "off = (of_nat L :: u32)"
  shows "unat off = L" "unat (off div 1024) = L div BSIZE" "unat ((off div 1024 + 1) * 1024 - off) = BSIZE - L mod BSIZE"
    "unat (off - off div 1024 * 1024) = L mod BSIZE" "L div BSIZE < MAXFILE"
proof -
  show u: "unat off = L" using assms by (simp add: unat_of_nat)
  then show "unat (off div 1024) = L div BSIZE" by (simp add: unat_div)
  have m: "unat (off mod 1024) = L mod BSIZE" using u by (simp add: unat_mod)
  have "off mod 1024 \<le> 1024" using m by (simp add: word_le_nat_alt)
  then show "unat ((off div 1024 + 1) * 1024 - off) = BSIZE - L mod BSIZE" unfolding chunk_eq using m by (simp add: unat_sub)
  have "off - off div 1024 * 1024 = off mod 1024" using div_mult_mod_eq [of off 1024] by (metis add_diff_cancel_left')
  then show "unat (off - off div 1024 * 1024) = L mod BSIZE" using m by simp
  show "L div BSIZE < MAXFILE" using assms(1) by (simp add: less_mult_imp_div_less)
qed

lemma allocated_trans:
  assumes "allocated j N c own s di own' s' di'" "allocated j M d own' s' di' own'' s'' di''"
  shows "allocated j M d own s di own'' s'' di''"
  using assms grows_trans unfolding allocated_def by (metis dinode.update_convs(6) dinode.surjective)

lemma iappend_chunk:
  assumes F: "file_at (fsimg s) own j di (NDIRECT < N) N c" and ok: "image_ok (fsimg s) (unat (freeblock s)) own"
    and N: "N = blocks_for (length c)" and L: "length c < MAXFILE * BSIZE" and off: "off = of_nat (length c)" and p: "p \<noteq> []"
    and bs: "bs = take (BSIZE - length c mod BSIZE) p" and M: "M = blocks_for (length (c @ bs))"
    and fb: "unat (freeblock s) + cost M \<le> FSSIZE + cost N"
  shows "\<exists>own' s' di'. iappend_loop p di off s = iappend_loop (drop (length bs) p) di' (of_nat (length (c @ bs))) s' \<and>
    allocated j M (c @ bs) own s di own' s' di' \<and> unat (freeblock s') + cost N = unat (freeblock s) + cost M"
proof -
  let ?k = "length c div BSIZE" and ?r = "length c mod BSIZE"
  note v = chunk_values [OF L off]
  have r: "?r < BSIZE" by simp
  have bs': "0 < length bs" "length bs \<le> BSIZE - ?r" using p r by (simp_all add: bs)
  have M': "M = max N (Suc ?k)" using blocks_for_chunk [OF bs'] blocks_for_bounds(2) [of "length c"] by (simp add: M N max_def)
  obtain own1 s1 di1 where m: "mk_block ?k di s = Ok (ptr (fsimg s1) di1 ?k, di1) s1" "allocated j M c own s di own1 s1 di1"
      "unat (freeblock s1) + cost N = unat (freeblock s) + cost M"
    using mk_block_run [OF F ok _ v(5) M' fb] blocks_for_bounds(1) [of "length c"] N by blast
  let ?x = "ptr (fsimg s1) di1 ?k"
  let ?img = "(fsimg s1)[unat ?x := splice (img_disk (fsimg s1) ?x) ?r bs]"
  let ?s = "s1\<lparr>fsimg := ?img\<rparr>"
  have F1: "file_at (fsimg s1) own1 j di1 (NDIRECT < M) M c" and ok1: "image_ok (fsimg s1) (unat (freeblock s1)) own1"
    using m(2) by (simp_all add: allocated_def)
  have kM: "?k < M" using M' by simp
  note w = file_at_write [OF F1 ok1 kM refl bs'(2) refl]
  have whole1: "whole (fsimg s1)" using ok1 by (simp add: image_ok_def)
  have n1: "min (length p) (BSIZE - ?r) = length bs" "take (length bs) p = bs" by (simp_all add: bs min_def)
  have "off + of_nat (length bs) = of_nat (length (c @ bs))" by (simp add: off)
  then have "iappend_loop p di off s = iappend_loop (drop (length bs) p) di1 (of_nat (length (c @ bs))) ?s"
    using p v n1 m(1) owned_block(1) [OF ok1 w(4)] whole1
    by (subst iappend_loop.simps) (simp add: Let_def bind_run panic_if_def rsect_run wsect_run)
  moreover have "allocated j M (c @ bs) own1 s1 di1 own1 ?s di1" using w by (simp add: allocated_def)
  ultimately show ?thesis using m(3) allocated_trans [OF m(2)] by (intro exI [of _ own1] exI [of _ ?s] exI [of _ di1]) simp
qed

lemma iappend_loop_run:
  assumes F: "file_at (fsimg s) own j di (NDIRECT < N) N c" and ok: "image_ok (fsimg s) (unat (freeblock s)) own"
    and N: "N = blocks_for (length c)" and L: "length c + length p \<le> MAXFILE * BSIZE" and off: "off = of_nat (length c)"
    and M: "M = blocks_for (length (c @ p))" and fb: "unat (freeblock s) + cost M \<le> FSSIZE + cost N"
  shows "\<exists>own' s' di'. iappend_loop p di off s = Ok (di', of_nat (length (c @ p))) s' \<and>
    allocated j M (c @ p) own s di own' s' di' \<and> unat (freeblock s') + cost N = unat (freeblock s) + cost M"
  using assms
proof (induction "length p" arbitrary: p di off s own c N rule: less_induct)
  case less
  show ?case
  proof (cases "p = []")
    case True
    then have "iappend_loop p di off s = Ok (di, of_nat (length (c @ p))) s" using less.prems by (simp add: iappend_loop.simps)
    moreover have "allocated j M (c @ p) own s di own s di" using less.prems True grows_refl by (simp add: allocated_def)
    ultimately show ?thesis using less.prems True by (intro exI [of _ own] exI [of _ s] exI [of _ di]) simp
  next
    case False
    define bs where "bs = take (BSIZE - length c mod BSIZE) p"
    define d where "d = c @ bs"
    have r: "length c mod BSIZE < BSIZE" by simp
    have cut: "drop (length bs) p = drop (BSIZE - length c mod BSIZE) p" by (simp add: bs_def min_def)
    have p: "p = bs @ drop (length bs) p" "0 < length bs" using False r unfolding cut by (simp_all add: bs_def)
    have lt: "length c < MAXFILE * BSIZE" using less.prems(4) False by (cases p) simp_all
    have all: "c @ p = d @ drop (length bs) p" using p(1) by (simp add: d_def)
    then have "length d \<le> length (c @ p)" by simp
    then have K: "cost (blocks_for (length d)) \<le> cost M" unfolding less.prems(6) by (intro cost_mono blocks_for_mono)
    have fb1: "unat (freeblock s) + cost (blocks_for (length d)) \<le> FSSIZE + cost N" using K less.prems(7) by simp
    obtain own1 s1 di1 where one: "iappend_loop p di off s = iappend_loop (drop (length bs) p) di1 (of_nat (length d)) s1"
        "allocated j (blocks_for (length d)) d own s di own1 s1 di1"
        "unat (freeblock s1) + cost N = unat (freeblock s) + cost (blocks_for (length d))"
      using iappend_chunk [OF less.prems(1-3) lt less.prems(5) False bs_def refl fb1 [unfolded d_def]] unfolding d_def by blast
    have F1: "file_at (fsimg s1) own1 j di1 (NDIRECT < blocks_for (length d)) (blocks_for (length d)) d"
      and ok1: "image_ok (fsimg s1) (unat (freeblock s1)) own1" using one(2) by (simp_all add: allocated_def)
    have len: "length d + length (drop (length bs) p) \<le> MAXFILE * BSIZE" using less.prems(4) all by (metis length_append)
    have fb2: "unat (freeblock s1) + cost M \<le> FSSIZE + cost (blocks_for (length d))" using one(3) less.prems(7) by simp
    have sh: "length (drop (length bs) p) < length p" using p(2) False by simp
    obtain own' s' di' where two: "iappend_loop (drop (length bs) p) di1 (of_nat (length d)) s1 = Ok (di', of_nat (length (d @ drop (length bs) p))) s'"
        "allocated j M (d @ drop (length bs) p) own1 s1 di1 own' s' di'"
        "unat (freeblock s') + cost (blocks_for (length d)) = unat (freeblock s1) + cost M"
      using less.hyps [OF sh F1 ok1 refl len refl _ fb2] less.prems(6) all by metis
    have "allocated j M (c @ p) own s di own' s' di'" using allocated_trans [OF one(2) two(2)] all by simp
    moreover have "unat (freeblock s') + cost N = unat (freeblock s) + cost M" using one(3) two(3) by simp
    ultimately show ?thesis using one(1) two(1) all by (intro exI [of _ own'] exI [of _ s'] exI [of _ di']) simp
  qed
qed

section \<open>The image as a whole\<close>

text \<open>
  Inodes 1 up to the next free one hold the files \<open>C\<close> of types \<open>T\<close>; each block of the data area up
  to the next free one belongs to one of them; the other blocks are as they were written first.
\<close>

definition meta_block :: "nat \<Rightarrow> u8 list" where
  "meta_block b = (if b = 1 then splice (replicate BSIZE 0) 0 (sb_bytes mk_sb) else replicate BSIZE 0)"

definition space :: "(nat \<Rightarrow> u8 list) \<Rightarrow> nat \<Rightarrow> nat" where
  "space C n = sum (\<lambda>j. cost (blocks_for (length (C j)))) {1..<n}"

definition file_in :: "u8 list list \<Rightarrow> owner \<Rightarrow> nat \<Rightarrow> u16 \<Rightarrow> u8 list \<Rightarrow> bool" where
  "file_in img own j ty c \<longleftrightarrow>
     file_at img own j (dinode_at img j) (NDIRECT < blocks_for (length c)) (blocks_for (length c)) c \<and>
     di_size (dinode_at img j) = of_nat (length c) \<and> di_type (dinode_at img j) = ty \<and> di_nlink (dinode_at img j) = 1"

definition fs_image :: "mkfs_state \<Rightarrow> owner \<Rightarrow> nat \<Rightarrow> (nat \<Rightarrow> u8 list) \<Rightarrow> (nat \<Rightarrow> u16) \<Rightarrow> bool" where
  "fs_image s own n C T \<longleftrightarrow>
     image_ok (fsimg s) (unat (freeblock s)) own \<and> freeinode s = of_nat n \<and> 1 \<le> n \<and> n \<le> NINODES \<and>
     unat (freeblock s) = 46 + space C n \<and>
     (\<forall>j. 1 \<le> j \<and> j < n \<longrightarrow> file_in (fsimg s) own j (T j) (C j)) \<and>
     (\<forall>j. n \<le> j \<and> j < 208 \<longrightarrow> di_type (dinode_at (fsimg s) j) = 0) \<and>
     (\<forall>b. b < 46 \<and> \<not> (32 \<le> b \<and> b < 45) \<longrightarrow> fsimg s ! b = meta_block b)"

lemma file_at_addrs: "di_addrs di = di_addrs di' \<Longrightarrow> file_at img own j di ind N c = file_at img own j di' ind N c"
  by (simp add: file_at_def ptr_def fbyte_def fblock_def)

lemma low_block:
  assumes "image_ok img fb own" "grows j own0 own img0 img" "b < 46" "whole img0"
  shows "img ! b = img0 ! b"
proof -
  have u: "unat (of_nat b :: u32) = b" using assms(3) by (simp add: unat_of_nat)
  have "own (of_nat b) = None"
  proof (rule ccontr)
    assume "own (of_nat b) \<noteq> None"
    then obtain v where "own (of_nat b) = Some v" by auto
    then show False using assms(1,3) u unfolding image_ok_def by fastforce
  qed
  then have "img_disk img (of_nat b) = img_disk img0 (of_nat b)" using assms(2) by (simp add: grows_def)
  then show ?thesis using u by (simp add: img_disk_def)
qed

lemma image_ok_low:
  assumes "image_ok img fb own" "b < 46" "length d = BSIZE"
  shows "image_ok (img[b := d]) fb own" "\<And>c. own c = Some v \<Longrightarrow> img_disk (img[b := d]) c = img_disk img c"
proof -
  have "46 \<le> fb" "whole img" using assms by (simp_all add: image_ok_def)
  then show "image_ok (img[b := d]) fb own" using assms by (simp add: image_ok_def whole_update)
  fix c assume "own c = Some v"
  from owned_block(2) [OF assms(1) this] show "img_disk (img[b := d]) c = img_disk img c" using assms(2) by (simp add: img_disk_def)
qed

lemma winode_image:
  assumes ok: "image_ok img fb own" and j: "j < 208" and l: "length (di_addrs di) = NDIRECT + 1"
    and img': "img' = img[iblock j := put_dinode (img ! iblock j) (j mod IPB) di]"
  shows "image_ok img' fb own" "\<And>i. i < 208 \<Longrightarrow> dinode_at img' i = (if i = j then di else dinode_at img i)"
    "\<And>i x ind N c. file_at img own i x ind N c \<Longrightarrow> file_at img' own i x ind N c"
    "\<And>b. \<not> (32 \<le> b \<and> b < 45) \<Longrightarrow> img' ! b = img ! b"
proof -
  have w: "whole img" using ok by (simp add: image_ok_def)
  note ib = IBLOCK_iblock(2) [OF j] IBLOCK_iblock(3) [of j]
  have lb: "length (put_dinode (img ! iblock j) (j mod IPB) di) = BSIZE" using w ib l by (simp add: whole_def)
  note low = image_ok_low [OF ok _ lb, of "iblock j"]
  show "image_ok img' fb own" unfolding img' using low(1) ib by simp
  show "dinode_at img' i = (if i = j then di else dinode_at img i)" if "i < 208" for i
    unfolding img' using w j that l by (rule dinode_at_winode)
  show "file_at img' own i x ind N c" if "file_at img own i x ind N c" for i x ind N c
    using that by (rule file_at_frame) (use low(2) ib in \<open>simp add: img'\<close>)
  show "img' ! b = img ! b" if "\<not> (32 \<le> b \<and> b < 45)" for b
    using that ib by (auto simp: img' nth_list_update_neq)
qed

lemma space_update:
  assumes "1 \<le> j" "j < n"
  shows "space (C(j := c)) n + cost (blocks_for (length (C j))) = space C n + cost (blocks_for (length c))"
proof -
  have "space D n = cost (blocks_for (length (D j))) + sum (\<lambda>i. cost (blocks_for (length (D i)))) ({1..<n} - {j})" for D
    unfolding space_def by (rule sum.remove) (use assms in auto)
  from this [of C] this [of "C(j := c)"] show ?thesis
    using sum.cong [of "{1..<n} - {j}" "{1..<n} - {j}" "\<lambda>i. cost (blocks_for (length ((C(j := c)) i)))" "\<lambda>i. cost (blocks_for (length (C i)))"]
    by simp
qed

lemma iappend_image:
  assumes I: "fs_image s own n C T" and j: "1 \<le> j" "j < n" and L: "length (C j) + length p \<le> MAXFILE * BSIZE"
    and room: "46 + space (C(j := C j @ p)) n \<le> FSSIZE"
  shows "\<exists>own' s'. iappend (of_nat j) p s = Ok () s' \<and> fs_image s' own' n (C(j := C j @ p)) T"
proof -
  let ?c = "C j" and ?M = "blocks_for (length (C j @ p))" and ?N = "blocks_for (length (C j))"
  let ?di = "dinode_at (fsimg s) j"
  have ok: "image_ok (fsimg s) (unat (freeblock s)) own" and n: "n \<le> NINODES" and fb: "unat (freeblock s) = 46 + space C n"
    and files: "\<And>i. 1 \<le> i \<Longrightarrow> i < n \<Longrightarrow> file_in (fsimg s) own i (T i) (C i)"
    using I unfolding fs_image_def by blast+
  have w: "whole (fsimg s)" using ok by (simp add: image_ok_def)
  have j208: "j < 208" using j n by simp
  note F = files [OF j]
  have Fa: "file_at (fsimg s) own j ?di (NDIRECT < ?N) ?N ?c" and sz: "di_size ?di = of_nat (length ?c)" using F by (simp_all add: file_in_def)
  note sp = space_update [OF j, of C "C j @ p"]
  have "unat (freeblock s) + cost ?M \<le> FSSIZE + cost ?N" using room fb sp by simp
  then obtain own1 s1 di1 where a: "iappend_loop p ?di (of_nat (length ?c)) s = Ok (di1, of_nat (length (?c @ p))) s1"
      "allocated j ?M (?c @ p) own s ?di own1 s1 di1" "unat (freeblock s1) + cost ?N = unat (freeblock s) + cost ?M"
    using iappend_loop_run [OF Fa ok refl L refl refl] by blast
  have ok1: "image_ok (fsimg s1) (unat (freeblock s1)) own1" and g: "grows j own own1 (fsimg s) (fsimg s1)"
    and F1: "file_at (fsimg s1) own1 j di1 (NDIRECT < ?M) ?M (?c @ p)" and same: "freeinode s1 = freeinode s" "di1 = ?di\<lparr>di_addrs := di_addrs di1\<rparr>"
    using a(2) by (simp_all add: allocated_def)
  let ?e = "di1\<lparr>di_size := of_nat (length (?c @ p))\<rparr>"
  let ?img = "(fsimg s1)[iblock j := put_dinode (fsimg s1 ! iblock j) (j mod IPB) ?e]"
  let ?s = "s1\<lparr>fsimg := ?img\<rparr>"
  have w1: "whole (fsimg s1)" using ok1 by (simp add: image_ok_def)
  have le: "length (di_addrs ?e) = NDIRECT + 1" using F1 by (simp add: file_at_def)
  note wi = winode_image [OF ok1 j208 le refl]
  have run: "iappend (of_nat j) p s = Ok () ?s"
    using rinode_run [OF w j208] winode_run [OF w1 j208] a(1) sz by (simp add: iappend_def bind_run)
  have low: "fsimg s1 ! b = fsimg s ! b" if "b < 46" for b using low_block [OF ok1 g that w] .
  have at: "dinode_at (fsimg s1) i = dinode_at (fsimg s) i" if "i < 208" for i
    using low [of "iblock i"] IBLOCK_iblock(2) [OF that] by (simp add: dinode_at_def)
  have "file_in ?img own1 i (T i) ((C(j := ?c @ p)) i)" if i: "1 \<le> i" "i < n" for i
  proof (cases "i = j")
    case True
    have "file_at ?img own1 j ?e (NDIRECT < ?M) ?M (?c @ p)"
      using wi(3) [OF F1] file_at_addrs [of ?e di1] by simp
    moreover have "di_type di1 = di_type ?di" "di_nlink di1 = di_nlink ?di" by (subst same(2), simp)+
    ultimately show ?thesis using True F wi(2) [OF j208] by (simp add: file_in_def)
  next
    case False
    have i': "i < 208" using i n by simp
    have "file_at (fsimg s) own i (dinode_at (fsimg s) i) (NDIRECT < blocks_for (length (C i))) (blocks_for (length (C i))) (C i)"
      using files [OF i] by (simp add: file_in_def)
    from wi(3) [OF grows_other [OF g this False]] show ?thesis
      using False files [OF i] wi(2) [OF i'] at [OF i'] by (simp add: file_in_def)
  qed
  moreover have "di_type (dinode_at ?img i) = 0" if "n \<le> i" "i < 208" for i
    using I that j wi(2) [of i] at [of i] by (simp add: fs_image_def)
  moreover have "?img ! b = meta_block b" if "b < 46" "\<not> (32 \<le> b \<and> b < 45)" for b
    using I that wi(4) [of b] low [of b] by (simp add: fs_image_def)
  moreover have "unat (freeblock s1) = 46 + space (C(j := ?c @ p)) n" using a(3) fb sp by simp
  ultimately have "fs_image ?s own1 n (C(j := ?c @ p)) T"
    using I wi(1) same(1) by (simp add: fs_image_def)
  with run show ?thesis by blast
qed

lemma file_at_new: "length (di_addrs di) = NDIRECT + 1 \<Longrightarrow> \<forall>k < NDIRECT + 1. di_addrs di ! k = 0 \<Longrightarrow> file_at img own j di False 0 []"
  by (simp add: file_at_def)

lemma blocks_for_0 [simp]: "blocks_for 0 = 0" "cost 0 = 0"
  by (simp_all add: blocks_for_def cost_def)

lemma ialloc_image:
  assumes I: "fs_image s own n C T" and n: "n < NINODES"
  shows "\<exists>s'. mk_ialloc ty s = Ok (of_nat n) s' \<and> fs_image s' own (Suc n) (C(n := [])) (T(n := ty))"
proof -
  let ?di = "\<lparr>di_type = ty, di_major = 0, di_minor = 0, di_nlink = 1, di_size = 0, di_addrs = replicate (NDIRECT + 1) 0\<rparr>"
  let ?img = "(fsimg s)[iblock n := put_dinode (fsimg s ! iblock n) (n mod IPB) ?di]"
  let ?s = "s\<lparr>freeinode := of_nat n + 1, fsimg := ?img\<rparr>"
  have ok: "image_ok (fsimg s) (unat (freeblock s)) own" and fi: "freeinode s = of_nat n" "1 \<le> n" and fb: "unat (freeblock s) = 46 + space C n"
    and files: "\<And>i. 1 \<le> i \<Longrightarrow> i < n \<Longrightarrow> file_in (fsimg s) own i (T i) (C i)"
    using I unfolding fs_image_def by blast+
  have w: "whole (fsimg s)" using ok by (simp add: image_ok_def)
  have n208: "n < 208" using n by simp
  note wi = winode_image [OF ok n208 _ refl, of ?di]
  have run: "mk_ialloc ty s = Ok (of_nat n) ?s"
    using winode_run [of "s\<lparr>freeinode := of_nat n + 1\<rparr>" n ?di] w n208 fi(1) by (simp add: mk_ialloc_def bind_run)
  have "file_in ?img own i ((T(n := ty)) i) ((C(n := [])) i)" if i: "1 \<le> i" "i < Suc n" for i
  proof (cases "i = n")
    case True
    have "file_at ?img own n ?di False 0 []" by (rule file_at_new) simp_all
    then show ?thesis using True wi(2) [of n] n208 by (simp add: file_in_def)
  next
    case False
    then have i': "i < n" using i by simp
    note f = files [OF i(1) i']
    have "file_at ?img own i (dinode_at (fsimg s) i) (NDIRECT < blocks_for (length (C i))) (blocks_for (length (C i))) (C i)"
      using f by (intro wi(3)) (simp_all add: file_in_def)
    then show ?thesis using f False wi(2) [of i] i' n208 by (simp add: file_in_def)
  qed
  moreover have "di_type (dinode_at ?img i) = 0" if "Suc n \<le> i" "i < 208" for i
    using I that wi(2) [of i] by (simp add: fs_image_def)
  moreover have "?img ! b = meta_block b" if "b < 46" "\<not> (32 \<le> b \<and> b < 45)" for b
    using I that wi(4) [of b] by (simp add: fs_image_def)
  moreover have "space (C(n := [])) (Suc n) = space C n"
    using fi(2) sum.cong [of "{1..<n}" "{1..<n}" "\<lambda>i. cost (blocks_for (length ((C(n := [])) i)))" "\<lambda>i. cost (blocks_for (length (C i)))"]
    by (simp add: space_def)
  ultimately have "fs_image ?s own (Suc n) (C(n := [])) (T(n := ty))"
    using I wi(1) n by (simp add: fs_image_def)
  with run show ?thesis by blast
qed

lemma chunks_concat: "concat (chunks bs) = bs"
  by (induction bs rule: chunks.induct) (subst chunks.simps, simp)

lemma space_mono:
  assumes "\<And>i. 1 \<le> i \<Longrightarrow> i < n \<Longrightarrow> length (C i) \<le> length (D i)" "n \<le> m"
  shows "space C n \<le> space D m"
proof -
  have "space C n \<le> space D n" unfolding space_def using assms(1) by (intro sum_mono cost_mono blocks_for_mono) auto
  also have "\<dots> \<le> space D m" unfolding space_def using assms(2) by (intro sum_mono2) auto
  finally show ?thesis .
qed

lemma append_all_image:
  assumes "fs_image s own n C T" "1 \<le> j" "j < n" "length (C j) + length (concat ps) \<le> MAXFILE * BSIZE"
    "46 + space (C(j := C j @ concat ps)) n \<le> FSSIZE"
  shows "\<exists>own' s'. block (map (iappend (of_nat j)) ps) s = Ok () s' \<and> fs_image s' own' n (C(j := C j @ concat ps)) T"
  using assms
proof (induction ps arbitrary: s own C)
  case Nil
  then show ?case by (auto simp: block_run)
next
  case (Cons p ps)
  have "space (C(j := C j @ p)) n \<le> space (C(j := C j @ concat (p # ps))) n" by (rule space_mono) simp_all
  then have r: "46 + space (C(j := C j @ p)) n \<le> FSSIZE" using Cons.prems(5) by linarith
  have l: "length (C j) + length p \<le> MAXFILE * BSIZE" using Cons.prems(4) by simp
  obtain own1 s1 where one: "iappend (of_nat j) p s = Ok () s1" "fs_image s1 own1 n (C(j := C j @ p)) T"
    using iappend_image [OF Cons.prems(1-3) l r] by blast
  have e: "(C(j := C j @ p))(j := (C(j := C j @ p)) j @ concat ps) = C(j := C j @ concat (p # ps))" by (auto simp: fun_eq_iff)
  have "length ((C(j := C j @ p)) j) + length (concat ps) \<le> MAXFILE * BSIZE" using Cons.prems(4) by simp
  from Cons.IH [OF one(2) Cons.prems(2,3) this, unfolded e, OF Cons.prems(5)] show ?case
    using one(1) unfolding list.map block_run bind_run by simp
qed


section \<open>The files that are added\<close>

definition file_name :: "u8 list \<Rightarrow> u8 list" where
  "file_name arg = (let name = shortname arg in if name \<noteq> [] \<and> name ! 0 = of_char CHR ''_'' then drop 1 name else name)"

definition dir_entry :: "nat \<Rightarrow> u8 list \<Rightarrow> u8 list" where
  "dir_entry inum name = put_dirent \<lparr>de_inum = of_nat inum, de_name = padded name\<rparr>"

lemma padded_length [simp]: "length (padded name) = DIRSIZ"
  by (simp add: padded_def)

lemma dir_entry_length [simp]: "length (dir_entry inum name) = DIRENT"
  by (simp add: dir_entry_def put_dirent_def le_bytes_def)

lemma add_entry_run: "inum < 2 ^ 16 \<Longrightarrow> add_entry dir (of_nat inum) name = iappend dir (dir_entry inum name)"
proof -
  assume "inum < 2 ^ 16"
  then have "(ucast (of_nat inum :: u32) :: u16) = of_nat inum" by (simp add: unsigned_of_nat take_bit_nat_eq_self)
  then show ?thesis by (simp add: add_entry_def dir_entry_def)
qed

type_synonym new_file = "u8 list \<times> u8 list option"

definition can_add :: "new_file \<Rightarrow> bool" where
  "can_add = (\<lambda>(arg, contents). of_char CHR ''/'' \<notin> set (shortname arg) \<and>
     (case contents of None \<Rightarrow> False | Some bs \<Rightarrow> length bs \<le> MAXFILE * BSIZE))"

lemma add_file_image:
  assumes I: "fs_image s own n C T" and n: "2 \<le> n" "n < NINODES" and f: "can_add (arg, Some bs)"
    and root: "length (C 1) + DIRENT \<le> MAXFILE * BSIZE"
    and D: "D = C(1 := C 1 @ dir_entry n (file_name arg), n := bs)" and room: "46 + space D (Suc n) \<le> FSSIZE"
  shows "\<exists>own' s'. add_file ROOTINO (arg, Some bs) s = Ok () s' \<and> fs_image s' own' (Suc n) D (T(n := T_FILE))"
proof -
  obtain s1 where a: "mk_ialloc T_FILE s = Ok (of_nat n) s1" "fs_image s1 own (Suc n) (C(n := [])) (T(n := T_FILE))"
    using ialloc_image [OF I n(2)] by blast
  let ?c1 = "C(n := [])" and ?e = "dir_entry n (file_name arg)"
  let ?C2 = "?c1(1 := ?c1 1 @ ?e)"
  have D': "?C2(n := ?C2 n @ concat (chunks bs)) = D" using n by (auto simp: D chunks_concat fun_eq_iff)
  have "space ?C2 (Suc n) \<le> space D (Suc n)" unfolding D using n by (intro space_mono) auto
  then have r2: "46 + space ?C2 (Suc n) \<le> FSSIZE" using room by linarith
  have "length (?c1 1) + length ?e \<le> MAXFILE * BSIZE" using root n by simp
  from iappend_image [OF a(2) _ _ this r2] n obtain own2 s2 where
    b: "iappend (of_nat 1) ?e s1 = Ok () s2" "fs_image s2 own2 (Suc n) ?C2 (T(n := T_FILE))" by auto
  have "length (?C2 n) + length (concat (chunks bs)) \<le> MAXFILE * BSIZE" using f n by (simp add: can_add_def chunks_concat)
  from append_all_image [OF b(2) _ _ this, unfolded D', OF _ _ room] n obtain own3 s3 where
    c: "block (map (iappend (of_nat n)) (chunks bs)) s2 = Ok () s3" "fs_image s3 own3 (Suc n) D (T(n := T_FILE))" by auto
  have "add_file ROOTINO (arg, Some bs) s = Ok () s3"
    using f a(1) b(1) c(1) n add_entry_run [of n]
    by (simp add: add_file_def can_add_def Let_def bind_run panic_if_def file_name_def)
  with c(2) show ?thesis by blast
qed

text \<open>The contents of the inodes when the files have been added from inode \<open>n\<close> on.\<close>

fun placed :: "nat \<Rightarrow> new_file list \<Rightarrow> (nat \<Rightarrow> u8 list) \<Rightarrow> nat \<Rightarrow> u8 list" where
  "placed n [] C = C"
| "placed n ((arg, c) # fs) C = placed (Suc n) fs (C(1 := C 1 @ dir_entry n (file_name arg), n := the c))"

fun typed :: "nat \<Rightarrow> new_file list \<Rightarrow> (nat \<Rightarrow> u16) \<Rightarrow> nat \<Rightarrow> u16" where
  "typed n [] T = T"
| "typed n (f # fs) T = typed (Suc n) fs (T(n := T_FILE))"

fun dir_entries :: "nat \<Rightarrow> new_file list \<Rightarrow> u8 list" where
  "dir_entries n [] = []"
| "dir_entries n ((arg, c) # fs) = dir_entry n (file_name arg) @ dir_entries (Suc n) fs"

lemma dir_entries_length [simp]: "length (dir_entries n fs) = DIRENT * length fs"
  by (induction n fs rule: dir_entries.induct) simp_all

lemma placed_root: "2 \<le> n \<Longrightarrow> placed n fs C 1 = C 1 @ dir_entries n fs"
  by (induction n fs C rule: placed.induct) simp_all

lemma placed_before: "2 \<le> j \<Longrightarrow> j < n \<Longrightarrow> placed n fs C j = C j"
  by (induction n fs C rule: placed.induct) simp_all

lemma placed_file: "2 \<le> n \<Longrightarrow> i < length fs \<Longrightarrow> placed n fs C (n + i) = the (snd (fs ! i))"
proof (induction fs arbitrary: n i C)
  case (Cons f fs)
  obtain arg c where f: "f = (arg, c)" by (cases f)
  show ?case
  proof (cases i)
    case 0
    then show ?thesis using Cons.prems placed_before [of n "Suc n"] by (simp add: f)
  next
    case (Suc k)
    then show ?thesis using Cons.IH [of "Suc n" k] Cons.prems by (simp add: f)
  qed
qed simp

lemma typed_before: "j < n \<Longrightarrow> typed n fs T j = T j"
  by (induction n fs T rule: typed.induct) simp_all

lemma typed_file: "i < length fs \<Longrightarrow> typed n fs T (n + i) = T_FILE"
proof (induction fs arbitrary: n i T)
  case (Cons f fs)
  show ?case
  proof (cases i)
    case 0
    then show ?thesis using typed_before [of n "Suc n"] by simp
  next
    case (Suc k)
    then show ?thesis using Cons.IH [of k "Suc n"] Cons.prems by simp
  qed
qed simp

lemma placed_grows: "2 \<le> n \<Longrightarrow> 1 \<le> j \<Longrightarrow> j < n \<Longrightarrow> length (C j) \<le> length (placed n fs C j)"
  using placed_root [of n fs C] placed_before [of j n fs C] by (cases "j = 1") auto

lemma add_files_image:
  assumes "fs_image s own n C T" "2 \<le> n" "n + length fs \<le> NINODES" "list_all can_add fs"
    "length (C 1) + DIRENT * length fs \<le> MAXFILE * BSIZE" "46 + space (placed n fs C) (n + length fs) \<le> FSSIZE"
  shows "\<exists>own' s'. block (map (add_file ROOTINO) fs) s = Ok () s' \<and> fs_image s' own' (n + length fs) (placed n fs C) (typed n fs T)"
  using assms
proof (induction fs arbitrary: n C T s own)
  case Nil
  then show ?case by (auto simp: block_run)
next
  case (Cons f fs)
  obtain arg c where f: "f = (arg, c)" by (cases f)
  note prems = Cons.prems [unfolded f]
  let ?D = "C(1 := C 1 @ dir_entry n (file_name arg), n := the c)"
  obtain bs where c: "c = Some bs" "can_add (arg, Some bs)" using prems(4) by (auto simp: can_add_def split: option.splits)
  have "space ?D (Suc n) \<le> space (placed (Suc n) fs ?D) (n + length ((arg, c) # fs))"
    using prems(2) by (intro space_mono placed_grows) auto
  then have r: "46 + space ?D (Suc n) \<le> FSSIZE" using prems(6) by simp
  have n: "n < NINODES" "length (C 1) + DIRENT \<le> MAXFILE * BSIZE" using prems(3,5) by simp_all
  obtain own1 s1 where one: "add_file ROOTINO (arg, Some bs) s = Ok () s1" "fs_image s1 own1 (Suc n) ?D (T(n := T_FILE))"
    using add_file_image [OF prems(1,2) n(1) c(2) n(2) refl] r c(1) by auto
  have l: "length (?D 1) + DIRENT * length fs \<le> MAXFILE * BSIZE" using prems(2,5) by simp
  have "list_all can_add fs" "Suc n + length fs \<le> NINODES" "46 + space (placed (Suc n) fs ?D) (Suc n + length fs) \<le> FSSIZE"
    using prems by simp_all
  from Cons.IH [OF one(2) le_SucI [OF prems(2)] this(2,1) l this(3)] obtain own' s' where
    "block (map (add_file ROOTINO) fs) s1 = Ok () s'" "fs_image s' own' (Suc n + length fs) (placed (Suc n) fs ?D) (typed (Suc n) fs (T(n := T_FILE)))"
    by blast
  then show ?case using one(1) c(1) unfolding f
    by (intro exI [of _ own'] exI [of _ s']) (simp only: list.map block_run bind_run outcome.case placed.simps typed.simps list.size add_Suc_right add_Suc add_0_right simp_thms)
qed

text \<open>The blocks that the files and the root directory take.\<close>

definition needed :: "new_file list \<Rightarrow> nat" where
  "needed fs = cost (blocks_for (DIRENT * (length fs + 2))) + sum_list (map (\<lambda>(arg, c). cost (blocks_for (length (the c)))) fs)"

lemma space_placed:
  assumes "length (C 1) = 2 * DIRENT"
  shows "space (placed 2 fs C) (2 + length fs) = needed fs"
proof -
  let ?f = "\<lambda>j. cost (blocks_for (length (placed 2 fs C j)))"
  have "{1..<2 + length fs} = insert 1 {2..<2 + length fs}" by auto
  then have "space (placed 2 fs C) (2 + length fs) = ?f 1 + sum ?f {2..<2 + length fs}" by (simp add: space_def)
  also have "sum ?f {2..<2 + length fs} = sum (\<lambda>i. ?f (2 + i)) {0..<length fs}"
    using sum.shift_bounds_nat_ivl [of ?f 0 2 "length fs"] by (simp only: add_0_right add_0 add.commute [of _ 2])
  also have "\<dots> = sum (\<lambda>i. cost (blocks_for (length (the (snd (fs ! i)))))) {0..<length fs}"
    by (intro sum.cong) (simp_all only: placed_file atLeastLessThan_iff order_refl)
  also have "\<dots> = sum_list (map (\<lambda>(arg, c). cost (blocks_for (length (the c)))) fs)"
    by (simp add: sum_list_sum_nth split_def)
  finally show ?thesis using assms placed_root [of 2 fs C] by (simp add: needed_def algebra_simps)
qed

section \<open>The finished image\<close>

lemma get16_zeros: "i + 2 \<le> BSIZE \<Longrightarrow> get16 (replicate BSIZE 0) i = 0"
proof -
  assume "i + 2 \<le> BSIZE"
  then have "slice (replicate BSIZE 0) i 2 = replicate 2 (0 :: u8)" by (simp add: Xv6_Prelude.slice_def min_def)
  also have "\<dots> = [0, 0]" by (simp add: numeral_eq_Suc)
  finally show ?thesis by (simp add: get16_def)
qed

lemma zero_image:
  assumes "n \<le> FSSIZE"
  shows "block (map (\<lambda>i. wsect (of_nat i) (replicate BSIZE 0)) [0..<n]) (s\<lparr>fsimg := []\<rparr>) = Ok () (s\<lparr>fsimg := replicate n (replicate BSIZE 0)\<rparr>)"
  using assms
proof (induction n)
  case 0
  then show ?case by (simp add: block_run)
next
  case (Suc n)
  have "sector (of_nat n) = n" using Suc.prems by (subst sector_small) (simp_all add: unat_of_nat)
  then have "wsect (of_nat n) (replicate BSIZE 0) (s\<lparr>fsimg := replicate n (replicate BSIZE 0)\<rparr>) =
      Ok () (s\<lparr>fsimg := replicate (Suc n) (replicate BSIZE 0)\<rparr>)"
    by (simp add: wsect_def kern_simps replicate_append_same)
  then show ?case using Suc by (simp add: block_append bind_run)
qed

definition first_state :: mkfs_state where
  "first_state = \<lparr>fsimg = (replicate FSSIZE (replicate BSIZE 0))[1 := meta_block 1], freeinode = 1, freeblock = of_nat nmeta\<rparr>"

lemma sb_bytes_length [simp]: "length (sb_bytes b) = 32"
  by (simp add: sb_bytes_def le_bytes_def)

lemma meta_length [simp]: "length (meta_block b) = BSIZE"
  by (simp add: meta_block_def)

lemma first_image: "fs_image first_state (\<lambda>_. None) 1 (\<lambda>_. []) (\<lambda>_. 0)"
proof -
  have n: "nmeta = 46" by (simp add: nmeta_def nlog_def ninodeblocks_def nbitmap_def)
  have b: "fsimg first_state ! b = (if b = 1 then meta_block 1 else replicate BSIZE 0)" if "b < FSSIZE" for b
    using that by (simp add: first_state_def nth_list_update)
  have w: "whole (fsimg first_state)" using b by (simp add: whole_def) (simp add: first_state_def)
  have "di_type (dinode_at (fsimg first_state) j) = 0" if "j < 208" for j
  proof -
    have "iblock j < 45" "32 \<le> iblock j" using IBLOCK_iblock [of j] that by simp_all
    moreover have "DINODE * (j mod IPB) + 2 \<le> BSIZE" by (simp add: mult_le_mono2 [of "j mod IPB" 15 DINODE, THEN order_trans])
    ultimately show ?thesis using b [of "iblock j"] by (simp add: dinode_at_def get_dinode_def get16_zeros)
  qed
  moreover have "fsimg first_state ! b = meta_block b" if "b < 46" for b using b [of b] that by (simp add: meta_block_def)
  ultimately show ?thesis using w b by (simp add: fs_image_def image_ok_def first_state_def n space_def)
qed


lemma slice_words: "i < length ws \<Longrightarrow> slice (concat (map (le_bytes 4) ws)) (4 * i) 4 = le_bytes 4 (ws ! i)"
proof (induction ws arbitrary: i)
  case (Cons w ws)
  have l: "length (le_bytes 4 w) = 4" by (simp add: le_bytes_def)
  show ?case
  proof (cases i)
    case 0
    then show ?thesis using l by (simp add: Xv6_Prelude.slice_def)
  next
    case (Suc k)
    then show ?thesis using Cons l by (simp add: Xv6_Prelude.slice_def)
  qed
qed simp

lemma superblock_of_image: "get_superblock (meta_block 1) = mk_sb"
proof -
  let ?ws = "[sb_magic mk_sb, sb_size mk_sb, sb_nblocks mk_sb, sb_ninodes mk_sb, sb_nlog mk_sb, sb_logstart mk_sb, sb_inodestart mk_sb, sb_bmapstart mk_sb]"
  have g: "get32 (meta_block 1) (4 * i) = ?ws ! i" if i: "i < 8" for i
  proof -
    have "slice (meta_block 1) (4 * i) 4 = slice (sb_bytes mk_sb) (4 * i) 4"
      using i by (simp add: meta_block_def Xv6_Prelude.slice_def Xv6_Prelude.splice_def)
    then show ?thesis using slice_words [of i ?ws] i by (simp add: get32_def sb_bytes_def le_word_bytes del: list.map concat.simps)
  qed
  show ?thesis using g [of 0] g [of 1] g [of 2] g [of 3] g [of 4] g [of 5] g [of 6] g [of 7]
    by (simp add: get_superblock_def)
qed

lemma bitmap_marks:
  "used \<le> BPB \<Longrightarrow> length (foldl (\<lambda>buf i. bm_set i buf) (replicate BSIZE 0) [0..<used]) = BSIZE \<and>
    (\<forall>b < BPB. bm_free (foldl (\<lambda>buf i. bm_set i buf) (replicate BSIZE 0) [0..<used]) b \<longleftrightarrow> used \<le> b)"
proof (induction used)
  case 0
  have "b div 8 < BSIZE" if "b < BPB" for b :: nat using that by simp
  then show ?case by (simp add: bm_free_bit)
next
  case (Suc u)
  let ?d = "foldl (\<lambda>buf i. bm_set i buf) (replicate BSIZE 0) [0..<u]"
  have l: "length ?d = BSIZE" and f: "\<forall>b < BPB. bm_free ?d b \<longleftrightarrow> u \<le> b" using Suc by simp_all
  have "bm_free (bm_set u ?d) b \<longleftrightarrow> Suc u \<le> b" if "b < BPB" for b
    using bm_set_free [OF l, of u b] f that Suc.prems by auto
  then show ?case using l by (simp add: bm_set_def [of u ?d])
qed

lemma file_at_bytes: "file_at img own j di ind N c \<Longrightarrow> file_bytes (img_disk img) (loaded di) 0 (length c) = c"
  by (rule nth_equalityI) (auto simp: file_bytes_fbyte file_at_def)

definition dots :: "u8 list" where
  "dots = dir_entry 1 (bytes ''.'') @ dir_entry 1 (bytes ''..'')"

lemma dots_length [simp]: "length dots = 2 * DIRENT"
  by (simp add: dots_def)

text \<open>Everything up to the last fix of the root directory.\<close>

definition root_contents :: "nat \<Rightarrow> u8 list" where
  "root_contents = (\<lambda>_. [])(1 := dots)"

lemma root_image:
  "\<exists>own s. bind (mk_ialloc T_DIR) (\<lambda>r. bind (panic_if (r \<noteq> ROOTINO) ''rootino == ROOTINO'') (\<lambda>_.
       bind (add_entry r r (bytes ''.'')) (\<lambda>_. bind (add_entry r r (bytes ''..'')) (\<lambda>_. ret r)))) first_state = Ok ROOTINO s \<and>
     fs_image s own 2 root_contents ((\<lambda>_. 0)(1 := T_DIR))"
proof -
  let ?T = "(\<lambda>_. 0)(1 := T_DIR) :: nat \<Rightarrow> u16" and ?e = "dir_entry 1 (bytes ''.'')" and ?f = "dir_entry 1 (bytes ''..'')"
  obtain s1 where a: "mk_ialloc T_DIR first_state = Ok (of_nat 1) s1" "fs_image s1 (\<lambda>_. None) 2 ((\<lambda>_. [])(1 := [])) ?T"
    using ialloc_image [OF first_image, of T_DIR] by (auto simp: numeral_2_eq_2)
  have sp: "space ((\<lambda>_. [])(1 := c)) 2 = cost (blocks_for (length c))" for c :: "u8 list"
    by (simp add: space_def numeral_2_eq_2)
  have c: "cost (blocks_for n) \<le> 1" if "n \<le> BSIZE" for n
    using blocks_for_mono [OF that] cost_mono [of "blocks_for n" 1] by (simp add: blocks_for_def cost_def)
  have "46 + space (((\<lambda>_. [])(1 := []))(1 := ((\<lambda>_. [])(1 := [])) 1 @ ?e)) 2 \<le> FSSIZE"
    unfolding fun_upd_upd fun_upd_same append_Nil sp using c [of 16] by simp
  from iappend_image [OF a(2) _ _ _ this] obtain own2 s2 where
    b: "iappend 1 ?e s1 = Ok () s2" "fs_image s2 own2 2 ((\<lambda>_. [])(1 := ?e)) ?T"
    unfolding fun_upd_upd fun_upd_same append_Nil by auto
  have "46 + space (((\<lambda>_. [])(1 := ?e))(1 := ((\<lambda>_. [])(1 := ?e)) 1 @ ?f)) 2 \<le> FSSIZE"
    unfolding fun_upd_upd fun_upd_same sp using c [of 32] by simp
  from iappend_image [OF b(2) _ _ _ this] obtain own3 s3 where
    d: "iappend 1 ?f s2 = Ok () s3" "fs_image s3 own3 2 root_contents ?T"
    unfolding fun_upd_upd fun_upd_same root_contents_def dots_def by auto
  show ?thesis using a(1) b(1) d add_entry_run [of 1 1] by (intro exI [of _ own3] exI [of _ s3]) (simp add: bind_run panic_if_def)
qed

text \<open>What the kernel reads from the image: the inode with a number, and what there is.\<close>

definition inode_on :: "(u32 \<Rightarrow> u8 list) \<Rightarrow> superblock \<Rightarrow> nat \<Rightarrow> inode" where
  "inode_on B sp j = loaded (get_dinode (B (IBLOCK (of_nat j) sp)) (j mod IPB))"

definition file_blocks :: "new_file list \<Rightarrow> (nat \<times> nat) set" where
  "file_blocks files = {(j, k). 1 \<le> j \<and> j < length files + 2 \<and> k < blocks_for (length (placed 2 files root_contents j))}"

definition image_shows :: "(u32 \<Rightarrow> u8 list) \<Rightarrow> nat \<Rightarrow> new_file list \<Rightarrow> bool" where
  "image_shows B used files \<longleftrightarrow> (let sp = get_superblock (B 1); ino = inode_on B sp; n = length files + 2 in
     sp = mk_sb \<and> hb_n (B (sb_logstart sp)) = 0 \<and>
     i_type (ino 1) = T_DIR \<and> i_nlink (ino 1) = 1 \<and> unat (i_size (ino 1)) = (DIRENT * n div BSIZE + 1) * BSIZE \<and>
     file_bytes B (ino 1) 0 (DIRENT * n) = dots @ dir_entries 2 files \<and>
     (\<forall>i. DIRENT * n \<le> i \<and> i < blocks_for (DIRENT * n) * BSIZE \<longrightarrow> fbyte B (ino 1) i = 0) \<and>
     (\<forall>i < length files. \<forall>c. snd (files ! i) = Some c \<longrightarrow> i_type (ino (2 + i)) = T_FILE \<and> i_nlink (ino (2 + i)) = 1 \<and>
        unat (i_size (ino (2 + i))) = length c \<and> file_bytes B (ino (2 + i)) 0 (length c) = c) \<and>
     (\<forall>j. n \<le> j \<and> j < NINODES \<longrightarrow> i_type (ino j) = 0) \<and>
     (\<forall>b. is_free sp B b \<longleftrightarrow> used \<le> b \<and> b < FSSIZE) \<and>
     (\<forall>(j, k) \<in> file_blocks files. \<not> is_free sp B (unat (fblock B (ino j) k))) \<and>
     inj_on (\<lambda>(j, k). fblock B (ino j) k) (file_blocks files))"


text \<open>The image after the last steps, which write the size of the root directory and the bitmap.\<close>

definition root_size :: "nat \<Rightarrow> nat" where
  "root_size n = (n div BSIZE + 1) * BSIZE"

definition final_image :: "u8 list list \<Rightarrow> owner \<Rightarrow> nat \<Rightarrow> nat \<Rightarrow> (nat \<Rightarrow> u8 list) \<Rightarrow> (nat \<Rightarrow> u16) \<Rightarrow> bool" where
  "final_image img own used n C T \<longleftrightarrow>
     image_ok img used own \<and> (\<forall>b < 32. img ! b = meta_block b) \<and>
     img ! 45 = foldl (\<lambda>buf i. bm_set i buf) (replicate BSIZE 0) [0..<used] \<and>
     (\<forall>j. n \<le> j \<and> j < 208 \<longrightarrow> di_type (dinode_at img j) = 0) \<and>
     (\<forall>j. 1 \<le> j \<and> j < n \<longrightarrow>
        file_at img own j (dinode_at img j) (NDIRECT < blocks_for (length (C j))) (blocks_for (length (C j))) (C j) \<and>
        di_type (dinode_at img j) = T j \<and> di_nlink (dinode_at img j) = 1 \<and>
        di_size (dinode_at img j) = of_nat (if j = 1 then root_size (length (C j)) else length (C j)))"

lemma finish_image:
  assumes I: "fs_image s own n C T" and n: "2 \<le> n" and z: "z = of_nat (root_size (length (C 1)))"
    and img1: "img1 = (fsimg s)[iblock 1 := put_dinode (fsimg s ! iblock 1) (1 mod IPB) (dinode_at (fsimg s) 1\<lparr>di_size := z\<rparr>)]"
    and img2: "img2 = img1[45 := foldl (\<lambda>buf i. bm_set i buf) (replicate BSIZE 0) [0..<unat (freeblock s)]]"
  shows "final_image img2 own (unat (freeblock s)) n C T"
proof -
  let ?d = "foldl (\<lambda>buf i. bm_set i buf) (replicate BSIZE 0) [0..<unat (freeblock s)]"
  have ok: "image_ok (fsimg s) (unat (freeblock s)) own" and nN: "n \<le> NINODES"
    and files: "\<And>i. 1 \<le> i \<Longrightarrow> i < n \<Longrightarrow> file_in (fsimg s) own i (T i) (C i)"
    using I unfolding fs_image_def by blast+
  have d: "length ?d = BSIZE" using bitmap_marks [of "unat (freeblock s)"] ok by (simp add: image_ok_def)
  note w = winode_image [OF ok _ _ img1]
  have ok1: "image_ok img1 (unat (freeblock s)) own" using w(1) by simp
  note low = image_ok_low [OF ok1 _ d, of 45]
  have "image_ok img2 (unat (freeblock s)) own" unfolding img2 by (rule low(1)) simp
  moreover have "img2 ! 45 = ?d" using ok1 by (simp add: img2 image_ok_def whole_def)
  moreover have "img2 ! b = meta_block b" if "b < 32" for b using that w(4) [of b] I by (simp add: img2 fs_image_def)
  moreover have at: "dinode_at img2 j = (if j = 1 then dinode_at (fsimg s) 1\<lparr>di_size := z\<rparr> else dinode_at (fsimg s) j)" if "j < 208" for j
    using w(2) [of j] IBLOCK_iblock(2) [OF that] that by (simp add: img2 dinode_at_def [of "img1[45 := ?d]"] dinode_at_def [of img1])
  moreover have "di_type (dinode_at img2 j) = 0" if "n \<le> j" "j < 208" for j using at [OF that(2)] that n I by (simp add: fs_image_def)
  moreover have "file_at img2 own j (dinode_at img2 j) (NDIRECT < blocks_for (length (C j))) (blocks_for (length (C j))) (C j) \<and>
      di_type (dinode_at img2 j) = T j \<and> di_nlink (dinode_at img2 j) = 1 \<and> 
      di_size (dinode_at img2 j) = of_nat (if j = 1 then root_size (length (C j)) else length (C j))"
    if j: "1 \<le> j" "j < n" for j
  proof -
    let ?N = "blocks_for (length (C j))"
    note f = files [OF j, unfolded file_in_def]
    have "file_at img1 own j (dinode_at (fsimg s) j) (NDIRECT < ?N) ?N (C j)" using f by (intro w(3)) simp_all
    then have "file_at img2 own j (dinode_at (fsimg s) j) (NDIRECT < ?N) ?N (C j)"
      unfolding img2 by (rule file_at_frame) (use low(2) in simp)
    then have "file_at img2 own j (dinode_at img2 j) (NDIRECT < ?N) ?N (C j)"
      using at [of j] j nN file_at_addrs [of "dinode_at img2 j" "dinode_at (fsimg s) j"] by simp
    then show ?thesis using at [of j] f j nN z by (cases "j = 1") auto
  qed
  ultimately show ?thesis by (simp add: final_image_def)
qed

lemma inode_on_image: "j < NINODES \<Longrightarrow> inode_on (img_disk img) mk_sb j = loaded (dinode_at img j)"
  using IBLOCK_iblock(1) [of j] by (simp add: inode_on_def img_disk_def dinode_at_def)

lemma loaded_sel [simp]:
  "i_type (loaded di) = di_type di" "i_nlink (loaded di) = di_nlink di" "i_size (loaded di) = di_size di"
  by (simp_all add: loaded_def)

lemma final_free:
  assumes F: "final_image img own used n C T"
  shows "is_free mk_sb (img_disk img) b \<longleftrightarrow> used \<le> b \<and> b < FSSIZE"
proof (cases "b < FSSIZE")
  case True
  have "used \<le> BPB" using F by (simp add: final_image_def image_ok_def)
  note m = bitmap_marks [OF this]
  have "unat (of_nat b div of_nat BPB :: u32) = 0" using True by (simp add: unat_div unat_of_nat)
  then have "(of_nat b div of_nat BPB :: u32) = 0" by (simp only: unat_eq_zero)
  then have "BBLOCK (of_nat b) mk_sb = 45" by (simp add: BBLOCK_def mk_sb_layout)
  then show ?thesis using True m F by (simp add: is_free_def mk_sb_layout img_disk_def final_image_def)
qed (simp add: is_free_def mk_sb_layout)

lemma root_size_bound: "n \<le> MAXFILE * BSIZE \<Longrightarrow> root_size n < 2 ^ 32"
proof -
  assume n: "n \<le> MAXFILE * BSIZE"
  have "n div BSIZE * BSIZE \<le> n" by simp
  then have "root_size n \<le> n + BSIZE" by (simp add: root_size_def)
  then show ?thesis using n by simp
qed

lemma final_file:
  assumes F: "final_image img own used n C T" and j: "1 \<le> j" "j < n" and l: "length (C j) \<le> MAXFILE * BSIZE"
  shows "file_bytes (img_disk img) (loaded (dinode_at img j)) 0 (length (C j)) = C j" "di_type (dinode_at img j) = T j"
    "di_nlink (dinode_at img j) = 1" "unat (di_size (dinode_at img j)) = (if j = 1 then root_size (length (C j)) else length (C j))"
    "length (C j) \<le> i \<Longrightarrow> i < blocks_for (length (C j)) * BSIZE \<Longrightarrow> fbyte (img_disk img) (loaded (dinode_at img j)) i = 0"
    "k < blocks_for (length (C j)) \<Longrightarrow> own (fblock (img_disk img) (loaded (dinode_at img j)) k) = Some (j, k)"
proof -
  have f: "file_at img own j (dinode_at img j) (NDIRECT < blocks_for (length (C j))) (blocks_for (length (C j))) (C j)"
    "di_type (dinode_at img j) = T j" "di_nlink (dinode_at img j) = 1"
    "di_size (dinode_at img j) = of_nat (if j = 1 then root_size (length (C j)) else length (C j))"
    using F j by (simp_all add: final_image_def)
  show "file_bytes (img_disk img) (loaded (dinode_at img j)) 0 (length (C j)) = C j" using f(1) by (rule file_at_bytes)
  show "di_type (dinode_at img j) = T j" "di_nlink (dinode_at img j) = 1" using f by simp_all
  have "unat (of_nat (length (C j)) :: u32) = length (C j)" "unat (of_nat (root_size (length (C j))) :: u32) = root_size (length (C j))"
    using l root_size_bound [OF l] by (simp_all add: unat_of_nat)
  then show "unat (di_size (dinode_at img j)) = (if j = 1 then root_size (length (C j)) else length (C j))"
    unfolding f(4) by (cases "j = 1") auto
  show "length (C j) \<le> i \<Longrightarrow> i < blocks_for (length (C j)) * BSIZE \<Longrightarrow> fbyte (img_disk img) (loaded (dinode_at img j)) i = 0"
    using f(1) by (simp add: file_at_def)
  show "k < blocks_for (length (C j)) \<Longrightarrow> own (fblock (img_disk img) (loaded (dinode_at img j)) k) = Some (j, k)"
    using f(1) by (simp add: file_at_def ptr_def)
qed

lemma placed_lengths:
  assumes "list_all can_add files" "length files + 2 \<le> NINODES" "1 \<le> j" "j < length files + 2"
  shows "length (placed 2 files root_contents j) \<le> MAXFILE * BSIZE"
proof (cases "j = 1")
  case True
  then show ?thesis using assms(2) placed_root [of 2 files root_contents] by (simp add: root_contents_def)
next
  case False
  then obtain i where i: "j = 2 + i" "i < length files" using assms(3,4) by (metis add.commute add_less_cancel_left le_Suc_ex le_neq_implies_less one_add_one plus_1_eq_Suc Suc_leI)
  then have "can_add (files ! i)" using assms(1) by (simp add: list_all_length)
  then show ?thesis using placed_file [of 2 i files root_contents] i by (auto simp: can_add_def split: prod.splits option.splits)
qed

lemma final_shows:
  assumes F: "final_image img own used (length files + 2) (placed 2 files root_contents) (typed 2 files ((\<lambda>_. 0)(1 := T_DIR)))"
    and files: "list_all can_add files" and n: "length files + 2 \<le> NINODES"
  shows "image_shows (img_disk img) used files"
proof -
  let ?B = "img_disk img" and ?C = "placed 2 files root_contents" and ?ino = "inode_on (img_disk img) mk_sb"
  have sp: "get_superblock (?B 1) = mk_sb" using F superblock_of_image by (simp add: img_disk_def final_image_def)
  have log: "hb_n (?B 2) = 0" using F by (simp add: img_disk_def hb_n_def meta_block_def get32_zeros final_image_def)
  have ino: "?ino j = loaded (dinode_at img j)" if "j < length files + 2" for j using that n by (intro inode_on_image) simp
  note len = placed_lengths [OF files n]
  have c1: "?C 1 = dots @ dir_entries 2 files" using placed_root [of 2 files root_contents] by (simp add: root_contents_def)
  have l1: "length (?C 1) = DIRENT * (length files + 2)" unfolding c1 by simp
  note f1 = final_file [OF F, of 1, unfolded l1] and i1 = ino [of 1]
  have root: "i_type (?ino 1) = T_DIR" "i_nlink (?ino 1) = 1"
    "unat (i_size (?ino 1)) = (DIRENT * (length files + 2) div BSIZE + 1) * BSIZE"
    "file_bytes ?B (?ino 1) 0 (DIRENT * (length files + 2)) = dots @ dir_entries 2 files"
    using f1(1-4) len [of 1] i1 typed_before [of 1 2] c1 l1 by (simp_all add: root_size_def)
  have zero: "fbyte ?B (?ino 1) i = 0" if "DIRENT * (length files + 2) \<le> i" "i < blocks_for (DIRENT * (length files + 2)) * BSIZE" for i
    using f1(5) [OF _ _ _ that] len [of 1] i1 l1 by simp
  have each: "i_type (?ino (2 + i)) = T_FILE \<and> i_nlink (?ino (2 + i)) = 1 \<and>
      unat (i_size (?ino (2 + i))) = length c \<and> file_bytes ?B (?ino (2 + i)) 0 (length c) = c"
    if "i < length files" "snd (files ! i) = Some c" for i c
    using final_file(1-4) [OF F, of "2 + i"] len [of "2 + i"] ino [of "2 + i"] typed_file [of i files 2] placed_file [of 2 i files] that
    by simp
  have unused: "i_type (?ino j) = 0" if "length files + 2 \<le> j" "j < NINODES" for j
    using F that inode_on_image [of j img] by (simp add: final_image_def)
  have own: "own (fblock ?B (?ino j) k) = Some (j, k)" if "(j, k) \<in> file_blocks files" for j k
    using that final_file(6) [OF F, of j k] len [of j] ino [of j] by (simp add: file_blocks_def)
  have used: "\<not> is_free mk_sb ?B (unat (fblock ?B (?ino j) k))" if "(j, k) \<in> file_blocks files" for j k
    using own [OF that] F final_free [OF F] by (fastforce simp: final_image_def image_ok_def)
  have "inj_on (\<lambda>(j, k). fblock ?B (?ino j) k) (file_blocks files)"
  proof (rule inj_onI)
    fix p q assume "p \<in> file_blocks files" "q \<in> file_blocks files" "(\<lambda>(j, k). fblock ?B (?ino j) k) p = (\<lambda>(j, k). fblock ?B (?ino j) k) q"
    then show "p = q" using own by (cases p, cases q) (metis case_prod_conv option.inject)
  qed
  then show ?thesis
    using sp log root zero each unused used final_free [OF F] by (auto simp: image_shows_def Let_def mk_sb_layout [THEN arg_cong [of _ _ sb_logstart]])
qed

text \<open>The beginning of \<open>main\<close>, and its end.\<close>

definition mk_root :: "(mkfs_state, u32) kern" where
  "mk_root = bind (mk_ialloc T_DIR) (\<lambda>r. bind (panic_if (r \<noteq> ROOTINO) ''rootino == ROOTINO'') (\<lambda>_.
       bind (add_entry r r (bytes ''.'')) (\<lambda>_. bind (add_entry r r (bytes ''..'')) (\<lambda>_. ret r))))"

definition mk_finish :: "u32 \<Rightarrow> (mkfs_state, unit) kern" where
  "mk_finish rootino =
     bind (rinode rootino) (\<lambda>din.
     bind (winode rootino (din\<lparr>di_size := xint ((xint (di_size din) div of_nat BSIZE + 1) * of_nat BSIZE)\<rparr>)) (\<lambda>_.
     bind (gets freeblock) (\<lambda>used. mk_balloc (unat used))))"

lemma mk_main_run:
  "mk_main files mkfs_start = bind mk_root (\<lambda>r. bind (block (map (add_file r) files)) (\<lambda>_. mk_finish r)) first_state"
proof -
  have "mk_main files = bind (modify (\<lambda>s. s\<lparr>freeblock := of_nat nmeta\<rparr>)) (\<lambda>_.
     bind (block (map (\<lambda>i. wsect (of_nat i) (replicate BSIZE 0)) [0..<FSSIZE])) (\<lambda>_.
     bind (wsect 1 (meta_block 1)) (\<lambda>_. bind mk_root (\<lambda>r. bind (block (map (add_file r) files)) (\<lambda>_. mk_finish r)))))"
    by (simp only: mk_main_def mk_root_def mk_finish_def bind_assoc bind_ret(1) meta_block_def simp_thms if_True)
  moreover have "block (map (\<lambda>i. wsect (of_nat i) (replicate BSIZE 0)) [0..<FSSIZE]) (mkfs_start\<lparr>freeblock := of_nat nmeta\<rparr>) =
      Ok () (mkfs_start\<lparr>freeblock := of_nat nmeta, fsimg := replicate FSSIZE (replicate BSIZE 0)\<rparr>)"
    using zero_image [of FSSIZE "mkfs_start\<lparr>freeblock := of_nat nmeta\<rparr>"] by (simp add: mkfs_start_def)
  moreover have "wsect 1 (meta_block 1) (mkfs_start\<lparr>freeblock := of_nat nmeta, fsimg := replicate FSSIZE (replicate BSIZE 0)\<rparr>) = Ok () first_state"
    by (subst wsect_run) (simp_all add: whole_def first_state_def mkfs_start_def)
  ultimately show ?thesis by (simp add: bind_run [of "modify _"] bind_run [of "block _"] bind_run [of "wsect _ _"])
qed

lemma root_size_word:
  assumes "x = of_nat n" "n \<le> N * BSIZE" "N \<le> MAXFILE"
  shows "((x :: u32) div of_nat BSIZE + 1) * of_nat BSIZE = of_nat (root_size n)"
proof -
  have "n < 2 ^ 32" using assms(2,3) by simp
  then have "x div of_nat BSIZE = of_nat (n div BSIZE)"
    unfolding assms(1) by (simp add: word_unat_eq_iff unat_div unat_of_nat)
  then show ?thesis by (simp add: root_size_def)
qed

lemma mk_finish_run:
  assumes I: "fs_image s own n C T" and n: "2 \<le> n"
  shows "\<exists>s'. mk_finish ROOTINO s = Ok () s' \<and> freeblock s' = freeblock s \<and> final_image (fsimg s') own (unat (freeblock s')) n C T"
proof -
  have ok: "image_ok (fsimg s) (unat (freeblock s)) own" using I unfolding fs_image_def by blast
  have w: "whole (fsimg s)" "unat (freeblock s) \<le> FSSIZE" using ok by (simp_all add: image_ok_def)
  let ?z = "(di_size (dinode_at (fsimg s) 1) div of_nat BSIZE + 1) * of_nat BSIZE"
  let ?di = "dinode_at (fsimg s) 1\<lparr>di_size := ?z\<rparr>"
  let ?img1 = "(fsimg s)[iblock 1 := put_dinode (fsimg s ! iblock 1) (1 mod IPB) ?di]"
  let ?img2 = "?img1[45 := foldl (\<lambda>buf i. bm_set i buf) (replicate BSIZE 0) [0..<unat (freeblock s)]]"
  have w1: "whole ?img1" using winode_image(1) [OF ok, of 1 ?di] by (simp add: image_ok_def)
  have a: "rinode ROOTINO s = Ok (dinode_at (fsimg s) 1) s" using rinode_run [OF w(1), of 1] by simp
  have b: "winode ROOTINO ?di s = Ok () (s\<lparr>fsimg := ?img1\<rparr>)" using winode_run [OF w(1), of 1 ?di] by simp
  have "mk_balloc (unat (freeblock s)) (s\<lparr>fsimg := ?img1\<rparr>) = Ok () (s\<lparr>fsimg := ?img2\<rparr>)"
    using wsect_run [of "s\<lparr>fsimg := ?img1\<rparr>" 45] w1 w(2) by (simp add: mk_balloc_def block_run bind_run panic_if_def mk_sb_layout)
  then have "mk_finish ROOTINO s = Ok () (s\<lparr>fsimg := ?img2\<rparr>)"
    using a b by (simp add: mk_finish_def bind_run)
  moreover have "file_in (fsimg s) own 1 (T 1) (C 1)" using I n by (simp add: fs_image_def)
  then have "?z = of_nat (root_size (length (C 1)))"
    by (intro root_size_word) (auto simp: file_in_def file_at_def)
  ultimately show ?thesis using finish_image [OF I n _ refl refl, of ?z] by simp
qed

text \<open>
  C38: an image that \<^verbatim>\<open>mkfs\<close> builds is a file system with the files on it, as the kernel reads it.
  Whenever the files to add have fewer inodes than there are, names without a slash after
  \<^verbatim>\<open>user/\<close>, and contents that fit, \<open>main\<close> succeeds, and on the image that it writes: the super block
  gives the layout; the log is empty; inode 1 is a directory, its size rounded up to blocks so that
  it covers the entries, which are \<^verbatim>\<open>.\<close>, \<^verbatim>\<open>..\<close> and the names of the files with their inode numbers,
  with free entries (zeros) in the rest of its last block; each file's inode, found where \<open>IBLOCK\<close> of the kernel
  says, has its size, and reading it through its direct and indirect blocks gives exactly its
  contents; all other inodes are free; the bitmap marks exactly the blocks up to the first that was
  not used; and every block of a file is marked and belongs to that place of that file only.
\<close>

theorem mkfs_image_readable:
  assumes n: "length files + 2 \<le> NINODES" and files: "list_all can_add files" and room: "nmeta + needed files \<le> FSSIZE"
  shows "\<exists>s. mk_main files mkfs_start = Ok () s \<and> image_shows (img_disk (fsimg s)) (unat (freeblock s)) files"
proof -
  let ?T = "(\<lambda>_. 0)(1 := T_DIR) :: nat \<Rightarrow> u16"
  obtain own1 s1 where r: "mk_root first_state = Ok ROOTINO s1" "fs_image s1 own1 2 root_contents ?T"
    using root_image unfolding mk_root_def by blast
  have "46 + space (placed 2 files root_contents) (2 + length files) \<le> FSSIZE"
    using space_placed [of root_contents files] room by (simp add: root_contents_def nmeta_def nlog_def ninodeblocks_def nbitmap_def)
  moreover have "length (root_contents 1) + DIRENT * length files \<le> MAXFILE * BSIZE" using n by (simp add: root_contents_def)
  ultimately obtain own s2 where a: "block (map (add_file ROOTINO) files) s1 = Ok () s2"
     "fs_image s2 own (length files + 2) (placed 2 files root_contents) (typed 2 files ?T)"
    using add_files_image [OF r(2) _ _ files] n by (auto simp: add.commute)
  obtain s where s: "mk_finish ROOTINO s2 = Ok () s"
     "final_image (fsimg s) own (unat (freeblock s)) (length files + 2) (placed 2 files root_contents) (typed 2 files ?T)"
    using mk_finish_run [OF a(2)] by auto
  have "mk_main files mkfs_start = Ok () s" using r(1) a(1) s(1) by (simp add: mk_main_run bind_run)
  then show ?thesis using final_shows [OF s(2) files n] by blast
qed


theorem mkfs_image_readable_witness:
  "\<exists>s. mk_main [(bytes ''user/_hi'', Some [1, 2, 3])] mkfs_start = Ok () s \<and>
     file_bytes (img_disk (fsimg s)) (inode_on (img_disk (fsimg s)) mk_sb 2) 0 3 = [1, 2, 3]"
proof -
  let ?files = "[(bytes ''user/_hi'', Some [1, 2, 3])]"
  have "length ?files + 2 \<le> NINODES" "list_all can_add ?files" "nmeta + needed ?files \<le> FSSIZE"
    by (simp_all add: can_add_def shortname_def bytes_def nmeta_def nlog_def ninodeblocks_def nbitmap_def needed_def cost_def blocks_for_def)
  from mkfs_image_readable [OF this] obtain s where s: "mk_main ?files mkfs_start = Ok () s"
    "image_shows (img_disk (fsimg s)) (unat (freeblock s)) ?files" by blast
  then show ?thesis unfolding image_shows_def Let_def by (intro exI [of _ s]) (auto simp: numeral_3_eq_3 dest: spec [of _ 0])
qed

end
