(* ===== verification/Xv6_Asm.thy ===== *)
theory Xv6_Asm
  imports Xv6_Sched
begin

text \<open>
  The assembly code: \<^verbatim>\<open>trampoline.S\<close>, \<^verbatim>\<open>swtch.S\<close>, \<^verbatim>\<open>kernelvec.S\<close> and
  \<^verbatim>\<open>entry.S\<close>, on a model of the registers of one hart.

  Each instruction is an operation on the hart's state, and a routine is the sequence of its
  instructions. Memory is reached through the address translation that \<open>satp\<close> selects, which is a
  function of the hart (the page tables are those of \<open>Xv6_Vm\<close>); machine mode uses physical
  addresses. A load or store of an unmapped or misaligned address stops as a trap. The fetch of the
  instructions themselves is not modelled: the trampoline page is mapped at the same address in
  every page table.
\<close>

section \<open>Registers and instructions\<close>

datatype reg = RA | SP | GP | TP | T0 | T1 | T2 | S0 | S1 | A0 | A1 | A2 | A3 | A4 | A5 | A6 | A7
  | S2 | S3 | S4 | S5 | S6 | S7 | S8 | S9 | S10 | S11 | T3 | T4 | T5 | T6

datatype csr = Sscratch | Satp | Sip | Mscratch | Mhartid

record hart =
  x_reg :: "reg \<Rightarrow> u64"
  x_csr :: "csr \<Rightarrow> u64"
  x_mem :: mem
  x_trans :: "u64 \<Rightarrow> u64 \<Rightarrow> u64 option" \<comment> \<open>of \<open>satp\<close> and a virtual address\<close>
  x_machine :: bool

type_synonym 'a asm = "(hart, 'a) kern"

text \<open>Where a routine leaves to: an address in a register, or the program counter the trap saved.\<close>

datatype jump = To u64 | Sret | Mret

definition phys :: "hart \<Rightarrow> u64 \<Rightarrow> u64 option" where
  "phys c va = (if unat va mod 8 \<noteq> 0 then None else if x_machine c then Some va else x_trans c (x_csr c Satp) va)"

definition li :: "reg \<Rightarrow> u64 \<Rightarrow> unit asm" where
  "li r v = modify (\<lambda>c. c\<lparr>x_reg := (x_reg c)(r := v)\<rparr>)"

definition sd :: "reg \<Rightarrow> u64 \<Rightarrow> reg \<Rightarrow> unit asm" where
  "sd r k b = bind (gets id) (\<lambda>c.
     case phys c (x_reg c b + k) of
       None \<Rightarrow> panic ''trap''
     | Some a \<Rightarrow> modify (\<lambda>c. c\<lparr>x_mem := store64 (x_mem c) a (x_reg c r)\<rparr>))"

definition ld :: "reg \<Rightarrow> u64 \<Rightarrow> reg \<Rightarrow> unit asm" where
  "ld r k b = bind (gets id) (\<lambda>c.
     case phys c (x_reg c b + k) of
       None \<Rightarrow> panic ''trap''
     | Some a \<Rightarrow> li r (load64 (x_mem c) a))"

definition addi :: "reg \<Rightarrow> reg \<Rightarrow> u64 \<Rightarrow> unit asm" where
  "addi r q v = bind (gets (\<lambda>c. x_reg c q)) (\<lambda>x. li r (x + v))"

definition add :: "reg \<Rightarrow> reg \<Rightarrow> reg \<Rightarrow> unit asm" where
  "add r p q = bind (gets (\<lambda>c. x_reg c p + x_reg c q)) (li r)"

definition mul :: "reg \<Rightarrow> reg \<Rightarrow> reg \<Rightarrow> unit asm" where
  "mul r p q = bind (gets (\<lambda>c. x_reg c p * x_reg c q)) (li r)"

definition csrr :: "reg \<Rightarrow> csr \<Rightarrow> unit asm" where
  "csrr r x = bind (gets (\<lambda>c. x_csr c x)) (li r)"

definition csrw :: "csr \<Rightarrow> reg \<Rightarrow> unit asm" where
  "csrw x r = modify (\<lambda>c. c\<lparr>x_csr := (x_csr c)(x := x_reg c r)\<rparr>)"

definition csrrw :: "reg \<Rightarrow> csr \<Rightarrow> reg \<Rightarrow> unit asm" where
  "csrrw r x q = bind (gets id) (\<lambda>c. modify (\<lambda>_. c\<lparr>x_csr := (x_csr c)(x := x_reg c q), x_reg := (x_reg c)(r := x_csr c x)\<rparr>))"

text \<open>\<open>x_trans\<close> is what the page tables hold, so a flushed TLB shows nothing else.\<close>

definition sfence_vma :: "unit asm" where
  "sfence_vma = ret ()"

definition jr :: "reg \<Rightarrow> jump asm" where
  "jr r = gets (\<lambda>c. To (x_reg c r))"

text \<open>A run of \<^verbatim>\<open>sd\<close> or \<^verbatim>\<open>ld\<close> instructions with the registers and offsets of a table.\<close>

definition save :: "(reg \<times> u64) list \<Rightarrow> reg \<Rightarrow> unit asm" where
  "save tbl b = block (map (\<lambda>(r, k). sd r k b) tbl)"

definition restore :: "(reg \<times> u64) list \<Rightarrow> reg \<Rightarrow> unit asm" where
  "restore tbl b = block (map (\<lambda>(r, k). ld r k b) tbl)"

section \<open>\<^verbatim>\<open>trampoline.S\<close>\<close>

definition frame_slots :: "(reg \<times> u64) list" where
  "frame_slots = [(RA, 40), (SP, 48), (GP, 56), (TP, 64), (T0, 72), (T1, 80), (T2, 88), (S0, 96), (S1, 104),
     (A1, 120), (A2, 128), (A3, 136), (A4, 144), (A5, 152), (A6, 160), (A7, 168), (S2, 176), (S3, 184),
     (S4, 192), (S5, 200), (S6, 208), (S7, 216), (S8, 224), (S9, 232), (S10, 240), (S11, 248), (T3, 256),
     (T4, 264), (T5, 272), (T6, 280)]"

definition uservec :: "jump asm" where
  "uservec = bind (block [
       csrw Sscratch A0,
       li A0 TRAPFRAME,
       save frame_slots A0,
       csrr T0 Sscratch,
       sd T0 112 A0,
       ld SP 8 A0,
       ld TP 32 A0,
       ld T0 16 A0,
       ld T1 0 A0,
       sfence_vma,
       csrw Satp T1,
       sfence_vma]) (\<lambda>_. jr T0)"

definition userret :: "jump asm" where
  "userret = block_ret [
       sfence_vma,
       csrw Satp A0,
       sfence_vma,
       li A0 TRAPFRAME,
       restore frame_slots A0,
       ld A0 112 A0] Sret"

section \<open>\<^verbatim>\<open>swtch.S\<close>\<close>

definition context_slots :: "(reg \<times> u64) list" where
  "context_slots = [(RA, 0), (SP, 8), (S0, 16), (S1, 24), (S2, 32), (S3, 40), (S4, 48), (S5, 56), (S6, 64),
     (S7, 72), (S8, 80), (S9, 88), (S10, 96), (S11, 104)]"

definition swtch :: "jump asm" where
  "swtch = bind (block [save context_slots A0, restore context_slots A1]) (\<lambda>_. jr RA)"

section \<open>\<^verbatim>\<open>kernelvec.S\<close>\<close>

definition stack_slots :: "(reg \<times> u64) list" where
  "stack_slots = [(RA, 0), (SP, 8), (GP, 16), (TP, 24), (T0, 32), (T1, 40), (T2, 48), (S0, 56), (S1, 64),
     (A0, 72), (A1, 80), (A2, 88), (A3, 96), (A4, 104), (A5, 112), (A6, 120), (A7, 128), (S2, 136), (S3, 144),
     (S4, 152), (S5, 160), (S6, 168), (S7, 176), (S8, 184), (S9, 192), (S10, 200), (S11, 208), (T3, 216),
     (T4, 224), (T5, 232), (T6, 240)]"

text \<open>
  All of them are restored but \<open>tp\<close>. The parameter is the compiled \<open>kerneltrap\<close> with the \<^verbatim>\<open>call\<close> that
  enters it, which leaves the return address in \<open>ra\<close>.
\<close>

definition kernelvec :: "unit asm \<Rightarrow> jump asm" where
  "kernelvec kerneltrap = block_ret [
       addi SP SP (- 256),
       save stack_slots SP,
       kerneltrap,
       restore (filter (\<lambda>(r, k). r \<noteq> TP) stack_slots) SP,
       addi SP SP 256] Sret"

definition timervec :: "jump asm" where
  "timervec = block_ret [
       csrrw A0 Mscratch A0,
       sd A1 0 A0,
       sd A2 8 A0,
       sd A3 16 A0,
       ld A1 24 A0,
       ld A2 32 A0,
       ld A3 0 A1,
       add A3 A3 A2,
       sd A3 0 A1,
       li A1 2,
       csrw Sip A1,
       ld A3 16 A0,
       ld A2 8 A0,
       ld A1 0 A0,
       csrrw A0 Mscratch A0] Mret"

section \<open>\<^verbatim>\<open>entry.S\<close>\<close>

text \<open>\<open>stack0\<close> is the address of the boot stacks; \<^verbatim>\<open>call start\<close> does not return.\<close>

definition boot_entry :: "u64 \<Rightarrow> u64 \<Rightarrow> jump asm" where
  "boot_entry stack0 start_addr = block_ret [
       li SP stack0,
       li A0 (1024 * 4),
       csrr A1 Mhartid,
       addi A1 A1 1,
       mul A0 A0 A1,
       add SP SP A0] (To start_addr)"

section \<open>Running the instructions\<close>

lemma asm_run [simp]:
  "li r v c = Ok () (c\<lparr>x_reg := (x_reg c)(r := v)\<rparr>)"
  "addi r q v c = Ok () (c\<lparr>x_reg := (x_reg c)(r := x_reg c q + v)\<rparr>)"
  "add r p q c = Ok () (c\<lparr>x_reg := (x_reg c)(r := x_reg c p + x_reg c q)\<rparr>)"
  "mul r p q c = Ok () (c\<lparr>x_reg := (x_reg c)(r := x_reg c p * x_reg c q)\<rparr>)"
  "csrr r x c = Ok () (c\<lparr>x_reg := (x_reg c)(r := x_csr c x)\<rparr>)"
  "csrw x r c = Ok () (c\<lparr>x_csr := (x_csr c)(x := x_reg c r)\<rparr>)"
  "csrrw r x q c = Ok () (c\<lparr>x_csr := (x_csr c)(x := x_reg c q), x_reg := (x_reg c)(r := x_csr c x)\<rparr>)"
  "sfence_vma c = Ok () c"
  "jr r c = Ok (To (x_reg c r)) c"
  by (simp_all add: li_def addi_def add_def mul_def csrr_def csrw_def csrrw_def sfence_vma_def jr_def bind_run)

lemma mem_run:
  "phys c (x_reg c b + k) = Some a \<Longrightarrow> sd r k b c = Ok () (c\<lparr>x_mem := store64 (x_mem c) a (x_reg c r)\<rparr>)"
  "phys c (x_reg c b + k) = Some a \<Longrightarrow> ld r k b c = Ok () (c\<lparr>x_reg := (x_reg c)(r := load64 (x_mem c) a)\<rparr>)"
  by (simp_all add: sd_def ld_def bind_run)

lemma phys_same [simp]: "phys (c\<lparr>x_reg := g\<rparr>) = phys c" "phys (c\<lparr>x_mem := m\<rparr>) = phys c"
  by (simp_all add: phys_def fun_eq_iff)

lemma load64_other_word:
  "8 dvd unat a \<Longrightarrow> 8 dvd unat b \<Longrightarrow> a \<noteq> b \<Longrightarrow> load64 (store64 m a v) b = load64 m b"
  by (simp add: load64_def store64_def mread_mwrite_apart apart8)

lemma store64_outside: "8 \<le> unat (x - a) \<Longrightarrow> store64 m a v x = m x"
  by (simp add: store64_def mwrite_at)

text \<open>The words of a table at the virtual address \<open>va\<close> are those at the physical address \<open>pa\<close>.\<close>

definition mapped :: "hart \<Rightarrow> u64 \<Rightarrow> u64 \<Rightarrow> u64 list \<Rightarrow> bool" where
  "mapped c va pa ks \<longleftrightarrow> (\<forall>k\<in>set ks. phys c (va + k) = Some (pa + k) \<and> 8 dvd unat (pa + k))"

lemma mapped_same [simp]: "mapped (c\<lparr>x_reg := g\<rparr>) = mapped c" "mapped (c\<lparr>x_mem := m\<rparr>) = mapped c"
  by (simp_all add: mapped_def fun_eq_iff)

definition saved :: "mem \<Rightarrow> u64 \<Rightarrow> (reg \<times> u64) list \<Rightarrow> (reg \<Rightarrow> u64) \<Rightarrow> mem \<Rightarrow> bool" where
  "saved m pa tbl g m' \<longleftrightarrow> (\<forall>(r, k)\<in>set tbl. load64 m' (pa + k) = g r) \<and>
     (\<forall>a. 8 dvd unat a \<and> (\<forall>(r, k)\<in>set tbl. a \<noteq> pa + k) \<longrightarrow> load64 m' a = load64 m a) \<and>
     (\<forall>x. (\<forall>(r, k)\<in>set tbl. 8 \<le> unat (x - (pa + k))) \<longrightarrow> m' x = m x)"

lemma save_run:
  assumes "mapped c (x_reg c b) pa (map snd tbl)" "distinct (map snd tbl)"
  shows "\<exists>m. save tbl b c = Ok () (c\<lparr>x_mem := m\<rparr>) \<and> saved (x_mem c) pa tbl (x_reg c) m"
  using assms
proof (induction tbl arbitrary: c)
  case Nil
  then show ?case by (intro exI [of _ "x_mem c"]) (simp add: save_def saved_def)
next
  case (Cons e tbl)
  obtain r k where e: "e = (r, k)" by force
  let ?c = "c\<lparr>x_mem := store64 (x_mem c) (pa + k) (x_reg c r)\<rparr>"
  have k: "phys c (x_reg c b + k) = Some (pa + k)" "8 dvd unat (pa + k)" using Cons.prems e by (auto simp: mapped_def)
  have "mapped ?c (x_reg ?c b) pa (map snd tbl)" "distinct (map snd tbl)"
    using Cons.prems e by (auto simp: mapped_def)
  from Cons.IH [OF this] obtain m where m: "save tbl b ?c = Ok () (?c\<lparr>x_mem := m\<rparr>)" "saved (x_mem ?c) pa tbl (x_reg ?c) m"
    by blast
  have "pa + k \<noteq> pa + j" if "(q, j) \<in> set tbl" for q j using Cons.prems(2) e that by force
  then have "load64 m (pa + k) = x_reg c r" using m(2) k(2) by (auto simp: saved_def)
  moreover have "load64 (store64 (x_mem c) (pa + k) v) a = load64 (x_mem c) a" if "8 dvd unat a" "a \<noteq> pa + k" for a v
    using k(2) that by (simp add: load64_other_word)
  ultimately have "saved (x_mem c) pa (e # tbl) (x_reg c) m" using m(2) e by (auto simp: saved_def store64_outside)
  moreover have "save (e # tbl) b c = Ok () (c\<lparr>x_mem := m\<rparr>)"
    using m(1) by (simp add: save_def e bind_run mem_run(1) [OF k(1)])
  ultimately show ?case by blast
qed

definition restored :: "mem \<Rightarrow> u64 \<Rightarrow> (reg \<times> u64) list \<Rightarrow> (reg \<Rightarrow> u64) \<Rightarrow> reg \<Rightarrow> u64" where
  "restored m pa tbl g r = (case map_of tbl r of None \<Rightarrow> g r | Some k \<Rightarrow> load64 m (pa + k))"

lemma restore_run:
  assumes "mapped c (x_reg c b) pa (map snd tbl)" "distinct (map fst tbl)"
    "\<And>k. (b, k) \<in> set tbl \<Longrightarrow> load64 (x_mem c) (pa + k) = x_reg c b"
  shows "restore tbl b c = Ok () (c\<lparr>x_reg := restored (x_mem c) pa tbl (x_reg c)\<rparr>)"
  using assms
proof (induction tbl arbitrary: c)
  case Nil
  then show ?case by (simp add: restore_def restored_def)
next
  case (Cons e tbl)
  obtain r k where e: "e = (r, k)" by force
  let ?c = "c\<lparr>x_reg := (x_reg c)(r := load64 (x_mem c) (pa + k))\<rparr>"
  have k: "phys c (x_reg c b + k) = Some (pa + k)" using Cons.prems e by (auto simp: mapped_def)
  have b: "x_reg ?c b = x_reg c b" using Cons.prems(3) [of k] e by simp
  have "mapped ?c (x_reg ?c b) pa (map snd tbl)" "distinct (map fst tbl)"
    "\<And>k. (b, k) \<in> set tbl \<Longrightarrow> load64 (x_mem ?c) (pa + k) = x_reg ?c b"
    unfolding b using Cons.prems e by (auto simp: mapped_def)
  from Cons.IH [OF this] have "restore tbl b ?c = Ok () (?c\<lparr>x_reg := restored (x_mem c) pa tbl (x_reg ?c)\<rparr>)" by (simp add: fun_upd_def)
  moreover have "restored (x_mem c) pa tbl (x_reg ?c) = restored (x_mem c) pa (e # tbl) (x_reg c)"
  proof -
    have "map_of tbl r = None" using Cons.prems(2) e by (simp add: map_of_eq_None_iff)
    then show ?thesis by (auto simp: restored_def fun_eq_iff e split: option.split)
  qed
  ultimately show ?case by (simp add: restore_def e bind_run mem_run(2) [OF k] fun_upd_def)
qed

section \<open>The trampoline\<close>

text \<open>The words of the trap frame as \<open>struct trapframe\<close> lays them out, and the user registers in it.\<close>

definition trapframe_at :: "mem \<Rightarrow> u64 \<Rightarrow> trapframe" where
  "trapframe_at m pa = (let w = (\<lambda>k. load64 m (pa + k)) in
     \<lparr>tf_kernel_satp = w 0, tf_kernel_sp = w 8, tf_kernel_trap = w 16, tf_epc = w 24, tf_kernel_hartid = w 32,
      tf_ra = w 40, tf_sp = w 48, tf_gp = w 56, tf_tp = w 64, tf_t0 = w 72, tf_t1 = w 80, tf_t2 = w 88, tf_s0 = w 96,
      tf_s1 = w 104, tf_a0 = w 112, tf_a1 = w 120, tf_a2 = w 128, tf_a3 = w 136, tf_a4 = w 144, tf_a5 = w 152,
      tf_a6 = w 160, tf_a7 = w 168, tf_s2 = w 176, tf_s3 = w 184, tf_s4 = w 192, tf_s5 = w 200, tf_s6 = w 208,
      tf_s7 = w 216, tf_s8 = w 224, tf_s9 = w 232, tf_s10 = w 240, tf_s11 = w 248, tf_t3 = w 256, tf_t4 = w 264,
      tf_t5 = w 272, tf_t6 = w 280\<rparr>)"

fun frame_reg :: "trapframe \<Rightarrow> reg \<Rightarrow> u64" where
  "frame_reg f RA = tf_ra f" | "frame_reg f SP = tf_sp f" | "frame_reg f GP = tf_gp f" | "frame_reg f TP = tf_tp f"
| "frame_reg f T0 = tf_t0 f" | "frame_reg f T1 = tf_t1 f" | "frame_reg f T2 = tf_t2 f" | "frame_reg f T3 = tf_t3 f"
| "frame_reg f T4 = tf_t4 f" | "frame_reg f T5 = tf_t5 f" | "frame_reg f T6 = tf_t6 f" | "frame_reg f S0 = tf_s0 f"
| "frame_reg f S1 = tf_s1 f" | "frame_reg f S2 = tf_s2 f" | "frame_reg f S3 = tf_s3 f" | "frame_reg f S4 = tf_s4 f"
| "frame_reg f S5 = tf_s5 f" | "frame_reg f S6 = tf_s6 f" | "frame_reg f S7 = tf_s7 f" | "frame_reg f S8 = tf_s8 f"
| "frame_reg f S9 = tf_s9 f" | "frame_reg f S10 = tf_s10 f" | "frame_reg f S11 = tf_s11 f" | "frame_reg f A0 = tf_a0 f"
| "frame_reg f A1 = tf_a1 f" | "frame_reg f A2 = tf_a2 f" | "frame_reg f A3 = tf_a3 f" | "frame_reg f A4 = tf_a4 f"
| "frame_reg f A5 = tf_a5 f" | "frame_reg f A6 = tf_a6 f" | "frame_reg f A7 = tf_a7 f"

text \<open>In supervisor mode, under \<open>satp\<close>, the page \<open>TRAPFRAME\<close> is the physical page \<open>pa\<close>.\<close>

definition frame_page :: "hart \<Rightarrow> u64 \<Rightarrow> u64 \<Rightarrow> bool" where
  "frame_page c sa pa \<longleftrightarrow> \<not> x_machine c \<and> unat pa mod PGSIZE = 0 \<and>
     (\<forall>k < PGSIZE. x_trans c sa (TRAPFRAME + k) = Some (pa + k))"

lemma page_words:
  assumes "unat (pa :: u64) mod PGSIZE = 0" "8 dvd unat k"
  shows "8 dvd unat (pa + k)"
proof -
  have "8 dvd unat pa" by (rule dvd_trans [OF _ mod_0_imp_dvd [OF assms(1)]]) simp
  then have "8 dvd unat pa + unat k" using assms(2) by (rule dvd_add)
  then show ?thesis unfolding unat_word_ariths by (rule dvd_mod) simp
qed

lemma frame_mapped:
  assumes "frame_page c (x_csr c Satp) pa" "\<forall>k\<in>set ks. k < PGSIZE \<and> 8 dvd unat k"
  shows "mapped c TRAPFRAME pa ks"
proof -
  have "unat (TRAPFRAME + k) mod 8 = 0" if "8 dvd unat k" "k < PGSIZE" for k :: u64
    using that by (intro dvd_imp_mod_0 page_words) simp
  moreover have "8 dvd unat (pa + k)" if "8 dvd unat k" "k < PGSIZE" for k
    using assms(1) that by (intro page_words) (simp_all add: frame_page_def)
  ultimately show ?thesis using assms by (auto simp: mapped_def frame_page_def phys_def)
qed

lemma frame_word:
  assumes "frame_page c (x_csr c Satp) pa" "k < PGSIZE" "8 dvd unat k"
  shows "phys c (TRAPFRAME + k) = Some (pa + k)"
  using frame_mapped [OF assms(1), of "[k]"] assms(2,3) by (simp add: mapped_def)

lemma phys_csr [simp]: "x \<noteq> Satp \<Longrightarrow> phys (c\<lparr>x_csr := (x_csr c)(x := v), x_reg := g\<rparr>) = phys c"
  by (simp add: phys_def fun_eq_iff)

lemma frame_reg_word:
  "\<exists>k. (r, k) \<in> set ((A0, 112) # frame_slots) \<and> frame_reg (trapframe_at m pa) r = load64 m (pa + k)"
  by (cases r) (simp_all add: trapframe_at_def frame_slots_def)

text \<open>What \<open>uservec\<close> leaves in memory.\<close>

lemma frame_saved:
  assumes "saved m pa frame_slots (g(A0 := v)) m'" "unat pa mod PGSIZE = 0" "m2 = store64 m' (pa + 112) (g A0)"
  shows "frame_reg (trapframe_at m2 pa) = g"
    "k \<in> {0, 8, 16, 24, 32} \<Longrightarrow> load64 m2 (pa + k) = load64 m (pa + k)"
    "\<forall>k < PGSIZE. x \<noteq> pa + k \<Longrightarrow> m2 x = m x"
proof -
  have d: "8 dvd unat (pa + k)" if "8 dvd unat k" for k using assms(2) that by (rule page_words)
  have o: "load64 m2 (pa + k) = load64 m' (pa + k)" if "8 dvd unat k" "k \<noteq> 112" for k
    using that unfolding assms(3) by (simp add: load64_other_word d)
  have "load64 m2 (pa + 112) = g A0" by (simp add: assms(3))
  moreover have "load64 m2 (pa + k) = g r" if "(r, k) \<in> set frame_slots" for r k
  proof -
    have "8 dvd unat k" "k \<noteq> 112" "r \<noteq> A0" using that by (auto simp: frame_slots_def)
    with o [of k] that assms(1) show ?thesis by (auto simp: saved_def)
  qed
  ultimately have "frame_reg (trapframe_at m2 pa) r = g r" for r
    using frame_reg_word [of r m2 pa] by auto
  then show "frame_reg (trapframe_at m2 pa) = g" by (rule ext)
  show "load64 m2 (pa + k) = load64 m (pa + k)" if "k \<in> {0, 8, 16, 24, 32}"
  proof -
    have k: "8 dvd unat k" "k \<noteq> 112" using that by auto
    have "\<forall>(r, j)\<in>set frame_slots. pa + k \<noteq> pa + j" using that by (auto simp: frame_slots_def)
    then show ?thesis using o [OF k] d [OF k(1)] assms(1) by (simp add: saved_def)
  qed
  show "m2 x = m x" if "\<forall>k < PGSIZE. x \<noteq> pa + k"
  proof -
    have "4096 \<le> x - pa" using that by (metis add.commute diff_add_cancel not_le)
    then have f: "8 \<le> unat (x - (pa + k))" if "k \<le> 4088" for k
    proof -
      have "k + 8 \<le> x - pa" using that \<open>4096 \<le> x - pa\<close> by (simp add: word_le_nat_alt unat_word_ariths)
      then show ?thesis using that by (simp add: word_le_nat_alt unat_word_ariths diff_diff_add [symmetric] unat_sub)
    qed
    have "\<forall>(r, k)\<in>set frame_slots. 8 \<le> unat (x - (pa + k))" by (auto simp: frame_slots_def intro!: f)
    then show ?thesis using assms(1) f [of 112] by (simp add: assms(3) store64_outside saved_def)
  qed
qed

lemma frame_offsets: "\<forall>k\<in>set (map snd frame_slots). k < PGSIZE \<and> 8 dvd unat k"
  "distinct (map snd frame_slots)" "distinct (map fst frame_slots)" "(A0, k) \<notin> set frame_slots"
  by (simp_all add: frame_slots_def)

lemma userret_run:
  assumes "frame_page d (x_reg d A0) pa"
  shows "userret d = Ok Sret (d\<lparr>x_csr := (x_csr d)(Satp := x_reg d A0), x_reg := frame_reg (trapframe_at (x_mem d) pa)\<rparr>)"
proof -
  let ?d = "d\<lparr>x_csr := (x_csr d)(Satp := x_reg d A0), x_reg := (x_reg d)(A0 := TRAPFRAME)\<rparr>"
  let ?g = "restored (x_mem d) pa frame_slots ((x_reg d)(A0 := TRAPFRAME))"
  have f: "frame_page ?d (x_csr ?d Satp) pa" using assms by (simp add: frame_page_def)
  have "mapped ?d (x_reg ?d A0) pa (map snd frame_slots)" using frame_mapped [OF f frame_offsets(1)] by simp
  from restore_run [OF this frame_offsets(3)] have r: "restore frame_slots A0 ?d = Ok () (?d\<lparr>x_reg := ?g\<rparr>)"
    using frame_offsets(4) by simp
  have a: "?g A0 = TRAPFRAME" by (simp add: restored_def frame_slots_def)
  have w: "phys (?d\<lparr>x_reg := ?g\<rparr>) (?g A0 + 112) = Some (pa + 112)" unfolding a using frame_word [OF f, of 112] by simp
  have "?g(A0 := load64 (x_mem d) (pa + 112)) = frame_reg (trapframe_at (x_mem d) pa)"
  proof (rule ext)
    fix r
    show "(?g(A0 := load64 (x_mem d) (pa + 112))) r = frame_reg (trapframe_at (x_mem d) pa) r"
      by (cases r) (simp_all add: restored_def frame_slots_def trapframe_at_def)
  qed
  with r w show ?thesis by (simp add: userret_def block_ret_def bind_run mem_run(2))
qed

lemma uservec_run:
  assumes "frame_page c (x_csr c Satp) pa" "f = trapframe_at (x_mem c) pa"
  shows "\<exists>c'. uservec c = Ok (To (tf_kernel_trap f)) c' \<and> x_csr c' Satp = tf_kernel_satp f \<and>
    x_reg c' SP = tf_kernel_sp f \<and> x_reg c' TP = tf_kernel_hartid f \<and> x_trans c' = x_trans c \<and> \<not> x_machine c' \<and>
    (\<exists>m v. saved (x_mem c) pa frame_slots ((x_reg c)(A0 := v)) m \<and> x_mem c' = store64 m (pa + 112) (x_reg c A0))"
proof -
  let ?c = "c\<lparr>x_csr := (x_csr c)(Sscratch := x_reg c A0), x_reg := (x_reg c)(A0 := TRAPFRAME)\<rparr>"
  have p: "frame_page ?c (x_csr ?c Satp) pa" using assms(1) by (simp add: frame_page_def)
  have "mapped ?c (x_reg ?c A0) pa (map snd frame_slots)" using frame_mapped [OF p frame_offsets(1)] by simp
  from save_run [OF this frame_offsets(2)] obtain m where m: "save frame_slots A0 ?c = Ok () (?c\<lparr>x_mem := m\<rparr>)"
    "saved (x_mem c) pa frame_slots ((x_reg c)(A0 := TRAPFRAME)) m" by auto
  let ?m = "store64 m (pa + 112) (x_reg c A0)"
  have w: "x_trans c (x_csr c Satp) (TRAPFRAME + k) = Some (pa + k)" "\<not> x_machine c" if "k < PGSIZE" for k
    using assms(1) that by (simp_all add: frame_page_def)
  have u: "unat pa mod PGSIZE = 0" using assms(1) by (simp add: frame_page_def)
  have l: "load64 ?m (pa + k) = load64 (x_mem c) (pa + k)" if "k \<in> {0, 8, 16, 24, 32}" for k
    using frame_saved(2) [OF m(2) u refl that] .
  show ?thesis
    using m w [of 112] w [of 8] w [of 32] w [of 16] w [of 0] l [of 8] l [of 32] l [of 16] l [of 0]
    by (auto simp: assms(2) uservec_def bind_run mem_run trapframe_at_def phys_def)
qed

text \<open>
  C29: A trap keeps every user register. With the trap frame's page mapped at \<open>TRAPFRAME\<close>,
  \<open>uservec\<close> saves all 31 registers of the user in the fields that \<open>struct trapframe\<close> has for
  them, keeps the kernel's fields and all memory outside of the page, and enters the address
  \<open>kernel_trap\<close> with the kernel's stack, hart number and page table. \<open>userret\<close> with the user's
  page table in \<open>a0\<close> gives back, exactly, the registers the trap frame holds.
\<close>

theorem trampoline_saves_and_restores:
  assumes "frame_page c (x_csr c Satp) pa" "f = trapframe_at (x_mem c) pa"
  shows "(\<exists>c' f'. uservec c = Ok (To (tf_kernel_trap f)) c' \<and> f' = trapframe_at (x_mem c') pa \<and>
      x_csr c' Satp = tf_kernel_satp f \<and> x_reg c' SP = tf_kernel_sp f \<and> x_reg c' TP = tf_kernel_hartid f \<and>
      frame_reg f' = x_reg c \<and> tf_kernel_satp f' = tf_kernel_satp f \<and> tf_kernel_sp f' = tf_kernel_sp f \<and>
      tf_kernel_trap f' = tf_kernel_trap f \<and> tf_epc f' = tf_epc f \<and> tf_kernel_hartid f' = tf_kernel_hartid f \<and>
      (\<forall>x. (\<forall>k < PGSIZE. x \<noteq> pa + k) \<longrightarrow> x_mem c' x = x_mem c x)) \<and>
    (\<forall>d. frame_page d (x_reg d A0) pa \<longrightarrow>
      userret d = Ok Sret (d\<lparr>x_csr := (x_csr d)(Satp := x_reg d A0), x_reg := frame_reg (trapframe_at (x_mem d) pa)\<rparr>))"
proof -
  obtain c' m v where c: "uservec c = Ok (To (tf_kernel_trap f)) c'" "x_csr c' Satp = tf_kernel_satp f"
    "x_reg c' SP = tf_kernel_sp f" "x_reg c' TP = tf_kernel_hartid f"
    "saved (x_mem c) pa frame_slots ((x_reg c)(A0 := v)) m" "x_mem c' = store64 m (pa + 112) (x_reg c A0)"
    using uservec_run [OF assms] by blast
  have u: "unat pa mod PGSIZE = 0" using assms(1) by (simp add: frame_page_def)
  note s = frame_saved [OF c(5) u c(6)]
  have "tf_kernel_satp (trapframe_at (x_mem c') pa) = tf_kernel_satp f" "tf_kernel_sp (trapframe_at (x_mem c') pa) = tf_kernel_sp f"
    "tf_kernel_trap (trapframe_at (x_mem c') pa) = tf_kernel_trap f" "tf_epc (trapframe_at (x_mem c') pa) = tf_epc f"
    "tf_kernel_hartid (trapframe_at (x_mem c') pa) = tf_kernel_hartid f"
    using s(2) [of 0] s(2) [of 8] s(2) [of 16] s(2) [of 24] s(2) [of 32] by (simp_all add: assms(2) trapframe_at_def)
  with c(1-4) s(1,3) userret_run show ?thesis by blast
qed

definition trap_example :: hart where
  "trap_example = \<lparr>x_reg = (\<lambda>r. if r = A7 then 7 else if r = A0 then 0x24 else 1), x_csr = (\<lambda>_. 0x8000000000087fff),
     x_mem = (\<lambda>_. 0), x_trans = (\<lambda>sa va. Some (va - TRAPFRAME + 0x87f00000)), x_machine = False\<rparr>"

theorem trampoline_saves_and_restores_witness:
  "\<exists>c'. uservec trap_example = Ok (To 0) c' \<and> frame_reg (trapframe_at (x_mem c') 0x87f00000) = x_reg trap_example \<and>
    userret (trap_example\<lparr>x_mem := x_mem c'\<rparr>) =
      Ok Sret (trap_example\<lparr>x_mem := x_mem c', x_csr := (x_csr trap_example)(Satp := 0x24)\<rparr>)"
proof -
  have f: "frame_page (trap_example\<lparr>x_mem := m\<rparr>) sa 0x87f00000" for sa m by (simp add: frame_page_def trap_example_def)
  then have "frame_page trap_example (x_csr trap_example Satp) 0x87f00000" by (simp add: frame_page_def)
  from trampoline_saves_and_restores [OF this refl] obtain c' where
    c: "uservec trap_example = Ok (To (tf_kernel_trap (trapframe_at (x_mem trap_example) 0x87f00000))) c'"
    "frame_reg (trapframe_at (x_mem c') 0x87f00000) = x_reg trap_example"
    and d: "\<And>d. frame_page d (x_reg d A0) 0x87f00000 \<Longrightarrow> userret d = Ok Sret
      (d\<lparr>x_csr := (x_csr d)(Satp := x_reg d A0), x_reg := frame_reg (trapframe_at (x_mem d) 0x87f00000)\<rparr>)" by blast
  have "tf_kernel_trap (trapframe_at (x_mem trap_example) 0x87f00000) = 0"
    by (simp add: trapframe_at_def trap_example_def load64_zero)
  with c d [OF f] show ?thesis by (intro exI [of _ c']) (simp add: trap_example_def)
qed

section \<open>Switching contexts\<close>

definition context_at :: "mem \<Rightarrow> u64 \<Rightarrow> kcontext" where
  "context_at m a = \<lparr>c_ra = load64 m a, c_sp = load64 m (a + 8), c_s = map (\<lambda>i. load64 m (a + 16 + 8 * of_nat i)) [0..<12]\<rparr>"

definition callee_saved :: "(reg \<Rightarrow> u64) \<Rightarrow> kcontext" where
  "callee_saved g = \<lparr>c_ra = g RA, c_sp = g SP, c_s = map g [S0, S1, S2, S3, S4, S5, S6, S7, S8, S9, S10, S11]\<rparr>"

text \<open>The two arguments of \<open>swtch\<close> are distinct contexts in directly mapped memory.\<close>

definition direct :: "hart \<Rightarrow> u64 \<Rightarrow> bool" where
  "direct c a \<longleftrightarrow> unat a mod 8 = 0 \<and> (\<forall>k < 112. x_trans c (x_csr c Satp) (a + k) = Some (a + k))"

definition switchable :: "hart \<Rightarrow> bool" where
  "switchable c \<longleftrightarrow> \<not> x_machine c \<and> direct c (x_reg c A0) \<and> direct c (x_reg c A1) \<and> apart (x_reg c A0) 112 (x_reg c A1) 112"

lemma context_offsets: "\<forall>k\<in>set (map snd context_slots). k < 112 \<and> k \<le> 104 \<and> 8 dvd unat k"
  "distinct (map snd context_slots)" "distinct (map fst context_slots)" "(A0, k) \<notin> set context_slots" "(A1, k) \<notin> set context_slots"
  by (simp_all add: context_slots_def)

lemma dvd_word_add: "8 dvd unat (a :: u64) \<Longrightarrow> 8 dvd unat k \<Longrightarrow> 8 dvd unat (a + k)"
  unfolding unat_word_ariths by (rule dvd_mod [OF dvd_add]) simp_all

lemma direct_mapped:
  assumes "direct c a" "\<not> x_machine c"
  shows "mapped c a a (map snd context_slots)"
proof -
  have a: "8 dvd unat a" using assms(1) by (auto simp: direct_def)
  have "phys c (a + k) = Some (a + k) \<and> 8 dvd unat (a + k)" if "k < 112" "8 dvd unat k" for k
    using dvd_word_add [OF a that(2)] assms that by (simp add: phys_def direct_def)
  with context_offsets(1) show ?thesis by (auto simp: mapped_def)
qed

lemma context_at_words:
  "\<forall>(r, k)\<in>set context_slots. load64 m (a + k) = g r \<Longrightarrow> context_at m a = callee_saved g"
  by (simp add: context_at_def callee_saved_def context_slots_def upt_conv_Cons add.assoc)

lemma context_restored: "callee_saved (restored m a context_slots g) = context_at m a"
  by (simp add: context_at_def callee_saved_def context_slots_def restored_def upt_conv_Cons add.assoc)

lemma context_at_cong:
  assumes "\<forall>k < 112. m' (a + k) = m (a + k)"
  shows "context_at m' a = context_at m a"
proof -
  have "load64 m' (a + k) = load64 m (a + k)" if "k \<le> 104" for k
  proof -
    have "mread m' (a + k) 8 = mread m (a + k) 8"
    proof (rule nth_equalityI)
      fix i
      assume "i < length (mread m' (a + k) 8)"
      then have "k + of_nat i < 112" using that by (simp add: word_le_nat_alt word_less_nat_alt unat_word_ariths unat_of_nat)
      with assms \<open>i < _\<close> show "mread m' (a + k) 8 ! i = mread m (a + k) 8 ! i" by (simp add: add.assoc)
    qed simp
    then show ?thesis by (simp add: load64_def)
  qed
  from this [of 0] this [of 8] this [of 16] this [of 24] this [of 32] this [of 40] this [of 48] this [of 56] this [of 64]
    this [of 72] this [of 80] this [of 88] this [of 96] this [of 104]
  show ?thesis by (simp add: context_at_def upt_conv_Cons add.assoc)
qed

lemma swtch_run:
  assumes "switchable c" "a = x_reg c A0" "b = x_reg c A1"
  shows "\<exists>m. swtch c = Ok (To (c_ra (context_at (x_mem c) b))) (c\<lparr>x_mem := m, x_reg := restored m b context_slots (x_reg c)\<rparr>) \<and>
    context_at m a = callee_saved (x_reg c) \<and> context_at m b = context_at (x_mem c) b \<and>
    (\<forall>x. (\<forall>k < 112. x \<noteq> a + k) \<longrightarrow> m x = x_mem c x)"
proof -
  have d: "direct c a" "direct c b" "\<not> x_machine c" "apart a 112 b 112" using assms by (simp_all add: switchable_def)
  from save_run [of c A0 a context_slots] direct_mapped [OF d(1,3)] context_offsets(2) assms(2) obtain m where
    m: "save context_slots A0 c = Ok () (c\<lparr>x_mem := m\<rparr>)" "saved (x_mem c) a context_slots (x_reg c) m" by auto
  have x: "m x = x_mem c x" if "\<forall>k < 112. x \<noteq> a + k" for x
  proof -
    have "112 \<le> x - a" using that by (metis add.commute diff_add_cancel not_le)
    then have "8 \<le> unat (x - (a + k))" if "k \<le> 104" for k
    proof -
      have "k + 8 \<le> x - a" using that \<open>112 \<le> x - a\<close> by (simp add: word_le_nat_alt unat_word_ariths)
      then show ?thesis using that by (simp add: word_le_nat_alt unat_word_ariths diff_diff_add [symmetric] unat_sub)
    qed
    with context_offsets(1) have "\<forall>(r, k)\<in>set context_slots. 8 \<le> unat (x - (a + k))" by auto
    with m(2) show ?thesis by (simp add: saved_def)
  qed
  have "b + k \<noteq> a + j" if "k < 112" "j < 112" for j k
    using apart_ne [OF d(4), of "unat j" "unat k"] that by (simp add: word_less_nat_alt)
  then have b: "context_at m b = context_at (x_mem c) b" using x by (intro context_at_cong) blast
  have "restore context_slots A1 (c\<lparr>x_mem := m\<rparr>) = Ok () (c\<lparr>x_mem := m, x_reg := restored m b context_slots (x_reg c)\<rparr>)"
    using restore_run [of "c\<lparr>x_mem := m\<rparr>" A1 b context_slots] direct_mapped [OF d(2,3)] context_offsets(3,5) assms(3) by simp
  moreover have "restored m b context_slots (x_reg c) RA = c_ra (context_at m b)"
    by (simp add: restored_def context_slots_def context_at_def)
  ultimately have "swtch c = Ok (To (c_ra (context_at (x_mem c) b))) (c\<lparr>x_mem := m, x_reg := restored m b context_slots (x_reg c)\<rparr>)"
    using m(1) b by (simp add: swtch_def bind_run)
  moreover have "context_at m a = callee_saved (x_reg c)" using m(2) by (intro context_at_words) (simp add: saved_def)
  ultimately show ?thesis using b x by blast
qed

text \<open>
  C30: \<open>swtch\<close> switches contexts. It saves \<open>ra\<close>, \<open>sp\<close> and the registers \<open>s0\<close> to \<open>s11\<close> in the
  context its first argument points to, takes them from the context of its second argument, whose
  \<open>ra\<close> it returns to, and changes no other register and no memory but the first context. So a
  later \<open>swtch\<close>, on whichever hart, that names the first context as its second argument, with the
  context's bytes unchanged in between, returns from this call with the registers it had.
\<close>

theorem swtch_resumes:
  assumes "switchable c" "a = x_reg c A0" "b = x_reg c A1"
  shows "\<exists>c'. swtch c = Ok (To (c_ra (context_at (x_mem c) b))) c' \<and>
    callee_saved (x_reg c') = context_at (x_mem c) b \<and> context_at (x_mem c') a = callee_saved (x_reg c) \<and>
    (\<forall>r. r \<notin> {RA, SP, S0, S1, S2, S3, S4, S5, S6, S7, S8, S9, S10, S11} \<longrightarrow> x_reg c' r = x_reg c r) \<and> (\<forall>x. (\<forall>k < 112. x \<noteq> a + k) \<longrightarrow> x_mem c' x = x_mem c x) \<and>
    (\<forall>d. switchable d \<and> x_reg d A1 = a \<and> (\<forall>k < 112. x_mem d (a + k) = x_mem c' (a + k)) \<longrightarrow>
      (\<exists>d'. swtch d = Ok (To (x_reg c RA)) d' \<and> callee_saved (x_reg d') = callee_saved (x_reg c)))"
proof -
  obtain m where m: "swtch c = Ok (To (c_ra (context_at (x_mem c) b))) (c\<lparr>x_mem := m, x_reg := restored m b context_slots (x_reg c)\<rparr>)"
    "context_at m a = callee_saved (x_reg c)" "context_at m b = context_at (x_mem c) b"
    "\<forall>x. (\<forall>k < 112. x \<noteq> a + k) \<longrightarrow> m x = x_mem c x" using swtch_run [OF assms] by blast
  have "\<exists>d'. swtch d = Ok (To (x_reg c RA)) d' \<and> callee_saved (x_reg d') = callee_saved (x_reg c)"
    if d: "switchable d" "x_reg d A1 = a" "\<forall>k < 112. x_mem d (a + k) = m (a + k)" for d
  proof -
    have e: "context_at (x_mem d) a = callee_saved (x_reg c)" using context_at_cong [OF d(3)] m(2) by simp
    from swtch_run [OF d(1) refl d(2) [symmetric]] show ?thesis
      by (auto simp: e context_restored) (simp add: callee_saved_def)
  qed
  moreover have "restored m b context_slots g r = g r"
    if "r \<notin> {RA, SP, S0, S1, S2, S3, S4, S5, S6, S7, S8, S9, S10, S11}" for g r
    using that by (simp add: restored_def context_slots_def)
  ultimately show ?thesis using m
    by (intro exI [of _ "c\<lparr>x_mem := m, x_reg := restored m b context_slots (x_reg c)\<rparr>"])
      (auto simp: context_restored)
qed

definition switch_example :: hart where
  "switch_example = \<lparr>x_reg = (\<lambda>_. 5)(A0 := 0x80010000, A1 := 0x80020000, SP := 0x80030000), x_csr = (\<lambda>_. 0x8000000000087fff),
     x_mem = (\<lambda>_. 0), x_trans = (\<lambda>sa va. Some va), x_machine = False\<rparr>"

theorem swtch_resumes_witness:
  "\<exists>c'. swtch switch_example = Ok (To 0) c' \<and> context_at (x_mem c') 0x80010000 = callee_saved ((\<lambda>_. 5)(SP := 0x80030000)) \<and> x_reg c' GP = 5"
proof -
  have "switchable switch_example" by (simp add: switchable_def direct_def switch_example_def apart_def)
  from swtch_resumes [OF this refl refl] obtain c' where
    c: "swtch switch_example = Ok (To (c_ra (context_at (x_mem switch_example) (x_reg switch_example A1)))) c'"
    "context_at (x_mem c') (x_reg switch_example A0) = callee_saved (x_reg switch_example)" "x_reg c' GP = x_reg switch_example GP"
    by auto
  have "c_ra (context_at (x_mem switch_example) b) = 0" for b by (simp add: context_at_def switch_example_def load64_zero)
  moreover have "callee_saved (x_reg switch_example) = callee_saved ((\<lambda>_. 5)(SP := 0x80030000))" "x_reg switch_example A0 = 0x80010000"
    by (simp_all add: switch_example_def callee_saved_def)
  ultimately show ?thesis using c by (intro exI [of _ c']) (simp add: switch_example_def)
qed

section \<open>Traps in the kernel\<close>

lemma stack_offsets: "\<forall>k\<in>set (map snd stack_slots). k \<le> 240"
  "distinct (map snd stack_slots)" "distinct (map fst stack_slots)"
  "(SP, k) \<in> set stack_slots \<longleftrightarrow> k = 8"
  by (auto simp: stack_slots_def)

lemma load64_cong: "\<forall>k < 8. m' (a + k) = m (a + k) \<Longrightarrow> load64 m' a = load64 m a"
  by (auto simp: load64_def mread_def word_less_nat_alt unat_of_nat intro!: arg_cong [where f = le_word])

text \<open>What a call of a compiled function keeps: the stack pointer, the address space, and the caller's frame.\<close>

definition call_keeps :: "u64 \<Rightarrow> hart \<Rightarrow> hart \<Rightarrow> bool" where
  "call_keeps pa e d \<longleftrightarrow> x_reg d SP = x_reg e SP \<and> phys d = phys e \<and> (\<forall>k < 256. x_mem d (pa + k) = x_mem e (pa + k))"

lemma frame_kept:
  assumes "call_keeps pa e d" "k \<le> 240"
  shows "load64 (x_mem d) (pa + k) = load64 (x_mem e) (pa + k)"
proof (rule load64_cong, intro allI impI)
  fix j :: u64 assume "j < 8"
  then have "k + j < 256" using assms(2) by (simp add: word_le_nat_alt word_less_nat_alt unat_word_ariths)
  then show "x_mem d (pa + k + j) = x_mem e (pa + k + j)" using assms(1) by (simp add: call_keeps_def add.assoc)
qed

text \<open>
  C31: An interrupt in the kernel is invisible to the code it interrupts. \<open>kernelvec\<close> with a
  mapped stack saves every register below the stack pointer and calls \<open>kerneltrap\<close>. When that
  returns as compiled functions do, with the same stack pointer and page table and the frame of
  its caller untouched, every register has its old value when \<open>kernelvec\<close> returns, but for \<open>tp\<close>,
  which holds the number of the hart it returns on.
\<close>

theorem kernelvec_transparent:
  assumes "mapped c (x_reg c SP - 256) pa (map snd stack_slots)"
  shows "\<exists>m. (\<forall>(r, k)\<in>set stack_slots. r \<noteq> SP \<longrightarrow> load64 m (pa + k) = x_reg c r) \<and>
    (\<forall>d. kt (c\<lparr>x_reg := (x_reg c)(SP := x_reg c SP - 256), x_mem := m\<rparr>) = Ok () d \<and>
        call_keeps pa (c\<lparr>x_reg := (x_reg c)(SP := x_reg c SP - 256), x_mem := m\<rparr>) d \<longrightarrow>
      kernelvec kt c = Ok Sret (d\<lparr>x_reg := (x_reg c)(TP := x_reg d TP)\<rparr>))"
proof -
  let ?c = "c\<lparr>x_reg := (x_reg c)(SP := x_reg c SP - 256)\<rparr>"
  let ?tbl = "filter (\<lambda>(r, k). r \<noteq> TP) stack_slots"
  from save_run [of ?c SP pa stack_slots] assms stack_offsets(2) obtain m where
    m: "save stack_slots SP ?c = Ok () (?c\<lparr>x_mem := m\<rparr>)" "saved (x_mem ?c) pa stack_slots (x_reg ?c) m" by auto
  have w: "load64 m (pa + k) = x_reg ?c r" if "(r, k) \<in> set stack_slots" for r k
    using m(2) that by (auto simp: saved_def)
  have "kernelvec kt c = Ok Sret (d\<lparr>x_reg := (x_reg c)(TP := x_reg d TP)\<rparr>)"
    if d: "kt (?c\<lparr>x_mem := m\<rparr>) = Ok () d" "call_keeps pa (?c\<lparr>x_mem := m\<rparr>) d" for d
  proof -
    have sp: "x_reg d SP = x_reg c SP - 256" "phys d = phys c" using d(2) by (simp_all add: call_keeps_def)
    have l: "load64 (x_mem d) (pa + k) = x_reg ?c r" if "(r, k) \<in> set stack_slots" for r k
      using frame_kept [OF d(2), of k] w [OF that] that stack_offsets(1) by force
    have "mapped d (x_reg d SP) pa (map snd ?tbl)" using assms sp by (auto simp: mapped_def)
    from restore_run [OF this] l [of SP 8] stack_offsets(3,4) sp(1)
    have r: "restore ?tbl SP d = Ok () (d\<lparr>x_reg := restored (x_mem d) pa ?tbl (x_reg d)\<rparr>)"
      by (simp add: distinct_map_filter)
    have "restored (x_mem d) pa ?tbl (x_reg d) = (x_reg ?c)(TP := x_reg d TP)"
    proof (rule ext)
      fix q
      show "restored (x_mem d) pa ?tbl (x_reg d) q = ((x_reg ?c)(TP := x_reg d TP)) q"
        using l [of q] by (cases q) (simp_all add: restored_def stack_slots_def)
    qed
    then show ?thesis
      using m(1) d(1) r by (simp add: kernelvec_def block_ret_def bind_run fun_upd_twist)
  qed
  with w show ?thesis by (intro exI [of _ m]) auto
qed


definition clobber :: "unit asm" where
  "clobber = modify (\<lambda>c. c\<lparr>x_reg := (\<lambda>_. 99)(SP := x_reg c SP)\<rparr>)"

theorem kernelvec_transparent_witness:
  "\<exists>m. kernelvec clobber switch_example = Ok Sret (switch_example\<lparr>x_mem := m, x_reg := (x_reg switch_example)(TP := 99)\<rparr>)"
proof -
  let ?c = "switch_example\<lparr>x_reg := (x_reg switch_example)(SP := x_reg switch_example SP - 256)\<rparr>"
  have "mapped switch_example (x_reg switch_example SP - 256) 0x8002ff00 (map snd stack_slots)"
    by (simp add: mapped_def stack_slots_def phys_def switch_example_def)
  from kernelvec_transparent [OF this, of clobber] obtain m where
    m: "\<And>d. clobber (?c\<lparr>x_mem := m\<rparr>) = Ok () d \<Longrightarrow> call_keeps 0x8002ff00 (?c\<lparr>x_mem := m\<rparr>) d \<Longrightarrow>
      kernelvec clobber switch_example = Ok Sret (d\<lparr>x_reg := (x_reg switch_example)(TP := x_reg d TP)\<rparr>)" by auto
  from m [of "?c\<lparr>x_mem := m, x_reg := (\<lambda>_. 99)(SP := x_reg ?c SP)\<rparr>"] show ?thesis
    by (intro exI [of _ m]) (simp add: clobber_def call_keeps_def)
qed

text \<open>
  A timer interrupt in machine mode: the registers stay, the next interrupt is an interval later,
  and a software interrupt is pending for supervisor mode.
\<close>

lemma timervec_transparent:
  assumes "x_machine c" "a = x_csr c Mscratch" "unat a mod 8 = 0" "t = load64 (x_mem c) (a + 24)" "unat t mod 8 = 0"
    "t \<notin> {a, a + 8, a + 16, a + 24, a + 32}"
  shows "\<exists>m. timervec c = Ok Mret (c\<lparr>x_mem := m, x_csr := (x_csr c)(Sip := 2)\<rparr>) \<and>
    load64 m t = load64 (x_mem c) t + load64 (x_mem c) (a + 32)"
proof -
  have d: "8 dvd unat a" "8 dvd unat t" using assms(3,5) by (simp_all add: dvd_eq_mod_eq_0)
  have e: "8 dvd unat (a + k)" if "8 dvd unat k" for k using dvd_word_add [OF d(1) that] .
  have ne: "a \<noteq> t" "a + 8 \<noteq> t" "a + 16 \<noteq> t" "a + 24 \<noteq> t" "a + 32 \<noteq> t" using assms(6) by auto
  have p: "phys c' (a + k) = Some (a + k)" if "x_machine c'" "8 dvd unat k" for c' k using e [OF that(2)] that by (simp add: phys_def)
  have q: "phys c' t = Some t" if "x_machine c'" for c' using that assms(5) by (simp add: phys_def)
  have u: "(x_csr c)(Sip := 2, Mscratch := x_csr c Mscratch) = (x_csr c)(Sip := 2)" by (simp add: fun_eq_iff)
  show ?thesis
    using p [where k = 0] p [where k = 8] p [where k = 16] p [where k = 24] p [where k = 32] q assms(1,2,4) ne d e [of 8] e [of 16] e [of 24] e [of 32]
    by (simp add: timervec_def block_ret_def bind_run mem_run load64_other_word u) (auto intro!: exI)
qed

end
