(* ===== verification/Xv6_Ulib.thy ===== *)
theory Xv6_Ulib
  imports Xv6_Console
begin

text \<open>
  User programs and their library: \<^verbatim>\<open>user/ulib.c\<close> and \<^verbatim>\<open>user/printf.c\<close>.

  A program sees the kernel through the system calls of \<^verbatim>\<open>user/user.h\<close>. The development treats that
  interface as a parameter, \<open>'k sysif\<close>: one function for each call, on a state \<open>'k\<close> that stands for
  the rest of the system. A program returns, exits with a status, is replaced by \<^verbatim>\<open>exec\<close>, or does
  not end. Strings that are passed around are the byte lists before their NUL; the routines that
  work on memory byte by byte are given over memory, as in the kernel.
\<close>

section \<open>Programs and system calls\<close>

datatype ('a, 'k) uout = Returns 'a 'k | Exits int 'k | Replaced 'k | Diverges | Undefined

type_synonym ('k, 'a) user = "'k \<Rightarrow> ('a, 'k) uout"

record stat =
  us_dev :: u32
  us_ino :: u32
  us_type :: u16
  us_nlink :: u16
  us_size :: u64

record 'k sysif =
  u_fork :: "'k \<Rightarrow> int \<times> 'k"
  u_wait :: "'k \<Rightarrow> int \<times> 'k"
  u_pipe :: "'k \<Rightarrow> (int \<times> int \<times> int) \<times> 'k" \<comment> \<open>the result and the two descriptors\<close>
  u_write :: "int \<Rightarrow> u8 list \<Rightarrow> 'k \<Rightarrow> int \<times> 'k"
  u_read :: "int \<Rightarrow> nat \<Rightarrow> 'k \<Rightarrow> (int \<times> u8 list) \<times> 'k" \<comment> \<open>the result and the bytes read\<close>
  u_close :: "int \<Rightarrow> 'k \<Rightarrow> int \<times> 'k"
  u_kill :: "int \<Rightarrow> 'k \<Rightarrow> int \<times> 'k"
  u_exec :: "u8 list \<Rightarrow> u8 list list \<Rightarrow> 'k \<Rightarrow> int option \<times> 'k" \<comment> \<open>no result when it succeeds\<close>
  u_open :: "u8 list \<Rightarrow> u32 \<Rightarrow> 'k \<Rightarrow> int \<times> 'k"
  u_mknod :: "u8 list \<Rightarrow> int \<Rightarrow> int \<Rightarrow> 'k \<Rightarrow> int \<times> 'k"
  u_unlink :: "u8 list \<Rightarrow> 'k \<Rightarrow> int \<times> 'k"
  u_fstat :: "int \<Rightarrow> 'k \<Rightarrow> (int \<times> stat) \<times> 'k"
  u_link :: "u8 list \<Rightarrow> u8 list \<Rightarrow> 'k \<Rightarrow> int \<times> 'k"
  u_mkdir :: "u8 list \<Rightarrow> 'k \<Rightarrow> int \<times> 'k"
  u_chdir :: "u8 list \<Rightarrow> 'k \<Rightarrow> int \<times> 'k"
  u_dup :: "int \<Rightarrow> 'k \<Rightarrow> int \<times> 'k"
  u_sleep :: "int \<Rightarrow> 'k \<Rightarrow> int \<times> 'k"

definition uret :: "'a \<Rightarrow> ('k, 'a) user" where
  "uret x k = Returns x k"

definition ubind :: "('k, 'a) user \<Rightarrow> ('a \<Rightarrow> ('k, 'b) user) \<Rightarrow> ('k, 'b) user" where
  "ubind m f k = (case m k of
     Returns x k' \<Rightarrow> f x k' | Exits n k' \<Rightarrow> Exits n k' | Replaced k' \<Rightarrow> Replaced k' | Diverges \<Rightarrow> Diverges | Undefined \<Rightarrow> Undefined)"

definition uexit :: "int \<Rightarrow> ('k, 'a) user" where
  "uexit n k = Exits n k"

definition uundefined :: "('k, 'a) user" where
  "uundefined k = Undefined"

definition call :: "('k \<Rightarrow> 'a \<times> 'k) \<Rightarrow> ('k, 'a) user" where
  "call f k = (case f k of (x, k') \<Rightarrow> Returns x k')"

fun ublock :: "('k, unit) user list \<Rightarrow> ('k, unit) user" where
  "ublock [] = uret ()"
| "ublock (m # ms) = ubind m (\<lambda>_. ublock ms)"

text \<open>A loop whose body says whether, and with what, it goes on; the result is what it stops with.\<close>

definition uloop :: "('s \<Rightarrow> ('k, 's + 'a) user) \<Rightarrow> 's \<Rightarrow> ('k, 'a) user" where
  "uloop m s k =
     (case while_option (\<lambda>r. case r of Returns (Inl s) k \<Rightarrow> True | _ \<Rightarrow> False)
         (\<lambda>r. case r of Returns (Inl s) k \<Rightarrow> m s k | _ \<Rightarrow> r) (Returns (Inl s) k) of
        Some (Returns (Inr x) k') \<Rightarrow> Returns x k' | Some (Exits n k') \<Rightarrow> Exits n k' | Some (Replaced k') \<Rightarrow> Replaced k'
      | Some Undefined \<Rightarrow> Undefined | _ \<Rightarrow> Diverges)"

lemma uloop_unfold:
  "uloop m s k = (case m s k of Returns (Inl s') k' \<Rightarrow> uloop m s' k' | Returns (Inr x) k' \<Rightarrow> Returns x k'
     | Exits n k' \<Rightarrow> Exits n k' | Replaced k' \<Rightarrow> Replaced k' | Diverges \<Rightarrow> Diverges | Undefined \<Rightarrow> Undefined)"
  unfolding uloop_def
  by (subst while_option_unfold) (simp add: while_option_unfold [of _ _ "Returns (Inr _) _"] while_option_unfold [of _ _ "Exits _ _"]
      while_option_unfold [of _ _ "Replaced _"] while_option_unfold [of _ _ Undefined] while_option_unfold [of _ _ Diverges]
      split: uout.split sum.split)

lemma user_run [simp]: "uret x k = Returns x k" "uexit n k = Exits n k" "uundefined k = Undefined"
  by (simp_all add: uret_def uexit_def uundefined_def)

lemma ubind_run:
  "ubind m f k = (case m k of
     Returns x k' \<Rightarrow> f x k' | Exits n k' \<Rightarrow> Exits n k' | Replaced k' \<Rightarrow> Replaced k' | Diverges \<Rightarrow> Diverges | Undefined \<Rightarrow> Undefined)"
  by (simp add: ubind_def)

lemma call_run [simp]: "call f k = Returns (fst (f k)) (snd (f k))"
  by (simp add: call_def split: prod.split)

lemma ubind_assoc: "ubind (ubind m f) g = ubind m (\<lambda>x. ubind (f x) g)"
  by (rule ext) (simp add: ubind_def split: uout.split)

section \<open>\<^verbatim>\<open>ulib.c\<close>\<close>

partial_function (option) ustrcpy_loop :: "u64 \<Rightarrow> u64 \<Rightarrow> mem \<Rightarrow> mem option" where
  "ustrcpy_loop s t m = (if m t \<noteq> 0 then ustrcpy_loop (s + 1) (t + 1) (m(s := m t)) else Some (m(s := 0)))"

definition ustrcpy :: "u64 \<Rightarrow> u64 \<Rightarrow> mem \<Rightarrow> mem option" where
  "ustrcpy s t m = ustrcpy_loop s t m"

partial_function (option) ustrcmp :: "u64 \<Rightarrow> u64 \<Rightarrow> mem \<Rightarrow> int option" where
  "ustrcmp p q m = (if m p \<noteq> 0 \<and> m p = m q then ustrcmp (p + 1) (q + 1) m else Some (uint (m p) - uint (m q)))"

partial_function (option) ustrlen_from :: "u64 \<Rightarrow> nat \<Rightarrow> mem \<Rightarrow> nat option" where
  "ustrlen_from s n m =
     (if m (s + of_nat n) \<noteq> 0 then (if Suc n < 2 ^ 31 then ustrlen_from s (Suc n) m else None) else Some n)"

definition ustrlen :: "u64 \<Rightarrow> mem \<Rightarrow> nat option" where
  "ustrlen s m = ustrlen_from s 0 m"

definition umemset :: "u64 \<Rightarrow> u32 \<Rightarrow> u32 \<Rightarrow> mem \<Rightarrow> mem" where
  "umemset dst c n m = memset_from dst (ucast c) 0 (unat n) m"

text \<open>The address of the first \<open>c\<close> of the string, or 0.\<close>

partial_function (option) ustrchr :: "u64 \<Rightarrow> u8 \<Rightarrow> mem \<Rightarrow> u64 option" where
  "ustrchr s c m = (if m s = 0 then Some 0 else if m s = c then Some s else ustrchr (s + 1) c m)"

text \<open>\<open>gets\<close>: the bytes it stores before the NUL.\<close>

function gets_loop :: "'k sysif \<Rightarrow> int \<Rightarrow> u8 list \<Rightarrow> ('k, u8 list) user" where
  "gets_loop sys mx buf =
     (if int (length buf) + 1 < mx then
        ubind (call (u_read sys 0 1)) (\<lambda>(cc, bs).
          if cc < 1 then uret buf
          else case bs of
            [] \<Rightarrow> uundefined
          | c # _ \<Rightarrow> if c = 10 \<or> c = 13 then uret (buf @ [c]) else gets_loop sys mx (buf @ [c]))
      else uret buf)"
  by pat_completeness auto
termination
  by (relation "measure (\<lambda>(sys, mx, buf). nat (mx - int (length buf)))") auto

declare gets_loop.simps [simp del]

definition gets_line :: "'k sysif \<Rightarrow> int \<Rightarrow> ('k, u8 list) user" where
  "gets_line sys mx = gets_loop sys mx []"

abbreviation (input) O_RDONLY :: u32 where "O_RDONLY \<equiv> 0"
abbreviation (input) O_WRONLY :: u32 where "O_WRONLY \<equiv> 1"
abbreviation (input) O_RDWR :: u32 where "O_RDWR \<equiv> 2"
abbreviation (input) O_CREATE :: u32 where "O_CREATE \<equiv> 0x200"
abbreviation (input) O_TRUNC :: u32 where "O_TRUNC \<equiv> 0x400"

definition ustat :: "'k sysif \<Rightarrow> u8 list \<Rightarrow> ('k, int \<times> stat option) user" where
  "ustat sys n =
     ubind (call (u_open sys n O_RDONLY)) (\<lambda>fd.
       if fd < 0 then uret (- 1, None)
       else
         ubind (call (u_fstat sys fd)) (\<lambda>(r, st).
         ubind (call (u_close sys fd)) (\<lambda>_.
           uret (r, Some st))))"

text \<open>\<open>atoi\<close> on the bytes from its argument on; the value wraps around as \<^verbatim>\<open>int\<close> does.\<close>

fun atoi_loop :: "u8 list \<Rightarrow> u32 \<Rightarrow> u32" where
  "atoi_loop (c # cs) n = (if 48 \<le> c \<and> c \<le> 57 then atoi_loop cs (n * 10 + ucast c - 48) else n)"
| "atoi_loop [] n = n"

definition atoi :: "u8 list \<Rightarrow> int" where
  "atoi s = sint (atoi_loop s 0)"

definition umemmove :: "u64 \<Rightarrow> u64 \<Rightarrow> int \<Rightarrow> mem \<Rightarrow> mem" where
  "umemmove dst src n m =
     (if src > dst then copy_up (nat n) dst src m
      else copy_down (nat n) (dst + of_int n) (src + of_int n) m)"

text \<open>\<^verbatim>\<open>char\<close> is unsigned on RISC-V.\<close>

definition umemcmp :: "u64 \<Rightarrow> u64 \<Rightarrow> u32 \<Rightarrow> mem \<Rightarrow> int" where
  "umemcmp s1 s2 n m = memcmp_loop (unat n) s1 s2 m"

definition umemcpy :: "u64 \<Rightarrow> u64 \<Rightarrow> u32 \<Rightarrow> mem \<Rightarrow> mem" where
  "umemcpy dst src n m = umemmove dst src (sint n) m"

section \<open>\<^verbatim>\<open>printf.c\<close>\<close>

definition putc :: "'k sysif \<Rightarrow> int \<Rightarrow> u8 \<Rightarrow> ('k, unit) user" where
  "putc sys fd c = ubind (call (u_write sys fd [c])) (\<lambda>_. uret ())"

definition udigit :: "u32 \<Rightarrow> u8" where
  "udigit x = bytes ''0123456789ABCDEF'' ! unat x"

text \<open>The digits, least significant first; for bases below 2, which no caller uses, one digit.\<close>

function udigits :: "u32 \<Rightarrow> u32 \<Rightarrow> u8 list" where
  "udigits base x = udigit (x mod base) # (if x div base = 0 \<or> base < 2 then [] else udigits base (x div base))"
  by pat_completeness auto
termination
proof (relation "measure (\<lambda>(base, x). unat x)")
  fix base x :: u32
  assume a: "\<not> (x div base = 0 \<or> base < 2)"
  then have "1 < unat base" by (simp add: word_less_nat_alt)
  moreover have "0 < unat x" using a by (cases "x = 0") (auto simp: unat_gt_0)
  ultimately show "((base, x div base), base, x) \<in> measure (\<lambda>(base, x). unat x)"
    by (simp add: unat_div div_less_dividend)
qed simp

declare udigits.simps [simp del]

text \<open>Negating the least \<^verbatim>\<open>int\<close> is undefined behaviour.\<close>

definition uprintint :: "'k sysif \<Rightarrow> int \<Rightarrow> u32 \<Rightarrow> u32 \<Rightarrow> bool \<Rightarrow> ('k, unit) user" where
  "uprintint sys fd xx base sg =
     (let neg = sg \<and> sint xx < 0; x = (if neg then - xx else xx) in
      if neg \<and> xx = 0x80000000 then uundefined
      else ublock (map (putc sys fd) (rev (udigits base x @ (if neg then bytes ''-'' else [])))))"

primrec uptr_digits :: "nat \<Rightarrow> u64 \<Rightarrow> u8 list" where
  "uptr_digits 0 x = []"
| "uptr_digits (Suc n) x = udigit (ucast (drop_bit 60 x)) # uptr_digits n (push_bit 4 x)"

definition uprintptr :: "'k sysif \<Rightarrow> int \<Rightarrow> u64 \<Rightarrow> ('k, unit) user" where
  "uprintptr sys fd x = ublock [putc sys fd 48, putc sys fd 120, ublock (map (putc sys fd) (uptr_digits 16 x))]"

text \<open>An argument of \<open>printf\<close> takes 64 bits, of which \<^verbatim>\<open>va_arg(ap, int)\<close> is the lower half.\<close>

datatype varg = VWord u64 | VStr "u8 list option"

fun vprintf :: "'k sysif \<Rightarrow> int \<Rightarrow> u8 list \<Rightarrow> varg list \<Rightarrow> ('k, unit) user" where
  "vprintf sys fd [] ap = uret ()"
| "vprintf sys fd (c # cs) ap =
     (if c \<noteq> of_char CHR ''%'' then ubind (putc sys fd c) (\<lambda>_. vprintf sys fd cs ap)
      else case cs of
        [] \<Rightarrow> uret ()
      | f # fs \<Rightarrow>
          if f \<in> {of_char CHR ''d'', of_char CHR ''l'', of_char CHR ''x'', of_char CHR ''p'', of_char CHR ''c''} then
            (case ap of
               VWord x # as \<Rightarrow>
                 ubind (if f = of_char CHR ''d'' then uprintint sys fd (ucast x) 10 True
                   else if f = of_char CHR ''l'' then uprintint sys fd (ucast x) 10 False
                   else if f = of_char CHR ''x'' then uprintint sys fd (ucast x) 16 False
                   else if f = of_char CHR ''p'' then uprintptr sys fd x
                   else putc sys fd (ucast x)) (\<lambda>_. vprintf sys fd fs as)
             | _ \<Rightarrow> uundefined)
          else if f = of_char CHR ''s'' then
            (case ap of
               VStr s # as \<Rightarrow> ubind (ublock (map (putc sys fd) (case s of None \<Rightarrow> bytes ''(null)'' | Some cs \<Rightarrow> cs)))
                 (\<lambda>_. vprintf sys fd fs as)
             | _ \<Rightarrow> uundefined)
          else if f = of_char CHR ''%'' then ubind (putc sys fd f) (\<lambda>_. vprintf sys fd fs ap)
          else ubind (putc sys fd (of_char CHR ''%'')) (\<lambda>_. ubind (putc sys fd f) (\<lambda>_. vprintf sys fd fs ap)))"

definition fprintf :: "'k sysif \<Rightarrow> int \<Rightarrow> string \<Rightarrow> varg list \<Rightarrow> ('k, unit) user" where
  "fprintf sys fd fmt ap = vprintf sys fd (bytes fmt) ap"

definition uprintf :: "'k sysif \<Rightarrow> string \<Rightarrow> varg list \<Rightarrow> ('k, unit) user" where
  "uprintf sys fmt ap = vprintf sys 1 (bytes fmt) ap"

text \<open>The start of a program: a \<open>main\<close> that returns ends the process too.\<close>

definition start_main :: "('k, int) user \<Rightarrow> ('k, unit) user" where
  "start_main main = ubind main (\<lambda>_. uexit 0)"

end
