(* ===== verification/Xv6_Programs.thy ===== *)
theory Xv6_Programs
  imports Xv6_Ulib
begin

text \<open>
  The user programs \<^verbatim>\<open>cat\<close>, \<^verbatim>\<open>echo\<close>, \<^verbatim>\<open>grep\<close>, \<^verbatim>\<open>init\<close>, \<^verbatim>\<open>kill\<close>, \<^verbatim>\<open>ln\<close>, \<^verbatim>\<open>ls\<close>, \<^verbatim>\<open>mkdir\<close>,
  \<^verbatim>\<open>rm\<close>, \<^verbatim>\<open>wc\<close> and \<^verbatim>\<open>zombie\<close>, each over the system calls it makes. The pattern matcher of
  \<^verbatim>\<open>grep\<close> is compared with the language of its pattern. \<open>argv\<close> is the list of all arguments, with
  the name of the program first.
\<close>

definition execv :: "'k sysif \<Rightarrow> u8 list \<Rightarrow> u8 list list \<Rightarrow> ('k, int) user" where
  "execv sys path argv k = (case u_exec sys path argv k of (None, k') \<Rightarrow> Replaced k' | (Some r, k') \<Rightarrow> Returns r k')"

section \<open>\<^verbatim>\<open>cat\<close>\<close>

definition cat :: "'k sysif \<Rightarrow> int \<Rightarrow> ('k, unit) user" where
  "cat sys fd =
     ubind (uloop (\<lambda>_.
         ubind (call (u_read sys fd 512)) (\<lambda>(n, buf).
           if n > 0 then
             ubind (call (u_write sys 1 (take (nat n) buf))) (\<lambda>w.
               if w \<noteq> n then ubind (fprintf sys 2 ''cat: write error\<newline>'' []) (\<lambda>_. uexit 1)
               else uret (Inl ()))
           else uret (Inr n))) ()) (\<lambda>n.
       if n < 0 then ubind (fprintf sys 2 ''cat: read error\<newline>'' []) (\<lambda>_. uexit 1)
       else uret ())"

text \<open>The loop over the file arguments that \<open>cat\<close>, \<open>grep\<close> and \<open>wc\<close> have.\<close>

fun each_file :: "'k sysif \<Rightarrow> (u8 list \<Rightarrow> ('k, unit) user) \<Rightarrow> (int \<Rightarrow> u8 list \<Rightarrow> ('k, unit) user) \<Rightarrow> u8 list list \<Rightarrow> ('k, unit) user" where
  "each_file sys cannot work [] = uret ()"
| "each_file sys cannot work (a # as) =
     ubind (call (u_open sys a 0)) (\<lambda>fd.
       if fd < 0 then ubind (cannot a) (\<lambda>_. uexit 1)
       else ubind (work fd a) (\<lambda>_. ubind (call (u_close sys fd)) (\<lambda>_. each_file sys cannot work as)))"

definition cat_main :: "'k sysif \<Rightarrow> u8 list list \<Rightarrow> ('k, int) user" where
  "cat_main sys argv =
     (if length argv \<le> 1 then ubind (cat sys 0) (\<lambda>_. uexit 0)
      else
        ubind (each_file sys (\<lambda>a. fprintf sys 2 ''cat: cannot open %s\<newline>'' [VStr (Some a)]) (\<lambda>fd a. cat sys fd) (tl argv))
          (\<lambda>_. uexit 0))"

section \<open>\<^verbatim>\<open>echo\<close>\<close>

fun echo_loop :: "'k sysif \<Rightarrow> u8 list list \<Rightarrow> ('k, unit) user" where
  "echo_loop sys [] = uret ()"
| "echo_loop sys (a # as) =
     ubind (call (u_write sys 1 a)) (\<lambda>_.
     ubind (call (u_write sys 1 (if as \<noteq> [] then bytes '' '' else [10]))) (\<lambda>_.
       echo_loop sys as))"

definition echo_main :: "'k sysif \<Rightarrow> u8 list list \<Rightarrow> ('k, int) user" where
  "echo_main sys argv = ubind (echo_loop sys (tl argv)) (\<lambda>_. uexit 0)"

section \<open>\<^verbatim>\<open>grep\<close>\<close>

abbreviation (input) star :: u8 where "star \<equiv> 42"
abbreviation (input) dot :: u8 where "dot \<equiv> 46"
abbreviation (input) dollar :: u8 where "dollar \<equiv> 36"
abbreviation (input) caret :: u8 where "caret \<equiv> 94"

fun matchhere :: "u8 list \<Rightarrow> u8 list \<Rightarrow> bool"
  and matchstar :: "u8 \<Rightarrow> u8 list \<Rightarrow> u8 list \<Rightarrow> bool" where
  "matchhere re text =
     (case re of
        [] \<Rightarrow> True
      | c # rs \<Rightarrow>
          (case rs of
             d # ds \<Rightarrow>
               if d = star then matchstar c ds text
               else (case text of [] \<Rightarrow> False | x # xs \<Rightarrow> if c = dot \<or> c = x then matchhere rs xs else False)
           | [] \<Rightarrow>
               if c = dollar then text = []
               else (case text of [] \<Rightarrow> False | x # xs \<Rightarrow> if c = dot \<or> c = x then matchhere rs xs else False)))"
| "matchstar c re text =
     (if matchhere re text then True
      else (case text of [] \<Rightarrow> False | x # xs \<Rightarrow> if x = c \<or> c = dot then matchstar c re xs else False))"

declare matchhere.simps [simp del] matchstar.simps [simp del]

fun match_from :: "u8 list \<Rightarrow> u8 list \<Rightarrow> bool" where
  "match_from re text =
     (if matchhere re text then True
      else (case text of [] \<Rightarrow> False | x # xs \<Rightarrow> match_from re xs))"

declare match_from.simps [simp del]

definition match :: "u8 list \<Rightarrow> u8 list \<Rightarrow> bool" where
  "match re text =
     (case re of c # rs \<Rightarrow> if c = caret then matchhere rs text else match_from re text | [] \<Rightarrow> match_from re text)"

text \<open>The first newline before a NUL, as \<open>strchr\<close> finds it in the buffer.\<close>

definition find_newline :: "u8 list \<Rightarrow> nat option" where
  "find_newline p =
     (let i = length (takeWhile (\<lambda>c. c \<noteq> 0 \<and> c \<noteq> 10) p) in
      if i < length p \<and> p ! i = 10 then Some i else None)"

text \<open>The lines of the buffer; the result is what is left of it.\<close>

function grep_lines :: "'k sysif \<Rightarrow> u8 list \<Rightarrow> u8 list \<Rightarrow> ('k, u8 list) user" where
  "grep_lines sys pattern p =
     (case find_newline p of
        None \<Rightarrow> uret p
      | Some q \<Rightarrow>
          ubind (if match pattern (take q p) then ubind (call (u_write sys 1 (take (Suc q) p))) (\<lambda>_. uret ()) else uret ()) (\<lambda>_.
            grep_lines sys pattern (drop (Suc q) p)))"
  by pat_completeness auto
termination
  by (relation "measure (\<lambda>(sys, pattern, p). length p)") (auto simp: find_newline_def Let_def split: if_splits)

declare grep_lines.simps [simp del]

definition grep :: "'k sysif \<Rightarrow> u8 list \<Rightarrow> int \<Rightarrow> ('k, unit) user" where
  "grep sys pattern fd =
     uloop (\<lambda>buf.
       ubind (call (u_read sys fd (1024 - length buf - 1))) (\<lambda>(n, bs).
         if n > 0 then ubind (grep_lines sys pattern (buf @ take (nat n) bs)) (\<lambda>buf. uret (Inl buf))
         else uret (Inr ()))) []"

definition grep_main :: "'k sysif \<Rightarrow> u8 list list \<Rightarrow> ('k, int) user" where
  "grep_main sys argv =
     (if length argv \<le> 1 then ubind (fprintf sys 2 ''usage: grep pattern [file ...]\<newline>'' []) (\<lambda>_. uexit 1)
      else let pattern = argv ! 1 in
        if length argv \<le> 2 then ubind (grep sys pattern 0) (\<lambda>_. uexit 0)
        else
          ubind (each_file sys (\<lambda>a. uprintf sys ''grep: cannot open %s\<newline>'' [VStr (Some a)]) (\<lambda>fd a. grep sys pattern fd) (drop 2 argv))
            (\<lambda>_. uexit 0))"

section \<open>\<^verbatim>\<open>kill\<close>, \<^verbatim>\<open>ln\<close>, \<^verbatim>\<open>mkdir\<close>, \<^verbatim>\<open>rm\<close> and \<^verbatim>\<open>zombie\<close>\<close>

definition kill_main :: "'k sysif \<Rightarrow> u8 list list \<Rightarrow> ('k, int) user" where
  "kill_main sys argv =
     (if length argv < 2 then ubind (fprintf sys 2 ''usage: kill pid...\<newline>'' []) (\<lambda>_. uexit 1)
      else ubind (ublock (map (\<lambda>a. ubind (call (u_kill sys (atoi a))) (\<lambda>_. uret ())) (tl argv))) (\<lambda>_. uexit 0))"

definition ln_main :: "'k sysif \<Rightarrow> u8 list list \<Rightarrow> ('k, int) user" where
  "ln_main sys argv =
     (if length argv \<noteq> 3 then ubind (fprintf sys 2 ''Usage: ln old new\<newline>'' []) (\<lambda>_. uexit 1)
      else
        ubind (call (u_link sys (argv ! 1) (argv ! 2))) (\<lambda>r.
        ubind (if r < 0 then fprintf sys 2 ''link %s %s: failed\<newline>'' [VStr (Some (argv ! 1)), VStr (Some (argv ! 2))] else uret ()) (\<lambda>_.
          uexit 0)))"

text \<open>The loop of \<open>mkdir\<close> and \<open>rm\<close>, which stops at the first failure.\<close>

fun until_failure :: "(u8 list \<Rightarrow> ('k, int) user) \<Rightarrow> (u8 list \<Rightarrow> ('k, unit) user) \<Rightarrow> u8 list list \<Rightarrow> ('k, unit) user" where
  "until_failure f failed [] = uret ()"
| "until_failure f failed (a # as) =
     ubind (f a) (\<lambda>r. if r < 0 then failed a else until_failure f failed as)"

definition mkdir_main :: "'k sysif \<Rightarrow> u8 list list \<Rightarrow> ('k, int) user" where
  "mkdir_main sys argv =
     (if length argv < 2 then ubind (fprintf sys 2 ''Usage: mkdir files...\<newline>'' []) (\<lambda>_. uexit 1)
      else
        ubind (until_failure (\<lambda>a. call (u_mkdir sys a)) (\<lambda>a. fprintf sys 2 ''mkdir: %s failed to create\<newline>'' [VStr (Some a)]) (tl argv))
          (\<lambda>_. uexit 0))"

definition rm_main :: "'k sysif \<Rightarrow> u8 list list \<Rightarrow> ('k, int) user" where
  "rm_main sys argv =
     (if length argv < 2 then ubind (fprintf sys 2 ''Usage: rm files...\<newline>'' []) (\<lambda>_. uexit 1)
      else
        ubind (until_failure (\<lambda>a. call (u_unlink sys a)) (\<lambda>a. fprintf sys 2 ''rm: %s failed to delete\<newline>'' [VStr (Some a)]) (tl argv))
          (\<lambda>_. uexit 0))"

definition zombie_main :: "'k sysif \<Rightarrow> ('k, int) user" where
  "zombie_main sys =
     ubind (call (u_fork sys)) (\<lambda>r.
     ubind (if r > 0 then ubind (call (u_sleep sys 5)) (\<lambda>_. uret ()) else uret ()) (\<lambda>_.
       uexit 0))"

section \<open>\<^verbatim>\<open>wc\<close>\<close>

definition is_space :: "u8 \<Rightarrow> bool" where
  "is_space c \<longleftrightarrow> c \<in> {32, 13, 9, 10, 11}"

text \<open>Lines, words and bytes so far, and whether a word has begun.\<close>

fun wc_count :: "u8 list \<Rightarrow> nat \<times> nat \<times> nat \<times> bool \<Rightarrow> nat \<times> nat \<times> nat \<times> bool" where
  "wc_count [] s = s"
| "wc_count (b # bs) (l, w, c, inword) =
     (let c = c + 1; l = (if b = 10 then l + 1 else l) in
      if is_space b then wc_count bs (l, w, c, False)
      else if \<not> inword then wc_count bs (l, w + 1, c, True)
      else wc_count bs (l, w, c, inword))"

definition wc :: "'k sysif \<Rightarrow> int \<Rightarrow> u8 list \<Rightarrow> ('k, unit) user" where
  "wc sys fd name =
     ubind (uloop (\<lambda>s.
         ubind (call (u_read sys fd 512)) (\<lambda>(n, buf).
           if n > 0 then uret (Inl (wc_count (take (nat n) buf) s)) else uret (Inr (n, s)))) (0, 0, 0, False)) (\<lambda>(n, l, w, c, inword).
       if n < 0 then ubind (uprintf sys ''wc: read error\<newline>'' []) (\<lambda>_. uexit 1)
       else uprintf sys ''%d %d %d %s\<newline>'' [VWord (of_nat l), VWord (of_nat w), VWord (of_nat c), VStr (Some name)])"

definition wc_main :: "'k sysif \<Rightarrow> u8 list list \<Rightarrow> ('k, int) user" where
  "wc_main sys argv =
     (if length argv \<le> 1 then ubind (wc sys 0 []) (\<lambda>_. uexit 0)
      else
        ubind (each_file sys (\<lambda>a. uprintf sys ''wc: cannot open %s\<newline>'' [VStr (Some a)]) (\<lambda>fd a. wc sys fd a) (tl argv))
          (\<lambda>_. uexit 0))"

section \<open>\<^verbatim>\<open>ls\<close>\<close>

definition fmtname :: "u8 list \<Rightarrow> u8 list" where
  "fmtname path =
     (let p = rev (takeWhile (\<lambda>c. c \<noteq> 47) (rev path)) in
      if length p \<ge> 14 then p else p @ replicate (14 - length p) 32)"

definition ls_stat_line :: "'k sysif \<Rightarrow> string \<Rightarrow> u8 list \<Rightarrow> stat \<Rightarrow> ('k, unit) user" where
  "ls_stat_line sys fmt path st =
     uprintf sys fmt [VStr (Some (fmtname path)), VWord (ucast (us_type st)), VWord (ucast (us_ino st)), VWord (us_size st)]"

definition ls_entries :: "'k sysif \<Rightarrow> u8 list \<Rightarrow> int \<Rightarrow> ('k, unit) user" where
  "ls_entries sys path fd =
     uloop (\<lambda>_.
       ubind (call (u_read sys fd 16)) (\<lambda>(n, de).
         if n = 16 then
           (if take 2 de = [0, 0] then uret (Inl ())
            else
              let buf = path @ [47] @ takeWhile (\<lambda>c. c \<noteq> 0) (take 14 (drop 2 de)) in
              ubind (ustat sys buf) (\<lambda>(r, st).
              ubind (case st of
                  Some st \<Rightarrow> if r < 0 then uprintf sys ''ls: cannot stat %s\<newline>'' [VStr (Some buf)]
                    else ls_stat_line sys ''%s %d %d %d\<newline>'' buf st
                | None \<Rightarrow> uprintf sys ''ls: cannot stat %s\<newline>'' [VStr (Some buf)]) (\<lambda>_.
                uret (Inl ()))))
         else uret (Inr ()))) ()"

definition ls :: "'k sysif \<Rightarrow> u8 list \<Rightarrow> ('k, unit) user" where
  "ls sys path =
     ubind (call (u_open sys path 0)) (\<lambda>fd.
       if fd < 0 then fprintf sys 2 ''ls: cannot open %s\<newline>'' [VStr (Some path)]
       else
         ubind (call (u_fstat sys fd)) (\<lambda>(r, st).
           if r < 0 then
             ubind (fprintf sys 2 ''ls: cannot stat %s\<newline>'' [VStr (Some path)]) (\<lambda>_. ubind (call (u_close sys fd)) (\<lambda>_. uret ()))
           else
             ubind (if us_type st = 3 \<or> us_type st = 2 then ls_stat_line sys ''%s %d %d %l\<newline>'' path st
               else if us_type st = 1 then
                 (if length path + 1 + 14 + 1 > 512 then uprintf sys ''ls: path too long\<newline>'' []
                  else ls_entries sys path fd)
               else uret ()) (\<lambda>_.
             ubind (call (u_close sys fd)) (\<lambda>_. uret ()))))"

definition ls_main :: "'k sysif \<Rightarrow> u8 list list \<Rightarrow> ('k, int) user" where
  "ls_main sys argv =
     (if length argv < 2 then ubind (ls sys (bytes ''.'')) (\<lambda>_. uexit 0)
      else ubind (ublock (map (ls sys) (tl argv))) (\<lambda>_. uexit 0))"

section \<open>\<^verbatim>\<open>init\<close>\<close>

text \<open>Waiting until the shell, process \<open>pid\<close>, has ended.\<close>

definition init_wait :: "'k sysif \<Rightarrow> int \<Rightarrow> ('k, unit) user" where
  "init_wait sys pid =
     uloop (\<lambda>_.
       ubind (call (u_wait sys)) (\<lambda>wpid.
         if wpid = pid then uret (Inr ())
         else if wpid < 0 then ubind (uprintf sys ''init: wait returned an error\<newline>'' []) (\<lambda>_. uexit 1)
         else uret (Inl ()))) ()"

definition init_main :: "'k sysif \<Rightarrow> ('k, int) user" where
  "init_main sys =
     ubind (call (u_open sys (bytes ''console'') O_RDWR)) (\<lambda>r.
     ubind (if r < 0 then
         ubind (call (u_mknod sys (bytes ''console'') 1 0)) (\<lambda>_. ubind (call (u_open sys (bytes ''console'') O_RDWR)) (\<lambda>_. uret ()))
       else uret ()) (\<lambda>_.
     ubind (call (u_dup sys 0)) (\<lambda>_.
     ubind (call (u_dup sys 0)) (\<lambda>_.
       uloop (\<lambda>_.
         ubind (uprintf sys ''init: starting sh\<newline>'' []) (\<lambda>_.
         ubind (call (u_fork sys)) (\<lambda>pid.
           if pid < 0 then ubind (uprintf sys ''init: fork failed\<newline>'' []) (\<lambda>_. uexit 1)
           else if pid = 0 then
             ubind (execv sys (bytes ''sh'') [bytes ''sh'']) (\<lambda>_. ubind (uprintf sys ''init: exec sh failed\<newline>'' []) (\<lambda>_. uexit 1))
           else ubind (init_wait sys pid) (\<lambda>_. uret (Inl ()))))) ()))))"

section \<open>What \<^verbatim>\<open>grep\<close> matches\<close>

text \<open>
  The reference: a pattern is a list of characters, each of which may be starred, and may end in
  \<^verbatim>\<open>$\<close>. It denotes a set of strings; a text matches at its beginning when it has a prefix in that
  set, which must be all of it when the pattern ends in \<^verbatim>\<open>$\<close>.
\<close>

datatype atom = Once u8 | Many u8

fun atoms :: "u8 list \<Rightarrow> atom list \<times> bool" where
  "atoms [] = ([], False)"
| "atoms [c] = (if c = dollar then ([], True) else ([Once c], False))"
| "atoms (c # d # re) =
     (if d = star then apfst ((#) (Many c)) (atoms re) else apfst ((#) (Once c)) (atoms (d # re)))"

definition stands_for :: "u8 \<Rightarrow> u8 \<Rightarrow> bool" where
  "stands_for c x \<longleftrightarrow> c = dot \<or> c = x"

fun lang :: "atom list \<Rightarrow> u8 list set" where
  "lang [] = {[]}"
| "lang (Once c # as) = {x # u | x u. stands_for c x \<and> u \<in> lang as}"
| "lang (Many c # as) = {u @ v | u v. (\<forall>x \<in> set u. stands_for c x) \<and> v \<in> lang as}"

definition begins :: "atom list \<times> bool \<Rightarrow> u8 list \<Rightarrow> bool" where
  "begins p t \<longleftrightarrow> (\<exists>u v. t = u @ v \<and> u \<in> lang (fst p) \<and> (snd p \<longrightarrow> v = []))"

lemma begins_Nil: "begins ([], e) t \<longleftrightarrow> (e \<longrightarrow> t = [])"
  by (auto simp: begins_def)

lemma begins_Once: "begins (apfst ((#) (Once c)) p) t \<longleftrightarrow> (\<exists>x xs. t = x # xs \<and> stands_for c x \<and> begins p xs)"
  by (cases p; cases t) (auto simp: begins_def Cons_eq_append_conv)

lemma begins_ManyI:
  "\<forall>x \<in> set u. stands_for c x \<Longrightarrow> w \<in> lang as \<Longrightarrow> (e \<longrightarrow> v = []) \<Longrightarrow> begins (Many c # as, e) (u @ w @ v)"
  unfolding begins_def by (intro exI [of _ "u @ w"] exI [of _ v]) auto

lemma begins_ManyE:
  assumes "begins (Many c # as, e) t"
  obtains u w v where "t = u @ w @ v" "\<forall>x \<in> set u. stands_for c x" "w \<in> lang as" "e \<longrightarrow> v = []"
proof -
  obtain q v where q: "t = q @ v" "q \<in> lang (Many c # as)" "e \<longrightarrow> v = []" using assms by (auto simp: begins_def)
  from q(2) obtain u w where "q = u @ w" "\<forall>x \<in> set u. stands_for c x" "w \<in> lang as" by auto
  with q(1,3) show thesis by (intro that [of u w v]) simp_all
qed

lemma begins_Many:
  "begins (apfst ((#) (Many c)) p) t \<longleftrightarrow>
     begins p t \<or> (\<exists>x xs. t = x # xs \<and> stands_for c x \<and> begins (apfst ((#) (Many c)) p) xs)" (is "?l \<longleftrightarrow> ?r")
proof (cases p)
  case (Pair as e)
  show ?thesis
  proof
    assume ?l
    then have "begins (Many c # as, e) t" by (simp add: Pair)
    then obtain u w v where t: "t = u @ w @ v" "\<forall>x \<in> set u. stands_for c x" "w \<in> lang as" "e \<longrightarrow> v = []"
      by (rule begins_ManyE)
    then show ?r
      by (cases u) (auto simp: Pair intro: begins_ManyI, auto simp: begins_def)
  next
    assume ?r
    then show ?l
    proof (elim disjE exE conjE)
      assume "begins p t"
      then obtain w v where "t = [] @ w @ v" "w \<in> lang as" "e \<longrightarrow> v = []" by (auto simp: begins_def Pair)
      then show ?l using begins_ManyI [of "[]" c w as e v] by (simp add: Pair)
    next
      fix x xs
      assume t: "t = x # xs" "stands_for c x" "begins (apfst ((#) (Many c)) p) xs"
      then have "begins (Many c # as, e) xs" by (simp add: Pair)
      then obtain u w v where "xs = u @ w @ v" "\<forall>x \<in> set u. stands_for c x" "w \<in> lang as" "e \<longrightarrow> v = []"
        by (rule begins_ManyE)
      with t show ?l using begins_ManyI [of "x # u" c w as e v] by (simp add: Pair)
    qed
  qed
qed

lemma matchhere_run:
  "matchhere [] t"
  "matchhere [c] t \<longleftrightarrow> (if c = dollar then t = [] else \<exists>x xs. t = x # xs \<and> (c = dot \<or> c = x))"
  "matchhere (c # d # ds) t \<longleftrightarrow>
     (if d = star then matchstar c ds t else \<exists>x xs. t = x # xs \<and> (c = dot \<or> c = x) \<and> matchhere (d # ds) xs)"
proof -
  show n: "matchhere [] t" for t by (simp add: matchhere.simps)
  show "matchhere [c] t \<longleftrightarrow> (if c = dollar then t = [] else \<exists>x xs. t = x # xs \<and> (c = dot \<or> c = x))"
    by (subst matchhere.simps) (auto simp: n split: list.split)
  show "matchhere (c # d # ds) t \<longleftrightarrow>
     (if d = star then matchstar c ds t else \<exists>x xs. t = x # xs \<and> (c = dot \<or> c = x) \<and> matchhere (d # ds) xs)"
    by (subst matchhere.simps) (auto split: list.split)
qed

lemma matchstar_run:
  "matchstar c re t \<longleftrightarrow> matchhere re t \<or> (\<exists>x xs. t = x # xs \<and> (x = c \<or> c = dot) \<and> matchstar c re xs)"
  by (subst matchstar.simps) (auto split: list.split)

lemma matchstar_begins:
  assumes "\<And>t. matchhere re t \<longleftrightarrow> begins (atoms re) t"
  shows "matchstar c re t \<longleftrightarrow> begins (apfst ((#) (Many c)) (atoms re)) t"
proof (induction t)
  case Nil
  show ?case by (subst matchstar_run, subst begins_Many) (simp add: assms)
next
  case (Cons x xs)
  then show ?case by (subst matchstar_run, subst begins_Many) (auto simp: assms stands_for_def)
qed

lemma matchhere_begins: "matchhere re t \<longleftrightarrow> begins (atoms re) t"
proof (induction "length re" arbitrary: re t rule: less_induct)
  case less
  show ?case
  proof (cases re rule: atoms.cases)
    case 1
    then show ?thesis by (simp add: matchhere_run begins_Nil)
  next
    case (2 c)
    then show ?thesis
      using begins_Once [of c "([], False)" t] by (auto simp: matchhere_run begins_Nil stands_for_def)
  next
    case (3 c d ds)
    then have "matchhere (d # ds) t \<longleftrightarrow> begins (atoms (d # ds)) t" "matchhere ds t \<longleftrightarrow> begins (atoms ds) t" for t
      using less [of "d # ds"] less [of ds] by simp_all
    then show ?thesis using 3 matchstar_begins [of ds c t] by (auto simp: matchhere_run begins_Once stands_for_def)
  qed
qed

lemma match_from_suffix: "match_from re t \<longleftrightarrow> (\<exists>p s. t = p @ s \<and> matchhere re s)"
proof (induction t)
  case Nil
  then show ?case by (simp add: match_from.simps)
next
  case (Cons x xs)
  show ?case by (subst match_from.simps) (auto simp: Cons Cons_eq_append_conv)
qed

text \<open>
  C34: The matcher of \<^verbatim>\<open>grep\<close> decides the language of its pattern: \<open>match\<close> is true exactly when the t
  has a place, which must be its beginning when the pattern starts with \<^verbatim>\<open>^\<close>, from which on a
  prefix of it, which must be all of the rest when the pattern ends in \<^verbatim>\<open>$\<close>, lies in the set of
  strings that the characters, dots and starred characters of the pattern denote.
\<close>

theorem match_decides_pattern:
  "match re t \<longleftrightarrow>
     (case re of c # rs \<Rightarrow> if c = caret then begins (atoms rs) t else (\<exists>p s. t = p @ s \<and> begins (atoms re) s)
      | [] \<Rightarrow> True)"
proof (cases re)
  case Nil
  then show ?thesis by (simp add: match_def match_from_suffix matchhere_begins begins_Nil) blast
next
  case (Cons c rs)
  then show ?thesis by (simp add: match_def match_from_suffix matchhere_begins)
qed

end
