(* ===== verification/Xv6_Umalloc.thy ===== *)
theory Xv6_Umalloc
  imports Xv6_Prelude
begin

text \<open>
  The memory allocator of user programs, \<^verbatim>\<open>user/umalloc.c\<close>: a ring of free blocks, each behind a
  header with its size and the next free block.

  Addresses are natural numbers, and so are sizes, in units of the 16 bytes of a header: every page of a
  process is backed by a page of the 128 MB below \<^verbatim>\<open>PHYSTOP\<close>, so neither a size, which is a \<^verbatim>\<open>uint\<close>,
  nor a sum of sizes comes near \<open>2^32\<close> units, and no address near \<open>2^64\<close>. \<open>sbrk\<close> is a parameter, on a state \<open>'k\<close>
  that stands for the rest of the system; its argument is the \<^verbatim>\<open>int\<close> to which the number of bytes is
  converted. A loop that does not end has the result \<open>None\<close>.
\<close>

section \<open>The allocator\<close>

record uheap =
  h_ptr :: "nat \<Rightarrow> nat" \<comment> \<open>\<^verbatim>\<open>s.ptr\<close> of the header at an address\<close>
  h_size :: "nat \<Rightarrow> nat" \<comment> \<open>\<^verbatim>\<open>s.size\<close>\<close>
  freep :: nat

abbreviation (input) HEADER :: nat where "HEADER \<equiv> 16"

definition set_ptr :: "nat \<Rightarrow> nat \<Rightarrow> uheap \<Rightarrow> uheap" where
  "set_ptr a q h = h\<lparr>h_ptr := (h_ptr h)(a := q)\<rparr>"

definition set_size :: "nat \<Rightarrow> nat \<Rightarrow> uheap \<Rightarrow> uheap" where
  "set_size a n h = h\<lparr>h_size := (h_size h)(a := n)\<rparr>"

text \<open>Pointer arithmetic on headers: the address behind a block.\<close>

definition behind :: "uheap \<Rightarrow> nat \<Rightarrow> nat" where
  "behind h a = a + HEADER * h_size h a"

text \<open>The search of \<open>free\<close> for the place of the block \<open>bp\<close>.\<close>

partial_function (option) free_find :: "uheap \<Rightarrow> nat \<Rightarrow> nat \<Rightarrow> nat option" where
  "free_find h bp p =
     (if bp > p \<and> bp < h_ptr h p then Some p
      else if p \<ge> h_ptr h p \<and> (bp > p \<or> bp < h_ptr h p) then Some p
      else free_find h bp (h_ptr h p))"

definition free_join :: "nat \<Rightarrow> nat \<Rightarrow> uheap \<Rightarrow> uheap" where
  "free_join bp p h =
     (let q = h_ptr h p;
        h = (if behind h bp = q then set_ptr bp (h_ptr h q) (set_size bp (h_size h bp + h_size h q) h) else set_ptr bp q h);
        h = (if behind h p = bp then set_ptr p (h_ptr h bp) (set_size p (h_size h p + h_size h bp) h) else set_ptr p bp h)
      in h\<lparr>freep := p\<rparr>)"

definition ufree :: "nat \<Rightarrow> uheap \<Rightarrow> uheap option" where
  "ufree ap h =
     (let bp = ap - HEADER in
      case free_find h bp (freep h) of None \<Rightarrow> None | Some p \<Rightarrow> Some (free_join bp p h))"

text \<open>\<open>morecore\<close>: 0 when there is no more memory.\<close>

definition morecore :: "(int \<Rightarrow> 'k \<Rightarrow> nat option \<times> 'k) \<Rightarrow> nat \<Rightarrow> uheap \<times> 'k \<Rightarrow> (nat \<times> uheap \<times> 'k) option" where
  "morecore sbrk nu = (\<lambda>(h, k).
     let nu = (if nu < 4096 then 4096 else nu) in
     case sbrk (sint (of_nat (nu * HEADER) :: u32)) k of
       (None, k') \<Rightarrow> Some (0, h, k')
     | (Some p, k') \<Rightarrow>
         (case ufree (p + HEADER) (set_size p nu h) of
            None \<Rightarrow> None
          | Some h' \<Rightarrow> Some (freep h', h', k')))"

text \<open>Taking \<open>n\<close> units from the block \<open>p\<close> that follows \<open>prevp\<close>: all of it, or its end.\<close>

definition take_block :: "nat \<Rightarrow> nat \<Rightarrow> nat \<Rightarrow> uheap \<Rightarrow> nat \<times> uheap" where
  "take_block n prevp p h =
     (let (p, h) =
        (if h_size h p = n then (p, set_ptr prevp (h_ptr h p) h)
         else
           (let h = set_size p (h_size h p - n) h; q = behind h p in
            (q, set_size q n h)))
      in (p + HEADER, h\<lparr>freep := prevp\<rparr>))"

partial_function (option) malloc_loop ::
  "(int \<Rightarrow> 'k \<Rightarrow> nat option \<times> 'k) \<Rightarrow> nat \<Rightarrow> nat \<Rightarrow> nat \<Rightarrow> uheap \<times> 'k \<Rightarrow> (nat \<times> uheap \<times> 'k) option" where
  "malloc_loop sbrk n prevp p s =
     (if h_size (fst s) p \<ge> n then
        (let (r, h) = take_block n prevp p (fst s) in Some (r, h, snd s))
      else if p = freep (fst s) then
        (case morecore sbrk n s of
           None \<Rightarrow> None
         | Some (p, s) \<Rightarrow> if p = 0 then Some (0, s) else malloc_loop sbrk n p (h_ptr (fst s) p) s)
      else malloc_loop sbrk n p (h_ptr (fst s) p) s)"

definition malloc :: "(int \<Rightarrow> 'k \<Rightarrow> nat option \<times> 'k) \<Rightarrow> nat \<Rightarrow> u32 \<Rightarrow> uheap \<times> 'k \<Rightarrow> (nat \<times> uheap \<times> 'k) option" where
  "malloc sbrk base nbytes = (\<lambda>(h, k).
     let nunits = (unat nbytes + HEADER - 1) div HEADER + 1;
       h = (if freep h = 0 then set_size base 0 ((set_ptr base base h)\<lparr>freep := base\<rparr>) else h);
       prevp = freep h in
     malloc_loop sbrk nunits prevp (h_ptr h prevp) (h, k))"

section \<open>Blocks\<close>

type_synonym ublock = "nat \<times> nat" \<comment> \<open>address and units\<close>

definition before :: "ublock \<Rightarrow> ublock \<Rightarrow> bool" where
  "before x y \<longleftrightarrow> fst x + HEADER * snd x \<le> fst y"

definition touches :: "ublock \<Rightarrow> ublock \<Rightarrow> bool" where
  "touches x y \<longleftrightarrow> fst x + HEADER * snd x = fst y"

definition merge :: "ublock \<Rightarrow> ublock \<Rightarrow> ublock" where
  "merge x y = (fst x, snd x + snd y)"

definition block_in :: "nat \<Rightarrow> nat \<Rightarrow> ublock \<Rightarrow> bool" where
  "block_in lo hi x \<longleftrightarrow> 0 < snd x \<and> lo \<le> fst x \<and> fst x + HEADER * snd x \<le> hi"

definition clear_of :: "ublock \<Rightarrow> ublock \<Rightarrow> bool" where
  "clear_of x y \<longleftrightarrow> before x y \<or> before y x"

text \<open>The free blocks in the order of their addresses, and the allocated blocks.\<close>

definition blocks_ok :: "nat \<Rightarrow> nat \<Rightarrow> ublock list \<Rightarrow> ublock set \<Rightarrow> bool" where
  "blocks_ok lo hi L A \<longleftrightarrow> (\<forall>x \<in> set L \<union> A. block_in lo hi x) \<and> sorted_wrt before L \<and>
     (\<forall>x \<in> A. (\<forall>y \<in> set L. clear_of x y) \<and> (\<forall>y \<in> A. x \<noteq> y \<longrightarrow> clear_of x y))"

lemma merge_before:
  "before z (merge x y) \<longleftrightarrow> before z x" "touches x y \<Longrightarrow> before (merge x y) z \<longleftrightarrow> before y z"
  by (auto simp: before_def touches_def merge_def algebra_simps)

lemma merge_in: "touches x y \<Longrightarrow> block_in lo hi x \<Longrightarrow> block_in lo hi y \<Longrightarrow> block_in lo hi (merge x y)"
  by (auto simp: block_in_def touches_def merge_def algebra_simps)

lemma merge_apart:
  assumes "touches x y" "clear_of z x" "clear_of z y" "0 < snd z"
  shows "clear_of z (merge x y)"
  using assms by (auto simp: clear_of_def before_def touches_def merge_def algebra_simps)

lemma merge_ok:
  assumes ok: "blocks_ok lo hi (xs @ x # y # ys) A" and t: "touches x y"
  shows "blocks_ok lo hi (xs @ merge x y # ys) A"
proof -
  have A: "clear_of z (merge x y)" if "z \<in> A" for z
    using that ok by (intro merge_apart [OF t]) (auto simp: blocks_ok_def block_in_def)
  have "before (merge x y) z" if "z \<in> set ys" for z
    using that ok unfolding merge_before(2) [OF t] by (auto simp: blocks_ok_def sorted_wrt_append)
  then have "sorted_wrt before (xs @ merge x y # ys)"
    using ok merge_before(1) [of _ x y] by (auto simp: blocks_ok_def sorted_wrt_append)
  moreover have "block_in lo hi (merge x y)" using ok t by (intro merge_in) (auto simp: blocks_ok_def)
  ultimately show ?thesis using ok A by (auto simp: blocks_ok_def)
qed

definition rmerge :: "ublock \<Rightarrow> ublock list \<Rightarrow> ublock list" where
  "rmerge x ys = (case ys of [] \<Rightarrow> [x] | y # zs \<Rightarrow> if touches x y then merge x y # zs else x # ys)"

definition lmerge :: "ublock list \<Rightarrow> ublock list \<Rightarrow> ublock list" where
  "lmerge xs ys = (if xs \<noteq> [] \<and> touches (last xs) (hd ys) then butlast xs @ merge (last xs) (hd ys) # tl ys else xs @ ys)"

lemma rmerge_Cons: "\<exists>m zs. rmerge x ys = (fst x, m) # zs \<and> snd x \<le> m"
  by (cases x; cases ys) (auto simp: rmerge_def merge_def)

lemma insert_ok:
  assumes "blocks_ok lo hi (xs @ x # ys) A"
  shows "blocks_ok lo hi (lmerge xs (rmerge x ys)) A"
proof -
  have r: "blocks_ok lo hi (xs @ rmerge x ys) A"
    using assms merge_ok by (cases ys) (auto simp: rmerge_def)
  obtain m zs where e: "rmerge x ys = (fst x, m) # zs" using rmerge_Cons by blast
  show ?thesis
  proof (cases "xs \<noteq> [] \<and> touches (last xs) (fst x, m)")
    case True
    then have "xs @ rmerge x ys = butlast xs @ last xs # (fst x, m) # zs" by (simp add: e)
    from merge_ok [OF r [unfolded this]] show ?thesis using True by (simp add: lmerge_def e)
  next
    case False
    then show ?thesis using r by (auto simp: lmerge_def e)
  qed
qed

lemma free_one:
  assumes ok: "blocks_ok lo hi L A" and x: "x \<in> A"
  defines "L1 \<equiv> takeWhile (\<lambda>y. fst y < fst x) L" and "L2 \<equiv> dropWhile (\<lambda>y. fst y < fst x) L"
  shows "L = L1 @ L2" "blocks_ok lo hi (L1 @ x # L2) (A - {x})" "\<forall>y \<in> set L1. fst y < fst x" "\<forall>y \<in> set L2. fst x < fst y"
proof -
  show L: "L = L1 @ L2" by (simp add: L1_def L2_def)
  show l1: "\<forall>y \<in> set L1. fst y < fst x" by (auto simp: L1_def dest: set_takeWhileD)
  have s: "sorted_wrt before (L1 @ L2)" and p: "\<And>y. y \<in> set L \<Longrightarrow> 0 < snd y \<and> clear_of x y" "0 < snd x"
    using ok x L by (auto simp: blocks_ok_def block_in_def)
  have l2': "fst x \<le> fst y" if y: "y \<in> set L2" for y
  proof -
    obtain z zs where z: "L2 = z # zs" using y by (cases L2) auto
    then have "fst x \<le> fst z" using hd_dropWhile [of "\<lambda>y. fst y < fst x" L] by (auto simp: L2_def)
    moreover have "y = z \<or> before z y" using s y z by (auto simp: sorted_wrt_append)
    ultimately show ?thesis by (auto simp: before_def)
  qed
  have b1: "before y x" if "y \<in> set L1" for y using p(1) [of y] p(2) l1 that L by (auto simp: clear_of_def before_def)
  have b2: "before x y" if "y \<in> set L2" for y using p(1) [of y] l2' [OF that] that L by (auto simp: clear_of_def before_def)
  show "\<forall>y \<in> set L2. fst x < fst y" using b2 p(2) by (fastforce simp: before_def)
  show "blocks_ok lo hi (L1 @ x # L2) (A - {x})"
    using ok x s b1 b2 unfolding L by (auto simp: blocks_ok_def sorted_wrt_append clear_of_def)
qed

section \<open>The ring\<close>

primrec chain :: "uheap \<Rightarrow> nat \<Rightarrow> nat list \<Rightarrow> nat \<Rightarrow> bool" where
  "chain h p [] e \<longleftrightarrow> h_ptr h p = e"
| "chain h p (x # xs) e \<longleftrightarrow> h_ptr h p = x \<and> chain h x xs e"

lemma chain_append: "chain h p (us @ vs) e \<longleftrightarrow> chain h p us (hd (vs @ [e])) \<and> chain h (last (p # us)) vs e"
proof (induction us arbitrary: p)
  case Nil
  then show ?case by (cases vs) auto
qed simp

lemma chain_frame: "(\<And>x. x \<in> set (p # xs) \<Longrightarrow> h_ptr h' x = h_ptr h x) \<Longrightarrow> chain h' p xs e = chain h p xs e"
  by (induction xs arbitrary: p) simp_all

lemma chain_last: "chain h p xs e \<Longrightarrow> h_ptr h (last (p # xs)) = e"
  by (induction xs arbitrary: p) auto

lemma chain_relink:
  assumes "chain h p xs e" "distinct (p # xs)" "h_ptr h' (last (p # xs)) = e'"
    "\<And>x. x \<in> set (p # xs) \<Longrightarrow> x \<noteq> last (p # xs) \<Longrightarrow> h_ptr h' x = h_ptr h x"
  shows "chain h' p xs e'"
  using assms
proof (induction xs arbitrary: p)
  case (Cons x xs)
  have "last (x # xs) \<in> set (x # xs)" by (rule last_in_set) simp
  then have "p \<noteq> last (x # xs)" using Cons.prems(2) by auto
  then show ?case using Cons by simp
qed simp

text \<open>The heap holds the list of free blocks, from \<open>base\<close> around to it.\<close>

definition holds_ring :: "nat \<Rightarrow> uheap \<Rightarrow> ublock list \<Rightarrow> bool" where
  "holds_ring base h L \<longleftrightarrow> chain h base (map fst L) base \<and> h_size h base = 0 \<and> (\<forall>x \<in> set L. h_size h (fst x) = snd x)"

section \<open>Finding the place\<close>

lemma free_find_up:
  assumes "chain h p (us @ vs) base" "base \<le> p" "p < bp" "sorted_wrt (<) (p # us @ vs)" "\<forall>u \<in> set us. u < bp" "\<forall>v \<in> set vs. bp < v"
  shows "free_find h bp p = Some (last (p # us))"
  using assms
proof (induction us arbitrary: p)
  case Nil
  show ?case
  proof (cases vs)
    case (Cons v vs')
    then show ?thesis using Nil by (subst free_find.simps) simp
  qed (use Nil in \<open>subst free_find.simps, simp\<close>)
next
  case (Cons u us)
  have "free_find h bp p = free_find h bp u" using Cons.prems by (subst free_find.simps) simp
  then show ?case using Cons by simp
qed

lemma free_find_wrap:
  assumes "chain h p xs base" "base < bp" "bp < p" "sorted_wrt (<) (p # xs)"
  shows "free_find h bp p = free_find h bp base"
  using assms
proof (induction xs arbitrary: p)
  case Nil
  then show ?case by (subst free_find.simps) simp
next
  case (Cons x xs)
  have "free_find h bp p = free_find h bp x" using Cons.prems by (subst free_find.simps) simp
  then show ?case using Cons by simp
qed

lemma free_find_ring:
  assumes c: "chain h base (us @ vs) base" and p: "p \<in> set (base # us @ vs)" and b: "base < bp"
    and s: "sorted_wrt (<) (base # us @ vs)" and u: "\<forall>u \<in> set us. u < bp" and v: "\<forall>v \<in> set vs. bp < v"
  shows "free_find h bp p = Some (last (base # us))"
proof -
  have start: "free_find h bp base = Some (last (base # us))" using free_find_up [OF c _ b s u v] by simp
  consider "p = base" | "p \<in> set us" | "p \<in> set vs" using p by auto
  then show ?thesis
  proof cases
    case 1
    then show ?thesis using start by simp
  next
    case 2
    then obtain xs ys where us: "us = xs @ p # ys" by (meson split_list)
    have "chain h p (ys @ vs) base" using c us chain_append [of h base "xs @ [p]" "ys @ vs" base] by simp
    moreover have "sorted_wrt (<) (p # ys @ vs)" "base \<le> p" "p < bp" "\<forall>u \<in> set ys. u < bp"
      using s u by (auto simp: us sorted_wrt_append less_imp_le)
    ultimately show ?thesis using free_find_up [of h p ys vs base bp] v us by simp
  next
    case 3
    then obtain xs ys where vs: "vs = xs @ p # ys" by (meson split_list)
    have "chain h p ys base" using c vs chain_append [of h base "us @ xs @ [p]" ys base] by simp
    moreover have "sorted_wrt (<) (p # ys)" "bp < p" using s v by (auto simp: vs sorted_wrt_append)
    ultimately show ?thesis using free_find_wrap [of h p ys base bp] b start by simp
  qed
qed

section \<open>Putting a block back\<close>

lemma chain_move:
  assumes "chain h p xs e" "h_ptr h' p' = h_ptr h p" "\<And>x. x \<in> set xs \<Longrightarrow> h_ptr h' x = h_ptr h x"
  shows "chain h' p' xs e"
proof (cases xs)
  case (Cons x ys)
  then show ?thesis using assms chain_frame [of x ys h' h e] by simp
qed (use assms in simp)

lemma chain_first: "chain h p xs e \<Longrightarrow> h_ptr h p = hd (xs @ [e])"
  by (cases xs) simp_all

lemma join_right:
  assumes c: "chain h p (map fst L2) base" and sz: "\<forall>x \<in> set L2. h_size h (fst x) = snd x"
    and s: "sorted_wrt (<) (base # bp # map fst L2)" and n: "n = h_size h bp" and r: "rmerge (bp, n) L2 = (bp, m) # vs"
    and q: "q = h_ptr h p" and p: "p \<noteq> bp"
    and h1: "h1 = (if behind h bp = q then set_ptr bp (h_ptr h q) (set_size bp (h_size h bp + h_size h q) h) else set_ptr bp q h)"
  shows "h_size h1 bp = m" "chain h1 bp (map fst vs) base" "\<And>x. x \<noteq> bp \<Longrightarrow> h_ptr h1 x = h_ptr h x \<and> h_size h1 x = h_size h x"
    "\<forall>x \<in> set vs. h_size h1 (fst x) = snd x"
proof -
  show other: "h_ptr h1 x = h_ptr h x \<and> h_size h1 x = h_size h x" if "x \<noteq> bp" for x
    using that by (simp add: h1 set_ptr_def set_size_def)
  have nb: "bp \<notin> set (map fst L2)" using s by auto
  have keep: "h_ptr h1 x = h_ptr h x" if "x \<in> set (map fst L2)" for x using other nb that by metis
  show "h_size h1 bp = m" "chain h1 bp (map fst vs) base"
  proof (atomize (full), cases L2)
    case Nil
    then have "behind h bp \<noteq> q" "m = n" "vs = []" "q = base" using c s r q by (auto simp: behind_def rmerge_def)
    then show "h_size h1 bp = m \<and> chain h1 bp (map fst vs) base" by (simp add: h1 set_ptr_def n)
  next
    case (Cons y L)
    then have y: "q = fst y" "h_size h q = snd y" "chain h q (map fst L) base" using c sz q by auto
    show "h_size h1 bp = m \<and> chain h1 bp (map fst vs) base"
    proof (cases "behind h bp = q")
      case True
      then have "m = n + snd y" "vs = L" using r Cons y n by (auto simp: rmerge_def touches_def merge_def behind_def)
      moreover have "h_size h1 bp = n + snd y" "h_ptr h1 bp = h_ptr h q"
        using True y n by (simp_all add: h1 set_ptr_def set_size_def)
      ultimately show ?thesis using chain_move [OF y(3), of h1 bp] keep Cons by simp
    next
      case False
      then have "m = n" "vs = L2" using r Cons y n by (auto simp: rmerge_def touches_def merge_def behind_def)
      moreover have "h_size h1 bp = n" "h_ptr h1 bp = q" using False n by (simp_all add: h1 set_ptr_def)
      ultimately show ?thesis using chain_move [OF c, of h1 bp] keep q by simp
    qed
  qed
  have "set vs \<subseteq> set L2" using r by (cases L2) (auto simp: rmerge_def split: if_splits)
  then have "h_size h1 (fst x) = h_size h (fst x) \<and> x \<in> set L2" if "x \<in> set vs" for x
    using that nb other [of "fst x"] by (metis image_eqI list.set_map subsetD)
  then show "\<forall>x \<in> set vs. h_size h1 (fst x) = snd x" using sz by metis
qed

lemma join_left:
  assumes c: "chain h base (map fst L1) e" and p: "p = last (base # map fst L1)" and d: "distinct (base # map fst L1 @ bp # map fst vs)"
    and sz: "\<forall>x \<in> set L1. h_size h (fst x) = snd x" "h_size h base = 0" "\<forall>x \<in> set vs. h_size h (fst x) = snd x" and b: "base < bp"
    and v: "chain h bp (map fst vs) base" and m: "m = h_size h bp"
    and h2: "h2 = (if behind h p = bp then set_ptr p (h_ptr h bp) (set_size p (h_size h p + h_size h bp) h) else set_ptr p bp h)"
  shows "holds_ring base h2 (lmerge L1 ((bp, m) # vs))" "\<And>x. x \<noteq> p \<Longrightarrow> h_ptr h2 x = h_ptr h x \<and> h_size h2 x = h_size h x"
proof -
  show other: "h_ptr h2 x = h_ptr h x \<and> h_size h2 x = h_size h x" if "x \<noteq> p" for x
    using that by (simp add: h2 set_ptr_def set_size_def)
  have pin: "p \<in> set (base # map fst L1)" unfolding p by (rule last_in_set) simp
  then have np: "p \<notin> set (map fst vs)" "p \<noteq> bp" using d by auto
  have keepv: "h_ptr h2 x = h_ptr h x" if "x \<in> set (map fst vs)" for x using other np(1) that by metis
  have keepu: "h_ptr h2 x = h_ptr h x" if "x \<in> set (base # map fst L1)" "x \<noteq> last (base # map fst L1)" for x
    using other that p by metis
  have sizev: "\<forall>x \<in> set vs. h_size h2 (fst x) = snd x" using sz(3) other np(1) by (metis image_eqI list.set_map)
  have d1: "distinct (base # map fst L1)" using d by simp
  show "holds_ring base h2 (lmerge L1 ((bp, m) # vs))"
  proof (cases "behind h p = bp")
    case True
    have ne: "L1 \<noteq> []" using True sz(2) p b by (auto simp: behind_def)
    then obtain K y where L1: "L1 = K @ [y]" by (metis rev_exhaust)
    then have y: "p = fst y" "h_size h p = snd y" using p sz(1) by auto
    then have t: "touches y (bp, m)" using True by (simp add: touches_def behind_def)
    have e2: "h_ptr h2 p = h_ptr h bp" "h_size h2 p = snd y + m" using True y m by (simp_all add: h2 set_ptr_def set_size_def)
    have "chain h2 p (map fst vs) base" using chain_move [OF v e2(1)] keepv by blast
    moreover have "chain h2 base (map fst L1) (hd (map fst vs @ [base]))"
      using chain_relink [OF c d1 _ keepu] e2(1) chain_first [OF v] p by simp
    ultimately have "chain h2 base (map fst L1 @ map fst vs) base" using p by (simp add: chain_append)
    moreover have ps: "p \<noteq> base" "p \<notin> set (map fst K)" using d1 L1 y by auto
    then have "h_size h2 base = 0" using other [of base] sz(2) by simp
    moreover have "h_size h2 (fst x) = snd x" if "x \<in> set K" for x
    proof -
      have "fst x \<noteq> p" using ps(2) that by (metis image_eqI list.set_map)
      then show ?thesis using other [of "fst x"] sz(1) L1 that by simp
    qed
    ultimately show ?thesis using L1 t y e2 sizev by (simp add: lmerge_def holds_ring_def merge_def ball_Un)
  next
    case False
    have e2: "h_ptr h2 p = bp" "h_size h2 p = h_size h p" "h_ptr h2 bp = h_ptr h bp" using False np by (simp_all add: h2 set_ptr_def)
    have size: "h_size h2 x = h_size h x" for x using other e2(2) by metis
    have nt: "\<not> (L1 \<noteq> [] \<and> touches (last L1) (bp, m))"
      using False p sz(1) by (auto simp: touches_def behind_def last_map)
    have "chain h2 bp (map fst vs) base" using chain_move [OF v e2(3)] keepv by blast
    moreover have "chain h2 base (map fst L1) bp" using chain_relink [OF c d1 _ keepu] e2(1) p by simp
    ultimately have "chain h2 base (map fst L1 @ bp # map fst vs) base" using p e2(1) by (simp add: chain_append)
    then show ?thesis using nt size sz m sizev by (auto simp: lmerge_def holds_ring_def)
  qed
qed

lemma join_ring:
  assumes R: "holds_ring base h (L1 @ L2)" and s: "sorted_wrt (<) (base # map fst L1 @ bp # map fst L2)"
    and n: "n = h_size h bp" and p: "p = last (base # map fst L1)"
  shows "holds_ring base (free_join bp p h) (lmerge L1 (rmerge (bp, n) L2))" "freep (free_join bp p h) = p"
    "\<And>x. x \<notin> set (bp # base # map fst L1) \<Longrightarrow> h_size (free_join bp p h) x = h_size h x"
proof -
  define q where "q = h_ptr h p"
  define h1 where "h1 = (if behind h bp = q then set_ptr bp (h_ptr h q) (set_size bp (h_size h bp + h_size h q) h) else set_ptr bp q h)"
  define h2 where "h2 = (if behind h1 p = bp then set_ptr p (h_ptr h1 bp) (set_size p (h_size h1 p + h_size h1 bp) h1) else set_ptr p bp h1)"
  have j: "free_join bp p h = h2\<lparr>freep := p\<rparr>" by (simp add: free_join_def Let_def q_def h1_def h2_def)
  show "freep (free_join bp p h) = p" by (simp add: j)
  obtain m vs where r: "rmerge (bp, n) L2 = (bp, m) # vs" using rmerge_Cons [of "(bp, n)" L2] by auto
  have c: "chain h base (map fst L1) (hd (map fst L2 @ [base]))" "chain h p (map fst L2) base"
    using R chain_append [of h base "map fst L1" "map fst L2" base] by (simp_all add: holds_ring_def p)
  have pin: "p \<in> set (base # map fst L1)" unfolding p by (rule last_in_set) simp
  then have pb: "p \<noteq> bp" "bp \<notin> set (base # map fst L1)" "base < bp" using s by (auto simp: sorted_wrt_append)
  have s2: "sorted_wrt (<) (base # bp # map fst L2)" using s by (auto simp: sorted_wrt_append)
  have sz: "\<forall>x \<in> set L2. h_size h (fst x) = snd x" "\<forall>x \<in> set L1. h_size h (fst x) = snd x" "h_size h base = 0"
    using R by (simp_all add: holds_ring_def)
  note a = join_right [OF c(2) sz(1) s2 n r q_def pb(1) h1_def]
  have vs: "vs = L2 \<or> vs = tl L2" using r by (cases L2) (auto simp: rmerge_def split: if_splits)
  have "distinct (base # map fst L1 @ bp # map fst L2)" using s strict_sorted_iff by blast
  then have d: "distinct (base # map fst L1 @ bp # map fst vs)" using vs by (cases L2) (elim disjE; simp)+
  have c1: "chain h1 base (map fst L1) (hd (map fst L2 @ [base]))"
    using c(1) a(3) pb(2) chain_frame [of base "map fst L1" h1 h] by metis
  have "fst x \<noteq> bp" if "x \<in> set L1" for x using pb(2) that by (metis image_eqI list.set_map list.set_intros(2))
  then have "h_size h1 (fst x) = snd x" if "x \<in> set L1" for x using sz(2) a(3) [of "fst x"] that by simp
  then have sz1: "\<forall>x \<in> set L1. h_size h1 (fst x) = snd x" "h_size h1 base = 0" using sz(3) a(3) [of base] pb(3) by simp_all
  note b = join_left [OF c1 p d sz1 a(4) pb(3) a(2) a(1) [symmetric] h2_def]
  show "h_size (free_join bp p h) x = h_size h x" if "x \<notin> set (bp # base # map fst L1)" for x
  proof -
    have "x \<noteq> p" "x \<noteq> bp" using that pin by (metis list.set_intros(2), simp)
    then show ?thesis using a(3) [of x] b(2) [of x] by (simp add: j)
  qed
  have "holds_ring base (h2\<lparr>freep := p\<rparr>) L = holds_ring base h2 L" for L
    using chain_frame [of base "map fst L" "h2\<lparr>freep := p\<rparr>" h2] by (simp add: holds_ring_def)
  then show "holds_ring base (free_join bp p h) (lmerge L1 (rmerge (bp, n) L2))" using b(1) by (simp add: j r)
qed

section \<open>The arena\<close>

text \<open>
  \<open>lo\<close> is where the heap of the process begins and \<open>hi\<close> its break; \<open>L\<close> are the free blocks and \<open>A\<close> the
  blocks that the program owns.
\<close>

definition ring_ok :: "nat \<Rightarrow> nat \<Rightarrow> uheap \<Rightarrow> nat \<Rightarrow> ublock list \<Rightarrow> ublock set \<Rightarrow> bool" where
  "ring_ok base lo h hi L A \<longleftrightarrow> 0 < base \<and> base < lo \<and> lo \<le> hi \<and> holds_ring base h L \<and> blocks_ok lo hi L A \<and>
     freep h \<in> set (base # map fst L) \<and> (\<forall>x \<in> A. h_size h (fst x) = snd x)"

definition arena :: "nat \<Rightarrow> nat \<Rightarrow> uheap \<Rightarrow> nat \<Rightarrow> ublock set \<Rightarrow> bool" where
  "arena base lo h hi A \<longleftrightarrow>
     0 < base \<and> base < lo \<and> lo \<le> hi \<and> (if freep h = 0 then A = {} else \<exists>L. ring_ok base lo h hi L A)"

lemma before_less: "sorted_wrt before L \<Longrightarrow> \<forall>x \<in> set L. 0 < snd x \<Longrightarrow> sorted_wrt (<) (map fst L)"
  by (induction L) (fastforce simp: before_def)+

lemma ring_sorted:
  assumes "blocks_ok lo hi L A" "base < lo"
  shows "sorted_wrt (<) (base # map fst L)"
proof -
  have "\<forall>x \<in> set L. 0 < snd x \<and> lo \<le> fst x" "sorted_wrt before L" using assms(1) by (auto simp: blocks_ok_def block_in_def)
  then show ?thesis using before_less [of L] assms(2) by (auto intro: less_le_trans)
qed

lemma free_ring:
  assumes R: "ring_ok base lo h hi L A" and x: "(bp, n) \<in> A"
  shows "\<exists>h' L'. ufree (bp + HEADER) h = Some h' \<and> ring_ok base lo h' hi L' (A - {(bp, n)}) \<and>
    (\<exists>x \<in> set L'. fst x \<le> bp \<and> bp + HEADER * n \<le> fst x + HEADER * snd x)"
proof -
  define L1 where "L1 = takeWhile (\<lambda>y. fst y < bp) L"
  define L2 where "L2 = dropWhile (\<lambda>y. fst y < bp) L"
  have ok: "blocks_ok lo hi L A" and b: "base < lo" and f: "freep h \<in> set (base # map fst L)" and
    hold: "holds_ring base h L" and szA: "\<And>x. x \<in> A \<Longrightarrow> h_size h (fst x) = snd x"
    using R by (auto simp: ring_ok_def)
  have n: "n = h_size h bp" using szA [OF x] by simp
  note fo = free_one [OF ok x, unfolded fst_conv, folded L1_def L2_def]
  have s: "sorted_wrt (<) (base # map fst L1 @ bp # map fst L2)" using ring_sorted [OF fo(2) b] by simp
  define p where "p = last (base # map fst L1)"
  have find: "free_find h bp (freep h) = Some p" unfolding p_def
  proof (rule free_find_ring)
    show "chain h base (map fst L1 @ map fst L2) base" using hold fo(1) by (simp add: holds_ring_def)
    show "freep h \<in> set (base # map fst L1 @ map fst L2)" using f fo(1) by (metis map_append)
  qed (use s in \<open>auto simp: sorted_wrt_append\<close>)
  define h' where "h' = free_join bp p h"
  define L' where "L' = lmerge L1 (rmerge (bp, n) L2)"
  note j = join_ring [OF hold [unfolded fo(1)] s n p_def, folded h'_def L'_def]
  have ok': "blocks_ok lo hi L' (A - {(bp, n)})" unfolding L'_def by (rule insert_ok [OF fo(2)])
  have pin: "p \<in> set (base # map fst L1)" unfolding p_def by (rule last_in_set) simp
  have "fst ` set L1 \<subseteq> fst ` set L'"
    by (cases L1 rule: rev_cases) (auto simp: L'_def lmerge_def merge_def)
  then have "freep h' \<in> set (base # map fst L')" using pin j(2) by auto
  moreover have "h_size h' (fst x) = snd x" if xA: "x \<in> A - {(bp, n)}" for x
  proof -
    have "block_in lo hi x" "block_in lo hi (bp, n)" "clear_of x (bp, n)" using ok x xA unfolding blocks_ok_def by blast+
    then have "0 < snd x" "lo \<le> fst x" "clear_of x (bp, n)" "0 < n" by (simp_all add: block_in_def)
    moreover have "\<forall>y \<in> set L1. 0 < snd y \<and> clear_of x y" using ok xA fo(1) by (auto simp: blocks_ok_def block_in_def)
    ultimately have "fst x \<notin> set (bp # base # map fst L1)" using b by (auto simp: clear_of_def before_def)
    then show ?thesis using j(3) szA xA by simp
  qed
  ultimately have "ring_ok base lo h' hi L' (A - {(bp, n)})" using R j(1) ok' by (simp add: ring_ok_def)
  moreover have "\<exists>x \<in> set L'. fst x \<le> bp \<and> bp + HEADER * n \<le> fst x + HEADER * snd x"
  proof -
    obtain m zs where e: "rmerge (bp, n) L2 = (bp, m) # zs" "n \<le> m" using rmerge_Cons [of "(bp, n)" L2] by auto
    show ?thesis
      using e(2) by (auto simp: L'_def lmerge_def e(1) merge_def touches_def algebra_simps)
  qed
  ultimately show ?thesis using find by (auto simp: ufree_def h'_def)
qed

lemma grow_ring:
  assumes R: "ring_ok base lo h hi L A" and p: "hi \<le> p" and n: "0 < n"
  shows "ring_ok base lo (set_size p n h) (p + HEADER * n) L (insert (p, n) A)"
proof -
  have ok: "blocks_ok lo hi L A" and lo: "base < lo" "lo \<le> hi" and hold: "holds_ring base h L" and
    szA: "\<And>x. x \<in> A \<Longrightarrow> h_size h (fst x) = snd x" using R by (auto simp: ring_ok_def)
  have low: "0 < snd x \<and> fst x < p \<and> before x (p, n) \<and> lo \<le> fst x" if "x \<in> set L \<union> A" for x
  proof -
    have "block_in lo hi x" using ok that by (auto simp: blocks_ok_def)
    then show ?thesis using p by (auto simp: block_in_def before_def)
  qed
  have "blocks_ok lo (p + HEADER * n) L (insert (p, n) A)" unfolding blocks_ok_def
  proof (intro conjI ballI)
    fix x assume "x \<in> set L \<union> insert (p, n) A"
    then show "block_in lo (p + HEADER * n) x" using low [of x] p n lo by (auto simp: block_in_def before_def)
  next
    fix x y assume "x \<in> insert (p, n) A" "y \<in> set L"
    then show "clear_of x y" using ok low [of y] by (auto simp: blocks_ok_def clear_of_def)
  next
    fix x y assume "x \<in> insert (p, n) A" "y \<in> insert (p, n) A"
    then show "x \<noteq> y \<longrightarrow> clear_of x y" using ok low [of y] low [of x] by (auto simp: blocks_ok_def clear_of_def)
  qed (use ok in \<open>simp add: blocks_ok_def\<close>)
  moreover have keep: "h_size (set_size p n h) (fst x) = h_size h (fst x)" if "x \<in> set L \<union> A" for x
    using low [OF that] by (simp add: set_size_def)
  moreover have "h_ptr (set_size p n h) = h_ptr h" "freep (set_size p n h) = freep h" "h_size (set_size p n h) base = h_size h base"
    "h_size (set_size p n h) p = n" using lo p by (simp_all add: set_size_def)
  moreover have "holds_ring base (set_size p n h) L"
    using hold chain_frame [of base "map fst L" "set_size p n h" h] keep calculation by (simp add: holds_ring_def)
  ultimately show ?thesis using R p by (simp add: ring_ok_def)
qed

section \<open>Taking a block\<close>

lemma chain_map: "chain h p xs e \<longleftrightarrow> map (h_ptr h) (p # xs) = xs @ [e]"
  by (induction xs arbitrary: p) auto

lemma chain_pred:
  assumes c: "chain h base (us @ y # vs) base" and d: "distinct (base # us @ y # vs)"
    and p: "p \<in> set (base # us @ y # vs)" "h_ptr h p = y"
  shows "p = last (base # us)"
proof -
  have "distinct (map (h_ptr h) (base # us @ y # vs))" using c d unfolding chain_map by simp
  then have i: "inj_on (h_ptr h) (set (base # us @ y # vs))" by (simp only: distinct_map)
  have "chain h base us y" using c chain_append [of h base us "y # vs"] by simp
  then have "h_ptr h (last (base # us)) = y" by (rule chain_last)
  moreover have "last (base # us) \<in> set (base # us @ y # vs)" using last_in_set [of "base # us"] by auto
  ultimately show ?thesis using inj_onD [OF i, of p "last (base # us)"] p by simp
qed

lemma take_whole:
  assumes ok: "blocks_ok lo hi (L1 @ x # L2) A"
  shows "blocks_ok lo hi (L1 @ L2) (insert x A)" "\<forall>z \<in> A. clear_of x z"
  using ok by (auto simp: blocks_ok_def sorted_wrt_append clear_of_def)

lemma take_end:
  assumes ok: "blocks_ok lo hi (L1 @ (y, m) # L2) A" and n: "0 < n" "n < m"
  shows "blocks_ok lo hi (L1 @ (y, m - n) # L2) (insert (y + HEADER * (m - n), n) A)"
    "\<forall>z \<in> A. clear_of (y + HEADER * (m - n), n) z"
proof -
  let ?l = "(y, m - n)" and ?r = "(y + HEADER * (m - n), n)"
  have e: "HEADER * (m - n) + HEADER * n = HEADER * m" using n by (simp add: algebra_simps)
  have i: "block_in lo hi (y, m)" using ok by (simp add: blocks_ok_def)
  have w: "block_in lo hi ?l" "block_in lo hi ?r" "before ?l ?r" using i n e by (auto simp: block_in_def before_def)
  have b: "before z ?l \<and> before z ?r" if "before z (y, m)" for z using that by (simp add: before_def)
  have a: "before ?l z \<and> before ?r z" if "before (y, m) z" for z using that e by (simp add: before_def)
  have ar: "clear_of z ?l \<and> clear_of z ?r" if "clear_of z (y, m)" for z using that a b unfolding clear_of_def by blast
  have cA: "clear_of z (y, m)" if "z \<in> A" for z using ok that by (simp add: blocks_ok_def)
  have s: "\<forall>z \<in> set L1. before z (y, m)" "\<forall>z \<in> set L2. before (y, m) z" "sorted_wrt before (L1 @ L2)"
    using ok by (auto simp: blocks_ok_def sorted_wrt_append)
  show fresh: "\<forall>z \<in> A. clear_of ?r z" using ar cA unfolding clear_of_def by blast
  have "\<forall>z \<in> set L1. before z ?l" "\<forall>z \<in> set L2. before ?l z" using s a b by blast+
  then have "sorted_wrt before (L1 @ ?l # L2)" using s(3) by (simp add: sorted_wrt_append)
  moreover have fl: "clear_of ?r z" if "z \<in> set L1 \<union> set L2 \<union> {?l}" for z
    using that s a b w(3) unfolding clear_of_def by blast
  moreover have "clear_of z ?r \<and> clear_of z ?l" if "z \<in> A" for z using ar cA that by blast
  moreover have "\<forall>z \<in> A. (\<forall>y \<in> set L1 \<union> set L2. clear_of z y) \<and> (\<forall>y \<in> A. z \<noteq> y \<longrightarrow> clear_of z y)"
    "\<forall>x \<in> set L1 \<union> set L2 \<union> A. block_in lo hi x" using ok by (simp_all add: blocks_ok_def ball_Un)
  ultimately show "blocks_ok lo hi (L1 @ ?l # L2) (insert ?r A)"
    using w(1,2) fresh by (simp add: blocks_ok_def ball_Un)
qed

lemma take_ring:
  assumes R: "ring_ok base lo h hi (L1 @ (y, m) # L2) A" and n: "0 < n" "n \<le> m" and p: "prev = last (base # map fst L1)"
  shows "\<exists>b h' L'. take_block n prev y h = (b + HEADER, h') \<and> ring_ok base lo h' hi L' (insert (b, n) A) \<and> (\<forall>z \<in> A. clear_of (b, n) z)"
proof -
  have ok: "blocks_ok lo hi (L1 @ (y, m) # L2) A" and lo: "base < lo" and hold: "holds_ring base h (L1 @ (y, m) # L2)" and
    szA: "\<And>x. x \<in> A \<Longrightarrow> h_size h (fst x) = snd x" using R by (auto simp: ring_ok_def)
  have sz: "h_size h y = m" "\<And>x. x \<in> set (L1 @ L2) \<Longrightarrow> h_size h (fst x) = snd x" "h_size h base = 0"
    and c: "chain h base (map fst L1) y" "chain h y (map fst L2) base"
    using hold chain_append [of h base "map fst L1" "y # map fst L2"] by (auto simp: holds_ring_def)
  have "sorted_wrt (<) (base # map fst L1 @ y # map fst L2)" using ring_sorted [OF ok lo] by simp
  then have d: "distinct (base # map fst L1 @ y # map fst L2)" using strict_sorted_iff by blast
  have pin: "prev \<in> set (base # map fst L1)" unfolding p by (rule last_in_set) simp
  show ?thesis
  proof (cases "m = n")
    case True
    define h' where "h' = (set_ptr prev (h_ptr h y) h)\<lparr>freep := prev\<rparr>"
    have t: "take_block n prev y h = (y + HEADER, h')" using sz(1) True by (simp add: take_block_def h'_def)
    have hp: "h_ptr h' prev = h_ptr h y" "\<And>x. x \<noteq> prev \<Longrightarrow> h_ptr h' x = h_ptr h x" "h_size h' = h_size h" "freep h' = prev"
      by (simp_all add: h'_def set_ptr_def)
    have "prev \<notin> set (map fst L2)" using d pin by auto
    then have "chain h' prev (map fst L2) base" using chain_move [OF c(2) hp(1)] hp(2) by metis
    moreover have "chain h' base (map fst L1) (hd (map fst L2 @ [base]))"
      using d hp p chain_first [OF c(2)] by (intro chain_relink [OF c(1)]) auto
    ultimately have "chain h' base (map fst (L1 @ L2)) base" using p by (simp add: chain_append)
    then have "holds_ring base h' (L1 @ L2)" using sz hp(3) by (simp add: holds_ring_def)
    then have "ring_ok base lo h' hi (L1 @ L2) (insert (y, m) A)"
      using R take_whole [OF ok] pin hp sz by (auto simp: ring_ok_def)
    then show ?thesis using t take_whole(2) [OF ok] True by blast
  next
    case False
    then have nm: "n < m" using n by simp
    let ?q = "y + HEADER * (m - n)"
    define h' where "h' = (set_size ?q n (set_size y (m - n) h))\<lparr>freep := prev\<rparr>"
    have t: "take_block n prev y h = (?q + HEADER, h')"
      using sz(1) False by (simp add: take_block_def h'_def behind_def set_size_def Let_def)
    have hp: "h_ptr h' = h_ptr h" "h_size h' y = m - n" "h_size h' ?q = n" "freep h' = prev"
      "\<And>x. x \<noteq> y \<Longrightarrow> x \<noteq> ?q \<Longrightarrow> h_size h' x = h_size h x"
      using nm by (simp_all add: h'_def set_size_def)
    note te = take_end [OF ok n(1) nm]
    have far: "fst x \<noteq> y \<and> fst x \<noteq> ?q" if x: "x \<in> set (L1 @ L2) \<union> A" for x
    proof -
      have "0 < snd x" using ok x by (auto simp: blocks_ok_def block_in_def)
      moreover have "clear_of x (y, m)" using ok x by (auto simp: blocks_ok_def sorted_wrt_append clear_of_def)
      ultimately show ?thesis using n nm by (auto simp: clear_of_def before_def)
    qed
    have bless: "base < y" using ok lo by (auto simp: blocks_ok_def block_in_def)
    have keep: "h_size h' (fst x) = h_size h (fst x)" if "x \<in> set (L1 @ L2) \<union> A" for x using hp(5) far [OF that] by blast
    have k0: "h_size h' base = 0" using hp(5) [of base] bless sz(3) by simp
    have "chain h' base (map fst (L1 @ (y, m - n) # L2)) base"
      using hold chain_frame [of base "map fst L1 @ y # map fst L2" h' h base] hp(1) by (simp add: holds_ring_def)
    then have "holds_ring base h' (L1 @ (y, m - n) # L2)"
      using k0 keep sz(2) hp(2) by (simp add: holds_ring_def ball_Un)
    moreover have "\<forall>x \<in> insert (?q, n) A. h_size h' (fst x) = snd x" using keep szA hp(3) by simp
    moreover have "freep h' \<in> set (base # map fst (L1 @ (y, m - n) # L2))" using pin hp(4) by auto
    ultimately have "ring_ok base lo h' hi (L1 @ (y, m - n) # L2) (insert (?q, n) A)"
      using R te(1) by (simp add: ring_ok_def)
    then show ?thesis using t te(2) by blast
  qed
qed

section \<open>Walking around the ring\<close>

lemma walk_find:
  assumes "chain h prev us y" "\<forall>u \<in> set us. h_size h u < n \<and> u \<noteq> freep h" "n \<le> h_size h y"
  shows "malloc_loop sbrk n prev (h_ptr h prev) (h, k) = (let (r, h') = take_block n (last (prev # us)) y h in Some (r, h', k))"
  using assms
proof (induction us arbitrary: prev)
  case Nil
  then show ?case by (subst malloc_loop.simps) simp
next
  case (Cons u us)
  have "malloc_loop sbrk n prev (h_ptr h prev) (h, k) = malloc_loop sbrk n u (h_ptr h u) (h, k)"
    using Cons.prems by (subst malloc_loop.simps) simp
  then show ?case using Cons by simp
qed

lemma walk_none:
  assumes "chain h prev us (freep h)" "\<forall>u \<in> set us. h_size h u < n \<and> u \<noteq> freep h" "h_size h (freep h) < n"
  shows "malloc_loop sbrk n prev (h_ptr h prev) (h, k) =
    (case morecore sbrk n (h, k) of
       None \<Rightarrow> None
     | Some (p, s) \<Rightarrow> if p = 0 then Some (0, s) else malloc_loop sbrk n p (h_ptr (fst s) p) s)"
  using assms
proof (induction us arbitrary: prev)
  case Nil
  then show ?case by (subst malloc_loop.simps) simp
next
  case (Cons u us)
  have "malloc_loop sbrk n prev (h_ptr h prev) (h, k) = malloc_loop sbrk n u (h_ptr h u) (h, k)"
    using Cons.prems by (subst malloc_loop.simps) simp
  then show ?case using Cons by simp
qed

lemma ring_rotate:
  assumes c: "chain h base us base" and d: "distinct (base # us)" and f: "f \<in> set (base # us)"
  shows "\<exists>xs. chain h f xs f \<and> f \<notin> set xs \<and> set (f # xs) = set (base # us)"
proof (cases "f = base")
  case False
  then obtain as bs where us: "us = as @ f # bs" using f by (metis set_ConsD split_list)
  have "chain h base as f" "chain h f bs base"
    using c chain_append [of h base as "f # bs" base] by (simp_all add: us)
  then have "chain h f (bs @ base # as) f" using chain_last [of h f bs base] by (simp add: chain_append)
  moreover have "f \<notin> set (bs @ base # as)" "set (f # bs @ base # as) = set (base # us)" using d us by auto
  ultimately show ?thesis by blast
qed (use c d in auto)

lemma ring_freep:
  assumes R: "ring_ok base lo h hi L A"
  shows "freep h \<noteq> 0"
proof -
  have "sorted_wrt (<) (base # map fst L)" "0 < base" "freep h \<in> set (base # map fst L)"
    using R ring_sorted [of lo hi L A base] by (simp_all add: ring_ok_def)
  then show ?thesis by auto
qed

lemma ring_tour:
  assumes R: "ring_ok base lo h hi L A"
  obtains xs where "chain h (freep h) xs (freep h)" "freep h \<notin> set xs" "set (freep h # xs) = set (base # map fst L)"
proof -
  have "sorted_wrt (<) (base # map fst L)" using R ring_sorted [of lo hi L A base] by (simp add: ring_ok_def)
  then have "distinct (base # map fst L)" using strict_sorted_iff by blast
  then show thesis using R ring_rotate [of h base "map fst L" "freep h"] that by (auto simp: ring_ok_def holds_ring_def)
qed

lemma first_fit:
  assumes R: "ring_ok base lo h hi L A" and n: "0 < n" and fit: "\<exists>x \<in> set L. n \<le> snd x"
  shows "\<exists>b h' L'. malloc_loop sbrk n (freep h) (h_ptr h (freep h)) (h, k) = Some (b + HEADER, h', k) \<and>
    ring_ok base lo h' hi L' (insert (b, n) A) \<and> (\<forall>z \<in> A. clear_of (b, n) z)"
proof -
  let ?f = "freep h"
  have hold: "holds_ring base h L" and ok: "blocks_ok lo hi L A" and lo: "base < lo" using R by (simp_all add: ring_ok_def)
  obtain xs where xs: "chain h ?f xs ?f" "?f \<notin> set xs" "set (?f # xs) = set (base # map fst L)" by (rule ring_tour [OF R])
  have "\<exists>a \<in> set (xs @ [?f]). n \<le> h_size h a"
  proof -
    obtain x where "x \<in> set L" "n \<le> snd x" using fit by blast
    then have "n \<le> h_size h (fst x)" "fst x \<in> set (?f # xs)" using hold xs(3) by (auto simp: holds_ring_def)
    then show ?thesis by auto
  qed
  then obtain us y zs where sp: "xs @ [?f] = us @ y # zs" "n \<le> h_size h y" "\<forall>u \<in> set us. \<not> n \<le> h_size h u"
    using split_list_first_prop [of "xs @ [?f]" "\<lambda>a. n \<le> h_size h a"] by blast
  have walk: "chain h ?f us y \<and> set us \<subseteq> set xs \<and> y \<in> set (?f # xs)"
  proof (cases zs rule: rev_cases)
    case Nil
    then show ?thesis using sp(1) xs(1) by simp
  next
    case (snoc zs' z)
    then have "xs = us @ y # zs'" using sp(1) by simp
    then show ?thesis using xs(1) chain_append [of h ?f us "y # zs'" ?f] by auto
  qed
  then have go: "malloc_loop sbrk n ?f (h_ptr h ?f) (h, k) = (let (r, h') = take_block n (last (?f # us)) y h in Some (r, h', k))"
    using sp xs(2) by (intro walk_find) auto
  have "y \<noteq> base" using sp(2) hold n by (auto simp: holds_ring_def)
  then obtain m where "(y, m) \<in> set L" using walk xs(3) by auto
  then obtain L1 L2 where L: "L = L1 @ (y, m) # L2" by (meson split_list)
  have m: "h_size h y = m" using hold L by (simp add: holds_ring_def)
  have "last (?f # us) = last (base # map fst L1)"
  proof (rule chain_pred)
    show "chain h base (map fst L1 @ y # map fst L2) base" using hold L by (simp add: holds_ring_def)
    have "sorted_wrt (<) (base # map fst L1 @ y # map fst L2)" using ring_sorted [OF ok lo] L by simp
    then show "distinct (base # map fst L1 @ y # map fst L2)" using strict_sorted_iff by blast
    have "last (?f # us) \<in> set (?f # us)" by (rule last_in_set) simp
    moreover have "set (base # map fst L1 @ y # map fst L2) = set (?f # xs)" unfolding xs(3) L by simp
    ultimately show "last (?f # us) \<in> set (base # map fst L1 @ y # map fst L2)" using walk by auto
    show "h_ptr h (last (?f # us)) = y" using walk chain_last by blast
  qed
  with take_ring [OF R [unfolded L] n, of "last (?f # us)"] sp(2) m
  show ?thesis unfolding go by fastforce
qed

section \<open>Growing the heap\<close>

text \<open>
  What the allocator relies on of \<^verbatim>\<open>sbrk\<close>, with \<open>brk\<close> the break of the process: it moves the break up and
  returns the old one, or fails and leaves the break alone.
\<close>

definition sbrk_ok :: "('k \<Rightarrow> nat) \<Rightarrow> (int \<Rightarrow> 'k \<Rightarrow> nat option \<times> 'k) \<Rightarrow> bool" where
  "sbrk_ok brk sbrk \<longleftrightarrow> (\<forall>n > 0. \<forall>k.
     (case sbrk n k of
        (None, k') \<Rightarrow> brk k' = brk k
      | (Some p, k') \<Rightarrow> p = brk k \<and> int (brk k') = int (brk k) + n))"

definition units :: "u32 \<Rightarrow> nat" where
  "units nbytes = (unat nbytes + HEADER - 1) div HEADER + 1"

lemma units_enough: "unat nbytes + HEADER \<le> HEADER * units nbytes" "0 < units nbytes"
  by (simp_all add: units_def)

lemma grow_argument:
  assumes "unat nbytes \<le> 2 ^ 31 - 32"
  defines "nu \<equiv> if units nbytes < 4096 then 4096 else units nbytes"
  shows "sint (of_nat (nu * HEADER) :: u32) = int (nu * HEADER)"
proof -
  have "units nbytes \<le> 2 ^ 27 - 1" using assms(1) by (simp add: units_def)
  then have "nu * HEADER < 2 ^ 31" by (simp add: nu_def)
  then show ?thesis by (rule sint_of_nat_small)
qed

lemma morecore_ring:
  assumes R: "ring_ok base lo h (brk k) L A" and b: "sbrk_ok brk sbrk" and small: "unat nbytes \<le> 2 ^ 31 - 32"
  defines "nu \<equiv> if units nbytes < 4096 then 4096 else units nbytes"
  shows "(\<exists>k'. sbrk (int (HEADER * nu)) k = (None, k') \<and> brk k' = brk k \<and> morecore sbrk (units nbytes) (h, k) = Some (0, h, k')) \<or>
    (\<exists>h' k' L'. morecore sbrk (units nbytes) (h, k) = Some (freep h', h', k') \<and> ring_ok base lo h' (brk k') L' A \<and>
       freep h' \<noteq> 0 \<and> (\<exists>x \<in> set L'. units nbytes \<le> snd x))"
proof -
  have arg: "sint (of_nat (nu * HEADER) :: u32) = int (HEADER * nu)"
    unfolding nu_def grow_argument [OF small] by (simp add: mult.commute)
  have nu: "0 < nu" "units nbytes \<le> nu" by (simp_all add: nu_def)
  obtain r k' where r: "sbrk (int (HEADER * nu)) k = (r, k')" by fastforce
  have br: "case r of None \<Rightarrow> brk k' = brk k | Some p \<Rightarrow> p = brk k \<and> int (brk k') = int (brk k) + int (HEADER * nu)"
    using b [unfolded sbrk_ok_def, rule_format, of "int (HEADER * nu)" k] nu r by simp
  have m: "morecore sbrk (units nbytes) (h, k) =
    (case r of None \<Rightarrow> Some (0, h, k')
     | Some p \<Rightarrow> (case ufree (p + HEADER) (set_size p nu h) of None \<Rightarrow> None | Some h' \<Rightarrow> Some (freep h', h', k')))"
    unfolding morecore_def Let_def prod.case nu_def [symmetric] arg r by (cases r) simp_all
  show ?thesis
  proof (cases r)
    case None
    then show ?thesis using r br m by simp
  next
    case (Some p)
    then have p: "p = brk k" "brk k' = p + HEADER * nu" using br by simp_all
    have fresh: "(p, nu) \<notin> A"
    proof
      assume "(p, nu) \<in> A"
      then have "block_in lo (brk k) (p, nu)" using R by (auto simp: ring_ok_def blocks_ok_def)
      then show False using p(1) nu(1) by (simp add: block_in_def)
    qed
    have "ring_ok base lo (set_size p nu h) (brk k') L (insert (p, nu) A)"
      using grow_ring [OF R, of p nu] p nu(1) by simp
    from free_ring [OF this, of p nu] fresh obtain h' L' x
      where f: "ufree (p + HEADER) (set_size p nu h) = Some h'" "ring_ok base lo h' (brk k') L' A"
        "x \<in> set L'" "fst x \<le> p" "p + HEADER * nu \<le> fst x + HEADER * snd x" by auto
    have "nu \<le> snd x" using f(4,5) by simp
    then have "\<exists>x \<in> set L'. units nbytes \<le> snd x" using nu(2) f(3) by (intro bexI [of _ x]) simp_all
    moreover have "freep h' \<noteq> 0" using ring_freep [OF f(2)] .
    moreover have "morecore sbrk (units nbytes) (h, k) = Some (freep h', h', k')" using m Some f(1) by simp
    ultimately show ?thesis using f(2) by blast
  qed
qed

section \<open>malloc and free\<close>

lemma arena_ring:
  assumes "arena base lo h hi A"
  defines "h0 \<equiv> if freep h = 0 then set_size base 0 ((set_ptr base base h)\<lparr>freep := base\<rparr>) else h"
  shows "\<exists>L. ring_ok base lo h0 hi L A"
proof (cases "freep h = 0")
  case True
  then have "ring_ok base lo h0 hi [] A"
    using assms by (simp add: arena_def ring_ok_def holds_ring_def blocks_ok_def set_ptr_def set_size_def)
  then show ?thesis by blast
qed (use assms in \<open>simp add: arena_def\<close>)

lemma ring_arena: "ring_ok base lo h hi L A \<Longrightarrow> arena base lo h hi A"
  using ring_freep [of base lo h hi L A] by (auto simp: arena_def ring_ok_def)

lemma malloc_start:
  "malloc sbrk base nbytes (h, k) =
     (let h = (if freep h = 0 then set_size base 0 ((set_ptr base base h)\<lparr>freep := base\<rparr>) else h)
      in malloc_loop sbrk (units nbytes) (freep h) (h_ptr h (freep h)) (h, k))"
  by (simp add: malloc_def units_def Let_def)

lemma malloc_ring:
  assumes R: "ring_ok base lo h (brk k) L A" and b: "sbrk_ok brk sbrk" and small: "unat nbytes \<le> 2 ^ 31 - 32"
  shows "\<exists>r h' k' L'. malloc_loop sbrk (units nbytes) (freep h) (h_ptr h (freep h)) (h, k) = Some (r, h', k') \<and>
    (if r = 0 then fst (sbrk (int (HEADER * max 4096 (units nbytes))) k) = None \<and> ring_ok base lo h' (brk k') L' A
     else (\<forall>x \<in> A. clear_of (r - HEADER, units nbytes) x) \<and> ring_ok base lo h' (brk k') L' (insert (r - HEADER, units nbytes) A))"
proof (cases "\<exists>x \<in> set L. units nbytes \<le> snd x")
  case True
  from first_fit [OF R units_enough(2) True, of sbrk k] show ?thesis by fastforce
next
  case False
  obtain xs where xs: "chain h (freep h) xs (freep h)" "freep h \<notin> set xs" "set (freep h # xs) = set (base # map fst L)" by (rule ring_tour [OF R])
  have "h_size h base = 0" "\<And>x. x \<in> set L \<Longrightarrow> h_size h (fst x) = snd x" using R by (auto simp: ring_ok_def holds_ring_def)
  then have "h_size h u < units nbytes" if "u \<in> set (base # map fst L)" for u
    using that False units_enough(2) by (auto simp: not_le)
  then have all: "h_size h u < units nbytes" if "u \<in> set (freep h # xs)" for u using that xs(3) by blast
  have go: "malloc_loop sbrk (units nbytes) (freep h) (h_ptr h (freep h)) (h, k) =
    (case morecore sbrk (units nbytes) (h, k) of
       None \<Rightarrow> None
     | Some (p, s) \<Rightarrow> if p = 0 then Some (0, s) else malloc_loop sbrk (units nbytes) p (h_ptr (fst s) p) s)"
    using xs all by (intro walk_none [OF xs(1)]) auto
  have mx: "(if units nbytes < 4096 then 4096 else units nbytes) = max 4096 (units nbytes)" by (simp add: max_def)
  consider k' where "sbrk (int (HEADER * max 4096 (units nbytes))) k = (None, k')" "brk k' = brk k"
      "morecore sbrk (units nbytes) (h, k) = Some (0, h, k')"
    | h' k' L' where "morecore sbrk (units nbytes) (h, k) = Some (freep h', h', k')" "ring_ok base lo h' (brk k') L' A"
      "freep h' \<noteq> 0" "\<exists>x \<in> set L'. units nbytes \<le> snd x"
    using morecore_ring [OF R b small, unfolded mx] by blast
  then show ?thesis
  proof cases
    case 1
    then show ?thesis unfolding go using R by auto
  next
    case (2 h' k' L')
    from first_fit [OF 2(2) units_enough(2) 2(4), of sbrk k'] show ?thesis unfolding go using 2(1,3) by fastforce
  qed
qed

lemma malloc_arena:
  assumes "sbrk_ok brk sbrk" "arena base lo h (brk k) A" "unat nbytes \<le> 2 ^ 31 - 32"
  shows "\<exists>r h' k'. malloc sbrk base nbytes (h, k) = Some (r, h', k') \<and>
    (if r = 0 then fst (sbrk (int (HEADER * max 4096 (units nbytes))) k) = None \<and> arena base lo h' (brk k') A
     else (\<forall>x \<in> A. clear_of (r - HEADER, units nbytes) x) \<and> arena base lo h' (brk k') (insert (r - HEADER, units nbytes) A))"
proof -
  define h0 where "h0 = (if freep h = 0 then set_size base 0 ((set_ptr base base h)\<lparr>freep := base\<rparr>) else h)"
  obtain L where "ring_ok base lo h0 (brk k) L A" using arena_ring [OF assms(2)] unfolding h0_def by blast
  from malloc_ring [OF this assms(1,3)] obtain r h' k' L' where
    m: "malloc_loop sbrk (units nbytes) (freep h0) (h_ptr h0 (freep h0)) (h0, k) = Some (r, h', k')" and
    o: "if r = 0 then fst (sbrk (int (HEADER * max 4096 (units nbytes))) k) = None \<and> ring_ok base lo h' (brk k') L' A
     else (\<forall>x \<in> A. clear_of (r - HEADER, units nbytes) x) \<and> ring_ok base lo h' (brk k') L' (insert (r - HEADER, units nbytes) A)"
    by blast
  have "malloc sbrk base nbytes (h, k) = Some (r, h', k')" using m by (simp add: malloc_start Let_def h0_def)
  then show ?thesis using o ring_arena by (auto split: if_splits)
qed

text \<open>The only system call of \<open>malloc\<close> is \<^verbatim>\<open>sbrk\<close>.\<close>

definition sbrk_calls :: "(int \<Rightarrow> 'k \<Rightarrow> nat option \<times> 'k) \<Rightarrow> 'k \<Rightarrow> 'k \<Rightarrow> bool" where
  "sbrk_calls sbrk = (\<lambda>k k'. \<exists>n. k' = snd (sbrk n k))\<^sup>*\<^sup>*"

lemma sbrk_calls_trans: "sbrk_calls sbrk k k' \<Longrightarrow> sbrk_calls sbrk k' k'' \<Longrightarrow> sbrk_calls sbrk k k''"
  unfolding sbrk_calls_def by (rule rtranclp_trans)

lemma sbrk_calls_refl [simp]: "sbrk_calls sbrk k k"
  by (simp add: sbrk_calls_def)

lemma morecore_calls: "morecore sbrk nu s = Some (p, h', k') \<Longrightarrow> sbrk_calls sbrk (snd s) k'"
  by (cases s) (auto simp: morecore_def Let_def sbrk_calls_def split: prod.splits option.splits
      intro!: r_into_rtranclp exI [of _ "sint (of_nat ((if nu < 4096 then 4096 else nu) * HEADER) :: u32)"])

lemma malloc_loop_calls: "malloc_loop sbrk n prevp p s = Some y \<Longrightarrow> sbrk_calls sbrk (snd s) (snd (snd y))"
proof (erule malloc_loop.raw_induct [of "\<lambda>sbrk n prevp p s y. sbrk_calls sbrk (snd s) (snd (snd y))", rotated])
  fix f :: "(int \<Rightarrow> 'a \<Rightarrow> nat option \<times> 'a) \<Rightarrow> nat \<Rightarrow> nat \<Rightarrow> nat \<Rightarrow> uheap \<times> 'a \<Rightarrow> (nat \<times> uheap \<times> 'a) option" and sbrk n prevp p s y
  assume IH: "\<And>sbrk n prevp p s y. f sbrk n prevp p s = Some y \<Longrightarrow> sbrk_calls sbrk (snd s) (snd (snd y))"
    and body: "(if h_size (fst s) p \<ge> n then (let (r, h) = take_block n prevp p (fst s) in Some (r, h, snd s))
      else if p = freep (fst s) then
        (case morecore sbrk n s of
           None \<Rightarrow> None
         | Some (p, s) \<Rightarrow> if p = 0 then Some (0, s) else f sbrk n p (h_ptr (fst s) p) s)
      else f sbrk n p (h_ptr (fst s) p) s) = Some y"
  show "sbrk_calls sbrk (snd s) (snd (snd y))"
  proof (cases "\<not> h_size (fst s) p \<ge> n \<and> p = freep (fst s)")
    case True
    then obtain p' s' where m: "morecore sbrk n s = Some (p', s')" using body by (auto split: option.splits)
    then have "sbrk_calls sbrk (snd s) (snd s')" using morecore_calls [of sbrk n s p' "fst s'" "snd s'"] by simp
    then show ?thesis using True body m IH [of sbrk n p' "h_ptr (fst s') p'" s' y] by (auto split: if_splits intro: sbrk_calls_trans)
  next
    case False
    then show ?thesis using body IH [of sbrk n p "h_ptr (fst s) p" s y] by (auto split: prod.splits if_splits)
  qed
qed

lemma malloc_calls: "malloc sbrk base nbytes (h, k) = Some (p, h', k') \<Longrightarrow> sbrk_calls sbrk k k'"
  using malloc_loop_calls by (fastforce simp: malloc_start Let_def)

text \<open>C39: \<open>malloc\<close> always returns. If it returns 0, it asked \<^verbatim>\<open>sbrk\<close> for more memory and was refused, and every block of the
  program is as it was. Otherwise the block it returns has room for the bytes that were asked for, lies
  between the start of the heap and the break, and overlaps none of the blocks that the program owns, nor any
  block left on the free list, which is a well-formed ring again.\<close>

theorem malloc_gives_block:
  assumes "sbrk_ok brk sbrk" "arena base lo h (brk k) A" "unat nbytes \<le> 2 ^ 31 - 32"
  shows "\<exists>r h' k'. malloc sbrk base nbytes (h, k) = Some (r, h', k') \<and>
    (if r = 0 then fst (sbrk (int (HEADER * max 4096 (units nbytes))) k) = None \<and> arena base lo h' (brk k') A
     else r - HEADER + HEADER * units nbytes \<ge> r + unat nbytes \<and> (\<forall>x \<in> A. clear_of (r - HEADER, units nbytes) x) \<and>
       arena base lo h' (brk k') (insert (r - HEADER, units nbytes) A))"
proof -
  have "r - HEADER + HEADER * units nbytes \<ge> r + unat nbytes" for r using units_enough(1) [of nbytes] by simp
  then show ?thesis using malloc_arena [OF assms] by (auto simp only: if_True if_False simp_thms split: if_splits)
qed

text \<open>C40: \<open>free\<close> always returns, and takes the block from the program's blocks without touching any other. The memory
  is used again before the heap grows: whatever is asked for next that fits into the freed block is given
  without a call of \<^verbatim>\<open>sbrk\<close>, which the unchanged state \<open>k\<close> of the system shows for every \<^verbatim>\<open>sbrk\<close>.\<close>

theorem free_gives_back:
  assumes "arena base lo h hi A" "(bp, n) \<in> A"
  shows "\<exists>h'. ufree (bp + HEADER) h = Some h' \<and> arena base lo h' hi (A - {(bp, n)}) \<and>
    (\<forall>nbytes sbrk k. units nbytes \<le> n \<longrightarrow>
      (\<exists>r h2. malloc sbrk base nbytes (h', k) = Some (r, h2, k) \<and> r \<noteq> 0 \<and>
         arena base lo h2 hi (insert (r - HEADER, units nbytes) (A - {(bp, n)}))))"
proof -
  obtain L where R: "ring_ok base lo h hi L A" using assms by (auto simp: arena_def split: if_splits)
  from free_ring [OF R assms(2)] obtain h' L' x where f: "ufree (bp + HEADER) h = Some h'"
    and R': "ring_ok base lo h' hi L' (A - {(bp, n)})" and x: "x \<in> set L'" "fst x \<le> bp" "bp + HEADER * n \<le> fst x + HEADER * snd x"
    by auto
  have "n \<le> snd x" using x(2,3) by simp
  have "\<exists>r h2. malloc sbrk base nbytes (h', k) = Some (r, h2, k) \<and> r \<noteq> 0 \<and>
      arena base lo h2 hi (insert (r - HEADER, units nbytes) (A - {(bp, n)}))" if "units nbytes \<le> n"
    for nbytes and sbrk :: "int \<Rightarrow> 'k \<Rightarrow> nat option \<times> 'k" and k
  proof -
    have "\<exists>x \<in> set L'. units nbytes \<le> snd x" using that \<open>n \<le> snd x\<close> x(1) by (intro bexI [of _ x]) simp_all
    from first_fit [OF R' units_enough(2) this, of sbrk k] show ?thesis
      using ring_freep [OF R'] ring_arena by (fastforce simp: malloc_start Let_def)
  qed
  then show ?thesis using f ring_arena [OF R'] by blast
qed

definition demo_sbrk :: "int \<Rightarrow> nat \<Rightarrow> nat option \<times> nat" where
  "demo_sbrk n k = (if 0 < n \<and> int k + n \<le> 100000 then (Some k, nat (int k + n)) else (None, k))"

definition demo_heap :: uheap where
  "demo_heap = \<lparr>h_ptr = (\<lambda>_. 4000), h_size = (\<lambda>a. if a = 4096 then 8 else 0), freep = 4000\<rparr>"

lemma demo_arena: "arena 4000 4096 demo_heap 4224 {(4096, 8)}"
proof -
  have "ring_ok 4000 4096 demo_heap 4224 [] {(4096, 8)}"
    by (simp add: ring_ok_def holds_ring_def blocks_ok_def block_in_def demo_heap_def)
  then show ?thesis by (rule ring_arena)
qed

theorem malloc_gives_block_witness:
  "\<exists>r h' k'. malloc demo_sbrk 4000 100 (demo_heap, 4224) = Some (r, h', k') \<and> r \<noteq> 0 \<and>
     arena 4000 4096 h' k' (insert (r - 16, units 100) {(4096, 8)})"
proof -
  have "sbrk_ok id demo_sbrk" by (auto simp: sbrk_ok_def demo_sbrk_def)
  moreover have "fst (demo_sbrk (int (16 * max 4096 (units 100))) 4224) \<noteq> None"
    by (simp add: demo_sbrk_def units_def)
  ultimately show ?thesis
    using malloc_gives_block [of id demo_sbrk 4000 4096 demo_heap 4224 "{(4096, 8)}" 100] demo_arena by (auto split: if_splits)
qed

theorem free_gives_back_witness:
  "\<exists>h'. ufree (4096 + 16) demo_heap = Some h' \<and> arena 4000 4096 h' 4224 {} \<and>
     (\<exists>r h2. malloc demo_sbrk 4000 100 (h', 4224) = Some (r, h2, 4224) \<and> r \<noteq> 0)"
proof -
  obtain h' where f: "ufree (4096 + 16) demo_heap = Some h'" "arena 4000 4096 h' 4224 {}" and
    m: "\<forall>nbytes sbrk (k :: nat). units nbytes \<le> 8 \<longrightarrow> (\<exists>r h2. malloc sbrk 4000 nbytes (h', k) = Some (r, h2, k) \<and> r \<noteq> 0)"
    using free_gives_back [where ?'a = nat, OF demo_arena, of 4096 8] by simp blast
  have "units 100 \<le> 8" by (simp add: units_def)
  then show ?thesis using f m by blast
qed

end
