(* ===== verification/Xv6_Shell.thy ===== *)
theory Xv6_Shell
  imports Xv6_Programs Xv6_Umalloc
begin

text \<open>
  The shell, \<^verbatim>\<open>user/sh.c\<close>: the parser over the buffer of one line, and the commands as programs
  over the system calls.

  A pointer into the buffer is its offset, and the buffer is the list of its bytes before the NUL;
  reading at its end gives 0. The commands are a datatype with the constructors of the source.
  \<open>parseexec\<close> fills in the arguments of a command that is already wrapped in redirections, so the
  model collects both and puts them together at the end. The mutual recursion of the parser takes
  fuel; \<open>parser_fuel\<close>, four for each byte and four more, is enough for every buffer, which is proved.

  What the parser reads does not depend on the memory that the constructors of the commands get, so
  it records the sizes that they ask \<open>malloc\<close> for, in order, up to the point where it returns or
  panics; \<open>parsecmd\<close> makes these calls, of \<open>malloc\<close> of the theory \<^verbatim>\<open>Xv6_Umalloc\<close>, on the heap of the
  process. A constructor does not look at the result, and its \<open>memset\<close> writes through a null pointer
  when there is no memory.
\<close>

unbundle bit_operations_syntax

section \<open>Commands\<close>

datatype cmd =
    EXEC "(nat \<times> nat) list" \<comment> \<open>\<^verbatim>\<open>argv\<close> and \<^verbatim>\<open>eargv\<close>\<close>
  | REDIR cmd nat nat u32 int \<comment> \<open>command, file, its end, mode, descriptor\<close>
  | PIPE cmd cmd
  | LIST cmd cmd
  | BACK cmd

abbreviation (input) MAXARGS :: nat where "MAXARGS \<equiv> 10"

section \<open>Tokens\<close>

definition ch :: "u8 list \<Rightarrow> nat \<Rightarrow> u8" where
  "ch buf s = (if s < length buf then buf ! s else 0)"

definition is_white :: "u8 \<Rightarrow> bool" where
  "is_white c \<longleftrightarrow> c \<in> {32, 9, 13, 10, 11}"

definition is_symbol :: "u8 \<Rightarrow> bool" where
  "is_symbol c \<longleftrightarrow> c \<in> set (bytes ''<|>&;()'')"

function skip_white :: "u8 list \<Rightarrow> nat \<Rightarrow> nat" where
  "skip_white buf s = (if s < length buf \<and> is_white (buf ! s) then skip_white buf (Suc s) else s)"
  by pat_completeness auto
termination
  by (relation "measure (\<lambda>(buf, s). length buf - s)") auto

function skip_word :: "u8 list \<Rightarrow> nat \<Rightarrow> nat" where
  "skip_word buf s =
     (if s < length buf \<and> \<not> is_white (buf ! s) \<and> \<not> is_symbol (buf ! s) then skip_word buf (Suc s) else s)"
  by pat_completeness auto
termination
  by (relation "measure (\<lambda>(buf, s). length buf - s)") auto

declare skip_white.simps [simp del] skip_word.simps [simp del]

text \<open>\<open>gettoken\<close>: the kind of the token, its first byte and its end, and the new position.\<close>

definition gettoken :: "u8 list \<Rightarrow> nat \<Rightarrow> u8 \<times> nat \<times> nat \<times> nat" where
  "gettoken buf ps =
     (let q = skip_white buf ps; c = ch buf q;
        (ret, eq) =
          (if c = 0 then (c, q)
           else if c \<in> set (bytes ''|();&<'') then (c, q + 1)
           else if c = of_char CHR ''>'' then
             (if ch buf (q + 1) = of_char CHR ''>'' then (of_char CHR ''+'', q + 2) else (c, q + 1))
           else (of_char CHR ''a'', skip_word buf q))
      in (ret, q, eq, skip_white buf eq))"

text \<open>\<open>peek\<close>: the new position, and whether one of the characters is there.\<close>

definition peek :: "u8 list \<Rightarrow> nat \<Rightarrow> string \<Rightarrow> nat \<times> bool" where
  "peek buf ps toks = (let s = skip_white buf ps in (s, ch buf s \<noteq> 0 \<and> ch buf s \<in> set (bytes toks)))"

definition after_token :: "u8 list \<Rightarrow> nat \<Rightarrow> nat" where
  "after_token buf s = snd (snd (snd (gettoken buf s)))"

lemma skip_white_ge: "s \<le> skip_white buf s"
  by (induction buf s rule: skip_white.induct) (subst skip_white.simps, auto)

lemma skip_word_ge: "s \<le> skip_word buf s"
  by (induction buf s rule: skip_word.induct) (subst skip_word.simps, auto)

lemma skip_white_stops: "skip_white buf s < length buf \<Longrightarrow> \<not> is_white (buf ! skip_white buf s)"
  by (induction buf s rule: skip_white.induct) (subst (asm) (2) skip_white.simps, subst skip_white.simps, auto split: if_splits)

lemma ch_nonzero: "ch buf s \<noteq> 0 \<Longrightarrow> s < length buf"
  by (simp add: ch_def split: if_splits)

lemma skip_word_advances:
  assumes "q < length buf" "\<not> is_white (buf ! q)" "\<not> is_symbol (buf ! q)"
  shows "q < skip_word buf q"
  using assms skip_word_ge [of "Suc q" buf] by (subst skip_word.simps) simp

lemma symbol_cases: "is_symbol c \<longleftrightarrow> c \<in> set (bytes ''|();&<'') \<or> c = of_char CHR ''>''"
  by (auto simp: is_symbol_def bytes_def)

lemma gettoken_word:
  assumes "gettoken buf ps = (r, q, eq, s)"
  shows "ps \<le> q" "q \<le> eq" "eq \<le> s" "r \<noteq> 0 \<Longrightarrow> q < eq \<and> q < length buf"
proof -
  have q: "q = skip_white buf ps" "s = skip_white buf eq"
    using assms by (auto simp: gettoken_def Let_def split: prod.splits)
  then show "ps \<le> q" "eq \<le> s" using skip_white_ge by auto
  have w: "q < skip_word buf q" if "ch buf q \<noteq> 0" "ch buf q \<notin> set (bytes ''|();&<'')" "ch buf q \<noteq> of_char CHR ''>''"
    using that ch_nonzero [OF that(1)] skip_white_stops [of buf ps] q(1)
    by (intro skip_word_advances) (auto simp: symbol_cases ch_def)
  show "q \<le> eq" "r \<noteq> 0 \<Longrightarrow> q < eq \<and> q < length buf"
    using assms w ch_nonzero [of buf q] q(1) by (auto simp: gettoken_def Let_def split: prod.splits if_splits)
qed

lemma after_token_ge: "ps \<le> after_token buf ps"
  using gettoken_word(1-3) [of buf ps] by (cases "gettoken buf ps") (auto simp: after_token_def intro: order_trans)

lemma peek_advances:
  assumes "peek buf ps toks = (s, True)"
  shows "ps \<le> s" "s < length buf" "s < after_token buf s"
proof -
  have s: "s = skip_white buf ps" "ch buf s \<noteq> 0" using assms by (auto simp: peek_def Let_def)
  show "ps \<le> s" "s < length buf" using s skip_white_ge ch_nonzero by auto
  have k: "skip_white buf s = s" using skip_white_stops [of buf ps] s by (subst skip_white.simps) auto
  obtain r q e t where g: "gettoken buf s = (r, q, e, t)" by (cases "gettoken buf s") auto
  have "r \<noteq> 0" using g s(2) k by (auto simp: gettoken_def Let_def split: prod.splits if_splits)
  then show "s < after_token buf s" using gettoken_word [OF g] g by (simp add: after_token_def)
qed

lemma peek_token_advances: "(s, True) = peek buf ps toks \<Longrightarrow> length buf - after_token buf s < length buf - ps"
  using peek_advances [of buf ps toks s] by simp

section \<open>The parser\<close>

text \<open>The sizes of the structures: of \<open>execcmd\<close>, \<open>redircmd\<close>, \<open>pipecmd\<close> and \<open>listcmd\<close>, \<open>backcmd\<close>.\<close>

abbreviation (input) EXECCMD :: u32 where "EXECCMD \<equiv> 168"
abbreviation (input) REDIRCMD :: u32 where "REDIRCMD \<equiv> 40"
abbreviation (input) PAIRCMD :: u32 where "PAIRCMD \<equiv> 24"
abbreviation (input) BACKCMD :: u32 where "BACKCMD \<equiv> 16"

text \<open>A result and the position after it, or a panic; with the sizes that \<open>malloc\<close> was asked for.\<close>

datatype 'a presult = Parsed 'a nat "u32 list" | Panics string "u32 list" | NoFuel

primrec after_mallocs :: "u32 list \<Rightarrow> 'a presult \<Rightarrow> 'a presult" where
  "after_mallocs ns (Parsed x s ms) = Parsed x s (ns @ ms)"
| "after_mallocs ns (Panics e ms) = Panics e (ns @ ms)"
| "after_mallocs ns NoFuel = NoFuel"

primrec pbind :: "'a presult \<Rightarrow> ('a \<Rightarrow> nat \<Rightarrow> 'b presult) \<Rightarrow> 'b presult" where
  "pbind (Parsed x s ms) f = after_mallocs ms (f x s)"
| "pbind (Panics e ms) f = Panics e ms"
| "pbind NoFuel f = NoFuel"

lemma after_mallocs_Parsed [simp]:
  "after_mallocs ns m = Parsed x s ms \<longleftrightarrow> (\<exists>ms'. m = Parsed x s ms' \<and> ms = ns @ ms')" "after_mallocs ns m = NoFuel \<longleftrightarrow> m = NoFuel"
  by (cases m; auto)+

lemma pbind_Parsed [simp]:
  "pbind m f = Parsed y t ms \<longleftrightarrow> (\<exists>x s ms1 ms2. m = Parsed x s ms1 \<and> f x s = Parsed y t ms2 \<and> ms = ms1 @ ms2)"
  by (cases m) auto

lemma pbind_NoFuel [simp]: "pbind m f = NoFuel \<longleftrightarrow> m = NoFuel \<or> (\<exists>x s ms. m = Parsed x s ms \<and> f x s = NoFuel)"
  by (cases m) auto

lemma redir_advances:
  assumes "(s, True) = peek buf ps toks" "(tok, a, b, s1) = gettoken buf s" "(r, q, e, s2) = gettoken buf s1"
  shows "length buf - s2 < length buf - ps"
proof -
  have "s1 = after_token buf s" "s2 = after_token buf s1"
    by (simp_all add: after_token_def assms(2) [symmetric] assms(3) [symmetric])
  then show ?thesis using peek_advances [OF assms(1) [symmetric]] after_token_ge [of s1 buf] by linarith
qed

type_synonym redir = "nat \<times> nat \<times> u32 \<times> int"

text \<open>The redirections from the position on.\<close>

function parseredirs :: "u8 list \<Rightarrow> nat \<Rightarrow> redir list presult" where
  "parseredirs buf ps =
     (case peek buf ps ''<>'' of (s, here) \<Rightarrow>
        if here then
          (case gettoken buf s of (tok, _, _, s1) \<Rightarrow>
           case gettoken buf s1 of (r, q, eq, s2) \<Rightarrow>
             if r \<noteq> of_char CHR ''a'' then Panics ''missing file for redirection'' []
             else
               (let new = (if tok = of_char CHR ''<'' then [(q, eq, O_RDONLY, 0)]
                     else if tok = of_char CHR ''>'' then [(q, eq, O_WRONLY OR O_CREATE OR O_TRUNC, 1)]
                     else if tok = of_char CHR ''+'' then [(q, eq, O_WRONLY OR O_CREATE, 1)] else []) in
                after_mallocs (map (\<lambda>_. REDIRCMD) new)
                  (pbind (parseredirs buf s2) (\<lambda>rs s3. Parsed (new @ rs) s3 []))))
        else Parsed [] s [])"
  by pat_completeness auto
termination
  by (relation "measure (\<lambda>(buf, s). length buf - s)") (auto intro: redir_advances)

declare parseredirs.simps [simp del]


lemma peek_ge: "peek buf ps toks = (s, here) \<Longrightarrow> ps \<le> s"
  using skip_white_ge [of ps buf] by (auto simp: peek_def Let_def)

lemma parseredirs_ge: "parseredirs buf ps = Parsed rs s ms \<Longrightarrow> ps \<le> s"
proof (induction buf ps arbitrary: rs s ms rule: parseredirs.induct)
  case (1 buf ps)
  obtain s0 here where p: "peek buf ps ''<>'' = (s0, here)" by fastforce
  show ?case
  proof (cases here)
    case False
    then show ?thesis using "1.prems" p peek_ge [OF p] by (simp add: parseredirs.simps [of buf ps])
  next
    case True
    obtain tok a b s1 where g: "gettoken buf s0 = (tok, a, b, s1)" by (cases "gettoken buf s0") auto
    obtain r q e s2 where h: "gettoken buf s1 = (r, q, e, s2)" by (cases "gettoken buf s1") auto
    have r: "\<not> r \<noteq> of_char CHR ''a''" using "1.prems" p g h True by (simp add: parseredirs.simps [of buf ps] split: if_splits)
    obtain rs' ms' where "parseredirs buf s2 = Parsed rs' s ms'"
      using "1.prems" p g h True r by (auto simp: parseredirs.simps [of buf ps] Let_def)
    then have "s2 \<le> s" by (rule "1.IH" [OF p [symmetric] True g [symmetric] refl refl h [symmetric] refl refl r refl])
    moreover have "s1 = after_token buf s0" "s2 = after_token buf s1" using g h by (simp_all add: after_token_def)
    ultimately show ?thesis using peek_ge [OF p] after_token_ge [of s0 buf] after_token_ge [of s1 buf] by linarith
  qed
qed

lemma arg_advances:
  assumes "(s, here) = peek buf ps toks" "(tok, q, e, s1) = gettoken buf s" "tok \<noteq> 0" "parseredirs buf s1 = Parsed rs s2 ms"
  shows "length buf - s2 < length buf - ps"
  using gettoken_word [OF assms(2) [symmetric]] assms(3) peek_ge [OF assms(1) [symmetric]] parseredirs_ge [OF assms(4)] by linarith

text \<open>The loop of \<open>parseexec\<close>: the arguments and redirections so far.\<close>

function parse_args :: "u8 list \<Rightarrow> nat \<Rightarrow> (nat \<times> nat) list \<Rightarrow> redir list \<Rightarrow> ((nat \<times> nat) list \<times> redir list) presult" where
  "parse_args buf ps args rs =
     (case peek buf ps ''|)&;'' of (s, stop) \<Rightarrow>
        if stop then Parsed (args, rs) s []
        else
          (case gettoken buf s of (tok, q, eq, s1) \<Rightarrow>
             if tok = 0 then Parsed (args, rs) s1 []
             else if tok \<noteq> of_char CHR ''a'' then Panics ''syntax'' []
             else if length args + 1 \<ge> MAXARGS then Panics ''too many args'' []
             else
               (case parseredirs buf s1 of
                  Parsed rs' s2 ms \<Rightarrow> after_mallocs ms (parse_args buf s2 (args @ [(q, eq)]) (rs @ rs'))
                | Panics e ms \<Rightarrow> Panics e ms
                | NoFuel \<Rightarrow> NoFuel)))"
  by pat_completeness auto
termination
  by (relation "measure (\<lambda>(buf, s, args, rs). length buf - s)") (auto intro: arg_advances)

declare parse_args.simps [simp del]

definition redirs :: "cmd \<Rightarrow> redir list \<Rightarrow> cmd" where
  "redirs c rs = foldl (\<lambda>c (q, eq, mode, fd). REDIR c q eq mode fd) c rs"

text \<open>The loop of \<open>parseline\<close> over \<^verbatim>\<open>&\<close>.\<close>

function parse_back :: "u8 list \<Rightarrow> cmd \<Rightarrow> nat \<Rightarrow> cmd presult" where
  "parse_back buf c ps =
     (case peek buf ps ''&'' of (s, here) \<Rightarrow>
        if here then after_mallocs [BACKCMD] (parse_back buf (BACK c) (after_token buf s)) else Parsed c s [])"
  by pat_completeness auto
termination
  by (relation "measure (\<lambda>(buf, c, s). length buf - s)") (auto intro: peek_token_advances)

declare parse_back.simps [simp del]

fun parseline :: "nat \<Rightarrow> u8 list \<Rightarrow> nat \<Rightarrow> cmd presult"
  and parsepipe :: "nat \<Rightarrow> u8 list \<Rightarrow> nat \<Rightarrow> cmd presult"
  and parseblock :: "nat \<Rightarrow> u8 list \<Rightarrow> nat \<Rightarrow> cmd presult"
  and parseexec :: "nat \<Rightarrow> u8 list \<Rightarrow> nat \<Rightarrow> cmd presult" where
  "parseline 0 buf ps = NoFuel"
| "parseline (Suc n) buf ps =
     pbind (parsepipe n buf ps) (\<lambda>c s.
     pbind (parse_back buf c s) (\<lambda>c s.
       case peek buf s '';'' of (s, here) \<Rightarrow>
         if here then pbind (parseline n buf (after_token buf s)) (\<lambda>d s. Parsed (LIST c d) s [PAIRCMD])
         else Parsed c s []))"
| "parsepipe 0 buf ps = NoFuel"
| "parsepipe (Suc n) buf ps =
     pbind (parseexec n buf ps) (\<lambda>c s.
       case peek buf s ''|'' of (s, here) \<Rightarrow>
         if here then pbind (parsepipe n buf (after_token buf s)) (\<lambda>d s. Parsed (PIPE c d) s [PAIRCMD])
         else Parsed c s [])"
| "parseblock 0 buf ps = NoFuel"
| "parseblock (Suc n) buf ps =
     (case peek buf ps ''('' of (s, here) \<Rightarrow>
        if \<not> here then Panics ''parseblock'' []
        else
          pbind (parseline n buf (after_token buf s)) (\<lambda>c s.
            case peek buf s '')'' of (s, close) \<Rightarrow>
              if \<not> close then Panics ''syntax - missing )'' []
              else pbind (parseredirs buf (after_token buf s)) (\<lambda>rs s. Parsed (redirs c rs) s [])))"
| "parseexec 0 buf ps = NoFuel"
| "parseexec (Suc n) buf ps =
     (case peek buf ps ''('' of (s, here) \<Rightarrow>
        if here then parseblock n buf s
        else
          after_mallocs [EXECCMD]
            (pbind (parseredirs buf s) (\<lambda>rs s.
             pbind (parse_args buf s [] rs) (\<lambda>(args, rs) s.
               Parsed (redirs (EXEC args) rs) s []))))"

declare parseline.simps [simp del] parsepipe.simps [simp del] parseblock.simps [simp del] parseexec.simps [simp del]

definition parser_fuel :: "u8 list \<Rightarrow> nat" where
  "parser_fuel buf = 4 * length buf + 4"

section \<open>What the parser gives\<close>

text \<open>
  A word of the buffer: bytes that are neither white space nor symbols, up to the end of the buffer
  or a byte that is one. A command of the buffer has words for arguments and file names, fewer than
  \<^verbatim>\<open>MAXARGS\<close> arguments, and redirections of the three forms of the source.
\<close>

definition delimiter :: "u8 \<Rightarrow> bool" where
  "delimiter c \<longleftrightarrow> is_white c \<or> is_symbol c"

definition is_word :: "u8 list \<Rightarrow> nat \<Rightarrow> nat \<Rightarrow> bool" where
  "is_word buf q e \<longleftrightarrow> q < e \<and> e \<le> length buf \<and> (\<forall>i. q \<le> i \<and> i < e \<longrightarrow> \<not> delimiter (buf ! i))
     \<and> (e < length buf \<longrightarrow> delimiter (buf ! e))"

definition redir_ok :: "u8 list \<Rightarrow> redir \<Rightarrow> bool" where
  "redir_ok buf = (\<lambda>(q, e, mode, fd). is_word buf q e \<and>
     (mode, fd) \<in> {(O_RDONLY, 0), (O_WRONLY OR O_CREATE OR O_TRUNC, 1), (O_WRONLY OR O_CREATE, 1)})"

primrec wf_cmd :: "u8 list \<Rightarrow> cmd \<Rightarrow> bool" where
  "wf_cmd buf (EXEC args) \<longleftrightarrow> length args < MAXARGS \<and> (\<forall>(q, e) \<in> set args. is_word buf q e)"
| "wf_cmd buf (REDIR c q e mode fd) \<longleftrightarrow> wf_cmd buf c \<and> redir_ok buf (q, e, mode, fd)"
| "wf_cmd buf (PIPE c d) \<longleftrightarrow> wf_cmd buf c \<and> wf_cmd buf d"
| "wf_cmd buf (LIST c d) \<longleftrightarrow> wf_cmd buf c \<and> wf_cmd buf d"
| "wf_cmd buf (BACK c) \<longleftrightarrow> wf_cmd buf c"

lemma skip_word_is:
  "s \<le> length buf \<Longrightarrow> skip_word buf s \<le> length buf \<and> (\<forall>i. s \<le> i \<and> i < skip_word buf s \<longrightarrow> \<not> delimiter (buf ! i))
     \<and> (skip_word buf s < length buf \<longrightarrow> delimiter (buf ! skip_word buf s))"
proof (induction buf s rule: skip_word.induct)
  case (1 buf s)
  show ?case
  proof (cases "s < length buf \<and> \<not> is_white (buf ! s) \<and> \<not> is_symbol (buf ! s)")
    case True
    then have "\<not> delimiter (buf ! i)" if "s \<le> i" "i < skip_word buf (Suc s)" for i
      using "1.IH" [OF True] that by (cases "i = s") (auto simp: delimiter_def)
    then show ?thesis using "1.IH" [OF True] True by (subst (1 2 3 4) skip_word.simps) simp
  next
    case False
    then have "skip_word buf s = s" by (subst skip_word.simps) (auto simp only: if_False)
    then show ?thesis using False "1.prems" by (auto simp: delimiter_def)
  qed
qed

lemma gettoken_is_word:
  assumes "gettoken buf ps = (of_char CHR ''a'', q, e, s)"
  shows "is_word buf q e"
proof -
  have q: "q = skip_white buf ps" using assms by (auto simp: gettoken_def Let_def split: prod.splits)
  have c: "ch buf q \<noteq> 0" "e = skip_word buf q"
    using assms q by (auto simp: gettoken_def Let_def bytes_def split: prod.splits if_splits)
  have "q < length buf" using c(1) by (rule ch_nonzero)
  then show ?thesis using gettoken_word(4) [OF assms] skip_word_is [of q buf] c(2) by (simp add: is_word_def)
qed

text \<open>The sizes that the constructors of a command ask for.\<close>

primrec cmd_sizes :: "cmd \<Rightarrow> u32 list" where
  "cmd_sizes (EXEC args) = [EXECCMD]"
| "cmd_sizes (REDIR c q e mode fd) = cmd_sizes c @ [REDIRCMD]"
| "cmd_sizes (PIPE c d) = cmd_sizes c @ cmd_sizes d @ [PAIRCMD]"
| "cmd_sizes (LIST c d) = cmd_sizes c @ cmd_sizes d @ [PAIRCMD]"
| "cmd_sizes (BACK c) = cmd_sizes c @ [BACKCMD]"

lemma redirs_sizes: "cmd_sizes (redirs c rs) = cmd_sizes c @ map (\<lambda>_. REDIRCMD) rs"
proof (induction rs arbitrary: c)
  case (Cons r rs)
  obtain q e m fd where r: "r = (q, e, m, fd)" by (cases r) auto
  show ?case using Cons.IH [of "REDIR c q e m fd"] by (simp add: r redirs_def)
qed (simp add: redirs_def)

lemma redirs_wf: "wf_cmd buf (redirs c rs) \<longleftrightarrow> wf_cmd buf c \<and> list_all (redir_ok buf) rs"
proof (induction rs arbitrary: c)
  case (Cons r rs)
  obtain q e m fd where r: "r = (q, e, m, fd)" by (cases r) auto
  show ?case using Cons.IH [of "REDIR c q e m fd"] by (simp add: r redirs_def)
qed (simp add: redirs_def)

text \<open>
  The contract of every function of the parser: it gives an answer, moves on, and asks for memory
  in small pieces only.
\<close>

definition small_sizes :: "u32 list \<Rightarrow> bool" where
  "small_sizes ms \<longleftrightarrow> list_all (\<lambda>n. unat n \<le> 168) ms"

lemma small_sizes_simps [simp]:
  "small_sizes []" "small_sizes (n # ms) \<longleftrightarrow> unat n \<le> 168 \<and> small_sizes ms" "small_sizes (ms @ ns) \<longleftrightarrow> small_sizes ms \<and> small_sizes ns"
  "small_sizes (map (\<lambda>_. REDIRCMD) rs)"
  by (auto simp: small_sizes_def list_all_iff)

definition parses :: "('a \<Rightarrow> u32 list \<Rightarrow> bool) \<Rightarrow> nat \<Rightarrow> 'a presult \<Rightarrow> bool" where
  "parses P ps r \<longleftrightarrow>
     (case r of Parsed x s ms \<Rightarrow> ps \<le> s \<and> small_sizes ms \<and> P x ms | Panics _ ms \<Rightarrow> small_sizes ms | NoFuel \<Rightarrow> False)"

lemma parses_simps [simp]:
  "parses P ps (Parsed x s ms) \<longleftrightarrow> ps \<le> s \<and> small_sizes ms \<and> P x ms" "parses P ps (Panics e ms) \<longleftrightarrow> small_sizes ms"
  "\<not> parses P ps NoFuel"
  "parses P ps (after_mallocs ns m) \<longleftrightarrow> parses (\<lambda>x ms. P x (ns @ ms)) ps m \<and> small_sizes ns"
  by (cases m; auto simp: parses_def)+

lemma parses_pbind:
  assumes "parses P ps m" "\<And>x s ms. ps \<le> s \<Longrightarrow> P x ms \<Longrightarrow> parses (\<lambda>y ms'. Q y (ms @ ms')) ps (f x s)"
  shows "parses Q ps (pbind m f)"
  using assms by (cases m) simp_all

lemma parses_later: "parses P s m \<Longrightarrow> ps \<le> s \<Longrightarrow> parses P ps m"
  by (cases m) simp_all

lemma parses_mono: "parses P s m \<Longrightarrow> (\<And>x ms. P x ms \<Longrightarrow> Q x ms) \<Longrightarrow> parses Q s m"
  by (cases m) simp_all

lemma parses_after: "small_sizes ns \<Longrightarrow> parses (\<lambda>x ms. P x (ns @ ms)) ps m \<Longrightarrow> parses P ps (after_mallocs ns m)"
  by simp

lemma parseredirs_parses: "parses (\<lambda>rs ms. list_all (redir_ok buf) rs \<and> ms = map (\<lambda>_. REDIRCMD) rs) ps (parseredirs buf ps)"
proof (induction buf ps rule: parseredirs.induct)
  case (1 buf ps)
  obtain s0 here where p: "peek buf ps ''<>'' = (s0, here)" by fastforce
  show ?case
  proof (cases here)
    case False
    then show ?thesis using p peek_ge [OF p] by (simp add: parseredirs.simps [of buf ps])
  next
    case True
    obtain tok a b s1 where g: "gettoken buf s0 = (tok, a, b, s1)" by (cases "gettoken buf s0") auto
    obtain r q e s2 where h: "gettoken buf s1 = (r, q, e, s2)" by (cases "gettoken buf s1") auto
    have le: "ps \<le> s2" using peek_ge [OF p] gettoken_word(1-3) [OF g] gettoken_word(1-3) [OF h] by linarith
    define new :: "redir list" where "new = (if tok = of_char CHR ''<'' then [(q, e, O_RDONLY, 0)]
      else if tok = of_char CHR ''>'' then [(q, e, O_WRONLY OR O_CREATE OR O_TRUNC, 1)]
      else if tok = of_char CHR ''+'' then [(q, e, O_WRONLY OR O_CREATE, 1)] else [])"
    have eq: "parseredirs buf ps = (if r \<noteq> of_char CHR ''a'' then Panics ''missing file for redirection'' []
        else after_mallocs (map (\<lambda>_. REDIRCMD) new) (pbind (parseredirs buf s2) (\<lambda>rs s3. Parsed (new @ rs) s3 [])))"
      using p g h True by (simp add: parseredirs.simps [of buf ps] Let_def new_def)
    show ?thesis
    proof (cases "r = of_char CHR ''a''")
      case False
      then show ?thesis by (simp add: eq)
    next
      case r: True
      then have n: "\<not> r \<noteq> of_char CHR ''a''" by simp
      have "is_word buf q e" using h r gettoken_is_word by blast
      then have "list_all (redir_ok buf) new" by (simp add: new_def redir_ok_def)
      moreover have "parses (\<lambda>rs ms. list_all (redir_ok buf) rs \<and> ms = map (\<lambda>_. REDIRCMD) rs) ps (parseredirs buf s2)"
        by (rule parses_later [OF "1.IH" [OF p [symmetric] True g [symmetric] refl refl h [symmetric] refl refl n refl] le])
      ultimately show ?thesis
        using r by (cases "parseredirs buf s2") (simp_all add: eq)
    qed
  qed
qed

lemma parseredirs_ok: "parseredirs buf ps = Parsed rs s ms \<Longrightarrow> list_all (redir_ok buf) rs \<and> ms = map (\<lambda>_. REDIRCMD) rs"
  using parseredirs_parses [of buf ps] by simp

lemma parse_back_parses:
  "wf_cmd buf c \<Longrightarrow> parses (\<lambda>d ms. wf_cmd buf d \<and> cmd_sizes d = cmd_sizes c @ ms) ps (parse_back buf c ps)"
proof (induction buf c ps rule: parse_back.induct)
  case (1 buf c ps)
  obtain s here where p: "peek buf ps ''&'' = (s, here)" by fastforce
  show ?case
  proof (cases here)
    case True
    have "parses (\<lambda>d ms. wf_cmd buf d \<and> cmd_sizes d = cmd_sizes (BACK c) @ ms) ps (parse_back buf (BACK c) (after_token buf s))"
      using "1.IH" [OF p [symmetric] True] "1.prems" peek_ge [OF p] after_token_ge [of s buf] by (auto intro: parses_later)
    then show ?thesis using p True by (simp add: parse_back.simps [of buf c ps])
  next
    case False
    then show ?thesis using "1.prems" p peek_ge [OF p] by (simp add: parse_back.simps [of buf c ps])
  qed
qed

lemma parse_args_parses:
  "length args < MAXARGS \<Longrightarrow> \<forall>(q, e) \<in> set args. is_word buf q e \<Longrightarrow> list_all (redir_ok buf) rs \<Longrightarrow>
   parses (\<lambda>(args, rs') ms. wf_cmd buf (redirs (EXEC args) rs') \<and> map (\<lambda>_. REDIRCMD) rs' = map (\<lambda>_. REDIRCMD) rs @ ms) ps
     (parse_args buf ps args rs)"
proof (induction buf ps args rs rule: parse_args.induct)
  case (1 buf ps args rs)
  obtain s stop where p: "peek buf ps ''|)&;'' = (s, stop)" by fastforce
  obtain tok q e s1 where g: "gettoken buf s = (tok, q, e, s1)" by (cases "gettoken buf s") auto
  note le = peek_ge [OF p] gettoken_word(1-3) [OF g]
  show ?case
  proof (cases "stop \<or> tok = 0 \<or> tok \<noteq> of_char CHR ''a'' \<or> length args + 1 \<ge> MAXARGS")
    case True
    then show ?thesis using "1.prems" p g le by (auto simp: parse_args.simps [of buf ps] redirs_wf)
  next
    case False
    then have n: "\<not> stop" "tok \<noteq> 0" "\<not> tok \<noteq> of_char CHR ''a''" "\<not> length args + 1 \<ge> MAXARGS" by auto
    have w: "is_word buf q e" using g n(3) gettoken_is_word by blast
    show ?thesis
    proof (cases "parseredirs buf s1")
      case (Parsed rs' s2 ms)
      have "parses (\<lambda>(args, rs'') ms. wf_cmd buf (redirs (EXEC args) rs'') \<and> map (\<lambda>_. REDIRCMD) rs'' = map (\<lambda>_. REDIRCMD) (rs @ rs') @ ms) s2
          (parse_args buf s2 (args @ [(q, e)]) (rs @ rs'))"
        using "1.IH" [OF p [symmetric] n(1) g [symmetric] refl refl n(2-4) Parsed] n(4) "1.prems" w parseredirs_ok [OF Parsed]
        by auto
      then have "parses (\<lambda>(args, rs'') ms'. wf_cmd buf (redirs (EXEC args) rs'') \<and> map (\<lambda>_. REDIRCMD) rs'' = map (\<lambda>_. REDIRCMD) rs @ ms @ ms') ps
          (parse_args buf s2 (args @ [(q, e)]) (rs @ rs'))"
        using le parseredirs_ge [OF Parsed] parseredirs_ok [OF Parsed] by (auto intro!: parses_later [of _ s2])
      then show ?thesis using p g n Parsed parseredirs_ok [OF Parsed]
        by (simp add: parse_args.simps [of buf ps] case_prod_unfold)
    next
      case (Panics m ms)
      then show ?thesis using p g n parseredirs_parses [of buf s1] by (simp add: parse_args.simps [of buf ps])
    next
      case NoFuel
      then show ?thesis using parseredirs_parses [of buf s1] by simp
    qed
  qed
qed

lemma parses_peek:
  assumes "ps \<le> s" "\<And>t. ps \<le> t \<Longrightarrow> t < length buf \<Longrightarrow> t < after_token buf t \<Longrightarrow> parses Q ps (f t)" "\<And>t. ps \<le> t \<Longrightarrow> parses Q ps (g t)"
  shows "parses Q ps (case peek buf s toks of (t, here) \<Rightarrow> if here then f t else g t)"
    "parses Q ps (case peek buf s toks of (t, here) \<Rightarrow> if \<not> here then g t else f t)"
proof -
  obtain t here where p: "peek buf s toks = (t, here)" by fastforce
  then have "ps \<le> t" "here \<Longrightarrow> t < length buf \<and> t < after_token buf t"
    using peek_ge [OF p] assms(1) peek_advances(2,3) [of buf s toks t] by auto
  then show "parses Q ps (case peek buf s toks of (t, here) \<Rightarrow> if here then f t else g t)"
    "parses Q ps (case peek buf s toks of (t, here) \<Rightarrow> if \<not> here then g t else f t)"
    using p assms(2,3) by auto
qed

definition cmd_ok :: "u8 list \<Rightarrow> cmd \<Rightarrow> u32 list \<Rightarrow> bool" where
  "cmd_ok buf c ms \<longleftrightarrow> wf_cmd buf c \<and> ms = cmd_sizes c"

lemma parser_parses:
  "4 * (length buf - ps) + 4 \<le> n \<Longrightarrow> parses (cmd_ok buf) ps (parseline n buf ps)"
  "4 * (length buf - ps) + 3 \<le> n \<Longrightarrow> parses (cmd_ok buf) ps (parsepipe n buf ps)"
  "4 * (length buf - ps) + 1 \<le> n \<Longrightarrow> parses (cmd_ok buf) ps (parseblock n buf ps)"
  "4 * (length buf - ps) + 2 \<le> n \<Longrightarrow> parses (cmd_ok buf) ps (parseexec n buf ps)"
proof (induction n arbitrary: ps)
  case (Suc n)
  {
    case 1
    have line: "parses (cmd_ok buf) ps (parseline n buf (after_token buf t))" if "ps \<le> t" "t < length buf" "t < after_token buf t" for t
      using that 1 by (intro parses_later [OF Suc.IH(1)]) auto
    show ?case unfolding parseline.simps
      by (intro parses_pbind [OF Suc.IH(2)] parses_pbind [OF parses_later [OF parse_back_parses]] parses_peek(1) parses_pbind [OF line])
        (use 1 in \<open>auto simp: cmd_ok_def\<close>)
  next
    case 2
    have pipe: "parses (cmd_ok buf) ps (parsepipe n buf (after_token buf t))" if "ps \<le> t" "t < length buf" "t < after_token buf t" for t
      using that 2 by (intro parses_later [OF Suc.IH(2)]) auto
    show ?case unfolding parsepipe.simps
      by (intro parses_pbind [OF Suc.IH(4)] parses_peek(1) parses_pbind [OF pipe]) (use 2 in \<open>auto simp: cmd_ok_def\<close>)
  next
    case 3
    have line: "parses (cmd_ok buf) ps (parseline n buf (after_token buf t))" if "ps \<le> t" "t < length buf" "t < after_token buf t" for t
      using that 3 by (intro parses_later [OF Suc.IH(1)]) auto
    show ?case unfolding parseblock.simps
      by (intro parses_peek(2) parses_pbind [OF line] parses_pbind [OF parses_later [OF parseredirs_parses]])
        (auto simp: redirs_wf redirs_sizes cmd_ok_def)
  next
    case 4
    have block: "parses (cmd_ok buf) ps (parseblock n buf t)" if "ps \<le> t" for t
      using that 4 by (intro parses_later [OF Suc.IH(3)]) auto
    show ?case unfolding parseexec.simps
      by (intro parses_peek(1) block parses_after parses_pbind [OF parses_later [OF parseredirs_parses]]
          parses_pbind [OF parses_later [OF parse_args_parses]])
        (auto simp: redirs_sizes cmd_ok_def)
  }
qed simp_all

section \<open>Strings in the buffer\<close>

text \<open>\<open>nulterminate\<close> writes over the buffer, which ends in its NUL.\<close>

primrec nulterminate :: "cmd \<Rightarrow> u8 list \<Rightarrow> u8 list" where
  "nulterminate (EXEC args) m = foldl (\<lambda>m (q, e). m[e := 0]) m args"
| "nulterminate (REDIR c q e mode fd) m = (nulterminate c m)[e := 0]"
| "nulterminate (PIPE c d) m = nulterminate d (nulterminate c m)"
| "nulterminate (LIST c d) m = nulterminate d (nulterminate c m)"
| "nulterminate (BACK c) m = nulterminate c m"

definition str_at :: "u8 list \<Rightarrow> nat \<Rightarrow> u8 list" where
  "str_at m q = takeWhile (\<lambda>c. c \<noteq> 0) (drop q m)"

section \<open>Running a command\<close>

definition sh_panic :: "'k sysif \<Rightarrow> string \<Rightarrow> ('k, 'a) user" where
  "sh_panic sys s = ubind (fprintf sys 2 ''%s\<newline>'' [VStr (Some (bytes s))]) (\<lambda>_. uexit 1)"

definition fork1 :: "'k sysif \<Rightarrow> ('k, int) user" where
  "fork1 sys = ubind (call (u_fork sys)) (\<lambda>pid. if pid = - 1 then sh_panic sys ''fork'' else uret pid)"

definition sys_do :: "('k \<Rightarrow> int \<times> 'k) \<Rightarrow> ('k, unit) user" where
  "sys_do f = ubind (call f) (\<lambda>_. uret ())"

text \<open>The commands run over the buffer after \<open>nulterminate\<close>; \<open>fork\<close> is seen from the process it returns in.\<close>

primrec runcmd :: "'k sysif \<Rightarrow> u8 list \<Rightarrow> cmd \<Rightarrow> ('k, unit) user" where
  "runcmd sys m (EXEC args) =
     (if args = [] then uexit 1
      else
        (let argv = map (\<lambda>(q, e). str_at m q) args in
         ubind (execv sys (argv ! 0) argv) (\<lambda>_.
         ubind (fprintf sys 2 ''exec %s failed\<newline>'' [VStr (Some (argv ! 0))]) (\<lambda>_. uexit 0))))"
| "runcmd sys m (REDIR c q e mode fd) =
     ubind (call (u_close sys fd)) (\<lambda>_.
     ubind (call (u_open sys (str_at m q) mode)) (\<lambda>r.
       if r < 0 then ubind (fprintf sys 2 ''open %s failed\<newline>'' [VStr (Some (str_at m q))]) (\<lambda>_. uexit 1)
       else ubind (runcmd sys m c) (\<lambda>_. uexit 0)))"
| "runcmd sys m (LIST c d) =
     ubind (fork1 sys) (\<lambda>pid.
     ubind (if pid = 0 then runcmd sys m c else uret ()) (\<lambda>_.
     ubind (call (u_wait sys)) (\<lambda>_.
     ubind (runcmd sys m d) (\<lambda>_. uexit 0))))"
| "runcmd sys m (PIPE c d) =
     ubind (call (u_pipe sys)) (\<lambda>(r, p0, p1).
       if r < 0 then sh_panic sys ''pipe''
       else
         ubind (fork1 sys) (\<lambda>pid.
         ubind (if pid = 0 then
             ublock [sys_do (u_close sys 1), sys_do (u_dup sys p1), sys_do (u_close sys p0), sys_do (u_close sys p1), runcmd sys m c]
           else uret ()) (\<lambda>_.
         ubind (fork1 sys) (\<lambda>pid.
         ubind (if pid = 0 then
             ublock [sys_do (u_close sys 0), sys_do (u_dup sys p0), sys_do (u_close sys p0), sys_do (u_close sys p1), runcmd sys m d]
           else uret ()) (\<lambda>_.
         ubind (ublock [sys_do (u_close sys p0), sys_do (u_close sys p1), sys_do (u_wait sys), sys_do (u_wait sys)]) (\<lambda>_.
           uexit 0))))))"
| "runcmd sys m (BACK c) =
     ubind (fork1 sys) (\<lambda>pid. ubind (if pid = 0 then runcmd sys m c else uret ()) (\<lambda>_. uexit 0))"

text \<open>The start of a constructor: \<^verbatim>\<open>cmd = malloc(sizeof( *cmd)); memset(cmd, 0, sizeof( *cmd));\<close>\<close>

definition new_cmd :: "(int \<Rightarrow> 'k \<Rightarrow> nat option \<times> 'k) \<Rightarrow> nat \<Rightarrow> u32 \<Rightarrow> (uheap \<times> 'k, unit) user" where
  "new_cmd sbrk base n s =
     (case malloc sbrk base n s of
        None \<Rightarrow> Diverges
      | Some (p, s') \<Rightarrow> if p = 0 then Undefined else Returns () s')"

definition parsecmd :: "(int \<Rightarrow> 'k \<Rightarrow> nat option \<times> 'k) \<Rightarrow> nat \<Rightarrow> (uheap \<times> 'k) sysif \<Rightarrow> u8 list \<Rightarrow> (uheap \<times> 'k, cmd \<times> u8 list) user" where
  "parsecmd sbrk base sys buf =
     (case parseline (parser_fuel buf) buf 0 of
        Parsed c s ms \<Rightarrow>
          ubind (ublock (map (new_cmd sbrk base) ms)) (\<lambda>_.
            (let s = fst (peek buf s '''') in
             if s \<noteq> length buf then
               ubind (fprintf sys 2 ''leftovers: %s\<newline>'' [VStr (Some (drop s buf))]) (\<lambda>_. sh_panic sys ''syntax'')
             else uret (c, nulterminate c (buf @ [0]))))
      | Panics e ms \<Rightarrow> ubind (ublock (map (new_cmd sbrk base) ms)) (\<lambda>_. sh_panic sys e)
      | NoFuel \<Rightarrow> (\<lambda>_. Diverges))"

text \<open>\<open>getcmd\<close>: the line that was read, as a string, or nothing at the end of the input.\<close>

definition getcmd :: "'k sysif \<Rightarrow> int \<Rightarrow> ('k, u8 list option) user" where
  "getcmd sys nbuf =
     ubind (call (u_write sys 2 (bytes ''$ ''))) (\<lambda>_.
     ubind (gets_line sys nbuf) (\<lambda>buf.
       let s = takeWhile (\<lambda>c. c \<noteq> 0) buf in uret (if s = [] then None else Some s)))"

definition sh_main :: "(int \<Rightarrow> 'k \<Rightarrow> nat option \<times> 'k) \<Rightarrow> nat \<Rightarrow> (uheap \<times> 'k) sysif \<Rightarrow> (uheap \<times> 'k, int) user" where
  "sh_main sbrk base sys =
     ubind (uloop (\<lambda>_.
         ubind (call (u_open sys (bytes ''console'') O_RDWR)) (\<lambda>fd.
           if fd < 0 then uret (Inr ())
           else if fd \<ge> 3 then ubind (call (u_close sys fd)) (\<lambda>_. uret (Inr ()))
           else uret (Inl ()))) ()) (\<lambda>_.
     ubind (uloop (\<lambda>_.
         ubind (getcmd sys 100) (\<lambda>r.
           case r of
             None \<Rightarrow> uret (Inr ())
           | Some buf \<Rightarrow>
               if take 3 buf = bytes ''cd '' then
                 (let dir = drop 3 (butlast buf) in
                  ubind (call (u_chdir sys dir)) (\<lambda>r.
                  ubind (if r < 0 then fprintf sys 2 ''cannot cd %s\<newline>'' [VStr (Some dir)] else uret ()) (\<lambda>_.
                    uret (Inl ()))))
               else
                 ubind (fork1 sys) (\<lambda>pid.
                 ubind (if pid = 0 then ubind (parsecmd sbrk base sys buf) (\<lambda>(c, m). runcmd sys m c) else uret ()) (\<lambda>_.
                 ubind (call (u_wait sys)) (\<lambda>_. uret (Inl ())))))) ()) (\<lambda>_.
       uexit 0))"

section \<open>The strings a command passes on\<close>

primrec cmd_words :: "cmd \<Rightarrow> (nat \<times> nat) list" where
  "cmd_words (EXEC args) = args"
| "cmd_words (REDIR c q e mode fd) = cmd_words c @ [(q, e)]"
| "cmd_words (PIPE c d) = cmd_words c @ cmd_words d"
| "cmd_words (LIST c d) = cmd_words c @ cmd_words d"
| "cmd_words (BACK c) = cmd_words c"

definition ends :: "(nat \<times> nat) list \<Rightarrow> nat set" where
  "ends ws = snd ` set ws"

lemma ends_simps [simp]: "ends [] = {}" "ends (w # ws) = insert (snd w) (ends ws)" "ends (vs @ ws) = ends vs \<union> ends ws"
  by (simp_all add: ends_def image_Un)

lemma wf_cmd_words: "wf_cmd buf c \<Longrightarrow> (q, e) \<in> set (cmd_words c) \<Longrightarrow> is_word buf q e"
  by (induction c) (auto simp: redir_ok_def)

lemma nulterminate_length [simp]: "length (nulterminate c m) = length m"
proof (induction c arbitrary: m)
  case (EXEC args)
  show ?case by (induction args arbitrary: m) auto
qed auto

lemma nulterminate_nth:
  "i < length m \<Longrightarrow> nulterminate c m ! i = (if i \<in> ends (cmd_words c) then 0 else m ! i)"
proof (induction c arbitrary: m)
  case (EXEC args)
  then show ?case by (induction args arbitrary: m) (auto simp: nth_update_any split: if_splits)
qed (simp_all add: nth_update_any)

lemma word_string:
  assumes c: "wf_cmd buf c" and w: "(q, e) \<in> set (cmd_words c)" and nz: "0 \<notin> set buf"
  shows "str_at (nulterminate c (buf @ [0])) q = take (e - q) (drop q buf)"
proof -
  let ?m = "nulterminate c (buf @ [0])"
  have qe: "q < e" "e \<le> length buf" and word: "\<And>i. q \<le> i \<Longrightarrow> i < e \<Longrightarrow> \<not> delimiter (buf ! i)"
    using wf_cmd_words [OF c w] by (auto simp: is_word_def)
  have out: "i \<notin> ends (cmd_words c)" if i: "q \<le> i" "i < e" for i
  proof
    assume "i \<in> ends (cmd_words c)"
    then obtain p where "(p, i) \<in> set (cmd_words c)" by (auto simp: ends_def)
    then show False using wf_cmd_words [OF c] word [OF i] i qe by (fastforce simp: is_word_def)
  qed
  have same: "?m ! i = buf ! i" "buf ! i \<noteq> 0" if "q \<le> i" "i < e" for i
    using that out [OF that] qe nz by (simp_all add: nulterminate_nth nth_append) (metis nth_mem order_less_le_trans)
  have "e \<in> ends (cmd_words c)" using w by (force simp: ends_def)
  then have "?m ! e = 0" using qe by (simp add: nulterminate_nth)
  then have "str_at ?m q = take (e - q) (drop q ?m)"
    unfolding str_at_def using same qe by (intro takeWhile_eq_take_P_nth) auto
  also have "\<dots> = take (e - q) (drop q buf)"
    using same qe by (intro nth_equalityI) auto
  finally show ?thesis .
qed

text \<open>
  C35: what the shell makes of a line. Whatever command \<open>parsecmd\<close> returns has the form that
  \<open>runcmd\<close> relies on: fewer than \<^verbatim>\<open>MAXARGS\<close> arguments in every command, so the array keeps room for
  its null; every argument and file name a maximal word of the line; the redirections open
  descriptor 0 to read or descriptor 1 to write. And after the parser has overwritten the line with
  NULs, every one of those words read back from the buffer is exactly the word that was typed: no
  NUL of one word falls in another.
\<close>

theorem parsecmd_arguments:
  assumes "0 \<notin> set buf" "parsecmd sbrk base sys buf k = Returns (c, m) k'"
  shows "wf_cmd buf c \<and> (\<forall>(q, e) \<in> set (cmd_words c). is_word buf q e \<and> str_at m q = take (e - q) (drop q buf))"
proof -
  have "parses (cmd_ok buf) 0 (parseline (parser_fuel buf) buf 0)"
    by (rule parser_parses) (simp add: parser_fuel_def)
  then have "wf_cmd buf c" "m = nulterminate c (buf @ [0])"
    using assms(2) by (auto simp: parsecmd_def sh_panic_def ubind_run Let_def cmd_ok_def split: presult.splits if_splits uout.splits)
  then show ?thesis using word_string [of buf c] wf_cmd_words [of buf c] assms(1) by blast
qed

text \<open>Printing a fixed format with one string always returns.\<close>

definition returns :: "('k, unit) user \<Rightarrow> bool" where
  "returns m \<longleftrightarrow> (\<forall>k. \<exists>k'. m k = Returns () k')"

lemma returns_uret [intro!]: "returns (uret ())"
  by (simp add: returns_def)

lemma returns_Returns [simp]: "returns (Returns ())"
  by (simp add: returns_def)

lemma returns_seq [intro!]: "returns m \<Longrightarrow> returns n \<Longrightarrow> returns (ubind m (\<lambda>_. n))"
  unfolding returns_def
proof
  fix k
  assume m: "\<forall>k. \<exists>k'. m k = Returns () k'" and n: "\<forall>k. \<exists>k'. n k = Returns () k'"
  obtain k1 where "m k = Returns () k1" using m by blast
  then show "\<exists>k'. ubind m (\<lambda>_. n) k = Returns () k'" using n by (simp add: ubind_run)
qed

lemma returns_putc [intro!]: "returns (putc sys fd c)"
  by (simp add: returns_def putc_def ubind_run)

lemma returns_puts [intro!]: "returns (ublock (map (putc sys fd) cs))"
  by (induction cs) auto

lemma returns_plain: "of_char CHR ''%'' \<notin> set cs \<Longrightarrow> returns (vprintf sys fd cs ap)"
  by (induction cs) auto

lemma returns_format:
  assumes "of_char CHR ''%'' \<notin> set as" "of_char CHR ''%'' \<notin> set bs"
  shows "returns (vprintf sys fd (as @ of_char CHR ''%'' # of_char CHR ''s'' # bs) [VStr (Some w)])"
  using assms(1)
proof (induction as)
  case Nil
  have "returns (ubind (ublock (map (putc sys fd) w)) (\<lambda>_. vprintf sys fd bs []))"
    using returns_plain [OF assms(2)] by blast
  then show ?case by simp
next
  case (Cons c as)
  then have "returns (ubind (putc sys fd c) (\<lambda>_. vprintf sys fd (as @ of_char CHR ''%'' # of_char CHR ''s'' # bs) [VStr (Some w)]))"
    by (intro returns_seq) auto
  then show ?case using Cons.prems by simp
qed

lemma returns_leftovers: "returns (fprintf sys fd ''leftovers: %s\<newline>'' [VStr (Some w)])"
  using returns_format [of "bytes ''leftovers: ''" "bytes ''\<newline>''" sys fd w] by (simp add: fprintf_def bytes_def)


text \<open>
  The calls of \<open>malloc\<close> of a parse: every one gives a block of its own, or one of them is refused by
  \<^verbatim>\<open>sbrk\<close> and the constructor writes through a null pointer.
\<close>

definition own_blocks :: "ublock set \<Rightarrow> nat list \<Rightarrow> u32 list \<Rightarrow> bool" where
  "own_blocks A ps ms \<longleftrightarrow> length ps = length ms \<and> distinct ps \<and> (\<forall>p \<in> set ps. p \<notin> fst ` A)"

definition new_blocks :: "nat list \<Rightarrow> u32 list \<Rightarrow> ublock set" where
  "new_blocks ps ms = set (zip ps (map units ms))"

lemma arena_apart:
  assumes "arena base lo h hi A" "\<forall>x \<in> A. clear_of (b, n) x" "0 < n"
  shows "b \<notin> fst ` A"
proof
  assume "b \<in> fst ` A"
  then obtain x where x: "x \<in> A" "fst x = b" by blast
  then have "block_in lo hi x" using assms(1) by (auto simp: arena_def ring_ok_def blocks_ok_def split: if_splits)
  then have "0 < snd x" by (simp add: block_in_def)
  moreover have "clear_of (b, n) x" using assms(2) x(1) by blast
  ultimately show False using x(2) assms(3) by (auto simp: clear_of_def before_def)
qed

lemma new_cmds_run:
  assumes "sbrk_ok brk sbrk" "arena base lo h (brk k) A" "small_sizes ms"
  shows "(\<exists>ps h' k'. ublock (map (new_cmd sbrk base) ms) (h, k) = Returns () (h', k') \<and> own_blocks A ps ms \<and>
      arena base lo h' (brk k') (A \<union> new_blocks ps ms) \<and> sbrk_calls sbrk k k') \<or>
    (\<exists>n k'. ublock (map (new_cmd sbrk base) ms) (h, k) = Undefined \<and> sbrk_calls sbrk k k' \<and> 0 < n \<and> fst (sbrk n k') = None)"
  using assms(2,3)
proof (induction ms arbitrary: h k A)
  case Nil
  then show ?case by (auto simp: own_blocks_def new_blocks_def)
next
  case (Cons n ms)
  let ?rest = "ublock (map (new_cmd sbrk base) ms)"
  have "unat n \<le> 2 ^ 31 - 32" using Cons.prems(2) by simp
  from malloc_arena [OF assms(1) Cons.prems(1) this] obtain r h1 k1 where m: "malloc sbrk base n (h, k) = Some (r, h1, k1)"
    and o: "if r = 0 then fst (sbrk (int (HEADER * max 4096 (units n))) k) = None \<and> arena base lo h1 (brk k1) A
      else (\<forall>x \<in> A. clear_of (r - HEADER, units n) x) \<and> arena base lo h1 (brk k1) (insert (r - HEADER, units n) A)" by blast
  show ?case
  proof (cases "r = 0")
    case True
    then have "ublock (map (new_cmd sbrk base) (n # ms)) (h, k) = Undefined" using m by (simp add: new_cmd_def ubind_run)
    moreover have "fst (sbrk (int (HEADER * max 4096 (units n))) k) = None" "0 < int (HEADER * max 4096 (units n))" using o True by simp_all
    ultimately show ?thesis
      by (intro disjI2 exI [of _ "int (HEADER * max 4096 (units n))"] exI [of _ k] conjI sbrk_calls_refl)
  next
    case False
    let ?b = "r - HEADER" and ?A = "insert (r - HEADER, units n) A"
    have a: "arena base lo h1 (brk k1) ?A" and c: "\<forall>x \<in> A. clear_of (?b, units n) x" using o False by simp_all
    have b: "?b \<notin> fst ` A" using arena_apart [OF Cons.prems(1) c units_enough(2)] .
    have calls: "sbrk_calls sbrk k k1" using malloc_calls [OF m] .
    have go: "ublock (map (new_cmd sbrk base) (n # ms)) (h, k) = ?rest (h1, k1)"
      using m False by (simp add: new_cmd_def ubind_run)
    have "small_sizes ms" using Cons.prems(2) by simp
    from Cons.IH [OF a this] show ?thesis
    proof (elim disjE exE conjE)
      fix ps h' k' assume i: "?rest (h1, k1) = Returns () (h', k')" "own_blocks ?A ps ms"
        "arena base lo h' (brk k') (?A \<union> new_blocks ps ms)" "sbrk_calls sbrk k1 k'"
      have "?A \<union> new_blocks ps ms = A \<union> new_blocks (?b # ps) (n # ms)" by (auto simp: new_blocks_def)
      moreover have "own_blocks A (?b # ps) (n # ms)" using i(2) b by (auto simp: own_blocks_def)
      ultimately show ?thesis
        unfolding go using i sbrk_calls_trans [OF calls i(4)] by (intro disjI1 exI [of _ "?b # ps"] exI [of _ h'] exI [of _ k']) simp
    next
      fix n' k' assume "?rest (h1, k1) = Undefined" "sbrk_calls sbrk k1 k'" "0 < n'" "fst (sbrk n' k') = None"
      then show ?thesis unfolding go using sbrk_calls_trans [OF calls] by blast
    qed
  qed
qed

definition idle_sys :: "'k sysif" where
  "idle_sys = \<lparr>u_fork = Pair 0, u_wait = Pair (- 1), u_pipe = Pair (- 1, 0, 0), u_write = (\<lambda>_ _. Pair (- 1)),
     u_read = (\<lambda>_ _. Pair (0, [])), u_close = (\<lambda>_. Pair (- 1)), u_kill = (\<lambda>_. Pair (- 1)),
     u_exec = (\<lambda>_ _. Pair (Some (- 1))), u_open = (\<lambda>_ _. Pair (- 1)), u_mknod = (\<lambda>_ _ _. Pair (- 1)),
     u_unlink = (\<lambda>_. Pair (- 1)), u_fstat = (\<lambda>_. Pair (- 1, \<lparr>us_dev = 0, us_ino = 0, us_type = 0, us_nlink = 0, us_size = 0\<rparr>)),
     u_link = (\<lambda>_ _. Pair (- 1)), u_mkdir = (\<lambda>_. Pair (- 1)), u_chdir = (\<lambda>_. Pair (- 1)), u_dup = (\<lambda>_. Pair (- 1)),
     u_sleep = (\<lambda>_. Pair 0)\<rparr>"

definition example_line :: "u8 list" where
  "example_line = bytes ''(ls>f;wc<f)|cat&''"

lemma example_line_parses:
  "parseline (parser_fuel example_line) example_line 0 =
     Parsed (BACK (PIPE (LIST (REDIR (EXEC [(1, 3)]) 4 5 (O_WRONLY OR O_CREATE OR O_TRUNC) 1) (REDIR (EXEC [(6, 8)]) 9 10 O_RDONLY 0)) (EXEC [(12, 15)]))) 16
       [EXECCMD, REDIRCMD, EXECCMD, REDIRCMD, PAIRCMD, EXECCMD, PAIRCMD, BACKCMD]"
  by code_simp

text \<open>A system with memory enough, and a process that has not called \<open>malloc\<close> yet.\<close>

definition big_sbrk :: "int \<Rightarrow> nat \<Rightarrow> nat option \<times> nat" where
  "big_sbrk n k = (Some k, nat (int k + n))"

definition empty_heap :: uheap where
  "empty_heap = \<lparr>h_ptr = (\<lambda>_. 0), h_size = (\<lambda>_. 0), freep = 0\<rparr>"

lemma big_heap: "sbrk_ok id big_sbrk" "arena 4000 4096 empty_heap (id 4096) {}" "fst (big_sbrk n k) \<noteq> None"
  by (simp_all add: sbrk_ok_def big_sbrk_def arena_def empty_heap_def)

definition example_cmd :: cmd where
  "example_cmd = BACK (PIPE (LIST (REDIR (EXEC [(1, 3)]) 4 5 (O_WRONLY OR O_CREATE OR O_TRUNC) 1) (REDIR (EXEC [(6, 8)]) 9 10 O_RDONLY 0)) (EXEC [(12, 15)]))"

lemma example_returns:
  "\<exists>k. parsecmd big_sbrk 4000 idle_sys example_line (empty_heap, 4096) = Returns (example_cmd, nulterminate example_cmd (example_line @ [0])) k"
proof -
  have "small_sizes [EXECCMD, REDIRCMD, EXECCMD, REDIRCMD, PAIRCMD, EXECCMD, PAIRCMD, BACKCMD]" by simp
  from new_cmds_run [OF big_heap(1,2) this] big_heap(3) obtain k where
    "ublock (map (new_cmd big_sbrk 4000) [EXECCMD, REDIRCMD, EXECCMD, REDIRCMD, PAIRCMD, EXECCMD, PAIRCMD, BACKCMD]) (empty_heap, 4096) = Returns () k"
    by blast
  moreover have l: "fst (peek example_line 16 []) = length example_line" by code_simp
  ultimately have "parsecmd big_sbrk 4000 idle_sys example_line (empty_heap, 4096) = Returns (example_cmd, nulterminate example_cmd (example_line @ [0])) k"
    unfolding parsecmd_def example_line_parses presult.case ubind_run by (simp add: l Let_def example_cmd_def)
  then show ?thesis by blast
qed

theorem parsecmd_arguments_witness:
  "\<exists>c m k. parsecmd big_sbrk 4000 idle_sys example_line (empty_heap, 4096) = Returns (c, m) k \<and> wf_cmd example_line c \<and>
     (6, 8) \<in> set (cmd_words c) \<and> str_at m 6 = bytes ''wc''"
proof -
  obtain k where p: "parsecmd big_sbrk 4000 idle_sys example_line (empty_heap, 4096) =
      Returns (example_cmd, nulterminate example_cmd (example_line @ [0])) k" using example_returns by blast
  have "0 \<notin> set example_line" by (simp add: example_line_def bytes_def)
  note ok = parsecmd_arguments [OF this p]
  have w: "(6, 8) \<in> set (cmd_words example_cmd)" by (simp add: example_cmd_def)
  have "take (8 - 6) (drop 6 example_line) = bytes ''wc''" by (simp add: example_line_def bytes_def)
  then show ?thesis using p ok w by (intro exI conjI) (assumption | fastforce)+
qed

lemma sh_panic_exits: "\<exists>k'. sh_panic sys s k = Exits 1 k'"
proof -
  have "returns (fprintf sys 2 ''%s\<newline>'' [VStr (Some (bytes s))])"
    using returns_format [of "[]" "bytes ''\<newline>''" sys 2 "bytes s"] by (simp add: fprintf_def bytes_def)
  then obtain k' where "fprintf sys 2 ''%s\<newline>'' [VStr (Some (bytes s))] k = Returns () k'" unfolding returns_def by blast
  then show ?thesis by (simp add: sh_panic_def ubind_run)
qed

lemma leftovers_exit: "\<exists>k'. ubind (fprintf sys 2 ''leftovers: %s\<newline>'' [VStr (Some w)]) (\<lambda>_. sh_panic sys ''syntax'') k = Exits 1 k'"
proof -
  obtain k1 where "fprintf sys 2 ''leftovers: %s\<newline>'' [VStr (Some w)] k = Returns () k1"
    using returns_leftovers [of sys 2 w] unfolding returns_def by blast
  then show ?thesis using sh_panic_exits [of sys "''syntax''" k1] by (simp add: ubind_run)
qed

text \<open>
  C36: the parser always answers. On every line \<open>parsecmd\<close> returns a command, or reports an error and
  exits with status 1, or writes through a null pointer, which it does only when \<^verbatim>\<open>sbrk\<close> has refused
  to give more memory. In particular its recursion, through blocks in parentheses, lists and pipes,
  ends on every line, and so do its calls of \<open>malloc\<close>. When it returns, it has made no system call
  but \<^verbatim>\<open>sbrk\<close>, and every structure of the command has got a block of its own, of its size, that
  overlaps neither another of them nor a block the shell had before.
\<close>

theorem parsecmd_answers:
  assumes "sbrk_ok brk sbrk" "arena base lo h (brk k) A"
  shows "(\<exists>c m h' k' ps. parsecmd sbrk base sys buf (h, k) = Returns (c, m) (h', k') \<and> sbrk_calls sbrk k k' \<and>
      own_blocks A ps (cmd_sizes c) \<and> arena base lo h' (brk k') (A \<union> new_blocks ps (cmd_sizes c))) \<or>
    (\<exists>s. parsecmd sbrk base sys buf (h, k) = Exits 1 s) \<or>
    (\<exists>n k'. parsecmd sbrk base sys buf (h, k) = Undefined \<and> sbrk_calls sbrk k k' \<and> 0 < n \<and> fst (sbrk n k') = None)"
proof -
  have p: "parses (cmd_ok buf) 0 (parseline (parser_fuel buf) buf 0)"
    by (rule parser_parses) (simp add: parser_fuel_def)
  show ?thesis
  proof (cases "parseline (parser_fuel buf) buf 0")
    case (Parsed c s ms)
    then have ms: "small_sizes ms" "ms = cmd_sizes c" using p by (auto simp: cmd_ok_def)
    from new_cmds_run [OF assms ms(1)] show ?thesis
    proof (elim disjE exE conjE)
      fix ps h' k' assume a: "ublock (map (new_cmd sbrk base) ms) (h, k) = Returns () (h', k')" "own_blocks A ps ms"
        "arena base lo h' (brk k') (A \<union> new_blocks ps ms)" "sbrk_calls sbrk k k'"
      show ?thesis
      proof (cases "fst (peek buf s '''') = length buf")
        case True
        then have "parsecmd sbrk base sys buf (h, k) = Returns (c, nulterminate c (buf @ [0])) (h', k')"
          using Parsed a(1) by (simp add: parsecmd_def ubind_run Let_def)
        then show ?thesis using a ms(2) by blast
      next
        case False
        then show ?thesis using Parsed a(1) leftovers_exit [of sys "drop (fst (peek buf s '''')) buf" "(h', k')"]
          by (auto simp: parsecmd_def ubind_run [of "ublock _"] Let_def)
      qed
    next
      fix n k' assume "ublock (map (new_cmd sbrk base) ms) (h, k) = Undefined" "sbrk_calls sbrk k k'" "0 < n" "fst (sbrk n k') = None"
      then show ?thesis using Parsed by (intro disjI2 exI [of _ n] exI [of _ k']) (simp add: parsecmd_def ubind_run)
    qed
  next
    case (Panics e ms)
    then have ms: "small_sizes ms" using p by simp
    from new_cmds_run [OF assms ms] show ?thesis
    proof (elim disjE exE conjE)
      fix ps h' k' assume "ublock (map (new_cmd sbrk base) ms) (h, k) = Returns () (h', k')"
      then show ?thesis using Panics sh_panic_exits [of sys e "(h', k')"] by (auto simp: parsecmd_def ubind_run)
    next
      fix n k' assume "ublock (map (new_cmd sbrk base) ms) (h, k) = Undefined" "sbrk_calls sbrk k k'" "0 < n" "fst (sbrk n k') = None"
      then show ?thesis using Panics by (intro disjI2 exI [of _ n] exI [of _ k']) (simp add: parsecmd_def ubind_run)
    qed
  qed (use p in simp)
qed

theorem parsecmd_answers_witness:
  "\<exists>m h' k' ps. parsecmd big_sbrk 4000 idle_sys example_line (empty_heap, 4096) = Returns (example_cmd, m) (h', k') \<and>
     own_blocks {} ps (cmd_sizes example_cmd) \<and> arena 4000 4096 h' k' (new_blocks ps (cmd_sizes example_cmd))"
  using parsecmd_answers [OF big_heap(1,2), of idle_sys example_line] example_returns by auto

end
