(* ===== verification/Spec2Isabelle.thy ===== *)
theory Spec2Isabelle
  imports Xv6_Fair Xv6_Trap Xv6_Image Xv6_Asm Xv6_Shell Xv6_Umalloc
begin

text \<open>
  A verification development for the xv6 operating system for RISC-V: the kernel under
  \<^verbatim>\<open>src/kernel\<close>, the user programs under \<^verbatim>\<open>src/user\<close> and the file system builder
  \<^verbatim>\<open>src/mkfs\<close>. Definitions carry the names of the C functions and types they translate; a name
  that HOL has already gets a prefix (\<open>ufree\<close>, \<open>ustrlen\<close>, \<open>mk_balloc\<close>).

  \<^bold>\<open>How code is modelled.\<close> A kernel function is an element of \<open>('s, 'a) kern\<close>, a function from the
  state to an \<open>outcome\<close> (\<^verbatim>\<open>Xv6_Prelude\<close>): \<open>Ok\<close> with result and state, \<open>Panic\<close>, \<open>Sleeps\<close> when it
  gives up the hart in \<^verbatim>\<open>swtch\<close>, \<open>Spins\<close> when it waits for a spin lock that is held. What a
  process does after it was switched to again is a definition of its own, with the suffix
  \<open>_return\<close>. The state is a record that grows with the layers, each adding the global
  variables of its source files: \<open>kbase\<close> (locks and harts), \<open>kmem_state\<close>, \<open>vm_state\<close>,
  \<open>proc_state\<close>, \<open>cons_state\<close>, \<open>sleep_state\<close>, \<open>bio_state\<close>, \<open>log_state\<close>, \<open>fs_state\<close>,
  \<open>file_state\<close>, \<open>sys_state\<close>, \<open>virtio_state\<close>, \<open>trap_state\<close>. Functions are polymorphic in the rest of
  the record, so a lower layer runs unchanged on the state of a higher one. Machine
  integers are words of their width; physical memory is a function from addresses to bytes, in
  which the free list, the page tables and the pages of processes really lie.

  \<^bold>\<open>The kernel, from the bottom up.\<close>

  \<^descr> \<^verbatim>\<open>Xv6_Prelude\<close>: types, constants (\<^verbatim>\<open>types.h\<close>, \<^verbatim>\<open>param.h\<close>, \<^verbatim>\<open>memlayout.h\<close>, \<^verbatim>\<open>riscv.h\<close>), outcomes and
    combinators, bytes and words, invariants of code (\<open>keeps\<close>) and their rule collections.
  \<^descr> \<^verbatim>\<open>Xv6_Spinlock\<close> (\<^verbatim>\<open>spinlock.c\<close>): locks and interrupt nesting on one hart, where a taken lock
    excludes and its release restores; then the single accesses that \<open>acquire\<close> and \<open>release\<close> are made
    of (\<open>spin_atom\<close>: a hart on its own takes five of them to run each function), in every interleaving
    of any number of harts, where mutual exclusion holds.
  \<^descr> \<^verbatim>\<open>Xv6_String\<close> (\<^verbatim>\<open>string.c\<close>): each loop over memory against what it computes on lists of bytes.
  \<^descr> \<^verbatim>\<open>Xv6_Kalloc\<close> (\<^verbatim>\<open>kalloc.c\<close>): the free list implements a stack of pages; its contract is the locale
    \<open>page_store\<close>, interpreted on \<open>kalloc\<close> and \<open>kfree\<close>.
  \<^descr> \<^verbatim>\<open>Xv6_Vm\<close> (\<^verbatim>\<open>vm.c\<close>): page tables abstracted to partial maps; \<open>mappages\<close> adds exactly its
    range; \<open>copyin\<close> reads what \<open>copyout\<close> wrote; \<open>copyinstr\<close> stops at the NUL.
  \<^descr> \<^verbatim>\<open>Xv6_Sched\<close>, \<^verbatim>\<open>Xv6_Harts\<close>, \<^verbatim>\<open>Xv6_Fair\<close> (\<^verbatim>\<open>proc.c\<close>): the process table and the switch; the
    interleaving of scheduler, \<open>acquire\<close>, \<open>release\<close>, \<open>yield\<close>, \<open>sleep\<close>, \<open>exit\<close>, \<open>wakeup\<close> and \<open>kill\<close> on
    several harts, where a panic is a state of the hart that is shown unreachable, with the invariant
    that \<^verbatim>\<open>p->lock\<close> protects; and that no process waits for more than one round of a hart.
  \<^descr> \<^verbatim>\<open>Xv6_Ring\<close>: the locales \<open>bounded_queue\<close> and \<open>counter_ring\<close> for ring buffers with wrapping
    counters, interpreted on the serial port's buffer and on pipes.
  \<^descr> \<^verbatim>\<open>Xv6_Console\<close> (\<^verbatim>\<open>uart.c\<close>, \<^verbatim>\<open>console.c\<close>, \<^verbatim>\<open>printf.c\<close>): output in order, and \<open>printint\<close> against
    numerals, polling a UART that is assumed only to get idle again (\<open>uart_drains\<close>).
  \<^descr> \<^verbatim>\<open>Xv6_Sleeplock\<close> (\<^verbatim>\<open>sleeplock.c\<close>) and \<^verbatim>\<open>Xv6_Bio\<close> (\<^verbatim>\<open>bio.c\<close>): the hand-over of a sleep lock; the
    buffer cache as a view of the disk, with least-recently-used replacement.
  \<^descr> \<^verbatim>\<open>Xv6_Log\<close> (\<^verbatim>\<open>log.c\<close>): a commit is atomic under a crash at every block write, recovery can be
    repeated, \<open>end_op\<close> is durable, and the reservation of \<open>begin_op\<close> does not prevent the panic of
    \<open>log_write\<close>.
  \<^descr> \<^verbatim>\<open>Xv6_Fs\<close>, \<^verbatim>\<open>Xv6_Content\<close>, \<^verbatim>\<open>Xv6_Bitmap\<close> (\<^verbatim>\<open>fs.c\<close>): the functions of the file system; path lookup against
    the list of path elements; files as concatenations of their blocks, where \<open>readi\<close> reads what
    \<open>writei\<close> wrote; the bitmap as a set of free blocks.
  \<^descr> \<^verbatim>\<open>Xv6_File\<close> (\<^verbatim>\<open>file.c\<close>, \<^verbatim>\<open>pipe.c\<close>): open files, and pipes as bounded queues.
  \<^descr> \<^verbatim>\<open>Xv6_Exec\<close> (\<^verbatim>\<open>exec.c\<close>, \<open>fork\<close>, \<open>exit\<close>), \<^verbatim>\<open>Xv6_Syscall\<close> (\<^verbatim>\<open>syscall.c\<close>, \<^verbatim>\<open>sysfile.c\<close>, \<^verbatim>\<open>sysproc.c\<close>),
    \<^verbatim>\<open>Xv6_Virtio\<close> (\<^verbatim>\<open>virtio_disk.c\<close>), \<^verbatim>\<open>Xv6_Trap\<close> (\<^verbatim>\<open>trap.c\<close>, \<^verbatim>\<open>plic.c\<close>, \<^verbatim>\<open>main.c\<close>, \<^verbatim>\<open>start.c\<close>): every function
    with its error paths, on the state of the layers below. These four hold definitions only.
  \<^descr> \<^verbatim>\<open>Xv6_Asm\<close> (\<^verbatim>\<open>trampoline.S\<close>, \<^verbatim>\<open>swtch.S\<close>, \<^verbatim>\<open>kernelvec.S\<close>, \<^verbatim>\<open>entry.S\<close>): instruction by instruction on the
    registers of a hart; the registers that are saved are those that are restored.

  \<^bold>\<open>Outside the kernel.\<close>

  \<^descr> \<^verbatim>\<open>Xv6_Ulib\<close> (\<^verbatim>\<open>ulib.c\<close>, \<^verbatim>\<open>user/printf.c\<close>) and \<^verbatim>\<open>Xv6_Programs\<close> (\<^verbatim>\<open>cat\<close>, \<^verbatim>\<open>echo\<close>, \<^verbatim>\<open>grep\<close>, \<^verbatim>\<open>init\<close>, \<^verbatim>\<open>kill\<close>, \<^verbatim>\<open>ln\<close>,
    \<^verbatim>\<open>ls\<close>, \<^verbatim>\<open>mkdir\<close>, \<^verbatim>\<open>rm\<close>, \<^verbatim>\<open>wc\<close>, \<^verbatim>\<open>zombie\<close>): programs over the system calls, which are the parameter
    \<open>'k sysif\<close>; the matcher of \<^verbatim>\<open>grep\<close> decides the language of its pattern.
  \<^descr> \<^verbatim>\<open>Xv6_Shell\<close> (\<^verbatim>\<open>sh.c\<close>): the parser ends on every line, its commands are well-formed and their
    arguments are the words of the line; each structure of a command gets a block of its own from
    \<open>malloc\<close>, or the shell faults because \<^verbatim>\<open>sbrk\<close> refused.
  \<^descr> \<^verbatim>\<open>Xv6_Umalloc\<close> (\<^verbatim>\<open>umalloc.c\<close>): \<open>ring_ok\<close> relates the ring of headers to the sorted list of free
    blocks and the set of the program's blocks. \<open>malloc\<close> returns a block that overlaps no other, and
    \<open>free\<close> makes it available again. What is assumed of \<^verbatim>\<open>sbrk\<close> is \<open>sbrk_ok\<close>.
  \<^descr> \<^verbatim>\<open>Xv6_Mkfs\<close>, \<^verbatim>\<open>Xv6_Image\<close> (\<^verbatim>\<open>mkfs.c\<close>): the builder, and that the kernel's own formats read the
    files back from the image it builds.

  \<^bold>\<open>Loops and bounds.\<close> Most loops are recursion on the data or on a measure. A loop that depends on
  other harts, on a device or on the contents of memory may run forever: it is \<open>loop_while\<close> (a
  panic if it never ends, since the hart is lost), \<open>uloop\<close> (\<open>Diverges\<close>), or a
  \<open>partial_function\<close> with \<open>None\<close>; the theorems about them state that they return. Fuel is used where
  the source bounds the loop: the number of list nodes in \<open>bget\<close>, the number of pages in
  \<open>mappages\<close>, depth 3 in \<open>freewalk\<close>, \<open>NUM\<close> + 1 in \<open>free_chain\<close> (\<open>free_desc\<close> panics on the first
  descriptor seen twice), and four for each byte and four more in the shell's parser, which is
  proved enough for every line.

  \<^bold>\<open>Parameters.\<close> The 16550 serial port, the virtio device and the interrupt controller
  are functions from the accesses so far to what a read returns; a disk transfer in the buffer
  cache is its completed effect on one block. The compiled \<open>kerneltrap\<close> in \<^verbatim>\<open>Xv6_Asm\<close>, the linker's
  addresses, and \<^verbatim>\<open>sbrk\<close> and the other system calls in user programs are parameters as well.

  \<^bold>\<open>Not modelled.\<close> The test programs \<^verbatim>\<open>usertests\<close>, \<^verbatim>\<open>grind\<close>, \<^verbatim>\<open>forktest\<close> and \<^verbatim>\<open>stressfs\<close>, which only exercise the
  kernel; \<^verbatim>\<open>ramdisk.c\<close>, which is not part of the build; \<^verbatim>\<open>initcode.S\<close> and the stubs that \<^verbatim>\<open>usys.pl\<close>
  generates, one \<^verbatim>\<open>ecall\<close> each (the bytes of \<^verbatim>\<open>initcode\<close> in \<^verbatim>\<open>proc.c\<close> are); and the seek and write
  failures of the host that runs \<^verbatim>\<open>mkfs\<close>. Interleavings between harts are modelled for spin locks
  and for the scheduler; the other kernel functions run as one step between two points where they
  give up the hart, a granularity that the model takes from their locks and does not prove. In the
  interleavings of the scheduler a process holds at most one lock besides \<^verbatim>\<open>p->lock\<close>, as \<open>sleep\<close> and
  \<open>exit\<close> require when they switch, and the table has its processes from the start: \<open>fork\<close> and \<open>wait\<close>
  are not among the steps. The structures of the shell's commands are a datatype, whose memory is
  accounted for but whose fields are not stored in it.
\<close>

end
